(* ===== verification/Prelude.thy ===== *)
theory Prelude
  imports Main "HOL-Library.Word"
begin

text \<open>
  The prelude of the development: the C machine the two programs run on.

  Bytes and machine integers are words of their C width.  Memory that the code reads through
  casts (packet buffers, struct overlays) is a list of bytes; the model's load and store
  operations check the bounds that C leaves to the programmer and answer a \<open>fault\<close> where the
  C execution is undefined or aborts.  The machine is little-endian (the build uses gcc on
  x86 Linux), so \<open>htons\<close> and \<open>htonl\<close> swap bytes.
\<close>

section \<open>Machine integers and byte order\<close>

unbundle bit_operations_syntax

type_synonym byte = "8 word"
type_synonym u16 = "16 word"
type_synonym u32 = "32 word"
type_synonym u64 = "64 word"

named_theorems byte_simps \<open>normal forms of byte-order conversions, loads and stores\<close>
named_theorems fault_simps \<open>what an operation of the fault monad returns\<close>

definition lo16 :: "u16 \<Rightarrow> byte" where
  "lo16 w = ucast w"

definition hi16 :: "u16 \<Rightarrow> byte" where
  "hi16 w = ucast (drop_bit 8 w)"

definition mk16 :: "byte \<Rightarrow> byte \<Rightarrow> u16" where
  \<comment> \<open>the 16-bit value with the given high and low byte\<close>
  "mk16 h l = push_bit 8 (ucast h) OR ucast l"

definition byte32 :: "nat \<Rightarrow> u32 \<Rightarrow> byte" where
  \<comment> \<open>byte \<open>k\<close> of a 32-bit value, byte 0 the least significant\<close>
  "byte32 k w = ucast (drop_bit (8 * k) w)"

definition mk32 :: "byte \<Rightarrow> byte \<Rightarrow> byte \<Rightarrow> byte \<Rightarrow> u32" where
  \<comment> \<open>the 32-bit value with the given bytes, most significant first\<close>
  "mk32 a b c d =
     push_bit 24 (ucast a) OR push_bit 16 (ucast b) OR push_bit 8 (ucast c) OR ucast d"

text \<open>\<open>htons\<close>/\<open>ntohs\<close> and \<open>htonl\<close>/\<open>ntohl\<close> on a little-endian machine.\<close>

definition htons :: "u16 \<Rightarrow> u16" where
  "htons w = mk16 (lo16 w) (hi16 w)"

definition htonl :: "u32 \<Rightarrow> u32" where
  "htonl w = mk32 (byte32 0 w) (byte32 1 w) (byte32 2 w) (byte32 3 w)"

abbreviation ntohs :: "u16 \<Rightarrow> u16" where "ntohs \<equiv> htons"
abbreviation ntohl :: "u32 \<Rightarrow> u32" where "ntohl \<equiv> htonl"

lemma bit_byte_less: "bit (w :: byte) n \<Longrightarrow> n < 8"
  using bit_imp_le_length [of w n] by simp

lemma byte_bit_high [simp]: "bit (w :: byte) (8 + n) \<longleftrightarrow> False"
  using bit_byte_less [of w "8 + n"] by auto

lemma bit_past_diff: "bit w n \<Longrightarrow> \<not> bit w (k + (n - k)) \<Longrightarrow> n < k"
  by (metis le_add_diff_inverse not_le)

lemma bit_u32_less: "bit (w :: u32) n \<Longrightarrow> n < 32"
  using bit_imp_le_length [of w n] by simp

lemma lo16_mk16 [simp, byte_simps]: "lo16 (mk16 h l) = l"
  unfolding lo16_def mk16_def by (rule bit_word_eqI) (auto simp: bit_simps)

lemma hi16_mk16 [simp, byte_simps]: "hi16 (mk16 h l) = h"
  unfolding hi16_def mk16_def by (rule bit_word_eqI) (auto simp: bit_simps)

lemma mk16_hi_lo [simp, byte_simps]: "mk16 (hi16 w) (lo16 w) = w"
  unfolding hi16_def lo16_def mk16_def
  by (rule bit_word_eqI) (auto simp: bit_simps)

lemma byte32_mk32 [simp, byte_simps]:
  "byte32 0 (mk32 a b c d) = d"
  "byte32 (Suc 0) (mk32 a b c d) = c"
  "byte32 2 (mk32 a b c d) = b"
  "byte32 3 (mk32 a b c d) = a"
  unfolding byte32_def mk32_def
  by (rule bit_word_eqI; auto simp: bit_simps dest: bit_byte_less)+

lemma mk32_byte32 [simp, byte_simps]:
  "mk32 (byte32 3 w) (byte32 2 w) (byte32 (Suc 0) w) (byte32 0 w) = w"
  unfolding byte32_def mk32_def
  by (rule bit_word_eqI) (auto simp: bit_simps dest: bit_u32_less bit_past_diff)

lemma htons_htons [simp, byte_simps]: "htons (htons w) = w"
  by (simp add: htons_def)

lemma htonl_htonl [simp, byte_simps]: "htonl (htonl w) = w"
  by (simp add: htonl_def)

lemma htons_inject [simp]: "htons a = htons b \<longleftrightarrow> a = b"
  by (metis htons_htons)

lemma htonl_inject [simp]: "htonl a = htonl b \<longleftrightarrow> a = b"
  by (metis htonl_htonl)

lemma htons_mk16 [simp, byte_simps]: "htons (mk16 h l) = mk16 l h"
  by (simp add: htons_def)

lemma unat_byte_less [simp]: "unat (a :: byte) < 256"
  by (rule order_less_le_trans [OF unsigned_less]) simp

lemma unat_u16_less [simp]: "unat (a :: u16) < 65536"
  by (rule order_less_le_trans [OF unsigned_less]) simp

lemma unat_u32_less [simp]: "unat (a :: u32) < 4294967296"
  by (rule order_less_le_trans [OF unsigned_less]) simp

lemma unat_ucast_byte:
  "unat (ucast (a :: byte) :: u16) = unat a"
  "unat (ucast (a :: byte) :: u32) = unat a"
  by (simp_all add: unsigned_ucast_eq take_bit_nat_eq_self_iff
      order_less_le_trans [OF unat_byte_less])

lemma unat_ucast_u16: "unat (ucast (a :: u16) :: u32) = unat a"
  by (simp add: unsigned_ucast_eq take_bit_nat_eq_self_iff order_less_le_trans [OF unat_u16_less])

lemma unat_mk16: "unat (mk16 h l) = 256 * unat h + unat l"
proof -
  have d: "push_bit 8 (ucast h :: u16) AND ucast l = 0"
    by (rule bit_word_eqI) (auto simp: bit_simps dest: bit_byte_less)
  have "unat h < 256" "unat l < 256" by simp_all
  then have "unat (push_bit 8 (ucast h :: u16)) = 256 * unat h"
    by (simp add: push_bit_eq_mult unat_word_ariths unat_ucast_byte)
  moreover have "256 * unat h + unat l < 65536"
    using \<open>unat h < 256\<close> \<open>unat l < 256\<close> by linarith
  ultimately show ?thesis
    unfolding mk16_def
    by (simp add: disjunctive_add_eq_or [OF d, symmetric] unat_ucast_byte unat_word_ariths)
qed

section \<open>Undefined executions as values\<close>

text \<open>
  What C leaves undefined, or turns into an abort, is a \<open>fault\<close>: a read or write outside the
  object, a dereference of a null pointer, a use of freed or uninitialised memory, a failed \<open>assert\<close>.  A
  computation that may fault returns \<open>Inl\<close> the fault or \<open>Inr\<close> its value; \<open>rbind\<close> is C's
  sequencing: the first fault ends the execution.
\<close>

datatype fault = OutOfBounds | NullDeref | UseAfterFree | AssertFailed | Uninitialised

type_synonym 'a res = "fault + 'a"

definition rbind :: "'a res \<Rightarrow> ('a \<Rightarrow> 'b res) \<Rightarrow> 'b res" where
  "rbind m f = (case m of Inl e \<Rightarrow> Inl e | Inr x \<Rightarrow> f x)"

lemma rbind_simps [simp, fault_simps]:
  "rbind (Inl e) f = Inl e"
  "rbind (Inr x) f = f x"
  by (simp_all add: rbind_def)

lemma rbind_eq_Inr [fault_simps]:
  "rbind m f = Inr y \<longleftrightarrow> (\<exists>x. m = Inr x \<and> f x = Inr y)"
  by (cases m) simp_all

lemma rbind_InrE [elim]:
  assumes "rbind m f = Inr y"
  obtains x where "m = Inr x" "f x = Inr y"
  using assms by (cases m) simp_all

lemma rbind_cong [fundef_cong]:
  "m = m' \<Longrightarrow> (\<And>x. m' = Inr x \<Longrightarrow> f x = f' x) \<Longrightarrow> rbind m f = rbind m' f'"
  by (cases m') simp_all

lemma rbind_assoc: "rbind (rbind m f) g = rbind m (\<lambda>x. rbind (f x) g)"
  by (cases m) simp_all

definition deref :: "'a option \<Rightarrow> 'a res" where
  \<comment> \<open>the target of a pointer that may be null\<close>
  "deref p = (case p of None \<Rightarrow> Inl NullDeref | Some x \<Rightarrow> Inr x)"

lemma deref_simps [simp, fault_simps]:
  "deref None = Inl NullDeref"
  "deref (Some x) = Inr x"
  by (simp_all add: deref_def)

lemma deref_eq_Inr [fault_simps]: "deref p = Inr x \<longleftrightarrow> p = Some x"
  by (cases p) simp_all

section \<open>Byte buffers\<close>

text \<open>
  The total accessors \<open>get8\<close>, \<open>get16\<close>, \<open>get32\<close> and \<open>put\<close> say what a load or a store means inside
  the buffer; \<open>rd\<close>, \<open>ld8\<close>, \<open>ld16\<close>, \<open>ld32\<close>, \<open>wr\<close>, \<open>st8\<close>, \<open>st16\<close> and \<open>st32\<close> are the C accesses, which
  fault outside it.  A 16- or 32-bit access uses the machine's little-endian order.
\<close>

definition get8 :: "byte list \<Rightarrow> nat \<Rightarrow> byte" where
  "get8 p i = p ! i"

definition get16 :: "byte list \<Rightarrow> nat \<Rightarrow> u16" where
  "get16 p i = mk16 (p ! (i + 1)) (p ! i)"

definition get32 :: "byte list \<Rightarrow> nat \<Rightarrow> u32" where
  "get32 p i = mk32 (p ! (i + 3)) (p ! (i + 2)) (p ! (i + 1)) (p ! i)"

definition slice :: "byte list \<Rightarrow> nat \<Rightarrow> nat \<Rightarrow> byte list" where
  "slice p i n = take n (drop i p)"

definition put :: "byte list \<Rightarrow> nat \<Rightarrow> byte list \<Rightarrow> byte list" where
  \<comment> \<open>the buffer with the bytes stored at offset \<open>i\<close>\<close>
  "put p i bs = map (\<lambda>k. if i \<le> k \<and> k < i + length bs then bs ! (k - i) else p ! k) [0..<length p]"

definition bytes16 :: "u16 \<Rightarrow> byte list" where
  "bytes16 w = [lo16 w, hi16 w]"

definition bytes32 :: "u32 \<Rightarrow> byte list" where
  "bytes32 w = [byte32 0 w, byte32 1 w, byte32 2 w, byte32 3 w]"

definition rd :: "byte list \<Rightarrow> nat \<Rightarrow> nat \<Rightarrow> byte list res" where
  "rd p i n = (if i + n \<le> length p then Inr (slice p i n) else Inl OutOfBounds)"

definition ld8 :: "byte list \<Rightarrow> nat \<Rightarrow> byte res" where
  "ld8 p i = (if i < length p then Inr (get8 p i) else Inl OutOfBounds)"

definition ld16 :: "byte list \<Rightarrow> nat \<Rightarrow> u16 res" where
  "ld16 p i = (if i + 2 \<le> length p then Inr (get16 p i) else Inl OutOfBounds)"

definition ld32 :: "byte list \<Rightarrow> nat \<Rightarrow> u32 res" where
  "ld32 p i = (if i + 4 \<le> length p then Inr (get32 p i) else Inl OutOfBounds)"

definition wr :: "byte list \<Rightarrow> nat \<Rightarrow> byte list \<Rightarrow> byte list res" where
  "wr p i bs = (if i + length bs \<le> length p then Inr (put p i bs) else Inl OutOfBounds)"

definition st8 :: "byte list \<Rightarrow> nat \<Rightarrow> byte \<Rightarrow> byte list res" where
  "st8 p i b = wr p i [b]"

definition st16 :: "byte list \<Rightarrow> nat \<Rightarrow> u16 \<Rightarrow> byte list res" where
  "st16 p i w = wr p i (bytes16 w)"

definition st32 :: "byte list \<Rightarrow> nat \<Rightarrow> u32 \<Rightarrow> byte list res" where
  "st32 p i w = wr p i (bytes32 w)"

lemma length_bytes [simp]: "length (bytes16 w) = 2" "length (bytes32 x) = 4"
  by (simp_all add: bytes16_def bytes32_def)

lemma length_slice [simp]: "i + n \<le> length p \<Longrightarrow> length (slice p i n) = n"
  by (simp add: slice_def)

lemma length_put [simp]: "length (put p i bs) = length p"
  by (simp add: put_def)

lemma nth_put:
  "k < length p \<Longrightarrow> put p i bs ! k = (if i \<le> k \<and> k < i + length bs then bs ! (k - i) else p ! k)"
  by (simp add: put_def)

lemma put_append: "i + length bs \<le> length p \<Longrightarrow> put p i bs = take i p @ bs @ drop (i + length bs) p"
  by (rule nth_equalityI) (auto simp: nth_put nth_append min_def not_le not_less)

lemma length_slice_le: "length (slice p i n) = min n (length p - i)"
  by (simp add: slice_def min.commute)

lemma nth_slice_le: "k < n \<Longrightarrow> k < length p - i \<Longrightarrow> slice p i n ! k = p ! (i + k)"
  by (simp add: slice_def)

lemma nth_slice [simp]: "k < n \<Longrightarrow> i + n \<le> length p \<Longrightarrow> slice p i n ! k = p ! (i + k)"
  by (simp add: slice_def)

lemma slice_slice: "j + m \<le> n \<Longrightarrow> i + n \<le> length p \<Longrightarrow> slice (slice p i n) j m = slice p (i + j) m"
  by (rule nth_equalityI) (auto simp: add.assoc)

lemma slice_put_inside:
  "i + length bs \<le> length p \<Longrightarrow> j \<le> i \<Longrightarrow> i + length bs \<le> j + n \<Longrightarrow> j + n \<le> length p \<Longrightarrow>
    slice (put p i bs) j n = put (slice p j n) (i - j) bs"
  by (rule nth_equalityI) (auto simp: nth_put add.commute)

lemma slice_put_same:
  "i + length bs \<le> length p \<Longrightarrow> n = length bs \<Longrightarrow> slice (put p i bs) i n = bs"
  by (simp add: slice_def put_append)

lemma slice_put_before: "j + n \<le> i \<Longrightarrow> slice (put p i bs) j n = slice p j n"
  by (rule nth_equalityI) (auto simp: nth_put length_slice_le nth_slice_le)

lemma put_put_same: "length as = length bs \<Longrightarrow> put (put p i as) i bs = put p i bs"
  by (rule nth_equalityI) (auto simp: nth_put)

lemma slice_put_after: "i + length bs \<le> j \<Longrightarrow> slice (put p i bs) j n = slice p j n"
  by (rule nth_equalityI) (auto simp: nth_put length_slice_le nth_slice_le)

lemma get_put_same:
  "i + 1 \<le> length p \<Longrightarrow> get8 (put p i [b]) i = b"
  "i + 2 \<le> length p \<Longrightarrow> get16 (put p i (bytes16 w)) i = w"
  "i + 4 \<le> length p \<Longrightarrow> get32 (put p i (bytes32 x)) i = x"
  by (simp_all add: get8_def get16_def get32_def nth_put bytes16_def bytes32_def
      numeral_2_eq_2 numeral_3_eq_3 mk32_byte32 [unfolded numeral_2_eq_2 numeral_3_eq_3])

lemma get_put_other:
  "j < length p \<Longrightarrow> j + 1 \<le> i \<or> i + length bs \<le> j \<Longrightarrow> get8 (put p i bs) j = get8 p j"
  "j + 1 < length p \<Longrightarrow> j + 2 \<le> i \<or> i + length bs \<le> j \<Longrightarrow> get16 (put p i bs) j = get16 p j"
  "j + 3 < length p \<Longrightarrow> j + 4 \<le> i \<or> i + length bs \<le> j \<Longrightarrow> get32 (put p i bs) j = get32 p j"
  by (auto simp: get8_def get16_def get32_def nth_put)

lemma get_bytes [simp]: "get8 [b] 0 = b" "get16 (bytes16 w) 0 = w" "get32 (bytes32 x) 0 = x"
  by (simp_all add: get8_def get16_def get32_def bytes16_def bytes32_def numeral_2_eq_2 numeral_3_eq_3
      mk32_byte32 [unfolded numeral_2_eq_2 numeral_3_eq_3])

lemma bytes_inject [simp]: "bytes16 a = bytes16 b \<longleftrightarrow> a = b" "bytes32 x = bytes32 y \<longleftrightarrow> x = y"
  by (metis get_bytes(2)) (metis get_bytes(3))

lemmas mem_access = rd_def ld8_def ld16_def ld32_def wr_def st8_def st16_def st32_def

section \<open>Lists\<close>

lemma find_append:
  "find P (xs @ ys) = (case find P xs of None \<Rightarrow> find P ys | Some x \<Rightarrow> Some x)"
  by (induction xs) auto

end
