(* ===== verification/Linked_List.thy ===== *)
theory Linked_List
  imports Prelude
begin

text \<open>
  The doubly linked list of \<open>tcp/ctcp_linked_list.c\<close>, at the level of its pointers.  A node is a
  cell of a store; \<open>calloc\<close> takes the next address and \<open>free\<close> empties the cell, so a stale
  pointer faults.  \<open>dll st l as\<close> says that the list structure \<open>l\<close> links the nodes at the addresses
  \<open>as\<close>, in that order, in both directions; the lemmas show that every operation keeps it and acts
  on \<open>as\<close> and on the stored objects as the corresponding operation on HOL lists.
\<close>

section \<open>The code\<close>

type_synonym addr = nat

record 'o ll_node =
  nd_next :: "addr option"
  nd_prev :: "addr option"
  nd_object :: 'o

record linked_list =
  ll_head :: "addr option"
  ll_tail :: "addr option"
  ll_len :: u32

record 'o store =
  cells :: "addr \<rightharpoonup> 'o ll_node"
  brk :: addr

definition node_at :: "'o store \<Rightarrow> addr option \<Rightarrow> 'o ll_node res" where
  \<comment> \<open>the node behind a pointer\<close>
  "node_at st p = (case p of None \<Rightarrow> Inl NullDeref
     | Some a \<Rightarrow> (case cells st a of
           None \<Rightarrow> Inl UseAfterFree
         | Some nd \<Rightarrow> if a < brk st then Inr nd else Inl UseAfterFree))"

definition set_node :: "'o store \<Rightarrow> addr option \<Rightarrow> ('o ll_node \<Rightarrow> 'o ll_node) \<Rightarrow> 'o store res" where
  \<comment> \<open>a write to a field of the node behind a pointer\<close>
  "set_node st p f = rbind (node_at st p) (\<lambda>nd.
     Inr (st\<lparr>cells := (cells st)(the p \<mapsto> f nd)\<rparr>))"

definition free_node :: "'o store \<Rightarrow> addr option \<Rightarrow> 'o store res" where
  "free_node st p = rbind (node_at st p) (\<lambda>_. Inr (st\<lparr>cells := (cells st)(the p := None)\<rparr>))"

definition ll_create :: linked_list where
  "ll_create = \<lparr>ll_head = None, ll_tail = None, ll_len = 0\<rparr>"

definition ll_create_node :: "'o store \<Rightarrow> 'o \<Rightarrow> addr \<times> 'o store" where
  "ll_create_node st ob =
     (brk st, st\<lparr>cells := (cells st)(brk st \<mapsto>
                   \<lparr>nd_next = None, nd_prev = None, nd_object = ob\<rparr>),
                 brk := Suc (brk st)\<rparr>)"

definition ll_add ::
  "'o store \<Rightarrow> linked_list option \<Rightarrow> 'o option \<Rightarrow> ('o store \<times> linked_list option \<times> addr option) res" where
  "ll_add st list object =
     (case (list, object) of
        (Some l, Some ob) \<Rightarrow>
          let (node, st1) = ll_create_node st ob in
          if ll_head l = None
          then Inr (st1, Some (l\<lparr>ll_head := Some node, ll_tail := Some node,
                                 ll_len := ll_len l + 1\<rparr>), Some node)
          else rbind (set_node st1 (ll_tail l) (\<lambda>nd. nd\<lparr>nd_next := Some node\<rparr>)) (\<lambda>st2.
               rbind (set_node st2 (Some node) (\<lambda>nd. nd\<lparr>nd_prev := ll_tail l\<rparr>)) (\<lambda>st3.
               Inr (st3, Some (l\<lparr>ll_tail := Some node, ll_len := ll_len l + 1\<rparr>), Some node)))
      | _ \<Rightarrow> Inr (st, list, None))"

definition ll_add_front ::
  "'o store \<Rightarrow> linked_list option \<Rightarrow> 'o option \<Rightarrow> ('o store \<times> linked_list option \<times> addr option) res" where
  "ll_add_front st list object =
     (case (list, object) of
        (Some l, Some ob) \<Rightarrow>
          let (node, st1) = ll_create_node st ob in
          if ll_head l = None
          then Inr (st1, Some (l\<lparr>ll_head := Some node, ll_tail := Some node,
                                 ll_len := ll_len l + 1\<rparr>), Some node)
          else rbind (set_node st1 (Some node) (\<lambda>nd. nd\<lparr>nd_next := ll_head l\<rparr>)) (\<lambda>st2.
               rbind (set_node st2 (ll_head l) (\<lambda>nd. nd\<lparr>nd_prev := Some node\<rparr>)) (\<lambda>st3.
               Inr (st3, Some (l\<lparr>ll_head := Some node, ll_len := ll_len l + 1\<rparr>), Some node)))
      | _ \<Rightarrow> Inr (st, list, None))"

definition ll_add_after ::
  "'o store \<Rightarrow> linked_list option \<Rightarrow> addr option \<Rightarrow> 'o option \<Rightarrow>
     ('o store \<times> linked_list option \<times> addr option) res" where
  "ll_add_after st list node object =
     (case (list, node, object) of
        (Some l, Some _, Some ob) \<Rightarrow>
          let (new_node, st1) = ll_create_node st ob in
          rbind (set_node st1 (Some new_node) (\<lambda>nd. nd\<lparr>nd_prev := node\<rparr>)) (\<lambda>st2.
          rbind (node_at st2 node) (\<lambda>n.
          rbind (set_node st2 (Some new_node) (\<lambda>nd. nd\<lparr>nd_next := nd_next n\<rparr>)) (\<lambda>st3.
          rbind (if nd_next n \<noteq> None
                 then set_node st3 (nd_next n) (\<lambda>nd. nd\<lparr>nd_prev := Some new_node\<rparr>)
                 else Inr st3) (\<lambda>st4.
          rbind (set_node st4 node (\<lambda>nd. nd\<lparr>nd_next := Some new_node\<rparr>)) (\<lambda>st5.
          Inr (st5, Some (l\<lparr>ll_tail := (if node = ll_tail l then Some new_node else ll_tail l),
                            ll_len := ll_len l + 1\<rparr>), Some new_node))))))
      | _ \<Rightarrow> Inr (st, list, None))"

definition ll_remove ::
  "'o store \<Rightarrow> linked_list option \<Rightarrow> addr option \<Rightarrow> ('o store \<times> linked_list option \<times> 'o option) res" where
  "ll_remove st list node =
     (case (list, node) of
        (Some l, Some _) \<Rightarrow>
          rbind (node_at st node) (\<lambda>n.
          rbind (if node = ll_head l then Inr (st, l\<lparr>ll_head := nd_next n\<rparr>)
                 else rbind (set_node st (nd_prev n) (\<lambda>nd. nd\<lparr>nd_next := nd_next n\<rparr>)) (\<lambda>st1.
                      Inr (st1, l))) (\<lambda>(st1, l1).
          rbind (node_at st1 node) (\<lambda>n1.
          rbind (if node = ll_tail l1 then Inr (st1, l1\<lparr>ll_tail := nd_prev n1\<rparr>)
                 else rbind (set_node st1 (nd_next n1) (\<lambda>nd. nd\<lparr>nd_prev := nd_prev n1\<rparr>)) (\<lambda>st2.
                      Inr (st2, l1))) (\<lambda>(st2, l2).
          rbind (free_node st2 node) (\<lambda>st3.
          Inr (st3, Some (l2\<lparr>ll_len := ll_len l2 - 1\<rparr>), Some (nd_object n)))))))
      | _ \<Rightarrow> Inr (st, list, None))"

text \<open>
  The search follows \<open>next\<close> pointers and need not end on a cyclic structure, so it is an option:
  \<open>None\<close> is an endless loop.
\<close>

partial_function (option) find_from :: "'o store \<Rightarrow> addr option \<Rightarrow> 'o \<Rightarrow> addr option res option" where
  "find_from st cur ob =
     (if cur = None then Some (Inr None)
      else case node_at st cur of
             Inl e \<Rightarrow> Some (Inl e)
           | Inr nd \<Rightarrow> if nd_object nd = ob then Some (Inr cur)
                       else find_from st (nd_next nd) ob)"

definition ll_find :: "'o store \<Rightarrow> linked_list option \<Rightarrow> 'o option \<Rightarrow> addr option res option" where
  "ll_find st list object =
     (case (list, object) of
        (Some l, Some ob) \<Rightarrow> find_from st (ll_head l) ob
      | _ \<Rightarrow> Some (Inr None))"

definition ll_front :: "linked_list option \<Rightarrow> addr option res" where
  "ll_front list = rbind (deref list) (\<lambda>l. Inr (ll_head l))"

definition ll_back :: "linked_list option \<Rightarrow> addr option res" where
  "ll_back list = rbind (deref list) (\<lambda>l. Inr (ll_tail l))"

definition ll_length :: "linked_list option \<Rightarrow> u32 res" where
  "ll_length list = rbind (deref list) (\<lambda>l. Inr (ll_len l))"

text \<open>Each turn of the destroying loop frees an allocated cell, so it ends.\<close>

lemma node_at_Some: "node_at st (Some a) = Inr nd \<Longrightarrow> cells st a = Some nd \<and> a < brk st"
  by (auto simp: node_at_def split: option.splits if_splits)

lemma free_node_decreases:
  assumes "node_at st (Some a) = Inr nd" "free_node st (Some a) = Inr st'"
  shows "card ({..<brk st'} \<inter> dom (cells st')) < card ({..<brk st} \<inter> dom (cells st))"
proof -
  from assms(2) have st': "st' = st\<lparr>cells := (cells st)(a := None)\<rparr>"
    by (auto simp: free_node_def)
  have "a \<in> {..<brk st} \<inter> dom (cells st)" using node_at_Some [OF assms(1)] by auto
  moreover have "{..<brk st'} \<inter> dom (cells st') = ({..<brk st} \<inter> dom (cells st)) - {a}"
    by (auto simp: st')
  ultimately show ?thesis by (simp only:) (rule card_Diff1_less, auto)
qed

function destroy_from :: "'o store \<Rightarrow> addr option \<Rightarrow> 'o store res" where
  "destroy_from st None = Inr st"
| "destroy_from st (Some a) =
     (case node_at st (Some a) of
        Inl e \<Rightarrow> Inl e
      | Inr nd \<Rightarrow> (case free_node st (Some a) of
            Inl e \<Rightarrow> Inl e
          | Inr st' \<Rightarrow> destroy_from st' (nd_next nd)))"
  by pat_completeness auto
termination
  by (relation "measure (\<lambda>(st, _). card ({..<brk st} \<inter> dom (cells st)))")
    (auto dest: free_node_decreases)

definition ll_destroy :: "'o store \<Rightarrow> linked_list option \<Rightarrow> 'o store res" where
  "ll_destroy st list = (case list of None \<Rightarrow> Inr st | Some l \<Rightarrow> destroy_from st (ll_head l))"

section \<open>The abstraction to lists\<close>

definition first_of :: "addr list \<Rightarrow> addr option \<Rightarrow> addr option" where
  "first_of as q = (case as of [] \<Rightarrow> q | a # _ \<Rightarrow> Some a)"

definition last_of :: "addr option \<Rightarrow> addr list \<Rightarrow> addr option" where
  "last_of p as = (if as = [] then p else Some (last as))"

text \<open>\<open>dseg h p as q\<close>: the nodes \<open>as\<close> are linked both ways, entered from \<open>p\<close> and left to \<open>q\<close>.\<close>

fun dseg :: "(addr \<rightharpoonup> 'o ll_node) \<Rightarrow> addr option \<Rightarrow> addr list \<Rightarrow> addr option \<Rightarrow> bool" where
  "dseg h p [] q \<longleftrightarrow> True"
| "dseg h p (a # as) q \<longleftrightarrow>
     (\<exists>nd. h a = Some nd \<and> nd_prev nd = p \<and> nd_next nd = first_of as q) \<and> dseg h (Some a) as q"

definition dll :: "'o store \<Rightarrow> linked_list \<Rightarrow> addr list \<Rightarrow> bool" where
  "dll st l as \<longleftrightarrow> distinct as \<and> (\<forall>a \<in> set as. a < brk st) \<and> dseg (cells st) None as None \<and>
     ll_head l = first_of as None \<and> ll_tail l = last_of None as \<and> ll_len l = of_nat (length as)"

definition contents :: "'o store \<Rightarrow> addr list \<Rightarrow> 'o list" where
  "contents st as = map (\<lambda>a. nd_object (the (cells st a))) as"

lemma first_of_simps [simp]:
  "first_of [] q = q" "first_of (a # as) q = Some a"
  "first_of (xs @ ys) q = first_of xs (first_of ys q)"
  by (simp_all add: first_of_def split: list.split)

lemma last_of_simps [simp]:
  "last_of p [] = p" "last_of p (a # as) = last_of (Some a) as"
  "last_of p (xs @ ys) = last_of (last_of p xs) ys"
  by (auto simp: last_of_def)

lemma first_of_None [simp]: "first_of as None = None \<longleftrightarrow> as = []"
  by (cases as) simp_all

lemma last_of_None [simp]: "last_of None as = None \<longleftrightarrow> as = []"
  by (simp add: last_of_def)

lemma first_of_Some [simp]: "\<exists>y. first_of as (Some x) = Some y"
  by (cases as) simp_all

lemma last_of_Some [simp]: "\<exists>y. last_of (Some x) as = Some y" "last_of (Some x) as \<noteq> None"
  by (simp_all add: last_of_def)

lemma last_of_other [simp]:
  "a \<noteq> x \<Longrightarrow> a \<notin> set as \<Longrightarrow> last_of (Some x) as \<noteq> Some a"
  "a \<noteq> x \<Longrightarrow> a \<notin> set as \<Longrightarrow> Some a \<noteq> last_of (Some x) as"
  "a \<notin> set as \<Longrightarrow> last_of None as \<noteq> Some a"
  "a \<notin> set as \<Longrightarrow> Some a \<noteq> last_of None as"
  by (auto simp: last_of_def)

lemma first_of_other [simp]:
  "a \<noteq> x \<Longrightarrow> a \<notin> set as \<Longrightarrow> first_of as (Some x) \<noteq> Some a"
  "a \<noteq> x \<Longrightarrow> a \<notin> set as \<Longrightarrow> Some a \<noteq> first_of as (Some x)"
  by (cases as; auto)+

lemma dseg_append [simp]:
  "dseg h p (xs @ ys) q \<longleftrightarrow> dseg h p xs (first_of ys q) \<and> dseg h (last_of p xs) ys q"
  by (induction xs arbitrary: p) auto

lemma dseg_frame [simp]: "a \<notin> set as \<Longrightarrow> dseg (h(a := x)) p as q = dseg h p as q"
  by (induction as arbitrary: p) auto

lemma dseg_mapped: "dseg h p as q \<Longrightarrow> a \<in> set as \<Longrightarrow> \<exists>nd. h a = Some nd"
  by (induction as arbitrary: p) auto

lemma contents_simps [simp]:
  "contents st [] = []"
  "contents st (a # as) = nd_object (the (cells st a)) # contents st as"
  "contents st (xs @ ys) = contents st xs @ contents st ys"
  by (simp_all add: contents_def)

lemma contents_frame:
  "(\<And>a. a \<in> set as \<Longrightarrow> nd_object (the (cells st' a)) = nd_object (the (cells st a))) \<Longrightarrow>
    contents st' as = contents st as"
  by (simp add: contents_def)

lemma node_at_eqI: "cells st a = Some nd \<Longrightarrow> a < brk st \<Longrightarrow> node_at st (Some a) = Inr nd"
  by (simp add: node_at_def)

lemmas ll_ops = ll_add_def ll_add_front_def ll_add_after_def ll_remove_def ll_create_node_def
  set_node_def free_node_def node_at_def

lemma snoc_cases: "xs = [] \<or> (\<exists>ys y. xs = ys @ [y])"
  by (cases xs rule: rev_cases) simp_all

section \<open>Every operation refines its list counterpart\<close>

lemma dll_create: "dll st ll_create []"
  by (simp add: dll_def ll_create_def)

lemma dll_add:
  assumes "dll st l as"
  shows "\<exists>st' l' n. ll_add st (Some l) (Some ob) = Inr (st', Some l', Some n) \<and>
    dll st' l' (as @ [n]) \<and> contents st' (as @ [n]) = contents st as @ [ob]"
proof -
  from assms have fresh: "brk st \<notin> set as" by (auto simp: dll_def)
  from snoc_cases [of as] show ?thesis
  proof (elim disjE exE)
    assume "as = []"
    with assms show ?thesis by (auto simp: ll_ops dll_def)
  next
    fix xs x
    assume as: "as = xs @ [x]"
    show ?thesis using assms fresh
      by (auto simp: ll_ops dll_def as contents_def less_SucI)
  qed
qed

lemma dll_add_front:
  assumes "dll st l as"
  shows "\<exists>st' l' n. ll_add_front st (Some l) (Some ob) = Inr (st', Some l', Some n) \<and>
    dll st' l' (n # as) \<and> contents st' (n # as) = ob # contents st as"
proof (cases as)
  case Nil
  with assms show ?thesis by (auto simp: ll_ops dll_def)
next
  case (Cons x xs)
  from assms have "brk st \<notin> set as" by (auto simp: dll_def)
  with assms Cons show ?thesis
    by (auto simp: ll_ops dll_def contents_def less_SucI)
qed

lemma dll_add_after:
  assumes "dll st l (xs @ a # ys)"
  shows "\<exists>st' l' n. ll_add_after st (Some l) (Some a) (Some ob) = Inr (st', Some l', Some n) \<and>
    dll st' l' (xs @ a # n # ys) \<and>
    contents st' (xs @ a # n # ys) =
      contents st xs @ nd_object (the (cells st a)) # ob # contents st ys"
proof -
  from assms have "brk st \<notin> set (xs @ a # ys)" by (auto simp: dll_def)
  then show ?thesis using assms
    by (cases ys) (auto simp: ll_ops dll_def contents_def less_SucI)
qed

lemma dll_remove:
  assumes "dll st l (xs @ a # ys)"
  shows "\<exists>st' l'. ll_remove st (Some l) (Some a) =
      Inr (st', Some l', Some (nd_object (the (cells st a)))) \<and>
    dll st' l' (xs @ ys) \<and> contents st' (xs @ ys) = contents st xs @ contents st ys \<and>
    cells st' a = None"
proof -
  from snoc_cases [of xs] show ?thesis
  proof (elim disjE exE)
    assume "xs = []"
    then show ?thesis using assms
      by (cases ys) (auto simp: ll_ops dll_def contents_def less_SucI)
  next
    fix zs z
    assume "xs = zs @ [z]"
    then show ?thesis using assms
      by (cases ys) (auto simp: ll_ops dll_def contents_def less_SucI)
  qed
qed

lemma find_from_dseg:
  "dseg (cells st) p as None \<Longrightarrow> \<forall>a \<in> set as. a < brk st \<Longrightarrow>
    find_from st (first_of as None) ob =
      Some (Inr (find (\<lambda>a. nd_object (the (cells st a)) = ob) as))"
proof (induction as arbitrary: p)
  case Nil
  then show ?case by (simp add: find_from.simps)
next
  case (Cons a as)
  then show ?case by (auto simp: find_from.simps [of st "Some a"] node_at_eqI)
qed

lemma dll_find:
  "dll st l as \<Longrightarrow>
    ll_find st (Some l) (Some ob) =
      Some (Inr (find (\<lambda>a. nd_object (the (cells st a)) = ob) as))"
  using find_from_dseg by (fastforce simp: ll_find_def dll_def)

lemma dll_ends:
  assumes "dll st l as"
  shows "ll_front (Some l) = Inr (first_of as None)" "ll_back (Some l) = Inr (last_of None as)"
    and "ll_length (Some l) = Inr (of_nat (length as))"
  using assms by (simp_all add: dll_def ll_front_def ll_back_def ll_length_def)

lemma destroy_dseg:
  "dseg (cells st) p as None \<Longrightarrow> \<forall>a \<in> set as. a < brk st \<Longrightarrow> distinct as \<Longrightarrow>
    \<exists>st'. destroy_from st (first_of as None) = Inr st' \<and> brk st' = brk st \<and>
      cells st' = (\<lambda>a. if a \<in> set as then None else cells st a)"
proof (induction as arbitrary: st p)
  case Nil
  then show ?case by simp
next
  case (Cons a as)
  then obtain nd where nd: "cells st a = Some nd" "nd_next nd = first_of as None"
    and rest: "dseg (cells st) (Some a) as None" by auto
  let ?st = "st\<lparr>cells := (cells st)(a := None)\<rparr>"
  from Cons.prems have "a < brk st" "a \<notin> set as" "distinct as" by auto
  then have "dseg (cells ?st) (Some a) as None" "\<forall>b \<in> set as. b < brk ?st"
    using rest Cons.prems by auto
  from Cons.IH [OF this \<open>distinct as\<close>] nd \<open>a < brk st\<close> show ?case
    by (auto simp: node_at_eqI free_node_def fun_eq_iff)
qed

lemma dll_destroy:
  "dll st l as \<Longrightarrow>
    \<exists>st'. ll_destroy st (Some l) = Inr st' \<and>
      cells st' = (\<lambda>a. if a \<in> set as then None else cells st a)"
  using destroy_dseg [of st None as] by (auto simp: dll_def ll_destroy_def)

section \<open>The interface the protocol code relies on\<close>

text \<open>
  \<open>ctcp.c\<close> uses its two lists as queues: it appends a segment at the tail, looks at the front,
  and takes segments off the front while they are ready.  The locale states that contract over an
  abstract list of items; the loop of \<open>ctcp_output\<close>, which removes the longest ready prefix, is
  proved correct once from the contract.
\<close>

locale segment_queue =
  fixes items :: "'s \<Rightarrow> 'o list"
    and ok :: "'s \<Rightarrow> bool"
    and create :: "'s"
    and add :: "'o \<Rightarrow> 's \<Rightarrow> 's"
    and remove_front :: "'s \<Rightarrow> 's"
  assumes ok_create: "ok create" and items_create: "items create = []"
    and ok_add: "ok s \<Longrightarrow> ok (add x s)"
    and items_add: "ok s \<Longrightarrow> items (add x s) = items s @ [x]"
    and ok_remove_front: "ok s \<Longrightarrow> ok (remove_front s)"
    and items_remove_front: "ok s \<Longrightarrow> items (remove_front s) = tl (items s)"
begin

fun add_all :: "'o list \<Rightarrow> 's \<Rightarrow> 's" where
  "add_all [] s = s"
| "add_all (x # xs) s = add_all xs (add x s)"

fun drain :: "nat \<Rightarrow> ('o \<Rightarrow> bool) \<Rightarrow> 's \<Rightarrow> 's" where
  "drain 0 ready s = s"
| "drain (Suc n) ready s =
     (case items s of [] \<Rightarrow> s | x # _ \<Rightarrow> if ready x then drain n ready (remove_front s) else s)"

lemma items_add_all: "ok s \<Longrightarrow> ok (add_all xs s) \<and> items (add_all xs s) = items s @ xs"
  by (induction xs arbitrary: s) (auto simp: ok_add items_add)

lemma items_drain:
  "ok s \<Longrightarrow> length (items s) \<le> n \<Longrightarrow>
    ok (drain n ready s) \<and> items (drain n ready s) = dropWhile ready (items s)"
proof (induction n arbitrary: s)
  case (Suc n)
  then show ?case
    by (cases "items s") (auto simp: ok_remove_front items_remove_front)
qed simp

lemma fifo: "items (drain (length xs) (\<lambda>_. True) (add_all xs create)) = []"
  using items_add_all [OF ok_create, of xs]
    items_drain [of "add_all xs create" "length xs" "\<lambda>_. True"]
  by (simp add: items_create)

end

text \<open>The pointer structure implements the contract; its items are read by following \<open>next\<close>.\<close>

fun walk :: "nat \<Rightarrow> 'o store \<Rightarrow> addr option \<Rightarrow> addr list" where
  "walk (Suc n) st (Some a) =
     (case cells st a of None \<Rightarrow> [] | Some nd \<Rightarrow> a # walk n st (nd_next nd))"
| "walk _ st _ = []"

definition dll_items :: "'o store \<times> linked_list \<Rightarrow> 'o list" where
  "dll_items s = contents (fst s) (walk (brk (fst s)) (fst s) (ll_head (snd s)))"

definition dll_ok :: "'o store \<times> linked_list \<Rightarrow> bool" where
  "dll_ok s \<longleftrightarrow> dll (fst s) (snd s) (walk (brk (fst s)) (fst s) (ll_head (snd s)))"

definition dll_new :: "'o store \<times> linked_list" where
  "dll_new = (\<lparr>cells = Map.empty, brk = 0\<rparr>, ll_create)"

definition dll_push :: "'o \<Rightarrow> 'o store \<times> linked_list \<Rightarrow> 'o store \<times> linked_list" where
  "dll_push x s = (case ll_add (fst s) (Some (snd s)) (Some x) of
     Inr (st, Some l, _) \<Rightarrow> (st, l) | _ \<Rightarrow> s)"

definition dll_pop :: "'o store \<times> linked_list \<Rightarrow> 'o store \<times> linked_list" where
  "dll_pop s = (case ll_remove (fst s) (Some (snd s)) (ll_head (snd s)) of
     Inr (st, Some l, _) \<Rightarrow> (st, l) | _ \<Rightarrow> s)"

lemma walk_dseg:
  "dseg (cells st) p as None \<Longrightarrow> length as \<le> n \<Longrightarrow> walk n st (first_of as None) = as"
proof (induction as arbitrary: p n)
  case Nil
  then show ?case by (cases n) simp_all
next
  case (Cons a as)
  then show ?case by (cases n) auto
qed

lemma dll_walk: "dll st l as \<Longrightarrow> walk (brk st) st (ll_head l) = as"
proof -
  assume d: "dll st l as"
  then have "set as \<subseteq> {..<brk st}" "distinct as" by (auto simp: dll_def)
  then have "length as \<le> brk st"
    by (metis card_lessThan card_mono distinct_card finite_lessThan)
  with d show ?thesis by (auto simp: dll_def walk_dseg)
qed

lemma dll_okI: "dll st l as \<Longrightarrow> dll_ok (st, l) \<and> dll_items (st, l) = contents st as"
  by (simp add: dll_ok_def dll_items_def dll_walk)

lemma dll_push_ok:
  assumes "dll_ok s"
  shows "dll_ok (dll_push x s) \<and> dll_items (dll_push x s) = dll_items s @ [x]"
proof -
  obtain st l where s: "s = (st, l)" by (cases s)
  with assms obtain as where "dll st l as" by (auto simp: dll_ok_def)
  from dll_add [OF this, of x] dll_okI [OF this] show ?thesis
    by (auto simp: dll_push_def s dest!: dll_okI)
qed

lemma dll_pop_ok:
  assumes "dll_ok s"
  shows "dll_ok (dll_pop s) \<and> dll_items (dll_pop s) = tl (dll_items s)"
proof -
  obtain st l where s: "s = (st, l)" by (cases s)
  with assms obtain as where d: "dll st l as" by (auto simp: dll_ok_def)
  show ?thesis
  proof (cases as)
    case Nil
    with d have "dll_pop s = s" by (auto simp: dll_pop_def s ll_remove_def dll_def)
    with d Nil show ?thesis using assms dll_okI [OF d] by (simp add: s)
  next
    case (Cons a bs)
    with d have "ll_head l = Some a" by (simp add: dll_def)
    with dll_remove [of st l "[]" a bs] d Cons dll_okI [OF d] show ?thesis
      by (auto simp: dll_pop_def s dest!: dll_okI)
  qed
qed

lemma dll_new_ok: "dll_ok dll_new" "dll_items dll_new = []"
  by (simp_all add: dll_new_def dll_okI [OF dll_create])

interpretation dlq: segment_queue dll_items dll_ok dll_new dll_push dll_pop
  by unfold_locales (simp_all add: dll_push_ok dll_pop_ok dll_new_ok)

section \<open>Properties\<close>

text \<open>
  C15: on a well-formed list, the empty one included, no list operation faults and each refines its counterpart on HOL
  lists: \<open>ll_add\<close> appends, \<open>ll_add_front\<close> prepends, \<open>ll_add_after\<close> inserts behind any given node of the list,
  \<open>ll_remove\<close> takes exactly the given node out, returns its object and frees its cell; in all
  cases the links, ends and length stay consistent in both directions.
\<close>

theorem linked_list_refines_list:
  assumes "dll st l as"
  shows "(\<exists>st' l' n. ll_add st (Some l) (Some ob) = Inr (st', Some l', Some n) \<and>
      dll st' l' (as @ [n]) \<and> contents st' (as @ [n]) = contents st as @ [ob]) \<and>
    (\<exists>st' l' n. ll_add_front st (Some l) (Some ob) = Inr (st', Some l', Some n) \<and>
      dll st' l' (n # as) \<and> contents st' (n # as) = ob # contents st as) \<and>
    (\<forall>xs a ys. as = xs @ a # ys \<longrightarrow>
      (\<exists>st' l' n. ll_add_after st (Some l) (Some a) (Some ob) = Inr (st', Some l', Some n) \<and>
        dll st' l' (xs @ a # n # ys) \<and>
        contents st' (xs @ a # n # ys) = contents st (xs @ [a]) @ ob # contents st ys) \<and>
      (\<exists>st' l'. ll_remove st (Some l) (Some a) =
          Inr (st', Some l', Some (nd_object (the (cells st a)))) \<and>
        dll st' l' (xs @ ys) \<and> contents st' (xs @ ys) = contents st xs @ contents st ys \<and>
        cells st' a = None))"
proof (intro conjI allI impI)
  fix xs a ys assume "as = xs @ a # ys"
  then have d: "dll st l (xs @ a # ys)" using assms by simp
  show "\<exists>st' l' n. ll_add_after st (Some l) (Some a) (Some ob) = Inr (st', Some l', Some n) \<and>
      dll st' l' (xs @ a # n # ys) \<and>
      contents st' (xs @ a # n # ys) = contents st (xs @ [a]) @ ob # contents st ys"
    using dll_add_after [OF d, of ob] by simp
  show "\<exists>st' l'. ll_remove st (Some l) (Some a) = Inr (st', Some l', Some (nd_object (the (cells st a)))) \<and>
      dll st' l' (xs @ ys) \<and> contents st' (xs @ ys) = contents st xs @ contents st ys \<and> cells st' a = None"
    by (rule dll_remove [OF d])
qed (rule dll_add [OF assms] dll_add_front [OF assms])+

text \<open>An object is put into the new list, from either end, and taken out again.\<close>

theorem linked_list_refines_list_witness:
  "(\<exists>st l n. ll_add \<lparr>cells = Map.empty, brk = 0\<rparr> (Some ll_create) (Some ''x'') = Inr (st, Some l, Some n) \<and> dll st l [n] \<and>
      (\<exists>st' l'. ll_remove st (Some l) (Some n) = Inr (st', Some l', Some ''x'') \<and> dll st' l' [])) \<and>
   (\<exists>st l n. ll_add_front \<lparr>cells = Map.empty, brk = 0\<rparr> (Some ll_create) (Some ''x'') = Inr (st, Some l, Some n) \<and>
      dll st l [n] \<and> contents st [n] = [''x''])"
proof
  have e: "dll \<lparr>cells = Map.empty, brk = 0\<rparr> ll_create []" by (rule dll_create)
  note first = linked_list_refines_list [OF e, of "''x''"]
  obtain st l n where n: "ll_add \<lparr>cells = Map.empty, brk = 0\<rparr> (Some ll_create) (Some ''x'') = Inr (st, Some l, Some n)"
      "dll st l [n]" "contents st [n] = [''x'']"
    using first by auto
  then show "\<exists>st l n. ll_add \<lparr>cells = Map.empty, brk = 0\<rparr> (Some ll_create) (Some ''x'') = Inr (st, Some l, Some n) \<and>
      dll st l [n] \<and> (\<exists>st' l'. ll_remove st (Some l) (Some n) = Inr (st', Some l', Some ''x'') \<and> dll st' l' [])"
    using linked_list_refines_list [OF n(2), of "''y''"] by (fastforce simp: contents_def)
  show "\<exists>st l n. ll_add_front \<lparr>cells = Map.empty, brk = 0\<rparr> (Some ll_create) (Some ''x'') = Inr (st, Some l, Some n) \<and>
      dll st l [n] \<and> contents st [n] = [''x'']"
    using first by auto
qed

text \<open>
  C36: the two pointer loops end on every well-formed list: \<open>ll_find\<close> returns the first node that
  holds the object (or null), and \<open>ll_destroy\<close> frees exactly the cells of the list.
\<close>

theorem linked_list_loops_end:
  assumes "dll st l as"
  shows "ll_find st (Some l) (Some ob) =
      Some (Inr (find (\<lambda>a. nd_object (the (cells st a)) = ob) as)) \<and>
    (\<exists>st'. ll_destroy st (Some l) = Inr st' \<and>
      cells st' = (\<lambda>a. if a \<in> set as then None else cells st a))"
  using dll_find [OF assms] dll_destroy [OF assms] by blast

theorem linked_list_loops_end_witness:
  "ll_find \<lparr>cells = [0 \<mapsto> \<lparr>nd_next = None, nd_prev = None, nd_object = ''x''\<rparr>], brk = 1\<rparr>
      (Some \<lparr>ll_head = Some 0, ll_tail = Some 0, ll_len = 1\<rparr>) (Some ''x'') =
    Some (Inr (Some 0))"
proof -
  have "dll \<lparr>cells = [0 \<mapsto> \<lparr>nd_next = None, nd_prev = None, nd_object = ''x''\<rparr>], brk = 1\<rparr>
      \<lparr>ll_head = Some 0, ll_tail = Some 0, ll_len = 1\<rparr> [0]"
    by (simp add: dll_def)
  from linked_list_loops_end [OF this, of "''x''"] show ?thesis by simp
qed

end
