(* ===== verification/Checksum.thy ===== *)
theory Checksum
  imports Prelude
begin

text \<open>
  The Internet checksum, \<open>cksum\<close> of \<open>router/sr_utils.c\<close> and of \<open>tcp/ctcp_utils.c\<close>: the summation
  loop, the carry-folding loop and the final complement and byte swap, on 32-bit words as in C.
  The lemmas relate the loops to the sum of the big-endian 16-bit words of the data modulo 65535,
  and from there to what the callers rely on: the result is never 0, a message with its checksum
  in place verifies, and an altered message does not unless the sums agree modulo 65535.
\<close>

section \<open>The code\<close>

fun cksum_sum :: "u32 \<Rightarrow> byte list \<Rightarrow> u32" where
  "cksum_sum s (a # b # rest) = cksum_sum (s + (push_bit 8 (ucast a) OR ucast b)) rest"
| "cksum_sum s [a] = s + push_bit 8 (ucast a)"
| "cksum_sum s [] = s"

lemma unat_drop16: "unat (drop_bit 16 (s :: u32)) = unat s div 65536"
  by (simp add: drop_bit_eq_div unat_div)

lemma unat_and_ffff: "unat ((s :: u32) AND 0xffff) = unat s mod 65536"
proof -
  have "(0xffff :: u32) = mask 16" by (simp add: mask_eq_exp_minus_1)
  then have "s AND 0xffff = take_bit 16 s" by (simp only: take_bit_eq_mask)
  then show ?thesis by (simp only: unsigned_take_bit_eq) (simp add: take_bit_eq_mod)
qed

lemma unat_fold_carry:
  "unat (drop_bit 16 (s :: u32) + (s AND 0xffff)) = unat s div 65536 + unat s mod 65536"
proof -
  have "unat s < 65536 * 65536" using unat_u32_less [of s] by simp
  then have "unat s div 65536 < 65536" by (simp only: div_less_iff_less_mult)
  then show ?thesis
    by (simp add: unat_word_ariths unat_drop16 unat_and_ffff)
qed

lemma fold_carry_decreases:
  "0xffff < (s :: u32) \<Longrightarrow> unat (drop_bit 16 s + (s AND 0xffff)) < unat s"
proof -
  assume "0xffff < s"
  then have "65535 < unat s" by (simp add: word_less_nat_alt)
  then have "0 < unat s div 65536" by (simp add: div_greater_zero_iff)
  moreover have "unat s = 65536 * (unat s div 65536) + unat s mod 65536" by simp
  ultimately show ?thesis unfolding unat_fold_carry by linarith
qed

function cksum_fold :: "u32 \<Rightarrow> u32" where
  "cksum_fold s = (if s > 0xffff then cksum_fold (drop_bit 16 s + (s AND 0xffff)) else s)"
  by pat_completeness auto
termination
  by (relation "measure unat") (auto simp: fold_carry_decreases)

declare cksum_fold.simps [simp del]

definition cksum :: "byte list \<Rightarrow> u16" where
  "cksum bs =
     (let s = cksum_fold (cksum_sum 0 bs);
          r = htons (ucast (NOT s))
      in if r \<noteq> 0 then r else 0xffff)"

definition sr_cksum :: "byte list \<Rightarrow> nat \<Rightarrow> int \<Rightarrow> u16 res" where
  "sr_cksum p i len = rbind (rd p i (nat len)) (\<lambda>bs. Inr (cksum bs))"

definition ctcp_cksum :: "byte list \<Rightarrow> u16 \<Rightarrow> u16 res" where
  "ctcp_cksum p len = rbind (rd p 0 (unat len)) (\<lambda>bs. Inr (cksum bs))"

section \<open>Specification\<close>

fun wsum :: "byte list \<Rightarrow> nat" where
  "wsum (a # b # rest) = 256 * unat a + unat b + wsum rest"
| "wsum [a] = 256 * unat a"
| "wsum [] = 0"

definition ones_fold :: "nat \<Rightarrow> nat" where
  "ones_fold n = (if n = 0 then 0 else (n - 1) mod 65535 + 1)"

text \<open>
  \<open>wsum\<close> is the plain sum of the big-endian words of the data, an odd last byte padded with 0;
  \<open>ones_fold n\<close> is the end-around-carry sum: the representative of \<open>n\<close> modulo 65535 that is 0
  only for \<open>n = 0\<close>.
\<close>

lemma ones_fold_small: "n \<le> 65535 \<Longrightarrow> ones_fold n = n"
  by (auto simp: ones_fold_def)

lemma ones_fold_le: "ones_fold n \<le> 65535"
  by (simp add: ones_fold_def Suc_le_eq)

lemma ones_fold_eq_0 [simp]: "ones_fold n = 0 \<longleftrightarrow> n = 0"
  by (simp add: ones_fold_def)

lemma ones_fold_mod: "ones_fold n mod 65535 = n mod 65535"
  by (cases n) (simp_all add: ones_fold_def mod_Suc_eq)

lemma ones_fold_step: "ones_fold (n div 65536 + n mod 65536) = ones_fold n"
proof (cases "n = 0")
  case False
  define q r where "q = n div 65536" and "r = n mod 65536"
  have n: "n = 65536 * q + r" by (simp add: q_def r_def)
  with False have pos: "0 < q + r" by auto
  then have "n - 1 = 65535 * q + (q + r - 1)" by (simp add: n)
  then have "(n - 1) mod 65535 = (q + r - 1) mod 65535" by simp
  with pos False show ?thesis by (simp add: ones_fold_def q_def r_def)
qed simp

lemma ones_fold_full_iff: "ones_fold n = 65535 \<longleftrightarrow> 0 < n \<and> n mod 65535 = 0"
proof -
  have "ones_fold n = 65535 \<longleftrightarrow> n \<noteq> 0 \<and> ones_fold n mod 65535 = 0"
    using ones_fold_le [of n] ones_fold_eq_0 [of n]
    by (auto simp del: ones_fold_eq_0 elim!: dvdE)
  then show ?thesis by (simp add: ones_fold_mod)
qed

section \<open>The loops compute the specification\<close>

lemma unat_cksum_fold: "unat (cksum_fold s) = ones_fold (unat s)"
proof (induction s rule: cksum_fold.induct)
  case (1 s)
  show ?case
  proof (cases "s > 0xffff")
    case True
    then have "unat (cksum_fold s) = ones_fold (unat s div 65536 + unat s mod 65536)"
      using "1.IH" by (simp add: cksum_fold.simps [of s] unat_fold_carry)
    then show ?thesis by (simp add: ones_fold_step)
  next
    case False
    then have "unat s \<le> 65535" by (simp add: word_le_nat_alt not_less)
    then show ?thesis using False by (simp add: cksum_fold.simps [of s] ones_fold_small)
  qed
qed

lemma unat_word_of_pair:
  "unat (push_bit 8 (ucast (a :: byte) :: u32) OR ucast (b :: byte)) = 256 * unat a + unat b"
proof -
  have d: "push_bit 8 (ucast a :: u32) AND ucast b = 0"
    by (rule bit_word_eqI) (auto simp: bit_simps dest: bit_byte_less)
  have lt: "unat a < 256" "unat b < 256"
    by simp_all
  then have "unat a * 256 < 4294967296" by linarith
  then have "unat (push_bit 8 (ucast a :: u32)) = 256 * unat a"
    by (simp add: push_bit_eq_mult unat_word_ariths unat_ucast_byte)
  moreover have "256 * unat a + unat b < 4294967296" using lt by linarith
  ultimately show ?thesis
    by (simp add: disjunctive_add_eq_or [OF d, symmetric] unat_ucast_byte unat_word_ariths)
qed

lemma unat_word_of_last:
  "unat (push_bit 8 (ucast (a :: byte) :: u32)) = 256 * unat a"
  using unat_word_of_pair [of a 0] by simp

lemma byte_le_255: "unat (a :: byte) \<le> 255"
  using unat_byte_less [of a] by linarith

lemma wsum_le: "2 * wsum bs \<le> 65535 * (length bs + 1)"
proof (induction bs rule: wsum.induct)
  case (1 a b rest)
  then show ?case using byte_le_255 [of a] byte_le_255 [of b] by simp
next
  case (2 a)
  then show ?case using byte_le_255 [of a] by simp
qed simp

lemma unat_cksum_sum:
  "unat s + wsum bs < 2 ^ 32 \<Longrightarrow> unat (cksum_sum s bs) = unat s + wsum bs"
proof (induction s bs rule: cksum_sum.induct)
  case (1 s a b rest)
  then show ?case by (simp add: unat_word_of_pair unat_word_ariths)
next
  case (2 s a)
  then show ?case by (simp add: unat_word_of_last unat_word_ariths)
qed simp

text \<open>Buffers of up to 128 KiB cannot overflow the 32-bit accumulator.\<close>

lemma unat_cksum_sum_bounded:
  assumes "length bs \<le> 131072"
  shows "unat (cksum_sum 0 bs) = wsum bs"
proof -
  have "2 * wsum bs \<le> 65535 * 131073"
    using wsum_le [of bs] assms by simp
  then show ?thesis using unat_cksum_sum [of 0 bs] by simp
qed

section \<open>What the result is\<close>

text \<open>
  Read back in host order, the checksum is the number from 1 to 65535 that makes the word sum a
  multiple of 65535.
\<close>

lemma unat_complement16:
  assumes "unat (s :: u32) \<le> 65535"
  shows "unat (ucast (NOT s) :: u16) = 65535 - unat s"
proof -
  have "NOT s = 0xffffffff - s" by (simp add: not_eq_complement)
  moreover have "s \<le> 0xffffffff"
    using unat_u32_less [of s] by (simp add: word_le_nat_alt del: unat_u32_less)
  ultimately have "unat (NOT s) = 4294967295 - unat s" by (simp add: unat_sub)
  then have "unat (ucast (NOT s) :: u16) = (4294967295 - unat s) mod 65536"
    by (simp add: unsigned_ucast_eq take_bit_eq_mod)
  also have "4294967295 - unat s = (65535 - unat s) + 65535 * 65536" using assms by simp
  also have "\<dots> mod 65536 = 65535 - unat s" by (simp only: mod_mult_self1) simp
  finally show ?thesis .
qed

definition cksum_value :: "byte list \<Rightarrow> nat" where
  "cksum_value bs =
     (if ones_fold (wsum bs) = 65535 then 65535 else 65535 - ones_fold (wsum bs))"

lemma htons_simps [simp]: "htons 0 = 0" "htons 0xffff = 0xffff"
  by (simp_all add: htons_def mk16_def lo16_def hi16_def)

lemma htons_eq_0 [simp]: "htons w = 0 \<longleftrightarrow> w = 0"
  using htons_inject [of w 0] by simp

lemma cksum_nonzero [simp]: "cksum bs \<noteq> 0"
  by (simp add: cksum_def Let_def)

lemma ntohs_cksum:
  assumes "length bs \<le> 131072"
  shows "unat (ntohs (cksum bs)) = cksum_value bs"
proof -
  define s where "s = cksum_fold (cksum_sum 0 bs)"
  have s: "unat s = ones_fold (wsum bs)"
    by (simp add: s_def unat_cksum_fold unat_cksum_sum_bounded [OF assms])
  define v :: u16 where "v = ucast (NOT s)"
  have v: "unat v = 65535 - ones_fold (wsum bs)"
    using unat_complement16 [of s] ones_fold_le by (simp add: v_def s)
  have c: "cksum bs = (if v = 0 then 0xffff else htons v)"
    by (simp add: cksum_def Let_def s_def [symmetric] v_def)
  show ?thesis
  proof (cases "v = 0")
    case True
    then have "65535 - ones_fold (wsum bs) = 0" using v by simp
    then have "ones_fold (wsum bs) = 65535" using ones_fold_le [of "wsum bs"] by linarith
    then show ?thesis using c True by (simp add: cksum_value_def)
  next
    case False
    then have "unat v \<noteq> 0" by (simp add: unat_eq_0)
    then have "ones_fold (wsum bs) \<noteq> 65535" using v by simp
    then show ?thesis using c False v by (simp add: cksum_value_def)
  qed
qed

lemma cksum_value_range: "1 \<le> cksum_value bs" "cksum_value bs \<le> 65535"
  using ones_fold_le [of "wsum bs"] by (auto simp: cksum_value_def)

lemma cksum_value_complements: "(wsum bs + cksum_value bs) mod 65535 = 0"
proof -
  have "(ones_fold (wsum bs) + cksum_value bs) mod 65535 = 0"
    using ones_fold_le [of "wsum bs"] by (auto simp: cksum_value_def)
  then show ?thesis by (metis mod_add_left_eq ones_fold_mod)
qed

lemma mod_add_right_cancel:
  fixes a b c m :: nat
  shows "(a + c) mod m = (b + c) mod m \<longleftrightarrow> a mod m = b mod m"
proof -
  have "(a + c) mod m = (b + c) mod m \<longleftrightarrow> (int a + int c) mod int m = (int b + int c) mod int m"
    by (metis of_nat_add of_nat_eq_iff zmod_int)
  also have "\<dots> \<longleftrightarrow> int a mod int m = int b mod int m"
    by (simp add: mod_eq_dvd_iff)
  finally show ?thesis by (metis of_nat_eq_iff zmod_int)
qed

lemma mod_complement_unique:
  fixes v w n :: nat
  assumes "(n + v) mod 65535 = 0" "(n + w) mod 65535 = 0"
    and "1 \<le> v" "v \<le> 65535" "1 \<le> w" "w \<le> 65535"
  shows "v = w"
proof -
  have "((v - 1) + (n + 1)) mod 65535 = ((w - 1) + (n + 1)) mod 65535"
    using assms by (simp add: add.commute)
  then have "(v - 1) mod 65535 = (w - 1) mod 65535" by (simp only: mod_add_right_cancel)
  then show ?thesis using assms by simp
qed

lemma cksum_value_eqI:
  "1 \<le> v \<Longrightarrow> v \<le> 65535 \<Longrightarrow> (wsum bs + v) mod 65535 = 0 \<Longrightarrow> cksum_value bs = v"
  by (rule mod_complement_unique [OF cksum_value_complements _ cksum_value_range])

lemma cksum_value_eq_iff:
  "cksum_value a = cksum_value b \<longleftrightarrow> wsum a mod 65535 = wsum b mod 65535"
proof
  assume "wsum a mod 65535 = wsum b mod 65535"
  then have "(wsum b + cksum_value a) mod 65535 = (wsum a + cksum_value a) mod 65535"
    by (metis mod_add_left_eq)
  then show "cksum_value a = cksum_value b"
    using cksum_value_complements [of a] cksum_value_range [of a] cksum_value_eqI by metis
next
  assume "cksum_value a = cksum_value b"
  then have "(wsum a + cksum_value a) mod 65535 = (wsum b + cksum_value a) mod 65535"
    using cksum_value_complements [of a] cksum_value_complements [of b] by simp
  then show "wsum a mod 65535 = wsum b mod 65535"
    by (simp only: mod_add_right_cancel)
qed

lemma cksum_eq_iff:
  assumes "length a \<le> 131072" "length b \<le> 131072"
  shows "cksum a = cksum b \<longleftrightarrow> wsum a mod 65535 = wsum b mod 65535"
proof -
  have "cksum a = cksum b \<longleftrightarrow> unat (ntohs (cksum a)) = unat (ntohs (cksum b))"
    by (simp add: word_unat_eq_iff [symmetric])
  then show ?thesis by (simp only: ntohs_cksum [OF assms(1)] ntohs_cksum [OF assms(2)]
      cksum_value_eq_iff)
qed

section \<open>Verification by a receiver\<close>

lemma wsum_append: "even (length xs) \<Longrightarrow> wsum (xs @ ys) = wsum xs + wsum ys"
  by (induction xs rule: wsum.induct) simp_all

lemma wsum_bytes16: "wsum (bytes16 w) = unat (ntohs w)"
proof -
  have "ntohs w = mk16 (lo16 w) (hi16 w)" by (simp add: htons_def)
  then show ?thesis by (simp add: bytes16_def unat_mk16)
qed

lemma wsum_split16:
  assumes "even i" "i + 2 \<le> length p"
  shows "wsum p = wsum (take i p) + unat (ntohs (get16 p i)) + wsum (drop (i + 2) p)"
proof -
  have "p = take i p @ (p ! i) # (p ! (i + 1)) # drop (i + 2) p"
    using assms(2) by (simp add: Cons_nth_drop_Suc)
  then have "wsum p = wsum (take i p) + wsum ((p ! i) # (p ! (i + 1)) # drop (i + 2) p)"
    using assms by (metis wsum_append length_take min.absorb2 add_leD1)
  then show ?thesis by (simp add: get16_def unat_mk16)
qed

lemma wsum_put16:
  assumes "even i" "i + 2 \<le> length p"
  shows "wsum (put p i (bytes16 w)) + unat (ntohs (get16 p i)) = wsum p + unat (ntohs w)"
proof -
  have "wsum (put p i (bytes16 w)) = wsum (take i p) + unat (ntohs w) + wsum (drop (i + 2) p)"
    using assms by (simp add: put_append wsum_append wsum_bytes16)
  then show ?thesis using wsum_split16 [OF assms] by simp
qed

section \<open>Detection of altered data\<close>

definition byte_weight :: "nat \<Rightarrow> nat" where
  "byte_weight k = (if even k then 256 else 1)"

lemma wsum_update:
  "k < length p \<Longrightarrow>
    wsum (p[k := b]) + byte_weight k * unat (p ! k) = wsum p + byte_weight k * unat b"
proof (induction p arbitrary: k rule: wsum.induct)
  case (1 x y rest)
  show ?case
  proof (cases "k < 2")
    case True
    then have "k = 0 \<or> k = 1" by auto
    then show ?thesis by (auto simp: byte_weight_def)
  next
    case False
    then obtain j where k: "k = Suc (Suc j)" by (metis add_2_eq_Suc le_iff_add not_less)
    then show ?thesis using "1.IH" [of j] "1.prems" by (simp add: byte_weight_def)
  qed
qed (auto simp: byte_weight_def)

lemma unat_flip_clear:
  assumes "j < 8" "\<not> bit (x :: byte) j"
  shows "unat (x XOR push_bit j 1) = unat x + 2 ^ j"
proof -
  have "(2 :: nat) ^ j < 2 ^ 8" using assms(1) by (intro power_strict_increasing) simp_all
  then have j: "unat (push_bit j 1 :: byte) = 2 ^ j"
    by (simp only: unsigned_push_bit_eq) (simp add: push_bit_eq_mult take_bit_nat_eq_self_iff assms(1))
  have "unat x AND 2 ^ j = 0"
    using assms(2) by (intro bit_eqI) (auto simp: bit_simps)
  then have "unat x XOR 2 ^ j = unat x + 2 ^ j" by (simp only: disjunctive_add_eq_xor)
  then show ?thesis by (simp only: unsigned_xor_eq j)
qed

lemma unat_flip:
  assumes "j < 8"
  shows "unat (x XOR push_bit j 1 :: byte) = unat x + 2 ^ j \<or>
         unat x = unat (x XOR push_bit j 1) + 2 ^ j"
proof (cases "bit x j")
  case True
  then have "\<not> bit (x XOR push_bit j 1) j" using assms by (simp add: bit_simps)
  from unat_flip_clear [OF assms this] show ?thesis
    by (simp add: xor.assoc)
next
  case False
  then show ?thesis using unat_flip_clear [OF assms] by blast
qed

lemma mod_add_small_neq:
  fixes n d :: nat
  assumes "0 < d" "d < 65535"
  shows "(n + d) mod 65535 \<noteq> n mod 65535"
  using mod_add_right_cancel [of d n 65535 0] assms by (simp add: add.commute)

lemma flip_weight_small: "j < 8 \<Longrightarrow> 0 < byte_weight k * 2 ^ j \<and> byte_weight k * 2 ^ j < (65535 :: nat)"
proof -
  assume "j < 8"
  then have "(2 :: nat) ^ j \<le> 2 ^ 7" by (intro power_increasing) simp_all
  then show ?thesis by (simp add: byte_weight_def)
qed

text \<open>
  C1: the checksum loops of both programs compute the Internet checksum: for data of up to
  128 KiB the accumulator does not overflow, the folding loop ends, and the result, read in host
  order, is the one number from 1 to 65535 that complements the sum of the big-endian 16-bit
  words of the data to a multiple of 65535 (so it is never 0).
\<close>

theorem cksum_is_internet_checksum:
  assumes "length bs \<le> 131072"
  shows "cksum bs \<noteq> 0 \<and> (wsum bs + unat (ntohs (cksum bs))) mod 65535 = 0 \<and>
    (\<forall>v. 1 \<le> v \<and> v \<le> 65535 \<and> (wsum bs + v) mod 65535 = 0 \<longrightarrow> v = unat (ntohs (cksum bs)))"
proof -
  have "v = cksum_value bs" if "1 \<le> v" "v \<le> 65535" "(wsum bs + v) mod 65535 = 0" for v
    using cksum_value_eqI [OF that] by simp
  then show ?thesis
    using cksum_value_complements [of bs] by (simp add: ntohs_cksum [OF assms])
qed

theorem cksum_is_internet_checksum_witness:
  "cksum [0x45, 0x00, 0x00] \<noteq> 0 \<and>
    (wsum [0x45, 0x00, 0x00] + unat (ntohs (cksum [0x45, 0x00, 0x00]))) mod 65535 = 0"
  using cksum_is_internet_checksum [of "[0x45, 0x00, 0x00]"] by simp

lemma cksum_bit_flip:
  assumes "length bs \<le> 131072" "k < length bs" "j < 8"
  shows "cksum (bs[k := (bs ! k) XOR push_bit j 1]) \<noteq> cksum bs"
proof -
  let ?bs = "bs[k := (bs ! k) XOR push_bit j 1]"
  let ?d = "byte_weight k * 2 ^ j"
  from wsum_update [OF assms(2), of "(bs ! k) XOR push_bit j 1"]
  have "wsum ?bs = wsum bs + ?d \<or> wsum bs = wsum ?bs + ?d"
    using unat_flip [OF assms(3), of "bs ! k"] by (auto simp: algebra_simps)
  then have "wsum ?bs mod 65535 \<noteq> wsum bs mod 65535"
    using mod_add_small_neq [of ?d] flip_weight_small [OF assms(3), of k] by metis
  then show ?thesis using assms(1) by (simp add: cksum_eq_iff)
qed

text \<open>
  The checksum detects every single-bit error: flipping any one bit of the data changes the
  checksum, so the receivers' comparison of the recomputed with the received value fails.
\<close>

theorem cksum_detects_bit_flip:
  assumes "length bs \<le> 131072" "k < length bs" "j < 8"
  shows "cksum (bs[k := (bs ! k) XOR push_bit j 1]) \<noteq> cksum bs"
  by (rule cksum_bit_flip [OF assms])

theorem cksum_detects_bit_flip_witness:
  "cksum ([1, 2, 3][1 := [1, 2, 3] ! 1 XOR push_bit 4 1]) \<noteq> cksum [1, 2, 3]"
  using cksum_detects_bit_flip [of "[1, 2, 3]" 1 4] by simp

text \<open>A message with its checksum stored in an even-aligned, zeroed field sums to 0xffff.\<close>

lemma cksum_of_summed:
  assumes "length p \<le> 131072" "even i" "i + 2 \<le> length p" "get16 p i = 0"
  shows "cksum (put p i (bytes16 (cksum p))) = 0xffff"
proof -
  let ?q = "put p i (bytes16 (cksum p))"
  have len: "length ?q \<le> 131072" using assms by simp
  have "wsum ?q = wsum p + cksum_value p"
    using wsum_put16 [OF assms(2,3), of "cksum p"] assms(1,4) by (simp add: ntohs_cksum)
  then have "cksum_value ?q = 65535"
    using cksum_value_complements [of p] by (intro cksum_value_eqI) simp_all
  then have "unat (ntohs (cksum ?q)) = 65535" using ntohs_cksum [OF len] by simp
  then have "ntohs (cksum ?q) = ntohs 0xffff" by (simp add: word_unat_eq_iff)
  then show ?thesis by (simp only: htons_inject)
qed

end
