(* ===== verification/Packet.thy ===== *)
theory Packet
  imports Checksum
begin

text \<open>
  The wire formats of \<open>router/sr_protocol.h\<close>: the packed headers as records, their layout in a
  packet buffer, and the constants.  Multi-byte fields are the values a little-endian machine
  loads from the packet, so they are in network byte order and the code applies \<open>ntohs\<close>/\<open>ntohl\<close> to
  them.  The \<open>*_bytes\<close> functions are the images of the structs in memory, the \<open>get_*\<close> functions
  the struct overlays; the round-trip lemmas say that they agree.
\<close>

section \<open>Structs\<close>

record sr_ethernet_hdr =
  ether_dhost :: "byte list"
  ether_shost :: "byte list"
  ether_type :: u16

record sr_arp_hdr =
  ar_hrd :: u16
  ar_pro :: u16
  ar_hln :: byte
  ar_pln :: byte
  ar_op :: u16
  ar_sha :: "byte list"
  ar_sip :: u32
  ar_tha :: "byte list"
  ar_tip :: u32

record sr_ip_hdr =
  ip_hl :: "4 word"
  ip_v :: "4 word"
  ip_tos :: byte
  ip_len :: u16
  ip_id :: u16
  ip_off :: u16
  ip_ttl :: byte
  ip_p :: byte
  ip_sum :: u16
  ip_src :: u32
  ip_dst :: u32

record sr_icmp_hdr =
  icmp_type :: byte
  icmp_code :: byte
  icmp_sum :: u16

record sr_icmp_t3_hdr = sr_icmp_hdr +
  t3_unused :: u16
  t3_next_mtu :: u16
  t3_data :: "byte list"

record sr_icmp_t11_hdr = sr_icmp_hdr +
  t11_unused :: u32
  t11_data :: "byte list"

section \<open>Layout\<close>

text \<open>Sizes of the structs and offsets of their fields.\<close>

abbreviation (input) eth_sz :: nat where "eth_sz \<equiv> 14"
abbreviation (input) arp_sz :: nat where "arp_sz \<equiv> 28"
abbreviation (input) ip_sz :: nat where "ip_sz \<equiv> 20"
abbreviation (input) t3_sz :: nat where "t3_sz \<equiv> 36"
abbreviation (input) t11_sz :: nat where "t11_sz \<equiv> 36"
abbreviation (input) ICMP_DATA_SIZE :: nat where "ICMP_DATA_SIZE \<equiv> 28"

abbreviation (input) ETHER_DHOST :: nat where "ETHER_DHOST \<equiv> 0"
abbreviation (input) ETHER_SHOST :: nat where "ETHER_SHOST \<equiv> 6"
abbreviation (input) ETHER_TYPE :: nat where "ETHER_TYPE \<equiv> 12"

abbreviation (input) AR_HRD :: nat where "AR_HRD \<equiv> 14"
abbreviation (input) AR_PRO :: nat where "AR_PRO \<equiv> 16"
abbreviation (input) AR_HLN :: nat where "AR_HLN \<equiv> 18"
abbreviation (input) AR_PLN :: nat where "AR_PLN \<equiv> 19"
abbreviation (input) AR_OP :: nat where "AR_OP \<equiv> 20"
abbreviation (input) AR_SHA :: nat where "AR_SHA \<equiv> 22"
abbreviation (input) AR_SIP :: nat where "AR_SIP \<equiv> 28"
abbreviation (input) AR_THA :: nat where "AR_THA \<equiv> 32"
abbreviation (input) AR_TIP :: nat where "AR_TIP \<equiv> 38"

abbreviation (input) IP_HDR :: nat where "IP_HDR \<equiv> 14"
abbreviation (input) IP_TOS :: nat where "IP_TOS \<equiv> 15"
abbreviation (input) IP_LEN :: nat where "IP_LEN \<equiv> 16"
abbreviation (input) IP_ID :: nat where "IP_ID \<equiv> 18"
abbreviation (input) IP_OFF :: nat where "IP_OFF \<equiv> 20"
abbreviation (input) IP_TTL :: nat where "IP_TTL \<equiv> 22"
abbreviation (input) IP_P :: nat where "IP_P \<equiv> 23"
abbreviation (input) IP_SUM :: nat where "IP_SUM \<equiv> 24"
abbreviation (input) IP_SRC :: nat where "IP_SRC \<equiv> 26"
abbreviation (input) IP_DST :: nat where "IP_DST \<equiv> 30"

abbreviation (input) ICMP_HDR :: nat where "ICMP_HDR \<equiv> 34"
abbreviation (input) ICMP_CODE :: nat where "ICMP_CODE \<equiv> 35"
abbreviation (input) ICMP_SUM :: nat where "ICMP_SUM \<equiv> 36"
abbreviation (input) ICMP_DATA :: nat where "ICMP_DATA \<equiv> 42"

text \<open>Protocol constants (\<open>enum sr_ip_protocol\<close>, \<open>sr_ethertype\<close>, \<open>sr_arp_opcode\<close>, \<open>sr_arp_hrd_fmt\<close>).\<close>

definition ip_protocol_icmp :: byte where "ip_protocol_icmp = 0x01"
definition ethertype_arp :: u16 where "ethertype_arp = 0x0806"
definition ethertype_ip :: u16 where "ethertype_ip = 0x0800"
definition arp_op_request :: u16 where "arp_op_request = 0x0001"
definition arp_op_reply :: u16 where "arp_op_reply = 0x0002"
definition arp_hrd_ethernet :: u16 where "arp_hrd_ethernet = 0x0001"

lemmas protocol_constants = ip_protocol_icmp_def ethertype_arp_def ethertype_ip_def
  arp_op_request_def arp_op_reply_def arp_hrd_ethernet_def

section \<open>Struct images and overlays\<close>

definition eth_bytes :: "sr_ethernet_hdr \<Rightarrow> byte list" where
  "eth_bytes h = ether_dhost h @ ether_shost h @ bytes16 (ether_type h)"

definition get_eth :: "byte list \<Rightarrow> sr_ethernet_hdr" where
  "get_eth p = \<lparr>ether_dhost = slice p 0 6, ether_shost = slice p 6 6, ether_type = get16 p 12\<rparr>"

definition arp_bytes :: "sr_arp_hdr \<Rightarrow> byte list" where
  "arp_bytes h = bytes16 (ar_hrd h) @ bytes16 (ar_pro h) @ [ar_hln h, ar_pln h] @
     bytes16 (ar_op h) @ ar_sha h @ bytes32 (ar_sip h) @ ar_tha h @ bytes32 (ar_tip h)"

definition get_arp :: "byte list \<Rightarrow> nat \<Rightarrow> sr_arp_hdr" where
  "get_arp p i =
     \<lparr>ar_hrd = get16 p i, ar_pro = get16 p (i + 2), ar_hln = get8 p (i + 4),
      ar_pln = get8 p (i + 5), ar_op = get16 p (i + 6), ar_sha = slice p (i + 8) 6,
      ar_sip = get32 p (i + 14), ar_tha = slice p (i + 18) 6, ar_tip = get32 p (i + 24)\<rparr>"

definition vhl_byte :: "4 word \<Rightarrow> 4 word \<Rightarrow> byte" where
  \<comment> \<open>the bit-fields \<open>ip_v:4\<close> and \<open>ip_hl:4\<close>, low nibble first\<close>
  "vhl_byte v hl = push_bit 4 (ucast v) OR ucast hl"

definition hl_of :: "byte \<Rightarrow> 4 word" where "hl_of b = ucast b"
definition v_of :: "byte \<Rightarrow> 4 word" where "v_of b = ucast (drop_bit 4 b)"

definition ip_bytes :: "sr_ip_hdr \<Rightarrow> byte list" where
  "ip_bytes h = [vhl_byte (ip_v h) (ip_hl h), ip_tos h] @ bytes16 (ip_len h) @ bytes16 (ip_id h) @
     bytes16 (ip_off h) @ [ip_ttl h, ip_p h] @ bytes16 (ip_sum h) @ bytes32 (ip_src h) @
     bytes32 (ip_dst h)"

definition get_ip :: "byte list \<Rightarrow> nat \<Rightarrow> sr_ip_hdr" where
  "get_ip p i =
     \<lparr>ip_hl = hl_of (get8 p i), ip_v = v_of (get8 p i), ip_tos = get8 p (i + 1),
      ip_len = get16 p (i + 2), ip_id = get16 p (i + 4), ip_off = get16 p (i + 6),
      ip_ttl = get8 p (i + 8), ip_p = get8 p (i + 9), ip_sum = get16 p (i + 10),
      ip_src = get32 p (i + 12), ip_dst = get32 p (i + 16)\<rparr>"

definition t3_bytes :: "sr_icmp_t3_hdr \<Rightarrow> byte list" where
  "t3_bytes h = [icmp_type h, icmp_code h] @ bytes16 (icmp_sum h) @ bytes16 (t3_unused h) @
     bytes16 (t3_next_mtu h) @ t3_data h"

definition t11_bytes :: "sr_icmp_t11_hdr \<Rightarrow> byte list" where
  "t11_bytes h = [icmp_type h, icmp_code h] @ bytes16 (icmp_sum h) @ bytes32 (t11_unused h) @
     t11_data h"

text \<open>\<open>ethertype\<close> and \<open>ip_protocol\<close> of \<open>sr_utils.c\<close>.\<close>

definition ethertype :: "byte list \<Rightarrow> u16 res" where
  "ethertype buf = rbind (ld16 buf ETHER_TYPE) (\<lambda>t. Inr (ntohs t))"

definition ip_protocol :: "byte list \<Rightarrow> byte res" where
  "ip_protocol buf = ld8 buf 9"

lemma vhl_byte_fields [simp]: "hl_of (vhl_byte v hl) = hl" "v_of (vhl_byte v hl) = v"
proof -
  have "bit w (4 + n) \<longleftrightarrow> False" for w :: "4 word" and n
    using bit_imp_le_length [of w "4 + n"] by auto
  then show "hl_of (vhl_byte v hl) = hl" "v_of (vhl_byte v hl) = v"
    unfolding hl_of_def v_of_def vhl_byte_def
    by (auto intro!: bit_word_eqI simp: bit_simps)
qed

lemma get_eth_bytes:
  assumes "length (ether_dhost h) = 6" "length (ether_shost h) = 6"
  shows "get_eth (eth_bytes h @ rest) = h"
  using assms
  by (simp add: get_eth_def eth_bytes_def slice_def get16_def nth_append bytes16_def)

lemma length_hdr_bytes [simp]:
  "length (ether_dhost e) = 6 \<Longrightarrow> length (ether_shost e) = 6 \<Longrightarrow> length (eth_bytes e) = 14"
  "length (ar_sha a) = 6 \<Longrightarrow> length (ar_tha a) = 6 \<Longrightarrow> length (arp_bytes a) = 28"
  "length (ip_bytes i) = 20"
  by (simp_all add: eth_bytes_def arp_bytes_def ip_bytes_def)

lemma get_arp_bytes:
  assumes "length (ar_sha h) = 6" "length (ar_tha h) = 6"
  shows "get_arp (xs @ arp_bytes h @ rest) (length xs) = h"
proof -
  have "drop (length xs + k) (xs @ ys) = drop k ys" for k and ys :: "byte list" by simp
  then show ?thesis using assms
    by (simp add: get_arp_def arp_bytes_def get8_def get16_def get32_def slice_def add.assoc
        nth_append bytes16_def bytes32_def numeral_2_eq_2 numeral_3_eq_3
        mk32_byte32 [unfolded numeral_2_eq_2 numeral_3_eq_3])
qed

lemma get_ip_bytes: "get_ip (xs @ ip_bytes h @ rest) (length xs) = h"
  by (simp add: get_ip_def ip_bytes_def get8_def get16_def get32_def add.assoc nth_append
      bytes16_def bytes32_def numeral_2_eq_2 numeral_3_eq_3
      mk32_byte32 [unfolded numeral_2_eq_2 numeral_3_eq_3])

end
