(* ===== verification/Text.thy ===== *)
theory Text
  imports Prelude
begin

text \<open>
  Text: C strings, the numbers \<open>printf\<close> writes and \<open>atoi\<close> reads, and addresses in dotted form.  Characters are
  bytes; literals are given as HOL strings through \<open>asc\<close>.
\<close>

section \<open>Strings\<close>

text \<open>
  A C string is the list of its characters up to the terminating NUL; \<open>strncpy\<close> into a field of
  \<open>n\<close> bytes keeps at most \<open>n\<close> of them, and \<open>strncmp\<close> compares at most \<open>n\<close> and stops at a NUL.
\<close>

type_synonym cstr = "byte list"

definition c_string :: "byte list \<Rightarrow> cstr" where
  "c_string bs = takeWhile (\<lambda>c. c \<noteq> 0) bs"

definition strncpy :: "nat \<Rightarrow> byte list \<Rightarrow> cstr" where
  "strncpy n s = take n (c_string s)"

fun strneq :: "nat \<Rightarrow> byte list \<Rightarrow> byte list \<Rightarrow> bool" where
  \<comment> \<open>\<open>strncmp (a, b, n) == 0\<close>; the end of the list is the terminating NUL\<close>
  "strneq 0 a b \<longleftrightarrow> True"
| "strneq (Suc n) a b \<longleftrightarrow>
     (let x = (case a of [] \<Rightarrow> 0 | c # _ \<Rightarrow> c); y = (case b of [] \<Rightarrow> 0 | c # _ \<Rightarrow> c)
      in x = y \<and> (x = 0 \<or> strneq n (tl a) (tl b)))"

lemma strneq_c_string: "strneq n a b \<longleftrightarrow> strncpy n a = strncpy n b"
proof (induction n arbitrary: a b)
  case 0
  then show ?case by (simp add: strncpy_def)
next
  case (Suc n)
  then show ?case
    by (cases a; cases b) (auto simp: strncpy_def c_string_def Let_def)
qed

lemma strncpy_idem [simp]: "strncpy n (strncpy n s) = strncpy n s"
proof -
  let ?t = "take n (takeWhile (\<lambda>c. c \<noteq> 0) s)"
  have "\<forall>x \<in> set ?t. x \<noteq> 0"
    by (blast dest: in_set_takeD set_takeWhileD)
  then have "takeWhile (\<lambda>c. c \<noteq> 0) ?t = ?t" by (rule takeWhile_eq_all_conv [THEN iffD2])
  then have "take n (takeWhile (\<lambda>c. c \<noteq> 0) ?t) = ?t" by (simp only: take_take min.idem)
  then show ?thesis by (simp only: strncpy_def c_string_def)
qed

lemma strneq_refl [simp]: "strneq n a a"
  by (simp add: strneq_c_string)

section \<open>Characters\<close>

definition asc :: "string \<Rightarrow> byte list" where
  "asc s = map of_char s"

definition is_space :: "byte \<Rightarrow> bool" where
  "is_space c \<longleftrightarrow> c = 32 \<or> (9 \<le> c \<and> c \<le> 13)"

definition is_digit :: "byte \<Rightarrow> bool" where
  "is_digit c \<longleftrightarrow> 48 \<le> c \<and> c \<le> 57"

section \<open>Numbers\<close>

definition digit :: "nat \<Rightarrow> byte" where
  "digit d = (if d < 10 then 48 + word_of_nat d else 87 + word_of_nat d)"

fun number_text :: "nat \<Rightarrow> nat \<Rightarrow> byte list" where
  \<comment> \<open>a number in a base, at least one digit: \<open>%u\<close> and \<open>%x\<close>\<close>
  "number_text b n =
     (if b < 2 \<or> n < b then [digit n] else number_text b (n div b) @ [digit (n mod b)])"

declare number_text.simps [simp del]

definition int_text :: "int \<Rightarrow> byte list" where
  \<comment> \<open>\<open>%d\<close>\<close>
  "int_text i = (if i < 0 then 45 # number_text 10 (nat (- i)) else number_text 10 (nat i))"

definition pad_left :: "nat \<Rightarrow> byte \<Rightarrow> byte list \<Rightarrow> byte list" where
  "pad_left k c s = replicate (k - length s) c @ s"

definition digit_value :: "byte \<Rightarrow> nat" where
  "digit_value c = (if is_digit c then unat (c - 48) else unat (c - 87))"

definition number_value :: "nat \<Rightarrow> byte list \<Rightarrow> nat" where
  "number_value b s = foldl (\<lambda>v c. v * b + digit_value c) 0 s"

definition atoi :: "cstr \<Rightarrow> int" where
  \<comment> \<open>the digits after white space and a sign, as a \<open>long\<close> that saturates, cut to an \<open>int\<close>\<close>
  "atoi s =
     (let t = dropWhile is_space s;
          neg = (t \<noteq> [] \<and> hd t = 45);
          u = (if t \<noteq> [] \<and> (hd t = 45 \<or> hd t = 43) then tl t else t);
          v = int (number_value 10 (takeWhile is_digit u));
          v = (if neg then - v else v)
      in sint (word_of_int (max (- (2 ^ 63)) (min (2 ^ 63 - 1) v)) :: u32))"

lemma all_small_digits: "d < 16 \<Longrightarrow> d \<in> {0, 1, 2, 3, 4, 5, 6, 7, 8, 9, 10, 11, 12, 13, 14, 15 :: nat}"
  by (simp add: eval_nat_numeral less_Suc_eq)

lemma digit_facts:
  assumes "d < 16"
  shows "digit_value (digit d) = d" "digit d \<noteq> 0" "\<not> is_space (digit d)" "digit d \<noteq> 46" "digit d \<noteq> 58" "digit d \<noteq> 45"
    "is_digit (digit d) \<longleftrightarrow> d < 10" "digit d \<noteq> 43"
  using all_small_digits [OF assms] by (auto simp: digit_def digit_value_def is_digit_def is_space_def)

lemma number_value_snoc: "number_value b (s @ [c]) = number_value b s * b + digit_value c"
  by (simp add: number_value_def)

lemma number_round: "2 \<le> b \<Longrightarrow> b \<le> 16 \<Longrightarrow> number_value b (number_text b n) = n"
proof (induction b n rule: number_text.induct)
  case (1 b n)
  show ?case
  proof (cases "n < b")
    case True
    then show ?thesis
      using 1 digit_facts(1) [of n] by (simp add: number_text.simps [of b n] number_value_def)
  next
    case False
    then have "n mod b < 16" using 1(3) mod_less_divisor [of b n] 1(2) by linarith
    then show ?thesis
      using 1 False by (simp add: number_text.simps [of b n] number_value_snoc digit_facts(1))
  qed
qed

lemma number_digits: "b \<le> 16 \<Longrightarrow> 2 \<le> b \<Longrightarrow> c \<in> set (number_text b n) \<Longrightarrow> \<exists>d < b. c = digit d"
proof (induction b n rule: number_text.induct)
  case (1 b n)
  show ?case
  proof (cases "n < b")
    case True
    then show ?thesis using 1(4) by (auto simp: number_text.simps [of b n])
  next
    case False
    then have "c \<in> set (number_text b (n div b)) \<or> c = digit (n mod b)"
      using 1(3,4) by (auto simp: number_text.simps [of b n])
    then show ?thesis
    proof
      assume "c \<in> set (number_text b (n div b))"
      then show ?thesis using 1 False by simp
    next
      assume "c = digit (n mod b)"
      then show ?thesis using mod_less_divisor [of b n] 1(3) by (intro exI [of _ "n mod b"]) simp
    qed
  qed
qed

lemma number_text_nonempty [simp]: "number_text b n \<noteq> []"
  by (simp add: number_text.simps [of b n])

lemma number_text_length: "2 \<le> b \<Longrightarrow> n < b ^ Suc k \<Longrightarrow> length (number_text b n) \<le> Suc k"
proof (induction k arbitrary: n)
  case 0
  then show ?case by (simp add: number_text.simps [of b n])
next
  case (Suc k)
  then have "n div b < b ^ Suc k" by (simp add: less_mult_imp_div_less mult.commute)
  then show ?case using Suc.IH [of "n div b"] Suc.prems by (simp add: number_text.simps [of b n])
qed

lemma decimal_chars:
  assumes "c \<in> set (number_text 10 n)"
  shows "is_digit c" "\<not> is_space c" "c \<noteq> 0" "c \<noteq> 46" "c \<noteq> 58" "c \<noteq> 45" "c \<noteq> 43"
  using number_digits [OF _ _ assms] digit_facts by auto

lemma atoi_int_text:
  assumes "- (2 ^ 31) \<le> i" "i < 2 ^ 31"
  shows "atoi (int_text i) = i"
proof -
  have w: "sint (word_of_int i :: u32) = i"
    using assms by (simp add: signed_of_int signed_take_bit_int_eq_self)
  have t: "takeWhile is_digit (number_text 10 n) = number_text 10 n" for n
    using decimal_chars(1) by (simp add: takeWhile_eq_all_conv)
  have d: "dropWhile is_space (number_text 10 n) = number_text 10 n" for n
    using decimal_chars(2) [OF hd_in_set [OF number_text_nonempty [of 10 n]]]
    by (cases "number_text 10 n") simp_all
  have h: "hd (number_text 10 n) \<noteq> 45" "hd (number_text 10 n) \<noteq> 43" for n
    using decimal_chars(6,7) hd_in_set [OF number_text_nonempty] by blast+
  show ?thesis
  proof (cases "i < 0")
    case True
    then show ?thesis
      using assms w by (simp add: atoi_def int_text_def t number_round is_space_def min_def max_def)
  next
    case False
    then show ?thesis
      using assms w by (simp add: atoi_def int_text_def t d h number_round min_def max_def)
  qed
qed

section \<open>Fields of a string\<close>

definition strsep :: "byte \<Rightarrow> cstr \<Rightarrow> cstr \<times> cstr option" where
  \<comment> \<open>the part before the first separator, and the rest if there is one\<close>
  "strsep c s =
     (takeWhile (\<lambda>x. x \<noteq> c) s, if c \<in> set s then Some (tl (dropWhile (\<lambda>x. x \<noteq> c) s)) else None)"

lemma until_separator:
  assumes "c \<notin> set a"
  shows "takeWhile (\<lambda>x. x \<noteq> c) (a @ c # b) = a" "dropWhile (\<lambda>x. x \<noteq> c) (a @ c # b) = c # b"
    "takeWhile (\<lambda>x. x \<noteq> c) a = a"
proof -
  have a: "\<And>x. x \<in> set a \<Longrightarrow> x \<noteq> c" using assms by blast
  show "takeWhile (\<lambda>x. x \<noteq> c) (a @ c # b) = a" "dropWhile (\<lambda>x. x \<noteq> c) (a @ c # b) = c # b"
    using takeWhile_append2 [of a "\<lambda>x. x \<noteq> c" "c # b"] dropWhile_append2 [of a "\<lambda>x. x \<noteq> c" "c # b"] a by simp_all
  show "takeWhile (\<lambda>x. x \<noteq> c) a = a" using a by (simp add: takeWhile_eq_all_conv)
qed

lemma strsep_append: "c \<notin> set a \<Longrightarrow> strsep c (a @ c # b) = (a, Some b)"
  by (simp add: strsep_def until_separator)

lemma strsep_none: "c \<notin> set a \<Longrightarrow> strsep c a = (a, None)"
  by (simp add: strsep_def until_separator)

fun split_on :: "byte \<Rightarrow> byte list \<Rightarrow> byte list list" where
  "split_on c [] = [[]]"
| "split_on c (x # xs) =
     (if x = c then [] # split_on c xs else (case split_on c xs of [] \<Rightarrow> [[x]] | f # fs \<Rightarrow> (x # f) # fs))"

lemma split_on_append: "c \<notin> set a \<Longrightarrow> split_on c (a @ c # b) = a # split_on c b"
  by (induction a) auto

lemma split_on_single: "c \<notin> set a \<Longrightarrow> split_on c a = [a]"
  by (induction a) auto

section \<open>Addresses\<close>

definition dotted :: "u32 \<Rightarrow> byte list" where
  \<comment> \<open>\<open>inet_ntoa\<close>: the four bytes in the order of memory\<close>
  "dotted w = number_text 10 (unat (byte32 0 w)) @ 46 # number_text 10 (unat (byte32 1 w)) @ 46 #
     number_text 10 (unat (byte32 2 w)) @ 46 # number_text 10 (unat (byte32 3 w))"

definition dotted_value :: "byte list \<Rightarrow> u32 option" where
  \<comment> \<open>an address parser for the examples\<close>
  "dotted_value s =
     (case map (number_value 10) (split_on 46 s) of
        [a, b, c, d] \<Rightarrow> Some (mk32 (word_of_nat d) (word_of_nat c) (word_of_nat b) (word_of_nat a))
      | _ \<Rightarrow> None)"

lemma dotted_round: "dotted_value (dotted w) = Some w"
proof -
  have n: "46 \<notin> set (number_text 10 n)" for n using decimal_chars(4) by blast
  show ?thesis
    using mk32_byte32 [of w]
    by (simp add: dotted_value_def dotted_def split_on_append split_on_single n number_round)
qed

lemma dotted_chars:
  assumes "c \<in> set (dotted w)"
  shows "\<not> is_space c" "c \<noteq> 0" "c \<noteq> 58"
proof -
  have "c = 46 \<or> (\<exists>n. c \<in> set (number_text 10 n))" using assms unfolding dotted_def by auto
  then show "\<not> is_space c" "c \<noteq> 0" "c \<noteq> 58"
    using decimal_chars(2,3,5) [of c] by (auto simp: is_space_def)
qed

lemma decimal_byte_length: "length (number_text 10 (unat (b :: byte))) \<le> 3"
  using number_text_length [of 10 "unat b" 2] unat_byte_less [of b] by simp

lemma dotted_length: "length (dotted w) \<le> 15"
  using decimal_byte_length [of "byte32 0 w"] decimal_byte_length [of "byte32 1 w"]
    decimal_byte_length [of "byte32 2 w"] decimal_byte_length [of "byte32 3 w"]
  by (simp add: dotted_def)

lemma dotted_nonempty [simp]: "dotted w \<noteq> []"
  by (simp add: dotted_def)

section \<open>Output\<close>

fun cat :: "byte list res list \<Rightarrow> byte list res" where
  \<comment> \<open>successive calls of \<open>fprintf\<close>\<close>
  "cat [] = Inr []"
| "cat (t # ts) = rbind t (\<lambda>a. rbind (cat ts) (\<lambda>b. Inr (a @ b)))"

definition text_line :: "string \<Rightarrow> byte list" where
  "text_line s = asc s @ [10]"

end
