(* ===== verification/Router_State.thy ===== *)
theory Router_State
  imports Packet Text
begin

text \<open>
  The state of one router, \<open>struct sr_instance\<close>, and the two tables that are filled at start-up:
  the interface list of \<open>sr_if.c\<close> and the routing table of \<open>sr_rt.c\<close>.  The singly linked lists of
  the code are lists here (nothing but the list itself holds a pointer into them).  The fields
  after the code's own stand for the environment of the process: the clock, the socket to the VNS
  server with what has been written to it, and the contents of fresh \<open>malloc\<close> memory.
\<close>

definition sr_IFACE_NAMELEN :: nat where "sr_IFACE_NAMELEN = 32"

section \<open>State\<close>

record sr_if =
  if_name :: cstr
  if_addr :: "byte list"
  if_ip :: u32
  if_speed :: u32

record sr_rt =
  rt_dest :: u32
  rt_gw :: u32
  rt_mask :: u32
  rt_interface :: cstr

record sr_packet =
  pk_buf :: "byte list"
  pk_len :: nat
  pk_iface :: cstr

record sr_arpentry =
  ae_mac :: "byte list"
  ae_ip :: u32
  ae_added :: int
  ae_valid :: bool

text \<open>A request carries its address, which \<open>sr_arpreq_destroy\<close> compares.\<close>

record sr_arpreq =
  rq_ptr :: nat
  rq_ip :: u32
  rq_sent :: int
  rq_times_sent :: u32
  rq_packets :: "sr_packet list"

record sr_arpcache =
  entries :: "sr_arpentry list"
  requests :: "sr_arpreq list"

definition SR_ARPCACHE_SZ :: nat where "SR_ARPCACHE_SZ = 100"
definition SR_ARPCACHE_TO :: int where "SR_ARPCACHE_TO = 15"

record sr_instance =
  user :: cstr
  host :: cstr
  template :: cstr
  topo_id :: u16
  if_list :: "sr_if list"
  routing_table :: "sr_rt list"
  cache :: sr_arpcache
  logfile :: "byte list option"
  now :: int
  now_usec :: int
  sock_ok :: bool
  sock_out :: "byte list list"
  junk :: "nat \<Rightarrow> nat \<Rightarrow> byte"
  allocs :: nat

definition malloc :: "sr_instance \<Rightarrow> nat \<Rightarrow> byte list \<times> sr_instance" where
  \<comment> \<open>\<open>n\<close> bytes of fresh memory with indeterminate contents; allocation does not fail\<close>
  "malloc sr n = (map (junk sr (allocs sr)) [0..<n], sr\<lparr>allocs := Suc (allocs sr)\<rparr>)"

lemma length_malloc [simp]: "length (fst (malloc sr n)) = n"
  by (simp add: malloc_def)

section \<open>Interfaces: \<open>sr_if.c\<close>\<close>

definition sr_get_interface :: "sr_instance \<Rightarrow> cstr \<Rightarrow> sr_if option" where
  "sr_get_interface sr name = find (\<lambda>i. strneq sr_IFACE_NAMELEN (if_name i) name) (if_list sr)"

definition junk32 :: "sr_instance \<Rightarrow> nat \<Rightarrow> u32" where
  "junk32 sr i = get32 (map (junk sr (allocs sr)) [0..<sr_IFACE_NAMELEN + 16]) i"

definition sr_add_interface :: "sr_instance \<Rightarrow> cstr \<Rightarrow> sr_instance" where
  \<comment> \<open>the node comes from \<open>malloc\<close>: everything but its name is indeterminate\<close>
  "sr_add_interface sr name =
     (let node = \<lparr>if_name = strncpy sr_IFACE_NAMELEN name,
                  if_addr = map (\<lambda>k. junk sr (allocs sr) (32 + k)) [0..<6],
                  if_ip = junk32 sr 40, if_speed = junk32 sr 44\<rparr>
      in sr\<lparr>if_list := (if if_list sr = [] then [node] else if_list sr @ [node]),
            allocs := Suc (allocs sr)\<rparr>)"

definition sr_set_ether_addr :: "sr_instance \<Rightarrow> byte list \<Rightarrow> sr_instance res" where
  "sr_set_ether_addr sr addr =
     (if if_list sr = [] then Inl AssertFailed
      else rbind (rd addr 0 6) (\<lambda>a.
        Inr (sr\<lparr>if_list := butlast (if_list sr) @ [(last (if_list sr))\<lparr>if_addr := a\<rparr>]\<rparr>)))"

definition sr_set_ether_ip :: "sr_instance \<Rightarrow> u32 \<Rightarrow> sr_instance res" where
  "sr_set_ether_ip sr ip_nbo =
     (if if_list sr = [] then Inl AssertFailed
      else Inr (sr\<lparr>if_list := butlast (if_list sr) @ [(last (if_list sr))\<lparr>if_ip := ip_nbo\<rparr>]\<rparr>))"

definition IPcheck :: "u32 \<Rightarrow> sr_instance \<Rightarrow> sr_if option" where
  \<comment> \<open>\<open>sr_router.c\<close>: the first interface that has the address\<close>
  "IPcheck tar sr = find (\<lambda>i. tar = if_ip i) (if_list sr)"

lemma sr_get_interface_Some:
  "sr_get_interface sr name = Some i \<Longrightarrow>
    i \<in> set (if_list sr) \<and> strncpy 32 (if_name i) = strncpy 32 name"
  by (auto simp: sr_get_interface_def find_Some_iff strneq_c_string sr_IFACE_NAMELEN_def)

lemma sr_get_interface_None:
  "sr_get_interface sr name = None \<longleftrightarrow>
    (\<forall>i \<in> set (if_list sr). strncpy 32 (if_name i) \<noteq> strncpy 32 name)"
  by (auto simp: sr_get_interface_def find_None_iff strneq_c_string sr_IFACE_NAMELEN_def)

lemma IPcheck_Some: "IPcheck tar sr = Some i \<Longrightarrow> i \<in> set (if_list sr) \<and> if_ip i = tar"
  by (auto simp: IPcheck_def find_Some_iff)

lemma IPcheck_None: "IPcheck tar sr = None \<longleftrightarrow> (\<forall>i \<in> set (if_list sr). if_ip i \<noteq> tar)"
  by (auto simp: IPcheck_def find_None_iff)

text \<open>An interface is announced by name, address and IP in that order; then it can be looked up.\<close>

lemma added_interface_found:
  assumes "\<forall>i \<in> set (if_list sr). strncpy 32 (if_name i) \<noteq> strncpy 32 name" "length a = 6"
    and "sr_set_ether_addr (sr_add_interface sr name) a = Inr sr1"
    and "sr_set_ether_ip sr1 ip = Inr sr2"
  shows "\<exists>i. sr_get_interface sr2 name = Some i \<and> if_addr i = a \<and> if_ip i = ip"
proof -
  have "find (\<lambda>i. strneq 32 (if_name i) name) (if_list sr) = None"
    using assms(1) by (simp add: find_None_iff strneq_c_string)
  moreover have "strneq 32 (strncpy 32 name) name"
    by (simp add: strneq_c_string)
  ultimately show ?thesis
    using assms by (auto simp: sr_set_ether_addr_def sr_add_interface_def sr_set_ether_ip_def
        sr_get_interface_def rd_def slice_def Let_def sr_IFACE_NAMELEN_def
        find_append split: if_splits)
qed

end
