(* ===== verification/Routing.thy ===== *)
theory Routing
  imports Router_State
begin

text \<open>
  The routing table: building it (\<open>sr_rt.c\<close>), checking it against the interfaces
  (\<open>sr_verify_routing_table\<close> of \<open>sr_main.c\<close>) and searching it (\<open>longestprefixmatch\<close> of
  \<open>sr_router.c\<close>).  The search compares masks as the 32-bit numbers a little-endian machine loads
  from network-order memory; the lemmas show that for contiguous masks this order is the order
  by prefix length, so that the walk returns the longest match.
\<close>

section \<open>Building the table: \<open>sr_rt.c\<close>\<close>

definition sr_add_rt_entry :: "sr_instance \<Rightarrow> u32 \<Rightarrow> u32 \<Rightarrow> u32 \<Rightarrow> cstr \<Rightarrow> sr_instance" where
  "sr_add_rt_entry sr dest gw msk ifname =
     (let node = \<lparr>rt_dest = dest, rt_gw = gw, rt_mask = msk,
                  rt_interface = strncpy sr_IFACE_NAMELEN ifname\<rparr>
      in if routing_table sr = [] then sr\<lparr>routing_table := [node]\<rparr>
         else sr\<lparr>routing_table := routing_table sr @ [node]\<rparr>)"

text \<open>
  \<open>sscanf (line, "%s %s %s %s", \<dots>)\<close> into four buffers of 32 bytes: each conversion skips white
  space and reads a word; at the end of the line the remaining buffers keep what they held (at
  first nothing, so reading them faults); a word of 32 or more characters overruns its buffer.
\<close>

definition next_word :: "byte list \<Rightarrow> byte list \<times> byte list" where
  "next_word s = (let t = dropWhile is_space s
                  in (takeWhile (\<lambda>c. \<not> is_space c) t, dropWhile (\<lambda>c. \<not> is_space c) t))"

fun sscanf_words :: "cstr option list \<Rightarrow> byte list \<Rightarrow> cstr option list res" where
  "sscanf_words [] s = Inr []"
| "sscanf_words (b # bs) s =
     (let (w, rest) = next_word s in
      if w = [] then Inr (b # bs)
      else if 32 \<le> length w then Inl OutOfBounds
      else rbind (sscanf_words bs rest) (\<lambda>r. Inr (Some w # r)))"

definition buffer :: "cstr option list \<Rightarrow> nat \<Rightarrow> cstr res" where
  "buffer bufs k = (case bufs ! k of None \<Rightarrow> Inl Uninitialised | Some s \<Rightarrow> Inr s)"

text \<open>
  The loop of \<open>sr_load_rt\<close> over the lines \<open>fgets\<close> returns; \<open>inet_aton\<close> is the C library's address
  parser, a parameter.
\<close>

fun load_lines ::
  "(cstr \<Rightarrow> u32 option) \<Rightarrow> sr_instance \<Rightarrow> bool \<Rightarrow> cstr option list \<Rightarrow> byte list list \<Rightarrow>
     (int \<times> sr_instance) res" where
  "load_lines inet_aton sr cleared bufs [] = Inr (0, sr)"
| "load_lines inet_aton sr cleared bufs (line # lines) =
     rbind (sscanf_words bufs (c_string line)) (\<lambda>bufs.
     rbind (buffer bufs 0) (\<lambda>dest.
     case inet_aton dest of None \<Rightarrow> Inr (-1, sr) | Some dest_addr \<Rightarrow>
     rbind (buffer bufs 1) (\<lambda>gw.
     case inet_aton gw of None \<Rightarrow> Inr (-1, sr) | Some gw_addr \<Rightarrow>
     rbind (buffer bufs 2) (\<lambda>msk.
     case inet_aton msk of None \<Rightarrow> Inr (-1, sr) | Some mask_addr \<Rightarrow>
     rbind (buffer bufs 3) (\<lambda>iface.
     let sr1 = (if cleared then sr else sr\<lparr>routing_table := []\<rparr>)
     in load_lines inet_aton (sr_add_rt_entry sr1 dest_addr gw_addr mask_addr iface)
          True bufs lines)))))"

definition sr_load_rt ::
  "(cstr \<Rightarrow> u32 option) \<Rightarrow> sr_instance \<Rightarrow> byte list list option \<Rightarrow> (int \<times> sr_instance) res" where
  \<comment> \<open>\<open>None\<close>: the file is not readable\<close>
  "sr_load_rt inet_aton sr file =
     (case file of None \<Rightarrow> Inr (-1, sr)
      | Some lines \<Rightarrow> load_lines inet_aton sr False [None, None, None, None] lines)"

section \<open>Consistency with the hardware: \<open>sr_main.c\<close>\<close>

fun count_unknown :: "sr_instance \<Rightarrow> sr_rt list \<Rightarrow> int \<Rightarrow> int" where
  "count_unknown sr [] ret = ret"
| "count_unknown sr (rt # rts) ret =
     (case find (\<lambda>i. strneq sr_IFACE_NAMELEN (if_name i) (rt_interface rt)) (if_list sr) of
        None \<Rightarrow> count_unknown sr rts (ret + 1)
      | Some _ \<Rightarrow> count_unknown sr rts ret)"

definition sr_verify_routing_table :: "sr_instance \<Rightarrow> int" where
  "sr_verify_routing_table sr =
     (if if_list sr = [] \<or> routing_table sr = [] then 999
      else count_unknown sr (routing_table sr) 0)"

section \<open>The search: \<open>longestprefixmatch\<close>\<close>

fun lpm_walk :: "u32 \<Rightarrow> sr_rt list \<Rightarrow> sr_rt option \<Rightarrow> u32 \<Rightarrow> sr_rt option" where
  "lpm_walk target_ip [] nexthop longest = nexthop"
| "lpm_walk target_ip (next # rest) nexthop longest =
     (let msk = rt_mask next in
      if msk AND rt_dest next = msk AND target_ip
      then if nexthop = None \<or> msk > longest
           then lpm_walk target_ip rest (Some next) msk
           else lpm_walk target_ip rest nexthop longest
      else lpm_walk target_ip rest nexthop longest)"

definition longestprefixmatch :: "sr_instance \<Rightarrow> u32 \<Rightarrow> sr_rt option" where
  "longestprefixmatch sr target_ip = lpm_walk target_ip (routing_table sr) None 0"

definition rt_matches :: "u32 \<Rightarrow> sr_rt \<Rightarrow> bool" where
  "rt_matches ip e \<longleftrightarrow> rt_mask e AND rt_dest e = rt_mask e AND ip"

text \<open>The first of the matching entries with the numerically largest mask.\<close>

definition first_best :: "u32 \<Rightarrow> sr_rt list \<Rightarrow> sr_rt \<Rightarrow> bool" where
  "first_best ip es e \<longleftrightarrow> (\<exists>xs ys. es = xs @ e # ys \<and> rt_matches ip e \<and>
     (\<forall>x \<in> set xs. rt_matches ip x \<longrightarrow> rt_mask x < rt_mask e) \<and>
     (\<forall>y \<in> set ys. rt_matches ip y \<longrightarrow> rt_mask y \<le> rt_mask e))"

lemma first_best_max: "first_best ip es e \<Longrightarrow> x \<in> set es \<Longrightarrow> rt_matches ip x \<Longrightarrow> rt_mask x \<le> rt_mask e"
  by (auto simp: first_best_def order_less_imp_le)

lemma first_best_Cons_skip:
  assumes "first_best ip es e" "rt_matches ip c \<Longrightarrow> rt_mask c < rt_mask e"
  shows "first_best ip (c # es) e"
proof -
  from assms(1) obtain xs ys where "es = xs @ e # ys" "rt_matches ip e"
    "\<forall>x \<in> set xs. rt_matches ip x \<longrightarrow> rt_mask x < rt_mask e"
    "\<forall>y \<in> set ys. rt_matches ip y \<longrightarrow> rt_mask y \<le> rt_mask e"
    by (auto simp: first_best_def)
  then show ?thesis using assms(2) unfolding first_best_def
    by (intro exI [of _ "c # xs"] exI [of _ ys]) auto
qed

lemma first_best_insert:
  assumes "first_best ip (c # es) e" "rt_matches ip c" "rt_matches ip a \<Longrightarrow> rt_mask a \<le> rt_mask c"
  shows "first_best ip (c # a # es) e"
proof -
  from assms(1) obtain xs ys where p: "c # es = xs @ e # ys" "rt_matches ip e"
    "\<forall>x \<in> set xs. rt_matches ip x \<longrightarrow> rt_mask x < rt_mask e"
    "\<forall>y \<in> set ys. rt_matches ip y \<longrightarrow> rt_mask y \<le> rt_mask e"
    by (auto simp: first_best_def)
  show ?thesis
  proof (cases xs)
    case Nil
    with p assms(3) show ?thesis unfolding first_best_def
      by (intro exI [of _ "[]"] exI [of _ "a # ys"]) auto
  next
    case (Cons b bs)
    with p assms(2,3) show ?thesis unfolding first_best_def
      by (intro exI [of _ "c # a # bs"] exI [of _ ys]) auto
  qed
qed

lemma lpm_walk_first_best:
  "rt_matches ip c \<Longrightarrow> \<exists>e. lpm_walk ip es (Some c) (rt_mask c) = Some e \<and> first_best ip (c # es) e"
proof (induction es arbitrary: c)
  case Nil
  then show ?case
    unfolding first_best_def
    by (intro exI [of _ c] conjI exI [of _ "[]"]) simp_all
next
  case (Cons a es)
  show ?case
  proof (cases "rt_matches ip a \<and> rt_mask c < rt_mask a")
    case True
    from Cons.IH [of a] True obtain e where
      e: "lpm_walk ip es (Some a) (rt_mask a) = Some e" "first_best ip (a # es) e" by blast
    have "rt_mask a \<le> rt_mask e" using first_best_max [OF e(2)] True by simp
    then have "first_best ip (c # a # es) e"
      using True by (intro first_best_Cons_skip [OF e(2)]) auto
    with True e show ?thesis
      by (simp add: rt_matches_def Let_def)
  next
    case False
    from Cons.IH [OF Cons.prems] obtain e where
      "lpm_walk ip es (Some c) (rt_mask c) = Some e" "first_best ip (c # es) e" by blast
    with False Cons.prems show ?thesis
      by (auto simp: Let_def rt_matches_def intro!: first_best_insert)
  qed
qed

lemma lpm_walk_skip: "\<not> rt_matches ip a \<Longrightarrow> lpm_walk ip (a # es) c l = lpm_walk ip es c l"
  by (simp add: rt_matches_def Let_def)

lemma lpm_walk_start:
  "rt_matches ip a \<Longrightarrow> lpm_walk ip (a # es) None l = lpm_walk ip es (Some a) (rt_mask a)"
  by (simp add: rt_matches_def Let_def)

lemma lpm_walk_None:
  "case lpm_walk ip es None l of
      None \<Rightarrow> \<forall>x \<in> set es. \<not> rt_matches ip x
    | Some e \<Rightarrow> first_best ip es e"
proof (induction es)
  case Nil
  then show ?case by simp
next
  case (Cons a es)
  show ?case
  proof (cases "rt_matches ip a")
    case True
    then obtain e where "lpm_walk ip es (Some a) (rt_mask a) = Some e" "first_best ip (a # es) e"
      using lpm_walk_first_best by blast
    then show ?thesis by (simp only: lpm_walk_start [OF True] option.case)
  next
    case False
    with Cons.IH show ?thesis
      unfolding lpm_walk_skip [OF False]
      by (cases "lpm_walk ip es None l") (auto intro: first_best_Cons_skip)
  qed
qed

lemma longestprefixmatch_None:
  "longestprefixmatch sr ip = None \<longleftrightarrow> (\<forall>e \<in> set (routing_table sr). \<not> rt_matches ip e)"
  using lpm_walk_None [where ip = ip and es = "routing_table sr" and l = 0]
  by (auto simp: longestprefixmatch_def first_best_def split: option.splits)

lemma longestprefixmatch_Some:
  "longestprefixmatch sr ip = Some e \<Longrightarrow> first_best ip (routing_table sr) e"
  using lpm_walk_None [where ip = ip and es = "routing_table sr" and l = 0]
  by (simp add: longestprefixmatch_def)

lemma longestprefixmatch_in: "longestprefixmatch sr ip = Some e \<Longrightarrow> e \<in> set (routing_table sr)"
  using longestprefixmatch_Some by (fastforce simp: first_best_def)

section \<open>Contiguous masks\<close>

definition prefix_mask :: "nat \<Rightarrow> u32" where
  \<comment> \<open>the mask of the \<open>n\<close> leading bits, as loaded from network-order memory\<close>
  "prefix_mask n = htonl (push_bit (32 - n) (- 1))"

lemma u32_eqI:
  "\<lbrakk>byte32 0 a = byte32 0 b; byte32 1 a = byte32 1 b; byte32 2 a = byte32 2 b; byte32 3 a = byte32 3 b\<rbrakk>
    \<Longrightarrow> a = b"
  by (subst mk32_byte32 [of a, symmetric], subst mk32_byte32 [of b, symmetric]) simp

lemma byte32_and: "byte32 k (a AND b) = byte32 k a AND byte32 k b"
  unfolding byte32_def by (rule bit_word_eqI) (simp add: bit_simps)

lemma htonl_and: "htonl (a AND b) = htonl a AND htonl b"
  by (rule u32_eqI) (simp_all add: byte32_and htonl_def)

lemma push_bit_mask_and:
  "m \<le> n \<Longrightarrow> push_bit n (- 1 :: u32) AND push_bit m (- 1) = push_bit n (- 1)"
  by (rule bit_word_eqI) (auto simp: bit_simps)

lemma prefix_mask_and: "m \<le> n \<Longrightarrow> prefix_mask m AND prefix_mask n = prefix_mask m"
  unfolding prefix_mask_def htonl_and [symmetric] by (subst push_bit_mask_and) auto

lemma prefix_mask_neq:
  assumes "m < n" "n \<le> 32"
  shows "prefix_mask m \<noteq> prefix_mask n"
proof -
  have "bit (push_bit (32 - n) (- 1 :: u32)) (32 - n)" "\<not> bit (push_bit (32 - m) (- 1 :: u32)) (32 - n)"
    using assms by (auto simp: bit_simps)
  then have "push_bit (32 - n) (- 1 :: u32) \<noteq> push_bit (32 - m) (- 1)" by metis
  then show ?thesis by (simp add: prefix_mask_def)
qed

lemma prefix_mask_mono: "m < n \<Longrightarrow> n \<le> 32 \<Longrightarrow> prefix_mask m < prefix_mask n"
  using prefix_mask_and [of m n] prefix_mask_neq [of m n]
    word_and_le1 [of "prefix_mask m" "prefix_mask n"]
  by (simp add: order_less_le)

lemma prefix_mask_le_iff: "m \<le> 32 \<Longrightarrow> n \<le> 32 \<Longrightarrow> prefix_mask m \<le> prefix_mask n \<longleftrightarrow> m \<le> n"
  using prefix_mask_mono [of m n] prefix_mask_mono [of n m] by (cases m n rule: linorder_cases) auto

definition same_prefix :: "nat \<Rightarrow> u32 \<Rightarrow> u32 \<Rightarrow> bool" where
  \<comment> \<open>the two network-order addresses agree in their \<open>n\<close> leading bits\<close>
  "same_prefix n a b \<longleftrightarrow> drop_bit (32 - n) (ntohl a) = drop_bit (32 - n) (ntohl b)"

lemma mask_and_eq_iff:
  "push_bit n (- 1 :: u32) AND a = push_bit n (- 1) AND b \<longleftrightarrow> drop_bit n a = drop_bit n b"
  (is "?l \<longleftrightarrow> ?r")
proof
  assume l: ?l
  show ?r
  proof (rule bit_word_eqI)
    fix k assume "k < LENGTH(32)"
    have "bit (push_bit n (- 1 :: u32) AND a) (n + k) = bit (push_bit n (- 1 :: u32) AND b) (n + k)"
      using l by simp
    then show "bit (drop_bit n a) k = bit (drop_bit n b) k"
      by (auto simp: bit_simps dest: bit_u32_less)
  qed
next
  assume r: ?r
  show ?l
  proof (rule bit_word_eqI)
    fix k assume k: "k < LENGTH(32)"
    have "bit (drop_bit n a) (k - n) = bit (drop_bit n b) (k - n)" using r by simp
    with k show "bit (push_bit n (- 1) AND a) k = bit (push_bit n (- 1) AND b) k"
      by (auto simp: bit_simps)
  qed
qed

lemma rt_matches_prefix:
  assumes "rt_mask e = prefix_mask n"
  shows "rt_matches ip e \<longleftrightarrow> same_prefix n (rt_dest e) ip"
proof -
  have "rt_matches ip e \<longleftrightarrow> htonl (rt_mask e AND rt_dest e) = htonl (rt_mask e AND ip)"
    by (simp add: rt_matches_def)
  also have "\<dots> \<longleftrightarrow> push_bit (32 - n) (- 1) AND ntohl (rt_dest e) = push_bit (32 - n) (- 1) AND ntohl ip"
    unfolding htonl_and assms prefix_mask_def by simp
  finally show ?thesis unfolding mask_and_eq_iff same_prefix_def .
qed

text \<open>C2: When every mask of the table is a contiguous prefix mask, \<open>longestprefixmatch\<close> returns a route
  whose prefix covers the target and none whose prefix is shorter than that of another covering route;
  of equally long ones it returns the first in the table; and it returns null exactly when no
  route covers the target.\<close>

theorem longest_prefix_match:
  assumes "\<forall>e \<in> set (routing_table sr). plen e \<le> 32 \<and> rt_mask e = prefix_mask (plen e)"
  shows "case longestprefixmatch sr ip of
      None \<Rightarrow> \<forall>x \<in> set (routing_table sr). \<not> same_prefix (plen x) (rt_dest x) ip
    | Some e \<Rightarrow> \<exists>xs ys. routing_table sr = xs @ e # ys \<and> same_prefix (plen e) (rt_dest e) ip \<and>
        (\<forall>x \<in> set xs. same_prefix (plen x) (rt_dest x) ip \<longrightarrow> plen x < plen e) \<and>
        (\<forall>y \<in> set ys. same_prefix (plen y) (rt_dest y) ip \<longrightarrow> plen y \<le> plen e)"
proof (cases "longestprefixmatch sr ip")
  case None
  then have "\<forall>x \<in> set (routing_table sr). \<not> same_prefix (plen x) (rt_dest x) ip"
    using assms rt_matches_prefix by (auto simp: longestprefixmatch_None)
  with None show ?thesis by simp
next
  case (Some e)
  then obtain xs ys where t: "routing_table sr = xs @ e # ys" and m: "rt_matches ip e"
    and x: "\<forall>x \<in> set xs. rt_matches ip x \<longrightarrow> rt_mask x < rt_mask e"
    and y: "\<forall>y \<in> set ys. rt_matches ip y \<longrightarrow> rt_mask y \<le> rt_mask e"
    using longestprefixmatch_Some [OF Some] by (auto simp: first_best_def)
  have p: "plen a \<le> 32" "rt_mask a = prefix_mask (plen a)"
    "rt_matches ip a \<longleftrightarrow> same_prefix (plen a) (rt_dest a) ip" if "a \<in> set xs \<union> {e} \<union> set ys" for a
    using that assms t rt_matches_prefix [of a "plen a" ip] by auto
  have "\<forall>a \<in> set xs. same_prefix (plen a) (rt_dest a) ip \<longrightarrow> plen a < plen e"
  proof (intro ballI impI)
    fix a assume a: "a \<in> set xs" "same_prefix (plen a) (rt_dest a) ip"
    then have "prefix_mask (plen a) < prefix_mask (plen e)" using x p [of a] p [of e] by auto
    then have "\<not> prefix_mask (plen e) \<le> prefix_mask (plen a)" by simp
    then show "plen a < plen e" using prefix_mask_le_iff p(1) [of a] p(1) [of e] a(1) by auto
  qed
  moreover have "\<forall>a \<in> set ys. same_prefix (plen a) (rt_dest a) ip \<longrightarrow> plen a \<le> plen e"
  proof (intro ballI impI)
    fix a assume a: "a \<in> set ys" "same_prefix (plen a) (rt_dest a) ip"
    then have "prefix_mask (plen a) \<le> prefix_mask (plen e)" using y p [of a] p [of e] by auto
    then show "plen a \<le> plen e" using prefix_mask_le_iff p(1) [of a] p(1) [of e] a(1) by auto
  qed
  ultimately show ?thesis
    using Some t m p(3) [of e] by auto
qed

definition example_table :: "sr_rt list" where
  \<comment> \<open>10.0.0.0/8 via eth1, 10.1.0.0/16 via eth2\<close>
  "example_table =
     [\<lparr>rt_dest = 10, rt_gw = 1, rt_mask = 0xFF, rt_interface = [101, 49]\<rparr>,
      \<lparr>rt_dest = 0x010A, rt_gw = 2, rt_mask = 0xFFFF, rt_interface = [101, 50]\<rparr>]"

definition example_router :: sr_instance where
  "example_router = \<lparr>user = [], host = [], template = [], topo_id = 0, if_list = [],
     routing_table = example_table, cache = \<lparr>entries = [], requests = []\<rparr>, logfile = None, now = 0, now_usec = 0,
     sock_ok = True, sock_out = [], junk = (\<lambda>a k. 0), allocs = 0\<rparr>"

lemma prefix_mask_examples: "prefix_mask 8 = 0xFF" "prefix_mask 16 = 0xFFFF"
  by (simp_all add: prefix_mask_def htonl_def mk32_def byte32_def push_bit_eq_mult drop_bit_eq_div)

lemma longest_prefix_match_witness:
  "\<exists>xs ys. routing_table example_router = xs @ example_table ! 1 # ys \<and>
     same_prefix 16 (rt_dest (example_table ! 1)) 0x0302010A"
proof -
  define plen where "plen e = (if rt_gw e = 1 then 8 else 16 :: nat)" for e :: sr_rt
  have r: "\<forall>e \<in> set (routing_table example_router). plen e \<le> 32 \<and> rt_mask e = prefix_mask (plen e)"
    by (simp add: example_router_def example_table_def plen_def prefix_mask_examples)
  have "longestprefixmatch example_router 0x0302010A = Some (example_table ! 1)"
    by (simp add: longestprefixmatch_def example_router_def example_table_def)
  then show ?thesis
    using longest_prefix_match [OF r, of "0x0302010A"]
    by (auto simp: plen_def example_table_def)
qed

lemma count_unknown_spec:
  "count_unknown sr rts n =
     n + int (length (filter (\<lambda>rt. sr_get_interface sr (rt_interface rt) = None) rts))"
  by (induction rts arbitrary: n) (auto simp: sr_get_interface_def split: option.splits)

text \<open>\<open>sr_verify_routing_table\<close> answers 0 exactly when there are interfaces and routes and the
  interface of every route is found by \<open>sr_get_interface\<close>; so no forwarding decision over a
  verified table ends at an unknown interface.\<close>

theorem verified_table_has_interfaces:
  "sr_verify_routing_table sr = 0 \<longleftrightarrow>
     if_list sr \<noteq> [] \<and> routing_table sr \<noteq> [] \<and>
     (\<forall>rt \<in> set (routing_table sr). \<exists>i. sr_get_interface sr (rt_interface rt) = Some i)"
  by (auto simp: sr_verify_routing_table_def count_unknown_spec filter_empty_conv)

lemma verified_table_has_interfaces_witness:
  "\<exists>i. sr_get_interface
     (example_router\<lparr>if_list := [\<lparr>if_name = [101, 49], if_addr = [], if_ip = 0, if_speed = 0\<rparr>,
        \<lparr>if_name = [101, 50], if_addr = [], if_ip = 0, if_speed = 0\<rparr>]\<rparr>)
     (rt_interface (example_table ! 1)) = Some i"
proof -
  let ?sr = "example_router\<lparr>if_list := [\<lparr>if_name = [101, 49], if_addr = [], if_ip = 0, if_speed = 0\<rparr>,
        \<lparr>if_name = [101, 50], if_addr = [], if_ip = 0, if_speed = 0\<rparr>]\<rparr>"
  have "sr_verify_routing_table ?sr = 0"
    by (simp add: sr_verify_routing_table_def example_router_def example_table_def
        strneq_c_string strncpy_def c_string_def sr_IFACE_NAMELEN_def)
  then show ?thesis
    by (auto simp: verified_table_has_interfaces) (simp add: example_router_def example_table_def)
qed

end
