(* ===== verification/Arp_Cache.thy ===== *)
theory Arp_Cache
  imports Routing
begin

text \<open>
  The data structure of \<open>sr_arpcache.c\<close>: a table of 100 address entries and the queue of pending
  ARP requests, each with the packets that wait for it.  Each operation is one atomic step here.
  The mutex makes those of \<open>sr_arpcache.c\<close> atomic; \<open>sr_arpcacheinsert\<close>, which is in \<open>sr_router.c\<close>, runs without it, so
  its atomicity against the timeout thread is an assumption.  The functions that send packets (\<open>sr_arpcache_sweepreqs\<close>,
  \<open>sr_arp_request\<close>) are in the theory of the router.
\<close>

named_theorems cache_simps \<open>what the cache operations do to the two tables\<close>

section \<open>The address table\<close>

text \<open>The search loop runs to the end, so the last valid entry for the address is returned.\<close>

fun lookup_loop :: "sr_arpentry list \<Rightarrow> u32 \<Rightarrow> sr_arpentry option \<Rightarrow> sr_arpentry option" where
  "lookup_loop [] ip entry = entry"
| "lookup_loop (e # es) ip entry =
     lookup_loop es ip (if ae_valid e \<and> ae_ip e = ip then Some e else entry)"

definition sr_arpcache_lookup :: "sr_arpcache \<Rightarrow> u32 \<Rightarrow> sr_arpentry option" where
  \<comment> \<open>the copy of the entry that the caller frees, or null\<close>
  "sr_arpcache_lookup c ip = lookup_loop (entries c) ip None"

text \<open>The two loops that look for a free slot and fill it.\<close>

fun fill_free :: "sr_arpentry list \<Rightarrow> byte list \<Rightarrow> u32 \<Rightarrow> int \<Rightarrow> sr_arpentry list" where
  "fill_free [] mac ip t = []"
| "fill_free (e # es) mac ip t =
     (if \<not> ae_valid e then \<lparr>ae_mac = mac, ae_ip = ip, ae_added = t, ae_valid = True\<rparr> # es
      else e # fill_free es mac ip t)"

definition sr_arpcacheinsert :: "int \<Rightarrow> sr_arpcache \<Rightarrow> byte list \<Rightarrow> u32 \<Rightarrow> sr_arpcache" where
  \<comment> \<open>\<open>sr_router.c\<close>; the time is \<open>time (NULL)\<close>\<close>
  "sr_arpcacheinsert t c mac ip = c\<lparr>entries := fill_free (entries c) mac ip t\<rparr>"

definition expire :: "int \<Rightarrow> sr_arpcache \<Rightarrow> sr_arpcache" where
  \<comment> \<open>the loop of \<open>sr_arpcache_timeout\<close>\<close>
  "expire curtime c = c\<lparr>entries := map (\<lambda>e.
     if ae_valid e \<and> curtime - ae_added e > SR_ARPCACHE_TO then e\<lparr>ae_valid := False\<rparr> else e)
     (entries c)\<rparr>"

definition sr_arpcache_init :: "sr_arpcache" where
  \<comment> \<open>\<open>memset\<close> zeroes every entry\<close>
  "sr_arpcache_init = \<lparr>entries = replicate SR_ARPCACHE_SZ
     \<lparr>ae_mac = replicate 6 0, ae_ip = 0, ae_added = 0, ae_valid = False\<rparr>, requests = []\<rparr>"

section \<open>The request queue\<close>

fun remove_request :: "(sr_arpreq \<Rightarrow> bool) \<Rightarrow> sr_arpreq list \<Rightarrow> sr_arpreq option \<times> sr_arpreq list" where
  \<comment> \<open>the loop with \<open>prev\<close> and \<open>next\<close>: unlinks the first request that satisfies the test\<close>
  "remove_request P [] = (None, [])"
| "remove_request P (r # rs) =
     (if P r then (Some r, rs)
      else (case remove_request P rs of (found, rest) \<Rightarrow> (found, r # rest)))"

definition sr_arpcache_insert ::
  "int \<Rightarrow> sr_arpcache \<Rightarrow> byte list \<Rightarrow> u32 \<Rightarrow> sr_arpreq option \<times> sr_arpcache" where
  "sr_arpcache_insert t c mac ip =
     (case remove_request (\<lambda>r. rq_ip r = ip) (requests c) of
        (req, rs) \<Rightarrow> (req, c\<lparr>requests := rs, entries := fill_free (entries c) mac ip t\<rparr>))"

definition sr_arpreq_destroy :: "sr_arpcache \<Rightarrow> nat option \<Rightarrow> sr_arpcache" where
  \<comment> \<open>the argument is the address of the request; its memory is freed\<close>
  "sr_arpreq_destroy c entry =
     (case entry of None \<Rightarrow> c
      | Some a \<Rightarrow> c\<lparr>requests := snd (remove_request (\<lambda>r. rq_ptr r = a) (requests c))\<rparr>)"

fun add_packet :: "u32 \<Rightarrow> sr_packet \<Rightarrow> sr_arpreq list \<Rightarrow> sr_arpreq list" where
  \<comment> \<open>puts the packet at the front of the list of the first request for the address\<close>
  "add_packet ip p [] = []"
| "add_packet ip p (r # rs) =
     (if rq_ip r = ip then r\<lparr>rq_packets := p # rq_packets r\<rparr> # rs else r # add_packet ip p rs)"

definition sr_arpcache_queuereq ::
  "nat \<Rightarrow> sr_arpcache \<Rightarrow> u32 \<Rightarrow> byte list option \<Rightarrow> nat \<Rightarrow> cstr option \<Rightarrow> sr_arpcache res" where
  \<comment> \<open>the first argument is the address \<open>calloc\<close> returns if it is called\<close>
  "sr_arpcache_queuereq new c ip packet packet_len iface =
     (let rs = (if \<exists>r \<in> set (requests c). rq_ip r = ip then requests c
                else \<lparr>rq_ptr = new, rq_ip = ip, rq_sent = 0, rq_times_sent = 0, rq_packets = []\<rparr>
                       # requests c)
      in case (packet, iface) of
           (Some p, Some i) \<Rightarrow>
             if packet_len = 0 then Inr (c\<lparr>requests := rs\<rparr>)
             else rbind (rd p 0 packet_len) (\<lambda>buf.
               Inr (c\<lparr>requests := add_packet ip
                 \<lparr>pk_buf = buf, pk_len = packet_len, pk_iface = strncpy sr_IFACE_NAMELEN i\<rparr> rs\<rparr>))
         | _ \<Rightarrow> Inr (c\<lparr>requests := rs\<rparr>))"

section \<open>Lookup after insertion and expiry\<close>

lemma lookup_loop_acc:
  "lookup_loop es ip acc = (case lookup_loop es ip None of None \<Rightarrow> acc | Some e \<Rightarrow> Some e)"
proof (induction es arbitrary: acc)
  case (Cons e es)
  show ?case
    using Cons.IH [of acc] Cons.IH [of "Some e"] by (simp split: option.splits)
qed simp

lemma lookup_loop_append:
  "lookup_loop (xs @ ys) ip acc = lookup_loop ys ip (lookup_loop xs ip acc)"
  by (induction xs arbitrary: acc) auto

lemma lookup_loop_None:
  "lookup_loop es ip None = None \<longleftrightarrow> (\<forall>e \<in> set es. \<not> (ae_valid e \<and> ae_ip e = ip))"
proof (induction es)
  case (Cons e es)
  then show ?case by (subst lookup_loop.simps, subst lookup_loop_acc) (auto split: option.splits)
qed simp

lemma lookup_loop_Some:
  "lookup_loop es ip None = Some e \<longleftrightarrow>
    (\<exists>xs ys. es = xs @ e # ys \<and> ae_valid e \<and> ae_ip e = ip \<and>
      (\<forall>y \<in> set ys. \<not> (ae_valid y \<and> ae_ip y = ip)))"
proof
  assume "lookup_loop es ip None = Some e"
  then show "\<exists>xs ys. es = xs @ e # ys \<and> ae_valid e \<and> ae_ip e = ip \<and>
      (\<forall>y \<in> set ys. \<not> (ae_valid y \<and> ae_ip y = ip))"
  proof (induction es)
    case (Cons a es)
    show ?case
    proof (cases "lookup_loop es ip None")
      case None
      with Cons.prems have "a = e" "ae_valid e" "ae_ip e = ip"
        by (auto simp: lookup_loop_acc [of es ip "Some a"] split: if_splits)
      with None show ?thesis
        by (intro exI [of _ "[]"] exI [of _ es]) (auto simp: lookup_loop_None)
    next
      case (Some b)
      with Cons.prems have "lookup_loop es ip None = Some e"
        by (auto simp: lookup_loop_acc [of es ip "Some a"] split: if_splits)
      with Cons.IH obtain xs ys where "es = xs @ e # ys" "ae_valid e" "ae_ip e = ip"
        "\<forall>y \<in> set ys. \<not> (ae_valid y \<and> ae_ip y = ip)" by blast
      then show ?thesis by (intro exI [of _ "a # xs"] exI [of _ ys]) simp
    qed
  qed simp
next
  assume "\<exists>xs ys. es = xs @ e # ys \<and> ae_valid e \<and> ae_ip e = ip \<and>
      (\<forall>y \<in> set ys. \<not> (ae_valid y \<and> ae_ip y = ip))"
  then obtain xs ys where "es = xs @ e # ys" "ae_valid e" "ae_ip e = ip"
    "lookup_loop ys ip None = None"
    by (auto simp: lookup_loop_None)
  then show "lookup_loop es ip None = Some e"
    by (simp add: lookup_loop_append lookup_loop_acc [of ys ip "Some e"])
qed

lemma fill_free_full: "\<forall>e \<in> set es. ae_valid e \<Longrightarrow> fill_free es mac ip t = es"
  by (induction es) auto

lemma fill_free_split:
  "\<not> ae_valid e \<Longrightarrow> \<forall>x \<in> set xs. ae_valid x \<Longrightarrow>
    fill_free (xs @ e # ys) mac ip t =
      xs @ \<lparr>ae_mac = mac, ae_ip = ip, ae_added = t, ae_valid = True\<rparr> # ys"
  by (induction xs) auto

lemma length_fill_free [simp]: "length (fill_free es mac ip t) = length es"
  by (induction es) auto

lemma first_free: "\<exists>e \<in> set es. \<not> ae_valid e \<Longrightarrow>
    \<exists>xs e ys. es = xs @ e # ys \<and> \<not> ae_valid e \<and> (\<forall>x \<in> set xs. ae_valid x)"
  using split_list_first_prop [of es "\<lambda>e. \<not> ae_valid e"] by (metis (no_types, lifting))

lemma lookup_loop_skip: "\<not> ae_valid e \<Longrightarrow> lookup_loop (xs @ e # ys) ip a = lookup_loop (xs @ ys) ip a"
  by (simp add: lookup_loop_append)

lemma lookup_fill_free:
  assumes "\<exists>e \<in> set es. \<not> ae_valid e" "lookup_loop es ip None = None"
  shows "lookup_loop (fill_free es mac ip t) ip' None =
    (if ip' = ip then Some \<lparr>ae_mac = mac, ae_ip = ip, ae_added = t, ae_valid = True\<rparr>
     else lookup_loop es ip' None)"
proof -
  from first_free [OF assms(1)] obtain xs e ys where
    es: "es = xs @ e # ys" "\<not> ae_valid e" "\<forall>x \<in> set xs. ae_valid x" by blast
  have "lookup_loop ys ip None = None"
    using assms(2) es by (simp add: lookup_loop_None)
  then show ?thesis
    using es fill_free_split [OF es(2,3), of ys mac ip t]
      lookup_loop_acc [of ys ip "Some \<lparr>ae_mac = mac, ae_ip = ip, ae_added = t, ae_valid = True\<rparr>"]
    by (simp add: lookup_loop_append)
qed

lemma lookup_fill_free_other:
  "ip' \<noteq> ip \<Longrightarrow> lookup_loop (fill_free es mac ip t) ip' a = lookup_loop es ip' a"
  by (induction es arbitrary: a) auto

lemma lookup_expire:
  "lookup_loop (map (\<lambda>e. if ae_valid e \<and> t - ae_added e > n then e\<lparr>ae_valid := False\<rparr> else e) es) ip None =
    lookup_loop (filter (\<lambda>e. t - ae_added e \<le> n) es) ip None"
proof (induction es)
  case (Cons e es)
  then show ?case
    by (auto simp: lookup_loop_acc [where acc = "Some e"] split: option.splits)
qed simp

lemma entries_insert [cache_simps, simp]:
  "entries (sr_arpcacheinsert t c mac ip) = fill_free (entries c) mac ip t"
  "requests (sr_arpcacheinsert t c mac ip) = requests c"
  by (simp_all add: sr_arpcacheinsert_def)

section \<open>Requests for distinct addresses\<close>

text \<open>
  What the rest of the router relies on: there is at most one request per address, so the waiting
  packets of an address are a function of it.
\<close>

definition requests_ok :: "sr_arpcache \<Rightarrow> bool" where
  "requests_ok c \<longleftrightarrow> distinct (map rq_ip (requests c)) \<and> distinct (map rq_ptr (requests c))"

definition pending :: "sr_arpcache \<Rightarrow> u32 \<Rightarrow> sr_packet list option" where
  "pending c ip = map_option rq_packets (find (\<lambda>r. rq_ip r = ip) (requests c))"

lemma remove_request_spec:
  "remove_request P rs =
    (find P rs, takeWhile (\<lambda>r. \<not> P r) rs @ tl (dropWhile (\<lambda>r. \<not> P r) rs))"
  by (induction rs) auto

lemma remove_request_set: "set (snd (remove_request P rs)) \<subseteq> set rs"
  by (induction rs) (auto split: prod.splits)

lemma remove_request_distinct:
  "distinct (map f rs) \<Longrightarrow> distinct (map f (snd (remove_request P rs)))"
proof (induction rs)
  case (Cons r rs)
  then show ?case
    using remove_request_set [of P rs] by (auto split: prod.splits)
qed simp

lemma find_after_remove:
  assumes "distinct (map f rs)"
  shows "find (\<lambda>r. f r = y) (snd (remove_request (\<lambda>r. f r = x) rs)) =
    (if y = x then None else find (\<lambda>r. f r = y) rs)"
  using assms
proof (induction rs)
  case (Cons r rs)
  then show ?case
    by (auto simp: find_None_iff split: prod.splits) (metis imageI)+
qed simp

lemma add_packet_map:
  "map rq_ip (add_packet ip p rs) = map rq_ip rs" "map rq_ptr (add_packet ip p rs) = map rq_ptr rs"
  by (induction rs) auto

lemma find_add_packet:
  "find (\<lambda>r. rq_ip r = ip') (add_packet ip p rs) =
    (if ip' = ip then map_option (\<lambda>r. r\<lparr>rq_packets := p # rq_packets r\<rparr>) (find (\<lambda>r. rq_ip r = ip) rs)
     else find (\<lambda>r. rq_ip r = ip') rs)"
  by (induction rs) auto

lemma queuereq_entries:
  "sr_arpcache_queuereq new c ip p n i = Inr c' \<Longrightarrow> entries c' = entries c"
  by (auto simp: sr_arpcache_queuereq_def Let_def fault_simps split: option.splits if_splits)

lemma queuereq_Inr:
  "n \<le> length p \<Longrightarrow> \<exists>c'. sr_arpcache_queuereq new c ip (Some p) n (Some i) = Inr c'"
  by (simp add: sr_arpcache_queuereq_def rd_def Let_def)

lemma pending_None: "pending c ip = None \<longleftrightarrow> ip \<notin> rq_ip ` set (requests c)"
  by (auto simp: pending_def find_None_iff)

lemma has_request: "(\<exists>r \<in> set rs. rq_ip r = ip) \<longleftrightarrow> find (\<lambda>r. rq_ip r = ip) rs \<noteq> None"
  by (auto simp: find_None_iff)

lemma queuereq_pending:
  assumes "sr_arpcache_queuereq new c ip (Some p) n (Some i) = Inr c'" "0 < n"
  shows "pending c' ip' =
    (if ip' = ip
     then Some (\<lparr>pk_buf = slice p 0 n, pk_len = n, pk_iface = strncpy sr_IFACE_NAMELEN i\<rparr>
                 # (case pending c ip of None \<Rightarrow> [] | Some ps \<Rightarrow> ps))
     else pending c ip')"
proof (cases "find (\<lambda>r. rq_ip r = ip) (requests c)")
  case None
  with assms show ?thesis
    by (auto simp: sr_arpcache_queuereq_def has_request pending_def Let_def fault_simps rd_def
        split: if_splits)
next
  case (Some r)
  with assms show ?thesis
    by (auto simp: sr_arpcache_queuereq_def has_request pending_def find_add_packet Let_def fault_simps
        rd_def split: if_splits)
qed

lemma queuereq_ok:
  assumes "sr_arpcache_queuereq new c ip p n i = Inr c'" "requests_ok c"
    "new \<notin> rq_ptr ` set (requests c)"
  shows "requests_ok c'"
  using assms
  by (auto simp: sr_arpcache_queuereq_def requests_ok_def add_packet_map Let_def fault_simps
      split: if_splits option.splits)

lemma destroy_ok: "requests_ok c \<Longrightarrow> requests_ok (sr_arpreq_destroy c a)"
  by (auto simp: sr_arpreq_destroy_def requests_ok_def remove_request_distinct split: option.split)

lemma insert_ok: "requests_ok c \<Longrightarrow> requests_ok (snd (sr_arpcache_insert t c mac ip))"
  using remove_request_distinct [of rq_ip "requests c" "\<lambda>r. rq_ip r = ip"]
    remove_request_distinct [of rq_ptr "requests c" "\<lambda>r. rq_ip r = ip"]
  by (auto simp: sr_arpcache_insert_def requests_ok_def split: prod.split)

lemma init_ok: "requests_ok sr_arpcache_init"
  by (simp add: requests_ok_def sr_arpcache_init_def)

section \<open>The interface of the address table\<close>

text \<open>
  What forwarding relies on: an unknown address can be learnt while there is a free slot, learning
  does not disturb other addresses.  From that contract, a sequence of announcements of distinct unknown
  addresses is resolved completely as long as it fits.
\<close>

locale address_table =
  fixes lookup :: "'c \<Rightarrow> u32 \<Rightarrow> sr_arpentry option"
    and learn :: "int \<Rightarrow> 'c \<Rightarrow> byte list \<Rightarrow> u32 \<Rightarrow> 'c"
    and free :: "'c \<Rightarrow> nat"
  assumes lookup_learn_other: "ip' \<noteq> ip \<Longrightarrow> lookup (learn t c m ip) ip' = lookup c ip'"
    and lookup_learn_new: "0 < free c \<Longrightarrow> lookup c ip = None \<Longrightarrow>
      map_option ae_mac (lookup (learn t c m ip) ip) = Some m"
    and free_learn: "free (learn t c m ip) = free c - 1"
begin

fun learn_all :: "(int \<times> u32 \<times> byte list) list \<Rightarrow> 'c \<Rightarrow> 'c" where
  "learn_all [] c = c"
| "learn_all ((t, ip, m) # as) c = learn_all as (learn t c m ip)"

lemma lookup_learn_all_other:
  "ip \<notin> (fst \<circ> snd) ` set as \<Longrightarrow> lookup (learn_all as c) ip = lookup c ip"
  by (induction as c rule: learn_all.induct) (auto simp: lookup_learn_other)

lemma learn_all_resolves:
  "distinct (map (fst \<circ> snd) as) \<Longrightarrow> \<forall>(t, ip, m) \<in> set as. lookup c ip = None \<Longrightarrow>
    length as \<le> free c \<Longrightarrow>
    \<forall>(t, ip, m) \<in> set as. map_option ae_mac (lookup (learn_all as c) ip) = Some m"
proof (induction as c rule: learn_all.induct)
  case (2 t ip m as c)
  have new: "lookup c ip = None" "0 < free c" using "2.prems"(2,3) by simp_all
  have "ip \<notin> (fst \<circ> snd) ` set as" using "2.prems"(1) by simp
  then have first: "map_option ae_mac (lookup (learn_all as (learn t c m ip)) ip) = Some m"
    using lookup_learn_all_other lookup_learn_new new by simp
  have unknown: "\<forall>(t', ip', m') \<in> set as. lookup (learn t c m ip) ip' = None"
  proof (intro ballI, clarify)
    fix t' ip' m' assume a: "(t', ip', m') \<in> set as"
    from \<open>ip \<notin> (fst \<circ> snd) ` set as\<close> a have "ip' \<noteq> ip" by (force simp: image_iff)
    moreover from a "2.prems"(2) have "lookup c ip' = None" by fastforce
    ultimately show "lookup (learn t c m ip) ip' = None" by (simp add: lookup_learn_other)
  qed
  have room: "length as \<le> free (learn t c m ip)" using "2.prems"(3) by (simp add: free_learn)
  have "distinct (map (fst \<circ> snd) as)" using "2.prems"(1) by (simp add: comp_def)
  from "2.IH" [OF this unknown room] have "\<forall>(t', ip', m') \<in> set as.
      map_option ae_mac (lookup (learn_all as (learn t c m ip)) ip') = Some m'" .
  with first show ?case by simp
qed simp

end

definition free_slots :: "sr_arpcache \<Rightarrow> nat" where
  "free_slots c = length (filter (\<lambda>e. \<not> ae_valid e) (entries c))"

lemma free_fill_free:
  "length (filter (\<lambda>e. \<not> ae_valid e) (fill_free es mac ip t)) =
    length (filter (\<lambda>e. \<not> ae_valid e) es) - 1"
proof (induction es)
  case (Cons e es)
  then show ?case by (cases es) auto
qed simp

interpretation arp: address_table sr_arpcache_lookup sr_arpcacheinsert free_slots
proof unfold_locales
  fix ip' ip :: u32 and t c m
  assume "ip' \<noteq> ip"
  then show "sr_arpcache_lookup (sr_arpcacheinsert t c m ip) ip' = sr_arpcache_lookup c ip'"
    by (simp add: sr_arpcache_lookup_def lookup_fill_free_other)
next
  fix c ip t m
  assume "0 < free_slots c" "sr_arpcache_lookup c ip = None"
  moreover from this have "\<exists>e \<in> set (entries c). \<not> ae_valid e"
    by (auto simp: free_slots_def filter_empty_conv)
  ultimately show "map_option ae_mac (sr_arpcache_lookup (sr_arpcacheinsert t c m ip) ip) = Some m"
    by (simp add: sr_arpcache_lookup_def lookup_fill_free)
next
  fix t c m ip
  show "free_slots (sr_arpcacheinsert t c m ip) = free_slots c - 1"
    by (simp add: free_slots_def free_fill_free)
qed

section \<open>The interface of the request queue\<close>

text \<open>
  The contract of the waiting packets: queueing puts a packet in front of those of its address and
  touches no other; taking an address removes its packets.  From it, whatever the interleaving,
  the packets of an address wait in reverse order of arrival, none lost and none doubled.
\<close>

locale packet_queue =
  fixes waiting :: "'s \<Rightarrow> u32 \<Rightarrow> 'v list"
    and good :: "'p \<Rightarrow> bool"
    and stored :: "'p \<Rightarrow> 'v"
    and ok :: "'s \<Rightarrow> bool"
    and queue :: "'s \<Rightarrow> u32 \<Rightarrow> 'p \<Rightarrow> 's"
    and discard :: "'s \<Rightarrow> u32 \<Rightarrow> 's"
  assumes queue_ok: "ok s \<Longrightarrow> ok (queue s ip p)"
    and waiting_queue: "ok s \<Longrightarrow> good p \<Longrightarrow>
      waiting (queue s ip p) ip' = (if ip' = ip then stored p # waiting s ip else waiting s ip')"
    and discard_ok: "ok s \<Longrightarrow> ok (discard s ip)"
    and waiting_discard: "ok s \<Longrightarrow> waiting (discard s ip) ip' = (if ip' = ip then [] else waiting s ip')"
begin

fun queue_all :: "(u32 \<times> 'p) list \<Rightarrow> 's \<Rightarrow> 's" where
  "queue_all [] s = s"
| "queue_all ((ip, p) # as) s = queue_all as (queue s ip p)"

lemma waiting_queue_all:
  "ok s \<Longrightarrow> \<forall>(ip, p) \<in> set as. good p \<Longrightarrow>
    ok (queue_all as s) \<and> waiting (queue_all as s) ip =
      rev (map (stored \<circ> snd) (filter (\<lambda>a. fst a = ip) as)) @ waiting s ip"
  by (induction as s rule: queue_all.induct) (auto simp: waiting_queue queue_ok)

lemma discard_after_queue_all:
  "ok s \<Longrightarrow> \<forall>(ip, p) \<in> set as. good p \<Longrightarrow>
    waiting (discard (queue_all as s) ip) ip' =
      (if ip' = ip then [] else waiting (queue_all as s) ip')"
  using waiting_queue_all [of s as] by (simp add: waiting_discard)

end

text \<open>The state of the queue: the next address of the allocator and the cache.\<close>

definition queue_ok :: "nat \<times> sr_arpcache \<Rightarrow> bool" where
  "queue_ok s \<longleftrightarrow> requests_ok (snd s) \<and> (\<forall>r \<in> set (requests (snd s)). rq_ptr r < fst s)"

definition queue_packet :: "nat \<times> sr_arpcache \<Rightarrow> u32 \<Rightarrow> byte list \<times> cstr \<Rightarrow> nat \<times> sr_arpcache" where
  "queue_packet s ip p =
     (case sr_arpcache_queuereq (fst s) (snd s) ip (Some (fst p)) (length (fst p)) (Some (snd p)) of
        Inl _ \<Rightarrow> s | Inr c \<Rightarrow> (Suc (fst s), c))"

definition discard_request :: "nat \<times> sr_arpcache \<Rightarrow> u32 \<Rightarrow> nat \<times> sr_arpcache" where
  \<comment> \<open>\<open>sr_arpreq_destroy\<close> of the request for the address\<close>
  "discard_request s ip =
     (fst s, sr_arpreq_destroy (snd s)
        (map_option rq_ptr (find (\<lambda>r. rq_ip r = ip) (requests (snd s)))))"

definition waiting_packets :: "nat \<times> sr_arpcache \<Rightarrow> u32 \<Rightarrow> sr_packet list" where
  "waiting_packets s ip = (case pending (snd s) ip of None \<Rightarrow> [] | Some ps \<Rightarrow> ps)"

definition stored_packet :: "byte list \<times> cstr \<Rightarrow> sr_packet" where
  "stored_packet p = \<lparr>pk_buf = fst p, pk_len = length (fst p),
     pk_iface = strncpy sr_IFACE_NAMELEN (snd p)\<rparr>"

lemma remove_by_ptr:
  assumes "distinct (map rq_ptr rs)" "distinct (map rq_ip rs)" "find (\<lambda>r. rq_ip r = ip) rs = Some q"
  shows "remove_request (\<lambda>r. rq_ptr r = rq_ptr q) rs = remove_request (\<lambda>r. rq_ip r = ip) rs"
  using assms
proof (induction rs)
  case (Cons r rs)
  then show ?case
    by (auto simp: find_Some_iff dest: nth_mem split: if_splits)
qed simp

lemma destroy_pending:
  assumes "requests_ok c" "find (\<lambda>r. rq_ip r = ip) (requests c) = Some q"
  shows "pending (sr_arpreq_destroy c (Some (rq_ptr q))) ip' = (if ip' = ip then None else pending c ip')"
  using assms remove_by_ptr [of "requests c" ip q] find_after_remove [of rq_ip "requests c" ip' ip]
  by (simp add: requests_ok_def sr_arpreq_destroy_def pending_def)

lemma queue_packet_ok: "queue_ok s \<Longrightarrow> queue_ok (queue_packet s ip p)"
  unfolding queue_packet_def
proof (cases "sr_arpcache_queuereq (fst s) (snd s) ip (Some (fst p)) (length (fst p)) (Some (snd p))")
  case (Inr c)
  assume ok: "queue_ok s"
  then have "requests_ok c"
    using queuereq_ok [OF Inr] by (fastforce simp: queue_ok_def)
  moreover have "rq_ptr ` set (requests c) \<subseteq> insert (fst s) (rq_ptr ` set (requests (snd s)))"
    using Inr add_packet_map(2) [THEN arg_cong [where f = set]]
    by (auto simp: sr_arpcache_queuereq_def Let_def fault_simps split: if_splits) blast+
  ultimately show "queue_ok (case sr_arpcache_queuereq (fst s) (snd s) ip (Some (fst p))
      (length (fst p)) (Some (snd p)) of Inl _ \<Rightarrow> s | Inr c \<Rightarrow> (Suc (fst s), c))"
    using ok Inr by (fastforce simp: queue_ok_def)
qed simp

interpretation arpq: packet_queue waiting_packets "\<lambda>p. fst p \<noteq> []" stored_packet queue_ok
  queue_packet discard_request
proof unfold_locales
  fix s ip p assume "queue_ok s"
  then show "queue_ok (queue_packet s ip p)" by (rule queue_packet_ok)
next
  fix s and ip :: u32 and p :: "byte list \<times> cstr" and ip' :: u32
  assume "fst p \<noteq> []"
  moreover obtain c where
    c: "sr_arpcache_queuereq (fst s) (snd s) ip (Some (fst p)) (length (fst p)) (Some (snd p)) = Inr c"
    using queuereq_Inr [OF order_refl] by blast
  ultimately show "waiting_packets (queue_packet s ip p) ip' =
      (if ip' = ip then stored_packet p # waiting_packets s ip else waiting_packets s ip')"
    using queuereq_pending [OF c, of ip']
    by (simp add: waiting_packets_def queue_packet_def stored_packet_def slice_def)
next
  fix s ip assume "queue_ok s"
  then show "queue_ok (discard_request s ip)"
    using destroy_ok remove_request_set
    by (fastforce simp: queue_ok_def discard_request_def sr_arpreq_destroy_def split: option.splits)
next
  fix s and ip ip' :: u32 assume "queue_ok s"
  then show "waiting_packets (discard_request s ip) ip' = (if ip' = ip then [] else waiting_packets s ip')"
    by (cases "find (\<lambda>r. rq_ip r = ip) (requests (snd s))")
      (simp_all add: waiting_packets_def discard_request_def queue_ok_def destroy_pending,
        simp add: pending_def sr_arpreq_destroy_def)
qed

section \<open>Properties\<close>

text \<open>\<open>sr_arpcache_lookup\<close> returns the last of the valid entries for the address, and null exactly
  when no valid entry has it.\<close>

theorem arp_lookup_last_valid:
  "case sr_arpcache_lookup c ip of
     None \<Rightarrow> \<forall>e \<in> set (entries c). \<not> (ae_valid e \<and> ae_ip e = ip)
   | Some e \<Rightarrow> \<exists>xs ys. entries c = xs @ e # ys \<and> ae_valid e \<and> ae_ip e = ip \<and>
       (\<forall>y \<in> set ys. \<not> (ae_valid y \<and> ae_ip y = ip))"
  by (simp add: sr_arpcache_lookup_def lookup_loop_None lookup_loop_Some split: option.split)

definition one_entry_cache :: sr_arpcache where
  "one_entry_cache = \<lparr>entries = [\<lparr>ae_mac = [1, 2, 3, 4, 5, 6], ae_ip = 7, ae_added = 0, ae_valid = True\<rparr>,
     \<lparr>ae_mac = [], ae_ip = 0, ae_added = 0, ae_valid = False\<rparr>], requests = []\<rparr>"

lemma arp_lookup_last_valid_witness:
  "\<exists>xs ys. entries one_entry_cache =
     xs @ \<lparr>ae_mac = [1, 2, 3, 4, 5, 6], ae_ip = 7, ae_added = 0, ae_valid = True\<rparr> # ys"
  using arp_lookup_last_valid [of one_entry_cache 7]
  by (simp add: one_entry_cache_def sr_arpcache_lookup_def) blast

text \<open>Learning with \<open>sr_arpcacheinsert\<close>: while the table has room for them, a series of
  announcements of distinct, so far unknown addresses makes every one of them resolve to its own
  MAC, and leaves the resolution of all other addresses as it was.\<close>

theorem arp_learning:
  assumes "distinct (map (fst \<circ> snd) as)"
    and "\<forall>(t, ip, m) \<in> set as. sr_arpcache_lookup c ip = None"
    and "length as \<le> free_slots c"
  shows "(\<forall>(t, ip, m) \<in> set as.
      map_option ae_mac (sr_arpcache_lookup (arp.learn_all as c) ip) = Some m) \<and>
    (\<forall>ip'. ip' \<notin> (fst \<circ> snd) ` set as \<longrightarrow>
      sr_arpcache_lookup (arp.learn_all as c) ip' = sr_arpcache_lookup c ip')"
  using arp.learn_all_resolves [OF assms] arp.lookup_learn_all_other by blast

lemma arp_learning_witness:
  "map_option ae_mac (sr_arpcache_lookup (arp.learn_all [(3, 9, [6, 5, 4, 3, 2, 1])] one_entry_cache) 9)
     = Some [6, 5, 4, 3, 2, 1]"
  using arp_learning [of "[(3, 9, [6, 5, 4, 3, 2, 1])]" one_entry_cache]
  by (simp add: one_entry_cache_def sr_arpcache_lookup_def free_slots_def)

text \<open>The expiry loop of \<open>sr_arpcache_timeout\<close>: afterwards a lookup answers as if the entries added more
  than 15 seconds ago were not there, and no slot is lost.\<close>

theorem arp_expiry:
  "sr_arpcache_lookup (expire t c) ip =
     lookup_loop (filter (\<lambda>e. t - ae_added e \<le> 15) (entries c)) ip None \<and>
   length (entries (expire t c)) = length (entries c) \<and> free_slots c \<le> free_slots (expire t c)"
proof -
  have "length (filter (\<lambda>e. \<not> ae_valid e) es) \<le> length (filter (\<lambda>e. \<not> ae_valid e)
      (map (\<lambda>e. if ae_valid e \<and> t - ae_added e > 15 then e\<lparr>ae_valid := False\<rparr> else e) es))" for es
    by (induction es) auto
  then show ?thesis
    by (simp add: sr_arpcache_lookup_def expire_def SR_ARPCACHE_TO_def lookup_expire free_slots_def)
qed

text \<open>C13: the queue of waiting packets: whatever the order in which packets for different addresses are
  queued, the packets of an address wait in reverse order of arrival, none lost and none doubled;
  destroying the request of an address removes exactly its packets.\<close>

theorem waiting_packets_complete:
  assumes "queue_ok s" "\<forall>(ip, p) \<in> set as. fst p \<noteq> []"
  shows "waiting_packets (arpq.queue_all as s) ip =
      rev (map (stored_packet \<circ> snd) (filter (\<lambda>a. fst a = ip) as)) @ waiting_packets s ip \<and>
    waiting_packets (discard_request (arpq.queue_all as s) ip) ip' =
      (if ip' = ip then [] else waiting_packets (arpq.queue_all as s) ip')"
  using arpq.waiting_queue_all [OF assms] arpq.discard_after_queue_all [OF assms] by simp

lemma waiting_packets_complete_witness:
  "waiting_packets (arpq.queue_all [(1, [9], []), (2, [8], []), (1, [7], [])] (0, sr_arpcache_init)) 1 =
     [stored_packet ([7], []), stored_packet ([9], [])]"
  using waiting_packets_complete [of "(0, sr_arpcache_init)"
      "[(1, [9], []), (2, [8], []), (1, [7], [])]" 1]
  by (simp add: queue_ok_def init_ok) (simp add: waiting_packets_def pending_def sr_arpcache_init_def)

end
