(* ===== verification/Vns_Send.thy ===== *)
theory Vns_Send
  imports Arp_Cache
begin

text \<open>
  The sending half of \<open>sr_vns_comm.c\<close> and the packet log of \<open>sr_dumper.c\<close>: the framing of
  \<open>sr_send_packet\<close>, its check of the source address, and \<open>sr_log_packet\<close>.  What goes to the server is
  appended to \<open>sock_out\<close>, one message per successful \<open>write\<close>; \<open>sock_ok\<close> says whether the socket
  takes it.
\<close>

section \<open>The packet log: \<open>sr_dumper.c\<close>\<close>

definition PACKET_DUMP_SIZE :: int where "PACKET_DUMP_SIZE = 1024"

record pcap_file_header =
  pf_magic :: u32
  pf_version_major :: u16
  pf_version_minor :: u16
  pf_thiszone :: int
  pf_sigfigs :: u32
  pf_snaplen :: u32
  pf_linktype :: u32

definition pcap_file_header_bytes :: "pcap_file_header \<Rightarrow> byte list" where
  "pcap_file_header_bytes h =
     bytes32 (pf_magic h) @ bytes16 (pf_version_major h) @ bytes16 (pf_version_minor h) @
     bytes32 (word_of_int (pf_thiszone h)) @ bytes32 (pf_sigfigs h) @ bytes32 (pf_snaplen h) @
     bytes32 (pf_linktype h)"

definition sf_write_header :: "byte list \<Rightarrow> u32 \<Rightarrow> int \<Rightarrow> int \<Rightarrow> byte list" where
  "sf_write_header file linktype thiszone snaplen =
     file @ pcap_file_header_bytes \<lparr>pf_magic = 0xa1b2c3d4, pf_version_major = 2, pf_version_minor = 4,
       pf_thiszone = thiszone, pf_sigfigs = 0, pf_snaplen = word_of_int snaplen, pf_linktype = linktype\<rparr>"

definition sr_dump_open :: "bool \<Rightarrow> int \<Rightarrow> int \<Rightarrow> byte list option" where
  \<comment> \<open>the argument says whether the file can be opened (or is the standard output)\<close>
  "sr_dump_open opens thiszone snaplen =
     (if opens then Some (sf_write_header [] 1 thiszone snaplen) else None)"

record pcap_pkthdr =
  h_sec :: int
  h_usec :: int
  h_caplen :: u32
  h_len :: u32

definition sr_dump :: "byte list \<Rightarrow> pcap_pkthdr \<Rightarrow> byte list \<Rightarrow> byte list res" where
  \<comment> \<open>writes a \<open>pcap_sf_pkthdr\<close> and \<open>caplen\<close> bytes of the packet\<close>
  "sr_dump file h sp =
     rbind (rd sp 0 (unat (h_caplen h))) (\<lambda>d.
       Inr (file @ bytes32 (word_of_int (h_sec h)) @ bytes32 (word_of_int (h_usec h)) @
            bytes32 (h_caplen h) @ bytes32 (h_len h) @ d))"

definition sr_log_packet :: "sr_instance \<Rightarrow> byte list \<Rightarrow> int \<Rightarrow> sr_instance res" where
  "sr_log_packet sr buf len =
     (case logfile sr of None \<Rightarrow> Inr sr
      | Some file \<Rightarrow>
          let size = min PACKET_DUMP_SIZE len;
              h = \<lparr>h_sec = now sr, h_usec = now_usec sr, h_caplen = word_of_int size,
                   h_len = word_of_int (if size < PACKET_DUMP_SIZE then size else PACKET_DUMP_SIZE)\<rparr>
          in rbind (sr_dump file h buf) (\<lambda>file. Inr (sr\<lparr>logfile := Some file\<rparr>)))"

section \<open>Sending\<close>

definition VNSPACKET :: u32 where "VNSPACKET = 4"

record c_packet_header =
  ph_mLen :: u32
  ph_mType :: u32
  ph_mInterfaceName :: "byte list"

definition c_packet_header_bytes :: "c_packet_header \<Rightarrow> byte list" where
  "c_packet_header_bytes h = bytes32 (ph_mLen h) @ bytes32 (ph_mType h) @ ph_mInterfaceName h"

definition strncpy_field :: "nat \<Rightarrow> cstr \<Rightarrow> byte list" where
  \<comment> \<open>the \<open>n\<close> bytes \<open>strncpy\<close> stores: the string, padded with NULs\<close>
  "strncpy_field n s = strncpy n s @ replicate (n - length (strncpy n s)) 0"

definition sr_ether_addrs_match_interface :: "sr_instance \<Rightarrow> byte list \<Rightarrow> cstr \<Rightarrow> bool res" where
  "sr_ether_addrs_match_interface sr buf name =
     (case sr_get_interface sr name of None \<Rightarrow> Inr False
      | Some iface \<Rightarrow>
          rbind (rd buf ETHER_SHOST 6) (\<lambda>shost.
          rbind (rd (if_addr iface) 0 6) (\<lambda>addr. Inr (shost = addr))))"

definition vns_frame :: "byte list \<Rightarrow> cstr \<Rightarrow> byte list" where
  \<comment> \<open>the message built by \<open>sr_send_packet\<close>\<close>
  "vns_frame frame iface =
     c_packet_header_bytes \<lparr>ph_mLen = htonl (word_of_nat (length frame + 24)),
       ph_mType = htonl VNSPACKET, ph_mInterfaceName = strncpy_field 16 iface\<rparr> @ frame"

definition sr_send_packet ::
  "sr_instance \<Rightarrow> byte list \<Rightarrow> nat \<Rightarrow> cstr \<Rightarrow> (int \<times> sr_instance) res" where
  "sr_send_packet sr buf len iface =
     (if len < eth_sz then Inr (-1, sr)
      else rbind (rd buf 0 len) (\<lambda>frame.
        let sr_pkt = vns_frame frame iface in
        rbind (sr_log_packet sr buf (int len)) (\<lambda>sr.
        rbind (sr_ether_addrs_match_interface sr buf iface) (\<lambda>match.
        if \<not> match then Inr (-1, sr)
        else if \<not> sock_ok sr then Inr (-1, sr)
        else Inr (0, sr\<lparr>sock_out := sock_out sr @ [sr_pkt]\<rparr>)))))"

section \<open>Receiving: ARP requests for other routers\<close>

definition sr_arp_req_not_for_us :: "sr_instance \<Rightarrow> byte list \<Rightarrow> nat \<Rightarrow> cstr \<Rightarrow> bool res" where
  "sr_arp_req_not_for_us sr packet len name =
     (let iface = sr_get_interface sr name in
      if len < eth_sz + arp_sz then Inr False
      else case iface of None \<Rightarrow> Inl AssertFailed
      | Some i \<Rightarrow>
          rbind (ld16 packet ETHER_TYPE) (\<lambda>ty.
          if ty \<noteq> htons ethertype_arp then Inr False
          else rbind (ld16 packet AR_OP) (\<lambda>oper.
          if oper \<noteq> htons arp_op_request then Inr False
          else rbind (ld32 packet AR_TIP) (\<lambda>tip. Inr (tip \<noteq> if_ip i)))))"

section \<open>What sending does to the router\<close>

text \<open>Sending changes only the log and the output; and what it writes is one well-formed message.\<close>

definition same_tables :: "sr_instance \<Rightarrow> sr_instance \<Rightarrow> bool" where
  "same_tables a b \<longleftrightarrow> if_list a = if_list b \<and> routing_table a = routing_table b \<and> cache a = cache b \<and>
     now a = now b \<and> sock_ok a = sock_ok b \<and> junk a = junk b"

lemma same_tables_refl [simp, intro]: "same_tables a a"
  by (simp add: same_tables_def)

lemma same_tables_trans: "same_tables a b \<Longrightarrow> same_tables b c \<Longrightarrow> same_tables a c"
  by (simp add: same_tables_def)

lemma log_packet_tables:
  "sr_log_packet sr buf len = Inr sr' \<Longrightarrow>
    same_tables sr sr' \<and> sock_out sr' = sock_out sr \<and> allocs sr' = allocs sr"
  by (auto simp: sr_log_packet_def same_tables_def Let_def split: option.splits if_splits)

lemma unat_word_of_nat_small: "n \<le> 1024 \<Longrightarrow> unat (word_of_nat n :: u32) = n"
  by (simp add: unat_of_nat take_bit_nat_eq_self)

lemma log_packet_ok: "n \<le> length buf \<Longrightarrow> \<exists>sr'. sr_log_packet sr buf (int n) = Inr sr'"
  by (cases "logfile sr")
    (auto simp: sr_log_packet_def sr_dump_def rd_def Let_def PACKET_DUMP_SIZE_def min_def
      unat_word_of_nat_small)

lemma get_interface_tables: "same_tables a b \<Longrightarrow> sr_get_interface a n = sr_get_interface b n"
  by (simp add: same_tables_def sr_get_interface_def)

lemma lpm_tables: "same_tables a b \<Longrightarrow> longestprefixmatch a n = longestprefixmatch b n"
  by (simp add: same_tables_def longestprefixmatch_def)

lemma send_packet_effect:
  assumes "sr_send_packet sr buf len iface = Inr (r, sr')"
  shows "same_tables sr sr' \<and> allocs sr' = allocs sr \<and>
    (sock_out sr' = sock_out sr \<or>
     r = 0 \<and> eth_sz \<le> len \<and> len \<le> length buf \<and>
     sock_out sr' = sock_out sr @ [vns_frame (slice buf 0 len) iface] \<and>
     (\<exists>i. sr_get_interface sr iface = Some i \<and> slice buf 6 6 = slice (if_addr i) 0 6))"
  using assms
proof (cases "len < eth_sz")
  case False
  with assms obtain frame sr1 match where
    "rd buf 0 len = Inr frame" "sr_log_packet sr buf (int len) = Inr sr1"
    "sr_ether_addrs_match_interface sr1 buf iface = Inr match"
    "(if \<not> match then Inr (-1, sr1) else if \<not> sock_ok sr1 then Inr (-1, sr1)
      else Inr (0, sr1\<lparr>sock_out := sock_out sr1 @ [vns_frame frame iface]\<rparr>)) =
      (Inr (r, sr') :: (int \<times> sr_instance) res)"
    by (auto simp: sr_send_packet_def Let_def elim!: rbind_InrE)
  then show ?thesis
    using log_packet_tables [of sr buf "int len" sr1] get_interface_tables [of sr sr1 iface] False
    by (auto simp: rd_def sr_ether_addrs_match_interface_def same_tables_def fault_simps
        split: if_splits option.splits)
qed (simp add: sr_send_packet_def)

text \<open>A frame that carries its interface's address, on a working socket, is sent.\<close>

lemma send_packet_sends:
  assumes "sr_get_interface sr iface = Some i" "eth_sz \<le> length buf" "length (if_addr i) = 6"
    "slice buf 6 6 = if_addr i" "sock_ok sr"
  shows "\<exists>sr'. sr_send_packet sr buf (length buf) iface = Inr (0, sr') \<and> same_tables sr sr' \<and>
    sock_out sr' = sock_out sr @ [vns_frame buf iface]"
proof -
  obtain sr1 where l: "sr_log_packet sr buf (int (length buf)) = Inr sr1"
    using log_packet_ok [OF order_refl] by blast
  have t: "same_tables sr sr1" "sock_out sr1 = sock_out sr" using log_packet_tables [OF l] by auto
  have "sr_ether_addrs_match_interface sr1 buf iface = Inr True"
    using assms get_interface_tables [OF t(1), of iface]
    by (simp add: sr_ether_addrs_match_interface_def rd_def slice_def)
  then show ?thesis
    using assms l t by (simp add: sr_send_packet_def rd_def slice_def same_tables_def)
qed

lemma length_vns_frame [simp]: "length (vns_frame frame iface) = length frame + 24"
  by (simp add: vns_frame_def c_packet_header_bytes_def strncpy_field_def strncpy_def)

text \<open>What the server reads back from a message.\<close>

definition frame_of :: "byte list \<Rightarrow> byte list" where
  "frame_of msg = drop 24 msg"

lemma frame_of_vns_frame [simp]: "frame_of (vns_frame frame iface) = frame"
  by (simp add: frame_of_def vns_frame_def c_packet_header_bytes_def strncpy_field_def strncpy_def)

definition iface_of :: "byte list \<Rightarrow> cstr" where
  "iface_of msg = strncpy 16 (slice msg 8 16)"

lemma c_string_pad: "c_string (strncpy n s @ replicate k 0) = strncpy n s"
proof -
  have "\<forall>c \<in> set (strncpy n s). c \<noteq> 0"
    by (auto simp: strncpy_def c_string_def dest: in_set_takeD set_takeWhileD)
  then show ?thesis
    by (simp add: c_string_def takeWhile_append2 takeWhile_eq_Nil_iff)
qed

lemma iface_of_vns_frame [simp]: "iface_of (vns_frame frame iface) = strncpy 16 iface"
proof -
  have "slice (vns_frame frame iface) 8 16 = strncpy_field 16 iface"
    by (simp add: slice_def vns_frame_def c_packet_header_bytes_def strncpy_field_def strncpy_def)
  then show ?thesis
    by (simp add: iface_of_def strncpy_field_def) (simp add: c_string_pad strncpy_def [of 16 "_ @ _"], simp add: strncpy_def)
qed

end
