(* ===== verification/Router.thy ===== *)
theory Router
  imports Vns_Send
begin

text \<open>
  The router proper: \<open>sr_router.c\<close> and the sending functions of \<open>sr_arpcache.c\<close>.  A packet is the
  list of the bytes of its buffer; \<open>siphdr\<close>, a pointer into a buffer, is the list of the bytes
  from there to the end of the buffer.  Every load, store and copy is checked against the buffer, so a
  function that returns \<open>Inr\<close> has performed only accesses inside it.  A packet buffer that a
  function modifies in place is not returned, because no caller reads it again.
\<close>

section \<open>Sending to the next hop: \<open>sr_ForwardPacket\<close>\<close>

definition sr_ForwardPacket ::
  "sr_instance \<Rightarrow> byte list \<Rightarrow> u32 \<Rightarrow> nat \<Rightarrow> sr_if option \<Rightarrow> sr_instance res" where
  "sr_ForwardPacket sr packet nexthop_ip len interface =
     (case sr_arpcache_lookup (cache sr) nexthop_ip of
        Some entry \<Rightarrow>
          rbind (deref interface) (\<lambda>i.
          rbind (rd (if_addr i) 0 6) (\<lambda>saddr.
          rbind (wr packet ETHER_SHOST saddr) (\<lambda>packet.
          rbind (rd (ae_mac entry) 0 6) (\<lambda>daddr.
          rbind (wr packet ETHER_DHOST daddr) (\<lambda>packet.
          rbind (sr_send_packet sr packet len (if_name i)) (\<lambda>(_, sr). Inr sr))))))
      | None \<Rightarrow>
          rbind (deref interface) (\<lambda>i.
          rbind (sr_arpcache_queuereq (allocs sr) (cache sr) nexthop_ip (Some packet) len
                   (Some (if_name i))) (\<lambda>c.
          Inr (sr\<lparr>cache := c, allocs := Suc (allocs sr)\<rparr>))))"

section \<open>ICMP: \<open>sr_icmp_make_packet\<close>\<close>

definition echo_reply_packet ::
  "byte list \<Rightarrow> byte list \<Rightarrow> u16 \<Rightarrow> byte \<Rightarrow> byte \<Rightarrow> byte list res" where
  \<comment> \<open>the branch for type 0: copies the datagram, swaps the addresses, recomputes both checksums\<close>
  "echo_reply_packet packet siphdr iplen type code =
     rbind (rd siphdr 0 (unat iplen)) (\<lambda>d.
     rbind (wr packet IP_HDR d) (\<lambda>packet.
     rbind (ld32 siphdr 12) (\<lambda>src.
     rbind (st32 packet IP_DST src) (\<lambda>packet.
     rbind (ld32 siphdr 16) (\<lambda>dst.
     rbind (st32 packet IP_SRC dst) (\<lambda>packet.
     rbind (sr_cksum packet IP_HDR (int ip_sz)) (\<lambda>s.
     rbind (st16 packet IP_SUM s) (\<lambda>packet.
     rbind (st8 packet ICMP_HDR type) (\<lambda>packet.
     rbind (st8 packet ICMP_CODE code) (\<lambda>packet.
     rbind (st16 packet ICMP_SUM 0) (\<lambda>packet.
     rbind (sr_cksum packet ICMP_HDR (int (unat iplen) - int ip_sz)) (\<lambda>s.
     st16 packet ICMP_SUM s))))))))))))"

definition error_packet ::
  "byte list \<Rightarrow> byte list \<Rightarrow> sr_if option \<Rightarrow> nat \<Rightarrow> byte \<Rightarrow> byte \<Rightarrow> byte list res" where
  \<comment> \<open>the branches for types 3 and 11, whose headers have the same offsets: a new IP header, and the first
     28 bytes of the offending datagram\<close>
  "error_packet packet siphdr interface len type code =
     rbind (st16 packet IP_LEN (htons (word_of_nat (len - eth_sz)))) (\<lambda>packet.
     rbind (st8 packet IP_HDR (vhl_byte 4 5)) (\<lambda>packet.
     rbind (ld16 siphdr 4) (\<lambda>ident.
     rbind (st16 packet IP_ID ident) (\<lambda>packet.
     rbind (ld8 siphdr 1) (\<lambda>tos.
     rbind (st8 packet IP_TOS tos) (\<lambda>packet.
     rbind (st16 packet IP_OFF 0) (\<lambda>packet.
     rbind (st8 packet IP_TTL 64) (\<lambda>packet.
     rbind (st8 packet IP_P 1) (\<lambda>packet.
     rbind (ld32 siphdr 12) (\<lambda>src.
     rbind (st32 packet IP_DST src) (\<lambda>packet.
     rbind (if code = 3 then ld32 siphdr 16 else rbind (deref interface) (\<lambda>i. Inr (if_ip i))) (\<lambda>me.
     rbind (st32 packet IP_SRC me) (\<lambda>packet.
     rbind (sr_cksum packet IP_HDR (int ip_sz)) (\<lambda>s.
     rbind (st16 packet IP_SUM s) (\<lambda>packet.
     rbind (st8 packet ICMP_HDR type) (\<lambda>packet.
     rbind (st8 packet ICMP_CODE code) (\<lambda>packet.
     rbind (rd siphdr 0 ICMP_DATA_SIZE) (\<lambda>d.
     rbind (wr packet ICMP_DATA d) (\<lambda>packet.
     rbind (st16 packet ICMP_SUM 0) (\<lambda>packet.
     rbind (sr_cksum packet ICMP_HDR (int (len - eth_sz - ip_sz))) (\<lambda>s.
     st16 packet ICMP_SUM s)))))))))))))))))))))"

definition icmp_len :: "byte \<Rightarrow> u16 \<Rightarrow> nat option" where
  "icmp_len type iplen =
     (if type = 0 then Some (eth_sz + unat iplen)
      else if type = 11 then Some (eth_sz + ip_sz + t11_sz)
      else if type = 3 then Some (eth_sz + ip_sz + t3_sz)
      else None)"

definition sr_icmp_make_packet :: "sr_instance \<Rightarrow> byte list \<Rightarrow> byte \<Rightarrow> byte \<Rightarrow> sr_instance res" where
  "sr_icmp_make_packet sr siphdr type code =
     rbind (ld16 siphdr 2) (\<lambda>l.
     let iplen = ntohs l in
     case icmp_len type iplen of None \<Rightarrow> Inr sr
     | Some len \<Rightarrow>
         rbind (ld32 siphdr 12) (\<lambda>src.
         case longestprefixmatch sr src of None \<Rightarrow> Inr sr
         | Some nexthop \<Rightarrow>
             let interface = sr_get_interface sr (rt_interface nexthop);
                 (packet, sr) = malloc sr len in
             rbind (st16 packet ETHER_TYPE (htons ethertype_ip)) (\<lambda>packet.
             rbind (wr packet ETHER_SHOST (replicate 6 0)) (\<lambda>packet.
             rbind (wr packet ETHER_DHOST (replicate 6 0)) (\<lambda>packet.
             rbind (st16 packet IP_SUM 0) (\<lambda>packet.
             rbind (if type = 0 then echo_reply_packet packet siphdr iplen type code
                    else error_packet packet siphdr interface len type code) (\<lambda>packet.
             sr_ForwardPacket sr packet (rt_gw nexthop) len interface)))))))"

section \<open>ARP packets: \<open>sr_arp_make_packet\<close>, \<open>sr_arp_request\<close>\<close>

definition sr_arp_make_packet ::
  "sr_instance \<Rightarrow> sr_if option \<Rightarrow> byte list option \<Rightarrow> u32 \<Rightarrow> int \<Rightarrow> sr_instance res" where
  "sr_arp_make_packet sr interface tha target_ip mode =
     (let len = eth_sz + arp_sz; (packet, sr) = malloc sr len in
     rbind (deref interface) (\<lambda>i.
     rbind (rd (if_addr i) 0 6) (\<lambda>addr.
     rbind (wr packet ETHER_SHOST addr) (\<lambda>packet.
     rbind (st16 packet ETHER_TYPE (htons ethertype_arp)) (\<lambda>packet.
     rbind (st16 packet AR_PRO (htons ethertype_ip)) (\<lambda>packet.
     rbind (st16 packet AR_HRD (htons arp_hrd_ethernet)) (\<lambda>packet.
     rbind (st8 packet AR_HLN 6) (\<lambda>packet.
     rbind (st8 packet AR_PLN 4) (\<lambda>packet.
     rbind (st32 packet AR_SIP (if_ip i)) (\<lambda>packet.
     rbind (st32 packet AR_TIP target_ip) (\<lambda>packet.
     rbind (wr packet AR_SHA addr) (\<lambda>packet.
     rbind (if mode \<noteq> 0
            then rbind (st16 packet AR_OP (htons arp_op_request)) (\<lambda>packet.
                 rbind (wr packet AR_THA (replicate 6 0)) (\<lambda>packet.
                 wr packet ETHER_DHOST (replicate 6 0xff)))
            else rbind (st16 packet AR_OP (htons arp_op_reply)) (\<lambda>packet.
                 rbind (deref tha) (\<lambda>t.
                 rbind (rd t 0 6) (\<lambda>t.
                 rbind (wr packet ETHER_DHOST t) (\<lambda>packet.
                 wr packet AR_THA t))))) (\<lambda>packet.
     rbind (sr_send_packet sr packet len (if_name i)) (\<lambda>(_, sr). Inr sr))))))))))))))"

definition sr_arp_request :: "sr_instance \<Rightarrow> u32 \<Rightarrow> sr_instance res" where
  "sr_arp_request sr target_ip =
     (case longestprefixmatch sr target_ip of None \<Rightarrow> Inr sr
      | Some nexthop \<Rightarrow>
          sr_arp_make_packet sr (sr_get_interface sr (rt_interface nexthop)) None target_ip 1)"

section \<open>Packet input: \<open>sr_handlepacket\<close>\<close>

definition ip_checksum :: "byte list \<Rightarrow> (bool \<times> byte list) res" where
  \<comment> \<open>clears the field in the packet and compares\<close>
  "ip_checksum packet =
     rbind (ld16 packet IP_SUM) (\<lambda>recved.
     rbind (st16 packet IP_SUM 0) (\<lambda>packet.
     rbind (sr_cksum packet IP_HDR (int ip_sz)) (\<lambda>expected. Inr (recved = expected, packet))))"

definition icmp_checksum :: "byte list \<Rightarrow> (bool \<times> byte list) res" where
  "icmp_checksum packet =
     rbind (ld16 packet ICMP_SUM) (\<lambda>recved.
     rbind (st16 packet ICMP_SUM 0) (\<lambda>packet.
     rbind (ld16 packet IP_LEN) (\<lambda>l.
     rbind (sr_cksum packet ICMP_HDR (int (unat (ntohs l)) - int ip_sz)) (\<lambda>expected.
     Inr (recved = expected, packet)))))"

definition handle_arp :: "sr_instance \<Rightarrow> byte list \<Rightarrow> nat \<Rightarrow> cstr \<Rightarrow> sr_instance res" where
  \<comment> \<open>the ARP branch\<close>
  "handle_arp sr packet len interface =
     (if len < eth_sz + arp_sz then Inr sr
      else
        rbind (ld32 packet AR_TIP) (\<lambda>target_ip.
        rbind (ld16 packet AR_OP) (\<lambda>oper.
        let found_interface = IPcheck target_ip sr in
        if ntohs oper = 2 then
          (case found_interface of
             Some fi \<Rightarrow>
               rbind (rd packet AR_THA 6) (\<lambda>tha.
               if \<not> strneq 6 (if_addr fi) tha then Inr sr
               else rbind (rd packet AR_SHA 6) (\<lambda>sha.
                    rbind (ld32 packet AR_SIP) (\<lambda>sip.
                    Inr (sr\<lparr>cache := sr_arpcacheinsert (now sr) (cache sr) sha sip\<rparr>))))
           | None \<Rightarrow>
               (case longestprefixmatch sr target_ip of None \<Rightarrow> Inr sr
                | Some nexthop \<Rightarrow>
                    let sinterface = sr_get_interface sr interface in
                    rbind (rd packet 0 len) (\<lambda>buf.
                    sr_ForwardPacket sr buf (rt_gw nexthop) len sinterface)))
        else if ntohs oper = 1 then
          (let sinterface = sr_get_interface sr interface in
           case found_interface of
             Some _ \<Rightarrow>
               rbind (rd packet AR_SHA 6) (\<lambda>sha.
               rbind (ld32 packet AR_SIP) (\<lambda>sip.
               rbind (sr_arp_make_packet sr sinterface (Some sha) sip 0) (\<lambda>sr.
               Inr (sr\<lparr>cache := sr_arpcacheinsert (now sr) (cache sr) sha sip\<rparr>))))
           | None \<Rightarrow>
               (case sr_arpcache_lookup (cache sr) target_ip of
                  Some entry \<Rightarrow>
                    rbind (ld32 packet AR_SIP) (\<lambda>sip.
                    sr_arp_make_packet sr sinterface (Some (ae_mac entry)) sip 0)
                | None \<Rightarrow>
                    (case longestprefixmatch sr target_ip of None \<Rightarrow> Inr sr
                     | Some nexthop \<Rightarrow>
                         rbind (rd packet 0 len) (\<lambda>buf.
                         rbind (sr_arpcache_queuereq (allocs sr) (cache sr) (rt_gw nexthop) (Some buf)
                                  (eth_sz + arp_sz) (Some (rt_interface nexthop))) (\<lambda>c.
                         Inr (sr\<lparr>cache := c, allocs := Suc (allocs sr)\<rparr>))))))
        else Inr sr)))"

definition handle_ip_local :: "sr_instance \<Rightarrow> byte list \<Rightarrow> sr_instance res" where
  \<comment> \<open>a datagram for one of the router's own addresses\<close>
  "handle_ip_local sr packet =
     rbind (ld8 packet IP_P) (\<lambda>p.
     if p = 1 then
       rbind (icmp_checksum packet) (\<lambda>(good, packet).
       if \<not> good then Inr sr
       else rbind (ld8 packet ICMP_HDR) (\<lambda>type.
         if type = 8 then sr_icmp_make_packet sr (drop IP_HDR packet) 0 0 else Inr sr))
     else if p = 17 \<or> p = 6 then sr_icmp_make_packet sr (drop IP_HDR packet) 3 3
     else Inr sr)"

definition handle_ip_forward :: "sr_instance \<Rightarrow> byte list \<Rightarrow> nat \<Rightarrow> sr_instance res" where
  \<comment> \<open>a datagram for somebody else\<close>
  "handle_ip_forward sr packet len =
     rbind (ld8 packet IP_TTL) (\<lambda>ttl.
     if ttl = 1 then sr_icmp_make_packet sr (drop IP_HDR packet) 11 0
     else
       rbind (st8 packet IP_TTL (ttl - 2)) (\<lambda>packet.
       rbind (st16 packet IP_SUM 0) (\<lambda>packet.
       rbind (ld8 packet IP_HDR) (\<lambda>vhl.
       rbind (sr_cksum packet IP_HDR (int (unat (hl_of vhl)) * 4)) (\<lambda>s.
       rbind (st16 packet IP_SUM s) (\<lambda>packet.
       rbind (ld32 packet IP_DST) (\<lambda>dst.
       case longestprefixmatch sr dst of
         None \<Rightarrow> sr_icmp_make_packet sr (drop IP_HDR packet) 3 0
       | Some nexthop \<Rightarrow>
           let sinterface = sr_get_interface sr (rt_interface nexthop) in
           rbind (rd packet 0 len) (\<lambda>buf.
           sr_ForwardPacket sr buf (rt_gw nexthop) len sinterface))))))))"

definition handle_ip :: "sr_instance \<Rightarrow> byte list \<Rightarrow> nat \<Rightarrow> sr_instance res" where
  \<comment> \<open>the IP branch; the size check is for 20 bytes, the header ends at byte 34\<close>
  "handle_ip sr packet len =
     (if 20 \<le> len then
        rbind (ip_checksum packet) (\<lambda>(good, packet).
        if \<not> good then Inr sr
        else rbind (ld32 packet IP_DST) (\<lambda>dst.
          case IPcheck dst sr of
            Some _ \<Rightarrow> handle_ip_local sr packet
          | None \<Rightarrow> handle_ip_forward sr packet len))
      else Inr sr)"

definition sr_handlepacket :: "sr_instance \<Rightarrow> byte list \<Rightarrow> nat \<Rightarrow> cstr \<Rightarrow> sr_instance res" where
  "sr_handlepacket sr packet len interface =
     rbind (ethertype packet) (\<lambda>ty.
     if ty = 2054 then handle_arp sr packet len interface
     else if ty = ethertype_ip then handle_ip sr packet len
     else Inr sr)"

section \<open>The once-a-second sweep: \<open>sr_arpcache_sweepreqs\<close>\<close>

fun send_unreachables :: "sr_instance \<Rightarrow> sr_packet list \<Rightarrow> sr_instance res" where
  "send_unreachables sr [] = Inr sr"
| "send_unreachables sr (p # ps) =
     rbind (sr_icmp_make_packet sr (drop eth_sz (pk_buf p)) 3 1) (\<lambda>sr. send_unreachables sr ps)"

fun handle_queued :: "sr_instance \<Rightarrow> sr_packet list \<Rightarrow> sr_instance res" where
  "handle_queued sr [] = Inr sr"
| "handle_queued sr (p # ps) =
     rbind (deref (sr_get_interface sr (pk_iface p))) (\<lambda>interface.
     rbind (sr_handlepacket sr (pk_buf p) (pk_len p) (if_name interface)) (\<lambda>sr.
     handle_queued sr ps))"

definition update_request :: "nat \<Rightarrow> (sr_arpreq \<Rightarrow> sr_arpreq) \<Rightarrow> sr_instance \<Rightarrow> sr_instance" where
  "update_request a f sr = sr\<lparr>cache := (cache sr)\<lparr>requests :=
     map (\<lambda>r. if rq_ptr r = a then f r else r) (requests (cache sr))\<rparr>\<rparr>"

text \<open>
  The body of the loop for the request at address \<open>a\<close>.  The flag says whether the body has
  destroyed the request; the packets are those linked when the inner loop starts (packets queued
  meanwhile go in front of them).
\<close>

definition sweep_request :: "sr_instance \<Rightarrow> nat \<Rightarrow> (bool \<times> sr_instance) res" where
  "sweep_request sr a =
     (case find (\<lambda>r. rq_ptr r = a) (requests (cache sr)) of
        None \<Rightarrow> Inl UseAfterFree
      | Some req \<Rightarrow>
          let t = now sr in
          if 1 \<le> t - rq_sent req then
            if 5 \<le> rq_times_sent req then
              rbind (send_unreachables sr (rq_packets req)) (\<lambda>sr.
              Inr (True, sr\<lparr>cache := sr_arpreq_destroy (cache sr) (Some a)\<rparr>))
            else
              (case sr_arpcache_lookup (cache sr) (rq_ip req) of
                 Some entry \<Rightarrow>
                   rbind (handle_queued sr (rq_packets req)) (\<lambda>sr.
                   Inr (True, sr\<lparr>cache := sr_arpreq_destroy (cache sr) (Some a)\<rparr>))
               | None \<Rightarrow>
                   rbind (sr_arp_request sr (rq_ip req)) (\<lambda>sr.
                   Inr (False, update_request a
                     (\<lambda>r. r\<lparr>rq_times_sent := rq_times_sent r + 1, rq_sent := t\<rparr>) sr)))
          else Inr (False, sr))"

text \<open>
  The walk over the queue.  New requests go in front of the list and only the current one is
  removed, so \<open>req->next\<close> visits the requests that were queued when the sweep started; after the
  request has been destroyed, \<open>req->next\<close> reads freed memory.
\<close>

fun sweep_loop :: "sr_instance \<Rightarrow> nat list \<Rightarrow> sr_instance res" where
  "sweep_loop sr [] = Inr sr"
| "sweep_loop sr (a # as) =
     rbind (sweep_request sr a) (\<lambda>(destroyed, sr).
     if destroyed then Inl UseAfterFree else sweep_loop sr as)"

definition sr_arpcache_sweepreqs :: "sr_instance \<Rightarrow> sr_instance res" where
  "sr_arpcache_sweepreqs sr = sweep_loop sr (map rq_ptr (requests (cache sr)))"

definition sr_arpcache_timeout :: "sr_instance \<Rightarrow> sr_instance res" where
  \<comment> \<open>one round of the endless loop, after its \<open>sleep\<close>\<close>
  "sr_arpcache_timeout sr = sr_arpcache_sweepreqs (sr\<lparr>cache := expire (now sr) (cache sr)\<rparr>)"

definition sr_init :: "sr_instance \<Rightarrow> sr_instance" where
  "sr_init sr = sr\<lparr>cache := sr_arpcache_init\<rparr>"

end
