(* ===== verification/Access.thy ===== *)
theory Access
  imports Checksum
begin

text \<open>
  Symbolic execution of loads and stores: inside the buffer every access succeeds (\<open>access_ok\<close>), and a
  field read after stores is the field of the last store that covers it (\<open>field_simps\<close>).
\<close>

named_theorems access_ok \<open>accesses inside the buffer\<close>

lemma wr_ok [access_ok]: "i + length bs \<le> length p \<Longrightarrow> wr p i bs = Inr (put p i bs)"
  by (simp add: wr_def)

lemma st_ok [access_ok]:
  "i < length p \<Longrightarrow> st8 p i b = Inr (put p i [b])"
  "i + 2 \<le> length p \<Longrightarrow> st16 p i w = Inr (put p i (bytes16 w))"
  "i + 4 \<le> length p \<Longrightarrow> st32 p i d = Inr (put p i (bytes32 d))"
  by (simp_all add: st8_def st16_def st32_def wr_def)

lemma ld_ok [access_ok]:
  "i < length p \<Longrightarrow> ld8 p i = Inr (get8 p i)"
  "i + 2 \<le> length p \<Longrightarrow> ld16 p i = Inr (get16 p i)"
  "i + 4 \<le> length p \<Longrightarrow> ld32 p i = Inr (get32 p i)"
  by (simp_all add: ld8_def ld16_def ld32_def)

lemma rd_ok [access_ok]: "i + n \<le> length p \<Longrightarrow> rd p i n = Inr (slice p i n)"
  by (simp add: rd_def)

lemma sr_cksum_ok [access_ok]:
  "i + nat len \<le> length p \<Longrightarrow> sr_cksum p i len = Inr (cksum (slice p i (nat len)))"
  by (simp add: sr_cksum_def rd_def)

lemma get_slice [simp]:
  "k + i < n \<Longrightarrow> j + n \<le> length p \<Longrightarrow> get8 (slice p j n) (k + i) = get8 p (j + (k + i))"
  "k + 1 < n \<Longrightarrow> j + n \<le> length p \<Longrightarrow> get16 (slice p j n) k = get16 p (j + k)"
  "k + 3 < n \<Longrightarrow> j + n \<le> length p \<Longrightarrow> get32 (slice p j n) k = get32 p (j + k)"
  by (simp_all add: get8_def get16_def get32_def add.assoc)

lemma get_put_part:
  "i + length bs \<le> length p \<Longrightarrow> i \<le> j \<Longrightarrow> j + 2 \<le> i + length bs \<Longrightarrow> get16 (put p i bs) j = get16 bs (j - i)"
  "i + length bs \<le> length p \<Longrightarrow> i \<le> j \<Longrightarrow> j + 4 \<le> i + length bs \<Longrightarrow> get32 (put p i bs) j = get32 bs (j - i)"
  "i + length bs \<le> length p \<Longrightarrow> i \<le> j \<Longrightarrow> j + 1 \<le> i + length bs \<Longrightarrow> get8 (put p i bs) j = get8 bs (j - i)"
  by (auto simp: get8_def get16_def get32_def nth_put Suc_diff_le)

lemma slice_put_part:
  "i + length bs \<le> length p \<Longrightarrow> i \<le> j \<Longrightarrow> j + n \<le> i + length bs \<Longrightarrow>
    slice (put p i bs) j n = slice bs (j - i) n"
  by (rule nth_equalityI) (auto simp: nth_put)

lemma get_drop [simp]:
  "a \<le> length p \<Longrightarrow> get8 (drop a p) k = get8 p (a + k)"
  "a \<le> length p \<Longrightarrow> get16 (drop a p) k = get16 p (a + k)"
  "a \<le> length p \<Longrightarrow> get32 (drop a p) k = get32 p (a + k)"
  "slice (drop a p) k n = slice p (a + k) n"
  by (simp_all add: get8_def get16_def get32_def slice_def add.assoc add.commute)

lemma drop_slice: "i \<le> length p \<Longrightarrow> drop i p = slice p i (length p - i)"
  by (simp add: slice_def)

lemmas field_simps = get_put_same get_put_other get_put_part slice_put_same slice_put_before
  slice_put_after slice_put_part

lemma cksum_field:
  assumes "i + n \<le> length p" "i \<le> j" "even (j - i)" "j + 2 \<le> i + n" "n \<le> 131072" "get16 p j = 0"
  shows "cksum (slice (put p j (bytes16 (cksum (slice p i n)))) i n) = 0xffff"
proof -
  have "slice (put p j (bytes16 (cksum (slice p i n)))) i n =
      put (slice p i n) (j - i) (bytes16 (cksum (slice p i n)))"
    using assms by (intro slice_put_inside) auto
  moreover have "get16 (slice p i n) (j - i) = 0" using assms by simp
  ultimately show ?thesis using assms cksum_of_summed [of "slice p i n" "j - i"] by simp
qed

lemma put_Nil [simp]: "put p i [] = p"
  by (rule nth_equalityI) (auto simp: nth_put)

lemma get_append [simp]:
  "i < length p \<Longrightarrow> get8 (p @ q) i = get8 p i"
  "i + 2 \<le> length p \<Longrightarrow> get16 (p @ q) i = get16 p i"
  "i + 4 \<le> length p \<Longrightarrow> get32 (p @ q) i = get32 p i"
  by (simp_all add: get8_def get16_def get32_def nth_append)

lemma slice_append [simp]: "i + n \<le> length p \<Longrightarrow> slice (p @ q) i n = slice p i n"
  by (simp add: slice_def)

end
