(* ===== verification/Sha1.thy ===== *)
theory Sha1
  imports Access
begin

text \<open>
  \<open>router/sha1.c\<close>: the incremental SHA-1 of the authentication handshake, with its message buffer, its
  64-bit length counter kept in two words, and the padding.  The reference is the hash of the standard: pad the
  whole message, then compress its blocks one after the other with the 80 steps given by one function of
  the step number.
\<close>

section \<open>The code\<close>

record sha1_context =
  Message_Digest :: "u32 list"
  Length_Low :: u32
  Length_High :: u32
  Message_Block :: "byte list"
  Message_Block_Index :: nat
  Computed :: bool
  Corrupted :: bool

definition SHA1Reset :: "sha1_context \<Rightarrow> sha1_context" where
  "SHA1Reset context = context\<lparr>Length_Low := 0, Length_High := 0, Message_Block_Index := 0,
     Message_Digest := [0x67452301, 0xEFCDAB89, 0x98BADCFE, 0x10325476, 0xC3D2E1F0],
     Computed := False, Corrupted := False\<rparr>"

definition SHA1CircularShift :: "nat \<Rightarrow> u32 \<Rightarrow> u32" where
  "SHA1CircularShift bits word = push_bit bits word OR drop_bit (32 - bits) word"

definition block_word :: "byte list \<Rightarrow> nat \<Rightarrow> u32" where
  "block_word block t = push_bit 24 (ucast (block ! (t * 4))) OR push_bit 16 (ucast (block ! (t * 4 + 1))) OR
     push_bit 8 (ucast (block ! (t * 4 + 2))) OR ucast (block ! (t * 4 + 3))"

definition extend :: "u32 list \<Rightarrow> nat \<Rightarrow> u32 list" where
  \<comment> \<open>one step of the loop that fills \<open>W\<close>\<close>
  "extend W t = W @ [SHA1CircularShift 1 (W ! (t - 3) XOR W ! (t - 8) XOR W ! (t - 14) XOR W ! (t - 16))]"

type_synonym buffers = "u32 \<times> u32 \<times> u32 \<times> u32 \<times> u32"

definition step :: "(u32 \<Rightarrow> u32 \<Rightarrow> u32 \<Rightarrow> u32) \<Rightarrow> u32 \<Rightarrow> u32 list \<Rightarrow> buffers \<Rightarrow> nat \<Rightarrow> buffers" where
  \<comment> \<open>the body of the four loops\<close>
  "step f K W = (\<lambda>(A, B, C, D, E) t.
     let temp = SHA1CircularShift 5 A + f B C D + E + W ! t + K
     in (temp, A, SHA1CircularShift 30 B, C, D))"

definition SHA1ProcessMessageBlock :: "sha1_context \<Rightarrow> sha1_context" where
  "SHA1ProcessMessageBlock context =
     (let W = map (block_word (Message_Block context)) [0..<16];
          W = foldl extend W [16..<80];
          H = Message_Digest context;
          s = (H ! 0, H ! 1, H ! 2, H ! 3, H ! 4);
          s = foldl (step (\<lambda>B C D. (B AND C) OR (NOT B AND D)) 0x5A827999 W) s [0..<20];
          s = foldl (step (\<lambda>B C D. B XOR C XOR D) 0x6ED9EBA1 W) s [20..<40];
          s = foldl (step (\<lambda>B C D. (B AND C) OR (B AND D) OR (C AND D)) 0x8F1BBCDC W) s [40..<60];
          s = foldl (step (\<lambda>B C D. B XOR C XOR D) 0xCA62C1D6 W) s [60..<80]
      in case s of (A, B, C, D, E) \<Rightarrow>
         context\<lparr>Message_Digest := [H ! 0 + A, H ! 1 + B, H ! 2 + C, H ! 3 + D, H ! 4 + E],
                 Message_Block_Index := 0\<rparr>)"

definition store_byte :: "sha1_context \<Rightarrow> byte \<Rightarrow> sha1_context res" where
  \<comment> \<open>\<open>context->Message_Block[context->Message_Block_Index++] = b\<close>\<close>
  "store_byte c b = rbind (st8 (Message_Block c) (Message_Block_Index c) b) (\<lambda>block.
     Inr (c\<lparr>Message_Block := block, Message_Block_Index := Suc (Message_Block_Index c)\<rparr>))"

definition count_byte :: "sha1_context \<Rightarrow> sha1_context" where
  "count_byte c =
     (let c = c\<lparr>Length_Low := Length_Low c + 8\<rparr> in
      if Length_Low c = 0 then
        let c = c\<lparr>Length_High := Length_High c + 1\<rparr> in
        if Length_High c = 0 then c\<lparr>Corrupted := True\<rparr> else c
      else c)"

fun input_loop :: "sha1_context \<Rightarrow> byte list \<Rightarrow> sha1_context res" where
  "input_loop c [] = Inr c"
| "input_loop c (b # bs) =
     (if Corrupted c then Inr c
      else rbind (store_byte c b) (\<lambda>c.
        let c = count_byte c;
            c = (if Message_Block_Index c = 64 then SHA1ProcessMessageBlock c else c)
        in input_loop c bs))"

definition SHA1Input :: "sha1_context \<Rightarrow> byte list \<Rightarrow> sha1_context res" where
  "SHA1Input context message =
     (if message = [] then Inr context
      else if Computed context \<or> Corrupted context then Inr (context\<lparr>Corrupted := True\<rparr>)
      else input_loop context message)"

function zero_fill :: "nat \<Rightarrow> sha1_context \<Rightarrow> sha1_context res" where
  \<comment> \<open>\<open>while (context->Message_Block_Index < limit)\<close>\<close>
  "zero_fill limit c =
     (if Message_Block_Index c < limit then
        rbind (store_byte c 0) (zero_fill limit)
      else Inr c)"
  by pat_completeness auto
termination
  by (relation "measure (\<lambda>(limit, c). limit - Message_Block_Index c)")
     (auto simp: store_byte_def rbind_eq_Inr)

declare zero_fill.simps [simp del]

definition store_length :: "sha1_context \<Rightarrow> sha1_context res" where
  "store_length c =
     (let hi = Length_High c; lo = Length_Low c in
      rbind (wr (Message_Block c) 56 [byte32 3 hi, byte32 2 hi, byte32 1 hi, byte32 0 hi,
                                      byte32 3 lo, byte32 2 lo, byte32 1 lo, byte32 0 lo]) (\<lambda>block.
      Inr (c\<lparr>Message_Block := block\<rparr>)))"

definition SHA1PadMessage :: "sha1_context \<Rightarrow> sha1_context res" where
  "SHA1PadMessage context =
     rbind (if Message_Block_Index context > 55 then
              rbind (store_byte context 0x80) (\<lambda>c.
              rbind (zero_fill 64 c) (\<lambda>c.
              zero_fill 56 (SHA1ProcessMessageBlock c)))
            else rbind (store_byte context 0x80) (zero_fill 56)) (\<lambda>c.
     rbind (store_length c) (\<lambda>c. Inr (SHA1ProcessMessageBlock c)))"

definition SHA1Result :: "sha1_context \<Rightarrow> (bool \<times> sha1_context) res" where
  "SHA1Result context =
     (if Corrupted context then Inr (False, context)
      else if \<not> Computed context then
        rbind (SHA1PadMessage context) (\<lambda>c. Inr (True, c\<lparr>Computed := True\<rparr>))
      else Inr (True, context))"

section \<open>The standard\<close>

definition sha1_f :: "nat \<Rightarrow> u32 \<Rightarrow> u32 \<Rightarrow> u32 \<Rightarrow> u32" where
  "sha1_f t x y z = (if t < 20 then (x AND y) XOR (NOT x AND z)
     else if 40 \<le> t \<and> t < 60 then (x AND y) XOR (x AND z) XOR (y AND z)
     else x XOR y XOR z)"

definition sha1_K :: "nat \<Rightarrow> u32" where
  "sha1_K t = (if t < 20 then 0x5A827999 else if t < 40 then 0x6ED9EBA1 else if t < 60 then 0x8F1BBCDC
     else 0xCA62C1D6)"

fun sha1_W :: "byte list \<Rightarrow> nat \<Rightarrow> u32" where
  \<comment> \<open>the message schedule\<close>
  "sha1_W M t = (if t < 16 then mk32 (M ! (4 * t)) (M ! (4 * t + 1)) (M ! (4 * t + 2)) (M ! (4 * t + 3))
     else word_rotl 1 (sha1_W M (t - 3) XOR sha1_W M (t - 8) XOR sha1_W M (t - 14) XOR sha1_W M (t - 16)))"

declare sha1_W.simps [simp del]

primrec sha1_steps :: "byte list \<Rightarrow> nat \<Rightarrow> buffers \<Rightarrow> buffers" where
  "sha1_steps M 0 s = s"
| "sha1_steps M (Suc t) s = (case sha1_steps M t s of (a, b, c, d, e) \<Rightarrow>
     (word_rotl 5 a + sha1_f t b c d + e + sha1_K t + sha1_W M t, a, word_rotl 30 b, c, d))"

definition sha1_compress :: "u32 list \<Rightarrow> byte list \<Rightarrow> u32 list" where
  "sha1_compress H M = (case sha1_steps M 80 (H ! 0, H ! 1, H ! 2, H ! 3, H ! 4) of
     (a, b, c, d, e) \<Rightarrow> [a + H ! 0, b + H ! 1, c + H ! 2, d + H ! 3, e + H ! 4])"

function sha1_blocks :: "u32 list \<Rightarrow> byte list \<Rightarrow> u32 list" where
  \<comment> \<open>all full blocks\<close>
  "sha1_blocks H m = (if length m < 64 then H else sha1_blocks (sha1_compress H (take 64 m)) (drop 64 m))"
  by pat_completeness auto
termination
  by (relation "measure (\<lambda>(H, m). length m)") auto

declare sha1_blocks.simps [simp del]

definition big_endian64 :: "nat \<Rightarrow> byte list" where
  "big_endian64 n = map (\<lambda>k. word_of_nat (n div 256 ^ (7 - k))) [0..<8]"

definition sha1_pad :: "byte list \<Rightarrow> byte list" where
  "sha1_pad m = m @ [0x80] @ replicate ((119 - length m mod 64) mod 64) 0 @ big_endian64 (8 * length m)"

definition sha1 :: "byte list \<Rightarrow> u32 list" where
  "sha1 m = sha1_blocks [0x67452301, 0xEFCDAB89, 0x98BADCFE, 0x10325476, 0xC3D2E1F0] (sha1_pad m)"

section \<open>One block\<close>

lemma shift_rotl:
  assumes "0 < n" "n < 32"
  shows "SHA1CircularShift n w = word_rotl n w"
proof (rule bit_word_eqI)
  fix k assume "k < LENGTH(32)"
  then have k: "k < 32" by simp
  show "bit (SHA1CircularShift n w) k \<longleftrightarrow> bit (word_rotl n w) k"
  proof (cases "n \<le> k")
    case True
    then have "(k + (32 - n)) mod 32 = k - n" using assms k by (simp add: mod_if)
    moreover have "\<not> bit w (32 - n + k)" using True bit_u32_less [of w "32 - n + k"] assms by auto
    ultimately show ?thesis
      using True k assms by (auto simp: SHA1CircularShift_def bit_simps)
  next
    case False
    then have "(k + (32 - n)) mod 32 = 32 - n + k" using assms by simp
    then show ?thesis using False k assms by (auto simp: SHA1CircularShift_def bit_simps)
  qed
qed

lemma block_word_W: "t < 16 \<Longrightarrow> block_word M t = sha1_W M t"
  by (simp add: block_word_def sha1_W.simps [of M t] mk32_def mult.commute)

lemma schedule:
  "16 \<le> n \<Longrightarrow> foldl extend (map (block_word M) [0..<16]) [16..<n] = map (sha1_W M) [0..<n]"
proof (induction n rule: dec_induct)
  case base
  show ?case by (auto simp: block_word_W intro!: map_cong)
next
  case (step n)
  then have "foldl extend (map (block_word M) [0..<16]) [16..<Suc n] = extend (map (sha1_W M) [0..<n]) n" by simp
  also have "... = map (sha1_W M) [0..<Suc n]"
    using step.hyps(1) by (simp add: extend_def sha1_W.simps [of M n] shift_rotl)
  finally show ?case .
qed

lemma rounds:
  assumes "a \<le> b" "b \<le> length W" "\<And>t. t < length W \<Longrightarrow> W ! t = sha1_W M t"
    "\<And>t. a \<le> t \<Longrightarrow> t < b \<Longrightarrow> f = sha1_f t \<and> K = sha1_K t"
  shows "foldl (Sha1.step f K W) (sha1_steps M a s) [a..<b] = sha1_steps M b s"
  using assms(1,2,4)
proof (induction b rule: dec_induct)
  case (step n)
  have fk: "f = sha1_f n" "K = sha1_K n" using step.prems(2) [of n] step.hyps by auto
  have w: "W ! n = sha1_W M n" using assms(3) step.prems(1) by simp
  have "foldl (Sha1.step f K W) (sha1_steps M a s) [a..<Suc n] = Sha1.step f K W (sha1_steps M n s) n"
    using step by simp
  also have "... = sha1_steps M (Suc n) s"
    by (simp add: Sha1.step_def Let_def shift_rotl w fk split: prod.split)
  finally show ?case .
qed simp

lemma choice_or: "(x AND y) OR (NOT x AND z) = (x AND y) XOR (NOT x AND (z :: u32))"
  by (rule bit_word_eqI) (auto simp: bit_simps)

lemma majority_or: "(x AND y) OR (x AND z) OR (y AND z) = (x AND y) XOR (x AND z) XOR (y AND (z :: u32))"
  by (rule bit_word_eqI) (auto simp: bit_simps)

lemma process_block:
  "SHA1ProcessMessageBlock c =
    c\<lparr>Message_Digest := sha1_compress (Message_Digest c) (Message_Block c), Message_Block_Index := 0\<rparr>"
proof -
  let ?M = "Message_Block c" and ?W = "map (sha1_W (Message_Block c)) [0..<80]"
  have W: "foldl extend (map (block_word ?M) [0..<16]) [16..<80] = ?W" by (rule schedule) simp
  have w: "?W ! t = sha1_W ?M t" if "t < length ?W" for t using that by simp
  have r: "foldl (Sha1.step f K ?W) (sha1_steps ?M a s) [a..<b] = sha1_steps ?M b s"
    if "a \<le> b" "b \<le> 80" "\<And>t. a \<le> t \<Longrightarrow> t < b \<Longrightarrow> f = sha1_f t \<and> K = sha1_K t" for a b f K s
    using rounds [OF that(1) _ w that(3)] that(2) by simp
  have s0: "s = sha1_steps ?M 0 s" for s by simp
  have f: "(\<lambda>B C D. (B AND C) OR (NOT B AND D)) = sha1_f t \<and> 0x5A827999 = sha1_K t" if "t < 20" for t
    using that by (auto simp: sha1_f_def sha1_K_def choice_or fun_eq_iff)
  have g: "(\<lambda>B C D. B XOR C XOR D) = sha1_f t \<and> 0x6ED9EBA1 = sha1_K t" if "20 \<le> t" "t < 40" for t
    using that by (auto simp: sha1_f_def sha1_K_def fun_eq_iff xor.assoc)
  have h: "(\<lambda>B C D. (B AND C) OR (B AND D) OR (C AND D)) = sha1_f t \<and> 0x8F1BBCDC = sha1_K t"
    if "40 \<le> t" "t < 60" for t
    using that majority_or by (auto simp: sha1_f_def sha1_K_def fun_eq_iff or.assoc xor.assoc)
  have i: "(\<lambda>B C D. B XOR C XOR D) = sha1_f t \<and> 0xCA62C1D6 = sha1_K t" if "60 \<le> t" for t
    using that by (auto simp: sha1_f_def sha1_K_def fun_eq_iff xor.assoc)
  let ?s = "(Message_Digest c ! 0, Message_Digest c ! 1, Message_Digest c ! 2, Message_Digest c ! 3, Message_Digest c ! 4)"
  have 1: "foldl (Sha1.step (\<lambda>B C D. (B AND C) OR (NOT B AND D)) 0x5A827999 ?W) ?s [0..<20] = sha1_steps ?M 20 ?s"
    using r [of 0 20 _ _ ?s] f by simp
  have 2: "foldl (Sha1.step (\<lambda>B C D. B XOR C XOR D) 0x6ED9EBA1 ?W) (sha1_steps ?M 20 ?s) [20..<40] = sha1_steps ?M 40 ?s"
    using g by (intro r) auto
  have 3: "foldl (Sha1.step (\<lambda>B C D. (B AND C) OR (B AND D) OR (C AND D)) 0x8F1BBCDC ?W) (sha1_steps ?M 40 ?s) [40..<60] =
      sha1_steps ?M 60 ?s"
    using h by (intro r) auto
  have 4: "foldl (Sha1.step (\<lambda>B C D. B XOR C XOR D) 0xCA62C1D6 ?W) (sha1_steps ?M 60 ?s) [60..<80] = sha1_steps ?M 80 ?s"
    using i by (intro r) auto
  show ?thesis
    unfolding SHA1ProcessMessageBlock_def Let_def W 1 2 3 4
    by (simp add: sha1_compress_def add.commute split: prod.split)
qed

section \<open>The message buffer\<close>

definition buffered :: "sha1_context \<Rightarrow> byte list \<Rightarrow> bool" where
  "buffered c p \<longleftrightarrow> length (Message_Block c) = 64 \<and> Message_Block_Index c = length p \<and> length p \<le> 64 \<and>
     take (length p) (Message_Block c) = p"

definition same_but_block :: "sha1_context \<Rightarrow> sha1_context \<Rightarrow> bool" where
  "same_but_block c c' \<longleftrightarrow> Message_Digest c' = Message_Digest c \<and> Length_Low c' = Length_Low c \<and>
     Length_High c' = Length_High c \<and> Computed c' = Computed c \<and> Corrupted c' = Corrupted c"

lemma same_but_block_trans: "same_but_block c c' \<Longrightarrow> same_but_block c' c'' \<Longrightarrow> same_but_block c c''"
  by (simp add: same_but_block_def)

lemma store_buffered:
  assumes "buffered c p" "length p < 64"
  shows "\<exists>c'. store_byte c b = Inr c' \<and> buffered c' (p @ [b]) \<and> same_but_block c c'"
proof -
  have "take (Suc (length p)) (put (Message_Block c) (length p) [b]) = p @ [b]"
    using assms by (simp add: buffered_def put_append)
  then show ?thesis
    using assms by (simp add: store_byte_def buffered_def same_but_block_def access_ok)
qed

lemma zero_fill_buffered:
  "buffered c p \<Longrightarrow> length p \<le> limit \<Longrightarrow> limit \<le> 64 \<Longrightarrow>
    \<exists>c'. zero_fill limit c = Inr c' \<and> buffered c' (p @ replicate (limit - length p) 0) \<and> same_but_block c c'"
proof (induction "limit - length p" arbitrary: c p)
  case 0
  then have "zero_fill limit c = Inr c" "limit - length p = 0"
    using zero_fill.simps [of limit c] by (auto simp: buffered_def)
  then show ?case using 0 by (simp add: same_but_block_def)
next
  case (Suc n)
  then obtain c1 where c1: "store_byte c 0 = Inr c1" "buffered c1 (p @ [0])" "same_but_block c c1"
    using store_buffered [of c p 0] Suc.hyps(2) Suc.prems(1,3) by (metis diff_is_0_eq' leI le_trans nat.distinct(1))
  have n: "n = limit - length (p @ [0])" and le: "length (p @ [0]) \<le> limit" using Suc.hyps(2) by simp_all
  obtain c2 where c2: "zero_fill limit c1 = Inr c2" "buffered c2 ((p @ [0]) @ replicate (limit - length (p @ [0])) 0)"
      "same_but_block c1 c2"
    using Suc.hyps(1) [OF n c1(2) le Suc.prems(3)] by blast
  have "limit - length p = Suc (limit - length (p @ [0]))" using Suc.hyps(2) by simp
  then have "p @ replicate (limit - length p) 0 = (p @ [0]) @ replicate (limit - length (p @ [0])) 0" by simp
  moreover have "zero_fill limit c = Inr c2"
    using c1(1) c2(1) Suc.hyps(2) Suc.prems(1) by (simp add: zero_fill.simps [of limit c] buffered_def)
  ultimately show ?case using c2(2,3) same_but_block_trans [OF c1(3)] by auto
qed

lemma process_full:
  assumes "buffered c p" "length p = 64"
  shows "Message_Digest (SHA1ProcessMessageBlock c) = sha1_compress (Message_Digest c) p"
    "buffered (SHA1ProcessMessageBlock c) []"
    "Length_Low (SHA1ProcessMessageBlock c) = Length_Low c" "Length_High (SHA1ProcessMessageBlock c) = Length_High c"
    "Computed (SHA1ProcessMessageBlock c) = Computed c" "Corrupted (SHA1ProcessMessageBlock c) = Corrupted c"
proof -
  have "Message_Block c = p" using assms unfolding buffered_def by (metis order_refl take_all)
  then show "Message_Digest (SHA1ProcessMessageBlock c) = sha1_compress (Message_Digest c) p"
    by (simp add: process_block)
qed (use assms in \<open>simp_all add: process_block buffered_def\<close>)

section \<open>The length counter\<close>

definition counted :: "sha1_context \<Rightarrow> nat \<Rightarrow> bool" where
  "counted c n \<longleftrightarrow> 2 ^ 32 * unat (Length_High c) + unat (Length_Low c) = 8 * n"

lemma count_counted:
  assumes "counted c n" "8 * Suc n < 2 ^ 64"
  shows "counted (count_byte c) (Suc n) \<and> Corrupted (count_byte c) = Corrupted c"
proof -
  let ?lo = "unat (Length_Low c)" and ?hi = "unat (Length_High c)"
  have c: "2 ^ 32 * ?hi + ?lo = 8 * n" using assms(1) by (simp add: counted_def)
  then have "8 dvd 2 ^ 32 * ?hi + ?lo" by simp
  then have "8 dvd ?lo" by (simp add: dvd_add_right_iff dvd_mult2)
  then obtain k where k: "?lo = 8 * k" by (auto elim: dvdE)
  have low: "unat (Length_Low c + 8) = (?lo + 8) mod 2 ^ 32" by (simp add: unat_word_ariths)
  have lo: "?lo < 2 ^ 32" using unat_u32_less [of "Length_Low c"] by simp
  show ?thesis
  proof (cases "?lo + 8 < 2 ^ 32")
    case True
    then have "unat (Length_Low c + 8) = ?lo + 8" using low by simp
    moreover from this have "Length_Low c + 8 \<noteq> 0" by auto
    ultimately show ?thesis using c by (simp add: counted_def count_byte_def Let_def)
  next
    case False
    have "8 * k < 4294967296" "\<not> 8 * k + 8 < 4294967296" using False k lo by simp_all
    then have "8 * k + 8 = 4294967296" by presburger
    then have e: "?lo + 8 = 2 ^ 32" using k by simp
    then have z: "Length_Low c + 8 = 0" using low by (simp add: word_unat_eq_iff)
    have "2 ^ 32 * (?hi + 1) = 8 * Suc n" using c e by (simp add: algebra_simps)
    then have "2 ^ 32 * (?hi + 1) < 2 ^ 64" using assms(2) by linarith
    then have h: "?hi + 1 < 2 ^ 32" by simp
    then have u: "unat (Length_High c + 1) = ?hi + 1" by (simp add: unat_word_ariths)
    then have "Length_High c + 1 \<noteq> 0" by auto
    then show ?thesis using z u \<open>2 ^ 32 * (?hi + 1) = 8 * Suc n\<close> by (simp add: counted_def count_byte_def Let_def)
  qed
qed

section \<open>Feeding a message\<close>

lemma sha1_blocks_append:
  "64 dvd length x \<Longrightarrow> sha1_blocks H (x @ y) = sha1_blocks (sha1_blocks H x) y"
proof (induction H x rule: sha1_blocks.induct)
  case (1 H m)
  show ?case
  proof (cases "length m < 64")
    case True
    then have "m = []" using "1.prems" by (auto dest: dvd_imp_le)
    then show ?thesis by (simp add: sha1_blocks.simps [of H "[]"])
  next
    case False
    then have "sha1_blocks (sha1_compress H (take 64 m)) (drop 64 m @ y) =
        sha1_blocks (sha1_blocks (sha1_compress H (take 64 m)) (drop 64 m)) y"
      using "1.IH" "1.prems" by (simp add: dvd_diff_nat)
    then show ?thesis
      using False by (simp add: sha1_blocks.simps [of H "m @ y"] sha1_blocks.simps [of H m])
  qed
qed

lemma sha1_blocks_one: "length y = 64 \<Longrightarrow> sha1_blocks H y = sha1_compress H y"
  by (simp add: sha1_blocks.simps [of H y] sha1_blocks.simps [of _ "[]"])

abbreviation H0 :: "u32 list" where
  "H0 \<equiv> [0x67452301, 0xEFCDAB89, 0x98BADCFE, 0x10325476, 0xC3D2E1F0]"

definition fed :: "sha1_context \<Rightarrow> byte list \<Rightarrow> byte list \<Rightarrow> bool" where
  \<comment> \<open>the full blocks \<open>x\<close> have been compressed, \<open>y\<close> waits in the buffer\<close>
  "fed c x y \<longleftrightarrow> 64 dvd length x \<and> length y < 64 \<and> buffered c y \<and> counted c (length (x @ y)) \<and>
     Message_Digest c = sha1_blocks H0 x \<and> \<not> Computed c \<and> \<not> Corrupted c"

lemma feed_byte:
  assumes "fed c x y" "8 * Suc (length (x @ y)) < 2 ^ 64"
  shows "\<exists>c1 x' y'. store_byte c b = Inr c1 \<and> x' @ y' = (x @ y) @ [b] \<and>
    fed (let c = count_byte c1 in if Message_Block_Index c = 64 then SHA1ProcessMessageBlock c else c) x' y'"
proof -
  obtain c1 where c1: "store_byte c b = Inr c1" "buffered c1 (y @ [b])" "same_but_block c c1"
    using store_buffered [of c y b] assms(1) by (auto simp: fed_def)
  let ?c = "count_byte c1"
  have n: "counted c1 (length (x @ y))" using assms(1) c1(3) by (simp add: fed_def counted_def same_but_block_def)
  have c: "counted ?c (Suc (length (x @ y)))" "\<not> Corrupted ?c"
    using count_counted [OF n assms(2)] assms(1) c1(3) by (auto simp: fed_def same_but_block_def)
  have k: "buffered ?c (y @ [b])" "Message_Digest ?c = sha1_blocks H0 x" "\<not> Computed ?c"
    using c1(2,3) assms(1) by (auto simp: count_byte_def Let_def buffered_def fed_def same_but_block_def)
  show ?thesis
  proof (cases "length y = 63")
    case True
    then have l: "length (y @ [b]) = 64" by simp
    have "sha1_blocks H0 (x @ y @ [b]) = sha1_compress (sha1_blocks H0 x) (y @ [b])"
      using sha1_blocks_append [of x H0 "y @ [b]"] sha1_blocks_one [OF l] assms(1) by (simp add: fed_def)
    then have "fed (SHA1ProcessMessageBlock ?c) (x @ y @ [b]) []"
      using assms(1) process_full [OF k(1) l] k c l by (simp add: fed_def counted_def)
    moreover have "Message_Block_Index ?c = 64" using k(1) l by (simp add: buffered_def)
    ultimately show ?thesis
      using c1(1) by (intro exI [of _ c1] exI [of _ "x @ y @ [b]"] exI [of _ "[]"]) simp
  next
    case False
    then have "fed ?c x (y @ [b])" using assms(1) k c by (simp add: fed_def)
    moreover have "Message_Block_Index ?c \<noteq> 64" using k(1) False by (simp add: buffered_def)
    ultimately show ?thesis
      using c1(1) by (intro exI [of _ c1] exI [of _ x] exI [of _ "y @ [b]"]) simp
  qed
qed

lemma feed_loop:
  "fed c x y \<Longrightarrow> 8 * length (x @ y @ m) < 2 ^ 64 \<Longrightarrow>
    \<exists>c' x' y'. input_loop c m = Inr c' \<and> fed c' x' y' \<and> x' @ y' = x @ y @ m"
proof (induction m arbitrary: c x y)
  case (Cons b m)
  obtain c1 x' y' where s: "store_byte c b = Inr c1" "x' @ y' = (x @ y) @ [b]"
      "fed (let c = count_byte c1 in if Message_Block_Index c = 64 then SHA1ProcessMessageBlock c else c) x' y'"
    using feed_byte [OF Cons.prems(1), of b] Cons.prems(2) by auto
  have e: "x' @ y' @ m = x @ y @ b # m" using s(2) by (metis append.assoc append_Cons append_Nil)
  have "length (x' @ y') = length (x @ y) + 1" using s(2) by simp
  then have "8 * length (x' @ y' @ m) < 2 ^ 64" using Cons.prems(2) by simp
  then obtain c' x'' y'' where
    "input_loop (let c = count_byte c1 in if Message_Block_Index c = 64 then SHA1ProcessMessageBlock c else c) m = Inr c'"
    "fed c' x'' y''" "x'' @ y'' = x' @ y' @ m"
    using Cons.IH [OF s(3)] by blast
  then show ?case
    using s(1) e Cons.prems(1) by (intro exI [of _ c'] exI [of _ x''] exI [of _ y'']) (simp add: fed_def Let_def)
qed auto

section \<open>Padding\<close>

lemma big_endian64_eq:
  "big_endian64 n = [word_of_nat (n div 2 ^ 56), word_of_nat (n div 2 ^ 48), word_of_nat (n div 2 ^ 40),
    word_of_nat (n div 2 ^ 32), word_of_nat (n div 2 ^ 24), word_of_nat (n div 2 ^ 16), word_of_nat (n div 2 ^ 8),
    word_of_nat n]"
  by (simp add: big_endian64_def upt_rec)

lemma byte32_nat: "byte32 k w = word_of_nat (unat w div 2 ^ (8 * k))"
  unfolding byte32_def word_unat_eq_iff
  by (simp add: unsigned_ucast_eq unat_drop_bit_eq drop_bit_eq_div [of _ "unat w"] unat_of_nat take_bit_eq_mod)

lemma length_field:
  assumes "counted c n"
  shows "[byte32 3 (Length_High c), byte32 2 (Length_High c), byte32 1 (Length_High c), byte32 0 (Length_High c),
    byte32 3 (Length_Low c), byte32 2 (Length_Low c), byte32 1 (Length_Low c), byte32 0 (Length_Low c)] =
    big_endian64 (8 * n)"
proof -
  define hi lo where "hi = unat (Length_High c)" and "lo = unat (Length_Low c)"
  have N: "8 * n = 4294967296 * hi + lo" using assms by (simp add: counted_def hi_def lo_def)
  have lo: "lo < 4294967296" unfolding lo_def using unat_u32_less [of "Length_Low c"] by simp
  have w: "word_of_nat a = (word_of_nat b :: byte) \<longleftrightarrow> a mod 256 = b mod 256" for a b
    by (simp add: word_of_nat_eq_iff take_bit_eq_mod)
  have h: "(4294967296 * hi + lo) div 4294967296 = hi" using lo by simp
  have d: "(4294967296 * hi + lo) div (4294967296 * k) = hi div k" for k
    using h by (metis div_mult2_eq)
  have "(4294967296 * hi + lo) div 16777216 mod 256 = lo div 16777216 mod 256"
    using div_mult_self2 [of 16777216 lo "256 * hi"] by (simp add: add.commute)
  moreover have "(65536 * hi + lo div 65536) mod 256 = lo div 65536 mod 256"
    using mod_mult_self2 [of "lo div 65536" 256 "256 * hi"] by (simp add: add.commute)
  moreover have "(16777216 * hi + lo div 256) mod 256 = lo div 256 mod 256"
    using mod_mult_self2 [of "lo div 256" 256 "65536 * hi"] by (simp add: add.commute)
  moreover have "(4294967296 * hi + lo) div 65536 mod 256 = lo div 65536 mod 256"
    using div_mult_self2 [of 65536 lo "65536 * hi"] calculation by (simp add: add.commute)
  moreover have "(4294967296 * hi + lo) div 256 mod 256 = lo div 256 mod 256"
    using div_mult_self2 [of 256 lo "16777216 * hi"] calculation by (simp add: add.commute)
  moreover have "(4294967296 * hi + lo) mod 256 = lo mod 256"
    using mod_mult_self2 [of lo 256 "16777216 * hi"] by (simp add: add.commute)
  ultimately show ?thesis
    unfolding big_endian64_eq byte32_nat hi_def [symmetric] lo_def [symmetric] N
    using h d [of 256] d [of 65536] d [of 16777216] by (simp add: w del: of_nat_add of_nat_mult)
qed

lemma store_length_block:
  assumes "buffered c p" "length p = 56" "counted c n"
  shows "store_length c = Inr (c\<lparr>Message_Block := p @ big_endian64 (8 * n)\<rparr>)"
proof -
  have "length (big_endian64 (8 * n)) = 8" by (simp add: big_endian64_def)
  then have "put (Message_Block c) 56 (big_endian64 (8 * n)) = p @ big_endian64 (8 * n)"
    using assms(1,2) by (simp add: buffered_def put_append)
  then show ?thesis
    using assms(1,2) \<open>length (big_endian64 (8 * n)) = 8\<close>
    unfolding store_length_def Let_def length_field [OF assms(3)] by (simp add: access_ok buffered_def)
qed

lemma pad_message:
  assumes f: "fed c x y"
  shows "\<exists>c'. SHA1PadMessage c = Inr c' \<and> Message_Digest c' = sha1_blocks H0 (sha1_pad (x @ y)) \<and>
    Corrupted c' = Corrupted c \<and> length (Message_Block c') = 64"
proof -
  let ?z = "\<lambda>n. replicate n (0 :: byte)" and ?L = "big_endian64 (8 * length (x @ y))"
  have y: "length y < 64" "buffered c y" "counted c (length (x @ y))" "64 dvd length x"
    "Message_Digest c = sha1_blocks H0 x" using f by (auto simp: fed_def)
  have mod: "length (x @ y) mod 64 = length y" using y(1,4) by (auto elim!: dvdE)
  have L: "length ?L = 8" by (simp add: big_endian64_def)
  obtain c1 where c1: "store_byte c 0x80 = Inr c1" "buffered c1 (y @ [0x80])" "same_but_block c c1"
    using store_buffered [OF y(2,1)] by blast
  have last: "\<exists>c'. rbind (store_length d) (\<lambda>d. Inr (SHA1ProcessMessageBlock d)) = Inr c' \<and>
      Message_Digest c' = sha1_compress (Message_Digest d) (p @ ?L) \<and> Corrupted c' = Corrupted d \<and>
      length (Message_Block c') = 64"
    if "buffered d p" "length p = 56" "counted d (length (x @ y))" for d p
    using store_length_block [OF that] that(2) L by (simp add: process_block)
  show ?thesis
  proof (cases "length y > 55")
    case True
    obtain c2 where c2: "zero_fill 64 c1 = Inr c2" "buffered c2 ((y @ [0x80]) @ ?z (64 - length (y @ [0x80])))"
        "same_but_block c1 c2"
      using zero_fill_buffered [OF c1(2), of 64] y(1) by auto
    let ?p = "(y @ [0x80]) @ ?z (64 - length (y @ [0x80]))" and ?c3 = "SHA1ProcessMessageBlock c2"
    have l: "length ?p = 64" using y(1) by simp
    note full = process_full [OF c2(2) l]
    obtain c4 where c4: "zero_fill 56 ?c3 = Inr c4" "buffered c4 (?z 56)" "same_but_block ?c3 c4"
      using zero_fill_buffered [OF full(2), of 56] by auto
    have k: "counted c4 (length (x @ y))" "Message_Digest c4 = sha1_compress (sha1_blocks H0 x) ?p"
        "Corrupted c4 = Corrupted c"
      using y(3,5) c1(3) c2(3) c4(3) full by (simp_all add: counted_def same_but_block_def)
    obtain c' where c': "rbind (store_length c4) (\<lambda>d. Inr (SHA1ProcessMessageBlock d)) = Inr c'"
        "Message_Digest c' = sha1_compress (Message_Digest c4) (?z 56 @ ?L)" "Corrupted c' = Corrupted c"
        "length (Message_Block c') = 64"
      using last [OF c4(2) _ k(1)] k(3) by auto
    have "119 - length y = (63 - length y) + 56" using y(1) by simp
    then have "?z (119 - length y) = ?z (63 - length y) @ ?z 56" by (metis replicate_add)
    then have pad: "sha1_pad (x @ y) = x @ ?p @ ?z 56 @ ?L"
      using True y(1) mod by (simp add: sha1_pad_def)
    have "sha1_blocks H0 (sha1_pad (x @ y)) = sha1_blocks (sha1_blocks (sha1_blocks H0 x) ?p) (?z 56 @ ?L)"
      unfolding pad using y(4) l by (simp add: sha1_blocks_append del: append_assoc length_append)
    moreover have "sha1_blocks H (?z 56 @ ?L) = sha1_compress H (?z 56 @ ?L)" for H
      using L by (intro sha1_blocks_one) simp
    ultimately have "Message_Digest c' = sha1_blocks H0 (sha1_pad (x @ y))"
      using c'(2) k(2) sha1_blocks_one [OF l] by simp
    moreover have "SHA1PadMessage c = Inr c'"
      using True y(2) c1(1) c2(1) c4(1) c'(1) by (simp add: SHA1PadMessage_def buffered_def)
    ultimately show ?thesis using c'(3,4) by blast
  next
    case False
    let ?p = "(y @ [0x80]) @ ?z (56 - length (y @ [0x80]))"
    obtain c2 where c2: "zero_fill 56 c1 = Inr c2" "buffered c2 ?p" "same_but_block c1 c2"
      using zero_fill_buffered [OF c1(2), of 56] False by auto
    have l: "length ?p = 56" using False by simp
    have k: "counted c2 (length (x @ y))" "Message_Digest c2 = sha1_blocks H0 x" "Corrupted c2 = Corrupted c"
      using y(3,5) c1(3) c2(3) by (simp_all add: counted_def same_but_block_def)
    obtain c' where c': "rbind (store_length c2) (\<lambda>d. Inr (SHA1ProcessMessageBlock d)) = Inr c'"
        "Message_Digest c' = sha1_compress (Message_Digest c2) (?p @ ?L)" "Corrupted c' = Corrupted c"
        "length (Message_Block c') = 64"
      using last [OF c2(2) l k(1)] k(3) by auto
    have "(119 - length y) mod 64 = 55 - length y" using False by (simp add: mod_if)
    then have pad: "sha1_pad (x @ y) = x @ ?p @ ?L"
      using False mod by (simp add: sha1_pad_def)
    have "length (?p @ ?L) = 64" using l L by simp
    note one = sha1_blocks_one [OF this]
    have "sha1_blocks H0 (sha1_pad (x @ y)) = sha1_compress (sha1_blocks H0 x) (?p @ ?L)"
      unfolding pad one [symmetric] using y(4) by (rule sha1_blocks_append)
    then have "Message_Digest c' = sha1_blocks H0 (sha1_pad (x @ y))" using c'(2) k(2) by simp
    moreover have "SHA1PadMessage c = Inr c'"
      using False y(2) c1(1) c2(1) c'(1) by (simp add: SHA1PadMessage_def buffered_def)
    ultimately show ?thesis using c'(3,4) by blast
  qed
qed

lemma reset_fed: "length (Message_Block c) = 64 \<Longrightarrow> fed (SHA1Reset c) [] []"
  by (simp add: fed_def SHA1Reset_def buffered_def counted_def sha1_blocks.simps [of _ "[]"])

lemma input_fed:
  assumes "fed c x y" "8 * length (x @ y @ m) < 2 ^ 64"
  shows "\<exists>c' x' y'. SHA1Input c m = Inr c' \<and> fed c' x' y' \<and> x' @ y' = x @ y @ m"
proof (cases "m = []")
  case True
  then show ?thesis using assms(1) by (auto simp: SHA1Input_def)
next
  case False
  have "\<not> Computed c" "\<not> Corrupted c" using assms(1) by (auto simp: fed_def)
  then have "SHA1Input c m = input_loop c m" using False by (simp add: SHA1Input_def)
  then show ?thesis using feed_loop [OF assms] by simp
qed

lemma result_fed:
  assumes "fed c x y"
  shows "\<exists>c'. SHA1Result c = Inr (True, c') \<and> Message_Digest c' = sha1 (x @ y) \<and> Computed c' \<and>
    length (Message_Block c') = 64"
proof -
  obtain c' where "SHA1PadMessage c = Inr c'" "Message_Digest c' = sha1_blocks H0 (sha1_pad (x @ y))"
      "length (Message_Block c') = 64"
    using pad_message [OF assms] by auto
  then show ?thesis using assms by (simp add: SHA1Result_def fed_def sha1_def)
qed

section \<open>The interface of an incremental hash\<close>

text \<open>
  What the authentication relies on: after a reset the context holds the empty message, input appends to the message as
  long as it fits, and the result is the digest of the message.
\<close>

locale incremental_hash =
  fixes reset :: "'c \<Rightarrow> 'c" and input :: "'c \<Rightarrow> byte list \<Rightarrow> 'c res" and result :: "'c \<Rightarrow> (bool \<times> 'c) res"
    and usable :: "'c \<Rightarrow> bool" and holds :: "'c \<Rightarrow> byte list \<Rightarrow> bool" and fits :: "byte list \<Rightarrow> bool"
    and digest :: "'c \<Rightarrow> 'd" and hash :: "byte list \<Rightarrow> 'd"
  assumes reset_holds: "usable c \<Longrightarrow> holds (reset c) []"
    and input_holds: "holds c m \<Longrightarrow> fits (m @ a) \<Longrightarrow> \<exists>c'. input c a = Inr c' \<and> holds c' (m @ a)"
    and result_digest: "holds c m \<Longrightarrow> \<exists>c'. result c = Inr (True, c') \<and> digest c' = hash m"
    and fits_prefix: "fits (m @ a) \<Longrightarrow> fits m"
begin

primrec inputs :: "'c \<Rightarrow> byte list list \<Rightarrow> 'c res" where
  "inputs c [] = Inr c"
| "inputs c (m # ms) = rbind (input c m) (\<lambda>c. inputs c ms)"

lemma inputs_hold: "holds c m \<Longrightarrow> fits (m @ concat ms) \<Longrightarrow> \<exists>c'. inputs c ms = Inr c' \<and> holds c' (m @ concat ms)"
proof (induction ms arbitrary: c m)
  case (Cons a ms)
  have "fits (m @ a)" using Cons.prems(2) fits_prefix [of "m @ a" "concat ms"] by simp
  then obtain c1 where "input c a = Inr c1" "holds c1 (m @ a)" using input_holds Cons.prems(1) by blast
  then show ?case using Cons.IH [of c1 "m @ a"] Cons.prems(2) by auto
qed simp

lemma hashed: "usable c \<Longrightarrow> fits (concat ms) \<Longrightarrow>
    \<exists>c'. rbind (inputs (reset c) ms) result = Inr (True, c') \<and> digest c' = hash (concat ms)"
  using inputs_hold [OF reset_holds, of c ms] result_digest by fastforce

end

interpretation sha1: incremental_hash SHA1Reset SHA1Input SHA1Result
  "\<lambda>c. length (Message_Block c) = 64" "\<lambda>c m. \<exists>x y. fed c x y \<and> x @ y = m" "\<lambda>m. 8 * length m < 2 ^ 64"
  Message_Digest Sha1.sha1
proof
  fix c m a
  assume "\<exists>x y. fed c x y \<and> x @ y = m" "8 * length (m @ a) < 2 ^ 64"
  then show "\<exists>c'. SHA1Input c a = Inr c' \<and> (\<exists>x y. fed c' x y \<and> x @ y = m @ a)"
    using input_fed [of c _ _ a] by fastforce
next
  fix c m
  assume "\<exists>x y. fed c x y \<and> x @ y = m"
  then show "\<exists>c'. SHA1Result c = Inr (True, c') \<and> Message_Digest c' = Sha1.sha1 m"
    using result_fed by blast
qed (use reset_fed in auto)

lemma sha1_two_inputs:
  assumes "length (Message_Block c) = 64" "8 * length (a @ b) < 2 ^ 64"
  shows "\<exists>c'. rbind (SHA1Input (SHA1Reset c) a) (\<lambda>c. rbind (SHA1Input c b) SHA1Result) = Inr (True, c') \<and>
    Message_Digest c' = sha1 (a @ b)"
  using sha1.hashed [of c "[a, b]"] assms by (simp add: rbind_assoc)

lemma length_sha1_compress: "length (sha1_compress H M) = 5"
  by (simp add: sha1_compress_def split: prod.split)

lemma length_sha1_blocks: "length H = 5 \<Longrightarrow> length (sha1_blocks H m) = 5"
proof (induction H m rule: sha1_blocks.induct)
  case (1 H m)
  then show ?case by (simp add: sha1_blocks.simps [of H m] length_sha1_compress)
qed

lemma length_sha1: "length (sha1 m) = 5"
  by (simp add: sha1_def length_sha1_blocks)

section \<open>Properties\<close>

text \<open>
  C11: feeding a message to the hash in two pieces of any lengths, from any state of the context left by an
  earlier use, and asking for the result gives the SHA-1 of the whole message: byte-wise buffering, the
  in-place schedule, the shift-based rotations, the two-word length counter and both padding cases implement
  the standard, for every message whose length in bits fits 64 bits.
\<close>

theorem sha1_computes_standard_hash:
  assumes "length (Message_Block c) = 64" "8 * length (a @ b) < 2 ^ 64"
  shows "\<exists>c'. rbind (SHA1Input (SHA1Reset c) a) (\<lambda>c. rbind (SHA1Input c b) SHA1Result) = Inr (True, c') \<and>
    Message_Digest c' = sha1 (a @ b)"
  using sha1_two_inputs [OF assms] .

theorem sha1_computes_standard_hash_witness:
  "\<exists>c'. rbind (SHA1Input (SHA1Reset \<lparr>Message_Digest = [], Length_Low = 9, Length_High = 0,
      Message_Block = replicate 64 7, Message_Block_Index = 3, Computed = True, Corrupted = True\<rparr>) [0x61])
      (\<lambda>c. rbind (SHA1Input c [0x62, 0x63]) SHA1Result) = Inr (True, c') \<and>
    Message_Digest c' = sha1 [0x61, 0x62, 0x63]"
  using sha1_computes_standard_hash [of "\<lparr>Message_Digest = [], Length_Low = 9, Length_High = 0,
      Message_Block = replicate 64 7, Message_Block_Index = 3, Computed = True, Corrupted = True\<rparr>"
      "[0x61]" "[0x62, 0x63]"]
  by simp

text \<open>
  The context is guarded against misuse.  Once a result has been taken, further input marks the context
  corrupted and the next request for a result fails; and when the 64-bit counter of message bits wraps, the
  context is marked corrupted as well.
\<close>

theorem sha1_misuse_is_refused:
  assumes "Computed c" "m \<noteq> []" "unat (Length_High d) = 2 ^ 32 - 1" "unat (Length_Low d) = 2 ^ 32 - 8"
  shows "rbind (SHA1Input c m) SHA1Result = Inr (False, c\<lparr>Corrupted := True\<rparr>) \<and> Corrupted (count_byte d)"
proof
  show "rbind (SHA1Input c m) SHA1Result = Inr (False, c\<lparr>Corrupted := True\<rparr>)"
    using assms(1,2) by (simp add: SHA1Input_def SHA1Result_def)
  have "Length_High d = 0xFFFFFFFF" "Length_Low d = 0xFFFFFFF8"
    using assms(3,4) by (simp_all add: word_unat_eq_iff)
  then show "Corrupted (count_byte d)" by (simp add: count_byte_def Let_def)
qed

theorem sha1_misuse_is_refused_witness:
  fixes c :: sha1_context
  defines "c \<equiv> \<lparr>Message_Digest = replicate 5 0, Length_Low = 0xFFFFFFF8, Length_High = 0xFFFFFFFF,
    Message_Block = replicate 64 0, Message_Block_Index = 0, Computed = True, Corrupted = False\<rparr>"
  shows "rbind (SHA1Input c [1]) SHA1Result = Inr (False, c\<lparr>Corrupted := True\<rparr>) \<and> Corrupted (count_byte c)"
  using sha1_misuse_is_refused [of c "[1]" c] by (simp add: c_def)

end
