(* ===== verification/Vns_Comm.thy ===== *)
theory Vns_Comm
  imports Router Sha1 "HOL-Library.Monad_Syntax"
begin

text \<open>
  \<open>router/sr_vns_comm.c\<close>, the session with the virtual network server: reading commands of the form
  length, type, body from a byte stream that arrives in arbitrary pieces, their dispatch, the authentication
  and the opening of a session; and the start-up of \<open>router/sr_main.c\<close> around it.

  The server is a script of what successive \<open>recv\<close> or \<open>read\<close> calls find: a chunk that has arrived (a call that
  asks for less leaves the rest), an interrupted call, a failure.  After the script the peer has closed
  the connection and every call returns 0.  Files are a map from names to contents.  Output to the
  terminal is left out.
\<close>

section \<open>The environment\<close>

datatype recv_event = Chunk "byte list" | Interrupted | Failed

datatype received = Got "byte list" | Eintr | Error

fun recv :: "recv_event list \<Rightarrow> nat \<Rightarrow> received \<times> recv_event list" where
  "recv [] n = (Got [], [])"
| "recv (Chunk bs # s) n =
     (if length bs \<le> n then (Got bs, s) else (Got (take n bs), Chunk (drop n bs) # s))"
| "recv (Interrupted # s) n = (Eintr, s)"
| "recv (Failed # s) n = (Error, s)"

record vns =
  inp :: "recv_event list"
  files :: "cstr \<Rightarrow> byte list option"
  writable :: "cstr \<Rightarrow> bool"

definition IDSIZE :: nat where "IDSIZE = 32"
definition VNSOPEN :: u32 where "VNSOPEN = 1"
definition VNSCLOSE :: u32 where "VNSCLOSE = 2"
definition VNSBANNER :: u32 where "VNSBANNER = 8"
definition VNSHWINFO :: u32 where "VNSHWINFO = 16"
definition VNS_RTABLE :: u32 where "VNS_RTABLE = 32"
definition VNS_OPEN_TEMPLATE :: u32 where "VNS_OPEN_TEMPLATE = 64"
definition VNS_AUTH_REQUEST :: u32 where "VNS_AUTH_REQUEST = 128"
definition VNS_AUTH_REPLY :: u32 where "VNS_AUTH_REPLY = 256"
definition VNS_AUTH_STATUS :: u32 where "VNS_AUTH_STATUS = 512"

definition HWINTERFACE :: u32 where "HWINTERFACE = 1"
definition HWETHER :: u32 where "HWETHER = 32"
definition HWETHIP :: u32 where "HWETHIP = 64"

lemmas vns_type_defs = VNSOPEN_def VNSCLOSE_def VNSPACKET_def VNSBANNER_def VNSHWINFO_def VNS_RTABLE_def
  VNS_OPEN_TEMPLATE_def VNS_AUTH_REQUEST_def VNS_AUTH_REPLY_def VNS_AUTH_STATUS_def

definition string_at :: "byte list \<Rightarrow> nat \<Rightarrow> cstr res" where
  \<comment> \<open>a string that is read up to its terminator, which must be inside the buffer\<close>
  "string_at buf i = (if 0 \<in> set (drop i buf) then Inr (c_string (drop i buf)) else Inl OutOfBounds)"

definition fgets :: "nat \<Rightarrow> byte list \<Rightarrow> byte list \<times> byte list" where
  \<comment> \<open>at most \<open>n - 1\<close> characters, up to and including a newline; and the rest of the file\<close>
  "fgets n file =
     (let t = take (n - 1) file;
          line = (if 10 \<in> set t then takeWhile (\<lambda>c. c \<noteq> 10) t @ [10] else t)
      in (line, drop (length line) file))"

section \<open>Hardware information\<close>

definition handle_entry :: "sr_instance \<Rightarrow> u32 \<Rightarrow> byte list \<Rightarrow> sr_instance res" where
  \<comment> \<open>the \<open>switch\<close> over the key; all other keys are only printed\<close>
  "handle_entry sr key value =
     (if key = HWINTERFACE then Inr (sr_add_interface sr value)
      else if key = HWETHIP then rbind (ld32 value 0) (sr_set_ether_ip sr)
      else if key = HWETHER then sr_set_ether_addr sr value
      else Inr sr)"

fun hw_loop :: "sr_instance \<Rightarrow> byte list \<Rightarrow> nat list \<Rightarrow> sr_instance res" where
  "hw_loop sr hwinfo [] = Inr sr"
| "hw_loop sr hwinfo (i # is) =
     rbind (ld32 hwinfo (8 + 36 * i)) (\<lambda>key.
     rbind (rd hwinfo (12 + 36 * i) 32) (\<lambda>value.
     rbind (handle_entry sr (ntohl key) value) (\<lambda>sr. hw_loop sr hwinfo is)))"

definition sr_handle_hwinfo :: "sr_instance \<Rightarrow> byte list \<Rightarrow> (nat \<times> sr_instance) res" where
  "sr_handle_hwinfo sr hwinfo =
     rbind (ld32 hwinfo 0) (\<lambda>mLen.
     let num_entries = (unat (ntohl mLen) - 8) div 36
     in rbind (hw_loop sr hwinfo [0..<num_entries]) (\<lambda>sr. Inr (num_entries, sr)))"

section \<open>The routing table from the server\<close>

definition rtable_prefix :: cstr where
  \<comment> \<open>\<open>"rtable."\<close>\<close>
  "rtable_prefix = [114, 116, 97, 98, 108, 101, 46]"

definition sr_handle_rtable :: "vns \<Rightarrow> byte list \<Rightarrow> (int \<times> vns) res" where
  \<comment> \<open>the name has to fit the 40 bytes of \<open>fn\<close>\<close>
  "sr_handle_rtable e rtable =
     rbind (string_at rtable 8) (\<lambda>host.
     let fn = rtable_prefix @ host in
     if 7 + IDSIZE + 1 < length fn + 1 then Inl OutOfBounds
     else if writable e fn then
       rbind (ld32 rtable 0) (\<lambda>mLen.
       rbind (rd rtable 40 (unat (ntohl mLen - 8 - word_of_nat IDSIZE))) (\<lambda>content.
       Inr (1, e\<lparr>files := (files e)(fn := Some content)\<rparr>)))
     else Inr (0, e))"

section \<open>Authentication\<close>

definition AUTH_KEY_LEN :: nat where "AUTH_KEY_LEN = 64"
definition SHA1_LEN :: nat where "SHA1_LEN = 20"

definition auth_key_file :: cstr where
  \<comment> \<open>\<open>"auth_key"\<close>\<close>
  "auth_key_file = [97, 117, 116, 104, 95, 107, 101, 121]"

definition digest_bytes :: "u32 list \<Rightarrow> byte list" where
  \<comment> \<open>the digest in memory after \<open>htonl\<close> of each word\<close>
  "digest_bytes ds = concat (map (\<lambda>i. bytes32 (htonl (ds ! i))) [0..<5])"

definition auth_reply :: "sr_instance \<Rightarrow> u32 list \<Rightarrow> (byte list \<times> sr_instance) res" where
  \<comment> \<open>builds the reply in fresh memory; the user name has to be terminated inside its field\<close>
  "auth_reply sr digest =
     (if IDSIZE \<le> length (user sr) then Inl OutOfBounds
      else
        let len_username = length (user sr);
            len = 12 + len_username + SHA1_LEN;
            (buf, sr) = malloc sr len
        in rbind (st32 buf 0 (htonl (word_of_nat len))) (\<lambda>buf.
           rbind (st32 buf 4 (htonl VNS_AUTH_REPLY)) (\<lambda>buf.
           rbind (st32 buf 8 (htonl (word_of_nat len_username))) (\<lambda>buf.
           rbind (wr buf 12 (user sr @ [0])) (\<lambda>buf.
           rbind (wr buf (12 + len_username) (digest_bytes digest)) (\<lambda>buf.
           Inr (buf, sr)))))))"

definition send :: "sr_instance \<Rightarrow> byte list \<Rightarrow> bool \<times> sr_instance" where
  "send sr buf = (if sock_ok sr then (True, sr\<lparr>sock_out := sock_out sr @ [buf]\<rparr>) else (False, sr))"

definition stack_context :: "byte list \<Rightarrow> sha1_context" where
  \<comment> \<open>an uninitialised local; \<open>SHA1Reset\<close> sets all of it but the block\<close>
  "stack_context block = \<lparr>Message_Digest = [], Length_Low = 0, Length_High = 0, Message_Block = block,
     Message_Block_Index = 0, Computed = False, Corrupted = False\<rparr>"

definition sr_handle_auth_request :: "sr_instance \<Rightarrow> vns \<Rightarrow> byte list \<Rightarrow> (int \<times> sr_instance) res" where
  \<comment> \<open>the locals \<open>auth_key\<close> and \<open>sha1\<close> are indeterminate like fresh memory\<close>
  "sr_handle_auth_request sr e req =
     (case files e auth_key_file of None \<Rightarrow> Inr (0, sr)
      | Some file \<Rightarrow>
          let (auth_key, sr) = malloc sr (AUTH_KEY_LEN + 1);
              (block, sr) = malloc sr 64;
              line = fst (fgets (AUTH_KEY_LEN + 1) file)
          in if line = [] then Inr (0, sr)
          else
            rbind (wr auth_key 0 (line @ [0])) (\<lambda>auth_key.
            rbind (ld32 req 0) (\<lambda>mLen.
            rbind (rd req 8 (unat (ntohl mLen) - 8)) (\<lambda>salt.
            rbind (SHA1Input (SHA1Reset (stack_context block)) salt) (\<lambda>sha1.
            rbind (rd auth_key 0 AUTH_KEY_LEN) (\<lambda>key.
            rbind (SHA1Input sha1 key) (\<lambda>sha1.
            rbind (SHA1Result sha1) (\<lambda>(ok, sha1).
            if \<not> ok then Inr (0, sr)
            else
              rbind (auth_reply sr (Message_Digest sha1)) (\<lambda>(buf, sr).
              let (sent, sr) = send sr buf in Inr (if sent then 1 else 0, sr)))))))))) "

definition sr_handle_auth_status :: "byte list \<Rightarrow> int res" where
  "sr_handle_auth_status status =
     rbind (ld8 status 8) (\<lambda>auth_ok.
     if auth_ok \<noteq> 0 then Inr (uint auth_ok)
     else rbind (string_at status 9) (\<lambda>msg. Inr (uint auth_ok)))"

section \<open>Reading a command\<close>

partial_function (option) recv_loop ::
  "nat \<Rightarrow> byte list \<Rightarrow> recv_event list \<Rightarrow> (byte list option \<times> recv_event list) option" where
  \<comment> \<open>the loop around \<open>recv\<close> until \<open>n\<close> bytes are there; an interrupted call is repeated\<close>
  "recv_loop n got s =
     (if n \<le> length got then Some (Some got, s)
      else case recv s (n - length got) of
        (Got bs, s) \<Rightarrow> recv_loop n (got @ bs) s
      | (Eintr, s) \<Rightarrow> recv_loop n got s
      | (Error, s) \<Rightarrow> Some (None, s))"

definition close_socket :: "sr_instance \<Rightarrow> sr_instance" where
  "close_socket sr = sr\<lparr>sock_ok := False\<rparr>"

definition vns_packet :: "sr_instance \<Rightarrow> byte list \<Rightarrow> nat \<Rightarrow> sr_instance res" where
  \<comment> \<open>\<open>case VNSPACKET\<close>; the frame length is computed in unsigned arithmetic\<close>
  "vns_packet sr buf len =
     (let packet = drop 24 buf;
          plen = unat (word_of_nat len - 38 + 14 :: u32);
          interface = drop 8 buf
      in rbind (sr_arp_req_not_for_us sr packet plen interface) (\<lambda>not_for_us.
         if not_for_us then Inr sr
         else
           rbind (ld32 buf 0) (\<lambda>mLen.
           rbind (sr_log_packet sr packet (sint (ntohl mLen - 24))) (\<lambda>sr.
           sr_handlepacket sr packet plen interface))))"

definition dispatch ::
  "sr_instance \<Rightarrow> vns \<Rightarrow> u32 \<Rightarrow> byte list \<Rightarrow> nat \<Rightarrow> (int \<times> sr_instance \<times> vns) res" where
  \<comment> \<open>the \<open>switch\<close> over the command\<close>
  "dispatch sr e command buf len =
     (if command = VNSPACKET then rbind (vns_packet sr buf len) (\<lambda>sr. Inr (1, sr, e))
      else if command = VNSCLOSE then rbind (string_at buf 8) (\<lambda>reason. Inr (0, sr, e))
      else if command = VNSBANNER then rbind (string_at buf 8) (\<lambda>banner. Inr (1, sr, e))
      else if command = VNSHWINFO then
        rbind (sr_handle_hwinfo sr buf) (\<lambda>(n, sr).
        Inr (if sr_verify_routing_table sr \<noteq> 0 then -1 else 1, sr, e))
      else if command = VNS_RTABLE then
        rbind (sr_handle_rtable e buf) (\<lambda>(ok, e). Inr (if ok = 0 then -1 else 1, sr, e))
      else if command = VNS_AUTH_REQUEST then
        rbind (sr_handle_auth_request sr e buf) (\<lambda>(ok, sr). Inr (if ok = 0 then -1 else 1, sr, e))
      else if command = VNS_AUTH_STATUS then
        rbind (sr_handle_auth_status buf) (\<lambda>ok. Inr (if ok = 0 then -1 else 1, sr, e))
      else Inr (1, sr, e))"

definition handle_command ::
  "sr_instance \<Rightarrow> vns \<Rightarrow> u32 \<Rightarrow> byte list \<Rightarrow> nat \<Rightarrow> (int \<times> sr_instance \<times> vns) res" where
  \<comment> \<open>from the conversion of the type to the end; \<open>expected_cmd\<close> 0 accepts all commands\<close>
  "handle_command sr e expected_cmd buf len =
     rbind (ld32 buf 4) (\<lambda>mType.
     let command = ntohl mType in
     rbind (st32 buf 4 command) (\<lambda>buf.
     if expected_cmd \<noteq> 0 \<and> command \<noteq> expected_cmd \<and> command \<noteq> VNSCLOSE then Inr (-1, sr, e)
     else dispatch sr e command buf len))"

definition sr_read_from_server_expect ::
  "sr_instance \<Rightarrow> vns \<Rightarrow> u32 \<Rightarrow> (int \<times> sr_instance \<times> vns) res option" where
  \<comment> \<open>\<open>None\<close>: the function does not return\<close>
  "sr_read_from_server_expect sr e expected_cmd =
     do {
       (size, s) \<leftarrow> recv_loop 4 [] (inp e);
       case size of None \<Rightarrow> Some (Inr (-1, sr, e\<lparr>inp := s\<rparr>))
       | Some word \<Rightarrow>
           let len = sint (ntohl (get32 word 0)) in
           if len > 10000 \<or> len < 0 then Some (Inr (-1, close_socket sr, e\<lparr>inp := s\<rparr>))
           else
             let (buf, sr) = malloc sr (nat len) in
             case st32 buf 0 (htonl (word_of_int len)) of Inl f \<Rightarrow> Some (Inl f)
             | Inr buf \<Rightarrow>
                 do {
                   (body, s) \<leftarrow> recv_loop (nat len - 4) [] s;
                   case body of None \<Rightarrow> Some (Inr (-1, close_socket sr, e\<lparr>inp := s\<rparr>))
                   | Some bs \<Rightarrow>
                       Some (rbind (wr buf 4 bs) (\<lambda>buf.
                         handle_command sr (e\<lparr>inp := s\<rparr>) expected_cmd buf (nat len)))
                 }
     }"

definition sr_read_from_server :: "sr_instance \<Rightarrow> vns \<Rightarrow> (int \<times> sr_instance \<times> vns) res option" where
  "sr_read_from_server sr e = sr_read_from_server_expect sr e 0"

section \<open>Opening a session\<close>

definition c_open_bytes :: "sr_instance \<Rightarrow> byte list" where
  "c_open_bytes sr = bytes32 (htonl 108) @ bytes32 (htonl VNSOPEN) @ bytes16 (htons (topo_id sr)) @ [0, 0] @
     strncpy_field IDSIZE (host sr) @ strncpy_field IDSIZE (user sr) @ replicate IDSIZE 0"

definition c_open_template_bytes :: "sr_instance \<Rightarrow> byte list" where
  "c_open_template_bytes sr = bytes32 (htonl 70) @ bytes32 (htonl VNS_OPEN_TEMPLATE) @
     strncpy_field 30 (template sr) @ strncpy_field IDSIZE (host sr)"

definition obind :: "'a res option \<Rightarrow> ('a \<Rightarrow> 'b res option) \<Rightarrow> 'b res option" where
  "obind m f = do { r \<leftarrow> m; case r of Inl e \<Rightarrow> Some (Inl e) | Inr x \<Rightarrow> f x }"

definition sr_connect_to_server ::
  "sr_instance \<Rightarrow> vns \<Rightarrow> bool \<Rightarrow> bool \<Rightarrow> bool \<Rightarrow> (int \<times> sr_instance \<times> vns) res option" where
  \<comment> \<open>whether the name resolves, a socket can be made, and it can be connected\<close>
  "sr_connect_to_server sr e resolves opens connects =
     (if \<not> resolves \<or> \<not> opens then Some (Inr (-1, sr, e))
      else if \<not> connects then Some (Inr (-1, close_socket sr, e))
      else
        let sr = sr\<lparr>sock_ok := True\<rparr> in
        obind (sr_read_from_server_expect sr e VNS_AUTH_REQUEST) (\<lambda>(ret, sr, e).
        if ret \<noteq> 1 then Some (Inr (-1, sr, e))
        else obind (sr_read_from_server_expect sr e VNS_AUTH_STATUS) (\<lambda>(ret, sr, e).
        if ret \<noteq> 1 then Some (Inr (-1, sr, e))
        else
          let buf = (if template sr \<noteq> [] then c_open_template_bytes sr else c_open_bytes sr);
              (sent, sr) = send sr buf
          in if \<not> sent then Some (Inr (-1, sr, e))
             else if template sr \<noteq> [] then
               obind (sr_read_from_server_expect sr e VNS_RTABLE) (\<lambda>(ret, sr, e).
               Some (Inr (if ret \<noteq> 1 then -1 else 0, sr, e)))
             else Some (Inr (0, sr, e)))))"

section \<open>Start-up and main loop: \<open>sr_main.c\<close>\<close>

definition sr_init_instance :: "sr_instance \<Rightarrow> sr_instance" where
  "sr_init_instance sr = sr\<lparr>sock_ok := False, user := [], host := [], topo_id := 0, if_list := [],
     routing_table := [], logfile := None\<rparr>"

definition sr_set_user :: "sr_instance \<Rightarrow> cstr option \<Rightarrow> sr_instance" where
  \<comment> \<open>the name \<open>getpwuid\<close> finds, else \<open>"something_silly"\<close>\<close>
  "sr_set_user sr pw = (case pw of
     None \<Rightarrow> sr\<lparr>user := strncpy 32 [115, 111, 109, 101, 116, 104, 105, 110, 103, 95, 115, 105, 108, 108, 121]\<rparr>
   | Some pw_name \<Rightarrow> sr\<lparr>user := strncpy 32 pw_name\<rparr>)"

function file_lines :: "nat \<Rightarrow> byte list \<Rightarrow> byte list list" where
  \<comment> \<open>what repeated \<open>fgets\<close> calls return\<close>
  "file_lines n file =
     (if file = [] \<or> n < 2 then []
      else let (line, rest) = fgets n file in line # file_lines n rest)"
  by pat_completeness auto
termination
proof (relation "measure (\<lambda>(n, content). length content)")
  fix n :: nat and content :: "byte list" and p line rest
  assume a: "\<not> (content = [] \<or> n < 2)" and p: "p = fgets n content" "(line, rest) = p"
  have "line \<noteq> []" using a p by (auto simp: fgets_def Let_def)
  moreover have "rest = drop (length line) content" using p by (simp add: fgets_def Let_def)
  ultimately show "((n, rest), n, content) \<in> measure (\<lambda>(n, content). length content)" using a by auto
qed simp

declare file_lines.simps [simp del]

definition BUFSIZ :: nat where "BUFSIZ = 8192"

definition sr_load_rt_wrap ::
  "(cstr \<Rightarrow> u32 option) \<Rightarrow> sr_instance \<Rightarrow> vns \<Rightarrow> cstr \<Rightarrow> sr_instance option res" where
  \<comment> \<open>\<open>None\<close>: \<open>exit (1)\<close>\<close>
  "sr_load_rt_wrap inet_aton sr e rtable =
     rbind (sr_load_rt inet_aton sr (map_option (file_lines BUFSIZ) (files e rtable))) (\<lambda>(ret, sr).
     Inr (if ret \<noteq> 0 then None else Some sr))"

partial_function (option) main_loop :: "sr_instance \<Rightarrow> vns \<Rightarrow> (int \<times> sr_instance \<times> vns) res option" where
  \<comment> \<open>\<open>while (sr_read_from_server (&sr) == 1)\<close>\<close>
  "main_loop sr e =
     do {
       r \<leftarrow> sr_read_from_server sr e;
       case r of Inl f \<Rightarrow> Some (Inl f)
       | Inr x \<Rightarrow> (case x of (ret, sr, e) \<Rightarrow> if ret = 1 then main_loop sr e else Some (Inr (ret, sr, e)))
     }"

record options =
  o_host :: cstr
  o_user :: "cstr option"
  o_rtable :: cstr
  o_template :: "cstr option"
  o_topo :: u32
  o_logfile :: "bool option"

definition rtable_vrhost :: cstr where
  \<comment> \<open>\<open>"rtable.vrhost"\<close>\<close>
  "rtable_vrhost = rtable_prefix @ [118, 114, 104, 111, 115, 116]"

definition main_setup ::
  "(cstr \<Rightarrow> u32 option) \<Rightarrow> cstr option \<Rightarrow> options \<Rightarrow> sr_instance \<Rightarrow> vns \<Rightarrow> sr_instance option res" where
  \<comment> \<open>from \<open>sr_init_instance\<close> to the log file, which can be opened or not\<close>
  "main_setup inet_aton pw opts sr e =
     (let sr = sr_init_instance sr in
      rbind (case o_template opts of
               None \<Rightarrow> sr_load_rt_wrap inet_aton (sr\<lparr>template := []\<rparr>) e (o_rtable opts)
             | Some t \<Rightarrow> Inr (Some (sr\<lparr>template := strncpy 30 t\<rparr>))) (\<lambda>loaded.
      case loaded of None \<Rightarrow> Inr None
      | Some sr \<Rightarrow>
          let sr = sr\<lparr>topo_id := ucast (o_topo opts), host := strncpy 32 (o_host opts)\<rparr>;
              sr = (case o_user opts of None \<Rightarrow> sr_set_user sr pw | Some u \<Rightarrow> sr\<lparr>user := strncpy 32 u\<rparr>)
          in case o_logfile opts of None \<Rightarrow> Inr (Some sr)
             | Some opens \<Rightarrow>
                 (case sr_dump_open opens 0 PACKET_DUMP_SIZE of None \<Rightarrow> Inr None
                  | Some log \<Rightarrow> Inr (Some (sr\<lparr>logfile := Some log\<rparr>)))))"

definition main ::
  "(cstr \<Rightarrow> u32 option) \<Rightarrow> cstr option \<Rightarrow> bool \<Rightarrow> bool \<Rightarrow> bool \<Rightarrow> options \<Rightarrow> sr_instance \<Rightarrow> vns \<Rightarrow>
     (int \<times> sr_instance \<times> vns) res option" where
  \<comment> \<open>the exit status and the final state\<close>
  "main inet_aton pw resolves opens connects opts sr e =
     obind (Some (main_setup inet_aton pw opts sr e)) (\<lambda>set_up.
     case set_up of None \<Rightarrow> Some (Inr (1, sr, e))
     | Some sr \<Rightarrow>
         obind (sr_connect_to_server sr e resolves opens connects) (\<lambda>(ret, sr, e).
         if ret = -1 then Some (Inr (1, sr, e))
         else
           let rtable = (if o_template opts \<noteq> None \<and> o_rtable opts = rtable_vrhost then rtable_vrhost
                         else o_rtable opts) in
           obind (Some (sr_load_rt_wrap inet_aton sr e rtable)) (\<lambda>loaded.
           case loaded of None \<Rightarrow> Some (Inr (1, sr, e))
           | Some sr \<Rightarrow>
               obind (main_loop (sr_init sr) e) (\<lambda>(ret, sr, e). Some (Inr (0, sr, e))))))"

end
