(* ===== verification/Vns_Session.thy ===== *)
theory Vns_Session
  imports Vns_Comm
begin

text \<open>
  The session with the server: a command is read as one whatever pieces it arrives in, opening a session
  proves knowledge of the key, the hardware description configures the interfaces.
\<close>

section \<open>Fields of concatenated buffers\<close>

lemma put_at: "length a = i \<Longrightarrow> length b = length bs \<Longrightarrow> put (a @ b @ c) i bs = a @ bs @ c"
  by (simp add: put_append)

lemma slice_at: "length a = i \<Longrightarrow> length b = n \<Longrightarrow> slice (a @ b @ c) i n = b"
  by (simp add: slice_def)

lemma get32_at: "length a = i \<Longrightarrow> get32 (a @ bytes32 w @ c) i = w"
  by (simp add: get32_def nth_append bytes32_def nth_Cons' numeral_2_eq_2 numeral_3_eq_3
      mk32_byte32 [unfolded numeral_2_eq_2 numeral_3_eq_3])

lemma unat_word_small: "n < 4294967296 \<Longrightarrow> unat (word_of_nat n :: u32) = n"
  by (simp add: unat_of_nat take_bit_nat_eq_self)

section \<open>The byte stream\<close>

fun stream :: "recv_event list \<Rightarrow> byte list" where
  \<comment> \<open>what arrives before the first failure\<close>
  "stream [] = []"
| "stream (Chunk bs # s) = bs @ stream s"
| "stream (Interrupted # s) = stream s"
| "stream (Failed # s) = []"

lemma recv_loop_done: "n \<le> length got \<Longrightarrow> recv_loop n got s = Some (Some got, s)"
  by (simp add: recv_loop.simps [of n got s])

lemma recv_loop_gets:
  "length got \<le> n \<Longrightarrow> n \<le> length got + length (stream s) \<Longrightarrow>
    \<exists>s'. recv_loop n got s = Some (Some (got @ take (n - length got) (stream s)), s') \<and>
      stream s' = drop (n - length got) (stream s)"
proof (induction s arbitrary: got)
  case Nil
  then show ?case by (simp add: recv_loop_done)
next
  case (Cons ev s)
  show ?case
  proof (cases "n \<le> length got")
    case True
    then show ?thesis using Cons.prems by (simp add: recv_loop_done)
  next
    case False
    then have step: "recv_loop n got (ev # s) = (case recv (ev # s) (n - length got) of
        (Got bs, s) \<Rightarrow> recv_loop n (got @ bs) s | (Eintr, s) \<Rightarrow> recv_loop n got s | (Error, s) \<Rightarrow> Some (None, s))"
      by (simp add: recv_loop.simps [of n got "ev # s"])
    show ?thesis
    proof (cases ev)
      case (Chunk bs)
      show ?thesis
      proof (cases "length bs \<le> n - length got")
        case True
        then show ?thesis using Cons.IH [of "got @ bs"] Cons.prems False Chunk step by auto
      next
        case big: False
        then have "recv_loop n (got @ take (n - length got) bs) (Chunk (drop (n - length got) bs) # s) =
            Some (Some (got @ take (n - length got) bs), Chunk (drop (n - length got) bs) # s)"
          using False by (intro recv_loop_done) simp
        then show ?thesis using step Chunk big by simp
      qed
    next
      case Interrupted
      then show ?thesis using Cons step by simp
    next
      case Failed
      then show ?thesis using Cons.prems False by simp
    qed
  qed
qed

text \<open>If the stream ends too early and no call fails, the loop spins on the closed connection.\<close>

lemma recv_stream:
  "recv s m = (Got bs, s') \<Longrightarrow> Failed \<notin> set s \<Longrightarrow>
    Failed \<notin> set s' \<and> length (stream s) = length bs + length (stream s')"
  "recv s m = (Eintr, s') \<Longrightarrow> Failed \<notin> set s \<Longrightarrow> Failed \<notin> set s' \<and> stream s = stream s'"
  "recv s m = (Error, s') \<Longrightarrow> Failed \<in> set s"
  by (cases "(s, m)" rule: recv.cases; auto split: if_splits)+

lemma recv_loop_returns:
  "recv_loop n got s = Some r \<Longrightarrow>
    Failed \<notin> set s \<longrightarrow> n \<le> length got + length (stream s) \<and> Failed \<notin> set (snd r)"
proof (rule recv_loop.raw_induct [where P = "\<lambda>n got s r. Failed \<notin> set s \<longrightarrow>
      n \<le> length got + length (stream s) \<and> Failed \<notin> set (snd r)"])
  fix loop n got s r
  assume 1: "\<And>n got s r. loop n got s = Some r \<Longrightarrow>
      Failed \<notin> set s \<longrightarrow> n \<le> length got + length (stream s) \<and> Failed \<notin> set (snd r)"
    "(if n \<le> length got then Some (Some got, s)
      else case recv s (n - length got) of
        (Got bs, s) \<Rightarrow> loop n (got @ bs) s
      | (Eintr, s) \<Rightarrow> loop n got s
      | (Error, s) \<Rightarrow> Some (None, s)) = Some r"
  show "Failed \<notin> set s \<longrightarrow> n \<le> length got + length (stream s) \<and> Failed \<notin> set (snd r)"
  proof (cases "n \<le> length got")
    case False
    obtain a s' where a: "recv s (n - length got) = (a, s')" by (cases "recv s (n - length got)")
    show ?thesis
    proof (cases a)
      case (Got bs)
      then have "loop n (got @ bs) s' = Some r" using 1(2) False a by simp
      then show ?thesis using 1(1) [of n "got @ bs" s'] recv_stream(1) a Got by fastforce
    next
      case Eintr
      then have "loop n got s' = Some r" using 1(2) False a by simp
      then show ?thesis using 1(1) [of n got s'] recv_stream(2) a Eintr by fastforce
    next
      case Error
      then show ?thesis using recv_stream(3) a by auto
    qed
  qed (use 1(2) in auto)
qed

lemma recv_loop_spins:
  "Failed \<notin> set s \<Longrightarrow> length got + length (stream s) < n \<Longrightarrow> recv_loop n got s = None"
  using recv_loop_returns [of n got s] by (cases "recv_loop n got s") auto

lemma read_size:
  assumes "stream s = bytes32 h @ part" "Failed \<notin> set s"
  shows "\<exists>s1. recv_loop 4 [] s = Some (Some (bytes32 h), s1) \<and> stream s1 = part \<and> Failed \<notin> set s1"
proof -
  obtain s1 where "recv_loop 4 [] s = Some (Some (bytes32 h), s1)" "stream s1 = part"
    using recv_loop_gets [of "[]" 4 s] assms(1) by auto
  then show ?thesis using recv_loop_returns assms(2) by fastforce
qed

section \<open>One command\<close>

definition vns_message :: "u32 \<Rightarrow> byte list \<Rightarrow> byte list" where
  \<comment> \<open>a command as it is sent\<close>
  "vns_message ty body = bytes32 (htonl (word_of_nat (8 + length body))) @ bytes32 (htonl ty) @ body"

definition read_message :: "u32 \<Rightarrow> byte list \<Rightarrow> byte list" where
  \<comment> \<open>the buffer given to the handlers: the type is in host order\<close>
  "read_message ty body = bytes32 (htonl (word_of_nat (8 + length body))) @ bytes32 ty @ body"

lemma length_messages [simp]: "length (vns_message ty body) = 8 + length body"
  "length (read_message ty body) = 8 + length body"
  by (simp_all add: vns_message_def read_message_def)

definition accepts :: "u32 \<Rightarrow> u32 \<Rightarrow> bool" where
  "accepts expected ty \<longleftrightarrow> expected = 0 \<or> ty = expected \<or> ty = VNSCLOSE"

lemma handle_message:
  "handle_command sr e cmd (vns_message ty body) n =
    (if accepts cmd ty then dispatch sr e ty (read_message ty body) n else Inr (-1, sr, e))"
proof -
  have "get32 (vns_message ty body) 4 = htonl ty" unfolding vns_message_def by (rule get32_at) simp
  moreover have "put (vns_message ty body) 4 (bytes32 ty) = read_message ty body"
    unfolding vns_message_def read_message_def by (rule put_at) simp_all
  ultimately show ?thesis
    by (auto simp: handle_command_def access_ok accepts_def)
qed

lemma sint_small: "n < 2147483648 \<Longrightarrow> sint (word_of_nat n :: u32) = int n"
  by (simp add: signed_of_nat signed_take_bit_int_eq_self)

lemma read_command:
  assumes s: "stream (inp e) = vns_message ty body @ later" and n: "length body \<le> 9992"
  shows "\<exists>s'. stream s' = later \<and> sr_read_from_server_expect sr e cmd =
    Some (let sr = snd (malloc sr (8 + length body)); e = e\<lparr>inp := s'\<rparr> in
      if accepts cmd ty then dispatch sr e ty (read_message ty body) (8 + length body) else Inr (-1, sr, e))"
proof -
  let ?n = "8 + length body" and ?h = "bytes32 (htonl (word_of_nat (8 + length body)))"
  let ?rest = "bytes32 (htonl ty) @ body"
  have st: "stream (inp e) = ?h @ ?rest @ later" using s by (simp add: vns_message_def)
  obtain s1 where s1: "recv_loop 4 [] (inp e) = Some (Some ?h, s1)" "stream s1 = ?rest @ later"
    using recv_loop_gets [of "[]" 4 "inp e"] st by auto
  have k: "?n - 4 = length ?rest" by simp
  obtain s2 where s2: "recv_loop (?n - 4) [] s1 = Some (Some ?rest, s2)" "stream s2 = later"
    using recv_loop_gets [of "[]" "?n - 4" s1] s1(2) unfolding k by auto
  have i: "sint (word_of_nat ?n :: u32) = int ?n" using n by (intro sint_small) simp
  let ?buf = "fst (malloc sr ?n)"
  have b0: "put ?buf 0 ?h = ?h @ drop 4 ?buf" by (simp add: put_append)
  have b: "put (?h @ drop 4 ?buf) 4 ?rest = vns_message ty body"
    by (simp add: put_append vns_message_def)
  have w: "wr (?h @ drop 4 ?buf) 4 ?rest = Inr (vns_message ty body)"
    using wr_ok [of 4 ?rest "?h @ drop 4 ?buf"] unfolding b by simp
  have "sr_read_from_server_expect sr e cmd =
      Some (handle_command (snd (malloc sr ?n)) (e\<lparr>inp := s2\<rparr>) cmd (vns_message ty body) ?n)"
    using n s1(1) s2(1) i w b0
    by (simp add: sr_read_from_server_expect_def Let_def access_ok split_beta del: of_nat_add)
  then show ?thesis using s2(2) by (intro exI [of _ s2]) (simp add: handle_message Let_def)
qed

section \<open>Authentication\<close>

lemma put_next:
  "length a = i \<Longrightarrow> i + length bs \<le> length b \<Longrightarrow> put (a @ drop i b) i bs = (a @ bs) @ drop (i + length bs) b"
  by (simp add: put_append add.commute)

lemma length_digest_bytes [simp]: "length (digest_bytes ds) = 20"
  by (simp add: digest_bytes_def upt_rec)

lemma auth_reply_message:
  assumes "length (user sr) < 32"
  shows "auth_reply sr ds = Inr (vns_message VNS_AUTH_REPLY
    (bytes32 (htonl (word_of_nat (length (user sr)))) @ user sr @ digest_bytes ds), sr\<lparr>allocs := Suc (allocs sr)\<rparr>)"
proof -
  let ?u = "length (user sr)"
  define b where "b = map (junk sr (allocs sr)) [0..<32 + ?u]"
  define h1 h2 h3 where "h1 = bytes32 (htonl (word_of_nat (32 + ?u)))" and
    "h2 = bytes32 (htonl VNS_AUTH_REPLY)" and "h3 = bytes32 (htonl (word_of_nat ?u))"
  have l: "length h1 = 4" "length h2 = 4" "length h3 = 4" "length b = 32 + ?u"
    by (simp_all add: h1_def h2_def h3_def b_def)
  have 1: "put b 0 h1 = h1 @ drop 4 b" using put_next [of "[]" 0 h1 b] l by simp
  have 2: "put (h1 @ drop 4 b) 4 h2 = (h1 @ h2) @ drop 8 b" using put_next [of h1 4 h2 b] l by simp
  have 3: "put ((h1 @ h2) @ drop 8 b) 8 h3 = (h1 @ h2 @ h3) @ drop 12 b"
    using put_next [of "h1 @ h2" 8 h3 b] l by simp
  have 4: "put ((h1 @ h2 @ h3) @ drop 12 b) 12 (user sr @ [0]) =
      (h1 @ h2 @ h3 @ user sr @ [0]) @ drop (13 + ?u) b"
    using put_next [of "h1 @ h2 @ h3" 12 "user sr @ [0]" b] l by simp
  have 5: "put ((h1 @ h2 @ h3 @ user sr @ [0]) @ drop (13 + ?u) b) (12 + ?u) (digest_bytes ds) =
      h1 @ h2 @ h3 @ user sr @ digest_bytes ds"
    using l by (simp add: put_append)
  have n: "32 + ?u = 12 + ?u + SHA1_LEN" "8 + (4 + (?u + 20)) = 32 + ?u" by (simp_all add: SHA1_LEN_def)
  have "auth_reply sr ds = Inr (h1 @ h2 @ h3 @ user sr @ digest_bytes ds, sr\<lparr>allocs := Suc (allocs sr)\<rparr>)"
    using assms l 1 2 3 4 5
    unfolding auth_reply_def malloc_def Let_def prod.case n(1) [symmetric] b_def [symmetric]
      h1_def [symmetric] h2_def [symmetric] h3_def [symmetric] st32_def
    by (simp add: access_ok IDSIZE_def)
  then show ?thesis
    by (simp add: vns_message_def h1_def h2_def h3_def del: of_nat_add)
qed

lemma fgets_line:
  assumes "n \<le> length content" "10 \<notin> set (take n content)"
  shows "fst (fgets (n + 1) content) = take n content"
  using assms by (simp add: fgets_def Let_def)

lemma auth_request_answered:
  assumes key: "files e auth_key_file = Some content" "64 \<le> length content" "10 \<notin> set (take 64 content)"
    and "length (user sr) < 32" "sock_ok sr" "length salt \<le> 9992"
  shows "sr_handle_auth_request sr e (read_message ty salt) = Inr (1, sr\<lparr>allocs := allocs sr + 3,
    sock_out := sock_out sr @ [vns_message VNS_AUTH_REPLY
      (bytes32 (htonl (word_of_nat (length (user sr)))) @ user sr @ digest_bytes (sha1 (salt @ take 64 content)))]\<rparr>)"
proof -
  let ?req = "read_message ty salt"
  let ?sr2 = "sr\<lparr>allocs := Suc (Suc (allocs sr))\<rparr>"
  define key where "key = map (junk sr (allocs sr)) [0..<65]"
  define block where "block = map (junk sr (Suc (allocs sr))) [0..<64]"
  have len: "ld32 ?req 0 = Inr (htonl (word_of_nat (8 + length salt)))"
    using get32_at [of "[]" 0] by (simp add: access_ok read_message_def)
  have n: "unat (word_of_nat (8 + length salt) :: u32) = 8 + length salt"
    using assms(6) by (intro unat_word_small) simp
  have salt: "rd ?req 8 (length salt) = Inr salt"
    using slice_at [of "bytes32 (htonl (word_of_nat (8 + length salt))) @ bytes32 ty" 8 salt _ "[]"]
    by (simp add: access_ok read_message_def)
  have l: "fst (fgets (AUTH_KEY_LEN + 1) content) = take 64 content" "take 64 content \<noteq> []"
    using fgets_line [of 64 content] key by (auto simp: AUTH_KEY_LEN_def)
  have k1: "wr key 0 (take 64 content @ [0]) = Inr (take 64 content @ [0])"
    using key(2) by (simp add: access_ok key_def put_append)
  have k2: "rd (take 64 content @ [0]) 0 AUTH_KEY_LEN = Inr (take 64 content)"
    using key(2) by (simp add: rd_def slice_def AUTH_KEY_LEN_def)
  have c0: "length (Message_Block (stack_context block)) = 64" "8 * length (salt @ take 64 content) < 2 ^ 64"
    using assms(6) key(2) by (simp_all add: stack_context_def block_def)
  obtain c where c: "rbind (SHA1Input (SHA1Reset (stack_context block)) salt)
      (\<lambda>c. rbind (SHA1Input c (take 64 content)) SHA1Result) = Inr (True, c)"
      "Message_Digest c = sha1 (salt @ take 64 content)"
    using sha1_two_inputs [OF c0] by blast
  then obtain c1 c2 where c12: "SHA1Input (SHA1Reset (stack_context block)) salt = Inr c1"
      "SHA1Input c1 (take 64 content) = Inr c2" "SHA1Result c2 = Inr (True, c)"
    by (auto elim!: rbind_InrE)
  have m: "malloc sr (AUTH_KEY_LEN + 1) = (key, sr\<lparr>allocs := Suc (allocs sr)\<rparr>)"
    "malloc (sr\<lparr>allocs := Suc (allocs sr)\<rparr>) 64 = (block, ?sr2)"
    by (simp_all add: malloc_def key_def block_def AUTH_KEY_LEN_def)
  show ?thesis
    unfolding sr_handle_auth_request_def key(1) option.case m Let_def prod.case l(1) k1 len n rbind_simps
    using l(2) assms(4,5)
    by (simp add: n salt c12 k2 c(2) auth_reply_message send_def del: of_nat_add)
qed

definition digest_string :: "u32 list \<Rightarrow> byte list" where
  \<comment> \<open>the digest as a string of bytes, each word most significant byte first\<close>
  "digest_string ds = concat (map (\<lambda>w. [byte32 3 w, byte32 2 w, byte32 1 w, byte32 0 w]) ds)"

lemma digest_bytes_string: "digest_bytes (sha1 m) = digest_string (sha1 m)"
proof -
  have "bytes32 (htonl w) = [byte32 3 w, byte32 2 w, byte32 1 w, byte32 0 w]" for w
    by (simp add: bytes32_def htonl_def)
  moreover have "map (\<lambda>i. [byte32 3 (sha1 m ! i), byte32 2 (sha1 m ! i), byte32 1 (sha1 m ! i), byte32 0 (sha1 m ! i)])
      [0..<5] = map (\<lambda>w. [byte32 3 w, byte32 2 w, byte32 1 w, byte32 0 w]) (sha1 m)"
    using length_sha1 [of m] by (intro nth_equalityI) simp_all
  ultimately show ?thesis by (simp add: digest_bytes_def digest_string_def)
qed

section \<open>Opening a session\<close>

lemma auth_status_ok: "sr_handle_auth_status (read_message VNS_AUTH_STATUS (1 # msg)) = Inr 1"
proof -
  have "get8 (read_message VNS_AUTH_STATUS (1 # msg)) 8 = 1"
    by (simp add: read_message_def get8_def nth_append)
  then show ?thesis by (simp add: sr_handle_auth_status_def access_ok)
qed

lemma session_opened:
  assumes s: "stream (inp e) = vns_message VNS_AUTH_REQUEST salt @ vns_message VNS_AUTH_STATUS (1 # msg) @ later"
    and key: "files e auth_key_file = Some content" "64 \<le> length content" "10 \<notin> set (take 64 content)"
    and n: "length salt \<le> 9992" "length msg < 9992"
    and "length (user sr) < 32" "template sr = []"
  shows "\<exists>sr' s'. stream s' = later \<and>
    sr_connect_to_server sr e True True True = Some (Inr (0, sr', e\<lparr>inp := s'\<rparr>)) \<and>
    sock_out sr' = sock_out sr @ [vns_message VNS_AUTH_REPLY
      (bytes32 (htonl (word_of_nat (length (user sr)))) @ user sr @ digest_bytes (sha1 (salt @ take 64 content))),
      c_open_bytes sr]"
proof -
  let ?sr1 = "sr\<lparr>sock_ok := True\<rparr>"
  let ?sr2 = "snd (malloc ?sr1 (8 + length salt))"
  let ?reply = "vns_message VNS_AUTH_REPLY
      (bytes32 (htonl (word_of_nat (length (user sr)))) @ user sr @ digest_bytes (sha1 (salt @ take 64 content)))"
  let ?sr3 = "?sr2\<lparr>allocs := allocs ?sr2 + 3, sock_out := sock_out sr @ [?reply]\<rparr>"
  obtain s1 where s1: "stream s1 = vns_message VNS_AUTH_STATUS (1 # msg) @ later"
      "sr_read_from_server_expect ?sr1 e VNS_AUTH_REQUEST = Some (dispatch ?sr2 (e\<lparr>inp := s1\<rparr>) VNS_AUTH_REQUEST
         (read_message VNS_AUTH_REQUEST salt) (8 + length salt))"
    using read_command [OF s n(1), of ?sr1 VNS_AUTH_REQUEST] by (auto simp: Let_def accepts_def)
  have "sr_handle_auth_request ?sr2 (e\<lparr>inp := s1\<rparr>) (read_message VNS_AUTH_REQUEST salt) = Inr (1, ?sr3)"
    using auth_request_answered [of "e\<lparr>inp := s1\<rparr>" content ?sr2 salt VNS_AUTH_REQUEST] key n(1) assms(7)
    by (simp add: malloc_def)
  then have 1: "sr_read_from_server_expect ?sr1 e VNS_AUTH_REQUEST = Some (Inr (1, ?sr3, e\<lparr>inp := s1\<rparr>))"
    using s1(2) by (simp add: dispatch_def vns_type_defs)
  let ?sr4 = "snd (malloc ?sr3 (8 + length (1 # msg)))"
  have m: "length (1 # msg) \<le> 9992" using n(2) by simp
  obtain s2 where s2: "stream s2 = later"
      "sr_read_from_server_expect ?sr3 (e\<lparr>inp := s1\<rparr>) VNS_AUTH_STATUS = Some (dispatch ?sr4 (e\<lparr>inp := s2\<rparr>)
         VNS_AUTH_STATUS (read_message VNS_AUTH_STATUS (1 # msg)) (8 + length (1 # msg)))"
    using read_command [of "e\<lparr>inp := s1\<rparr>", OF _ m, of VNS_AUTH_STATUS later ?sr3 VNS_AUTH_STATUS] s1(1)
    by (auto simp: Let_def accepts_def)
  have 2: "sr_read_from_server_expect ?sr3 (e\<lparr>inp := s1\<rparr>) VNS_AUTH_STATUS = Some (Inr (1, ?sr4, e\<lparr>inp := s2\<rparr>))"
    using s2(2) auth_status_ok [of msg] by (simp add: dispatch_def vns_type_defs)
  have t: "template ?sr4 = []" "sock_ok ?sr4" "sock_out ?sr4 = sock_out sr @ [?reply]"
      "c_open_bytes ?sr4 = c_open_bytes sr"
    using assms(8) by (simp_all add: malloc_def c_open_bytes_def)
  have "sr_connect_to_server sr e True True True =
      Some (Inr (0, ?sr4\<lparr>sock_out := sock_out ?sr4 @ [c_open_bytes ?sr4]\<rparr>, e\<lparr>inp := s2\<rparr>))"
    unfolding sr_connect_to_server_def Let_def 1 obind_def
    using 2 t by (simp add: send_def)
  then show ?thesis using s2(1) t by (intro exI conjI) auto
qed

section \<open>The hardware description\<close>

definition hw_entry :: "u32 \<times> byte list \<Rightarrow> byte list" where
  "hw_entry = (\<lambda>(key, value). bytes32 (htonl key) @ value)"

definition hw_interface :: "cstr \<times> byte list \<times> u32 \<Rightarrow> (u32 \<times> byte list) list" where
  \<comment> \<open>the entries that describe one interface\<close>
  "hw_interface = (\<lambda>(name, mac, ip). [(HWINTERFACE, strncpy_field 32 name), (HWETHER, mac @ replicate 26 0),
     (HWETHIP, bytes32 ip @ replicate 28 0)])"

definition hw_body :: "(cstr \<times> byte list \<times> u32) list \<Rightarrow> byte list" where
  "hw_body ifs = concat (map hw_entry (concat (map hw_interface ifs)))"

definition interfaces :: "sr_instance \<Rightarrow> (cstr \<times> byte list \<times> u32) list" where
  "interfaces sr = map (\<lambda>i. (if_name i, if_addr i, if_ip i)) (if_list sr)"

fun entries_loop :: "sr_instance \<Rightarrow> (u32 \<times> byte list) list \<Rightarrow> sr_instance res" where
  "entries_loop sr [] = Inr sr"
| "entries_loop sr ((key, value) # es) = rbind (handle_entry sr key value) (\<lambda>sr. entries_loop sr es)"

lemma hw_loop_entries:
  "length pre = 8 + 36 * i \<Longrightarrow> \<forall>(k, v) \<in> set es. length v = 32 \<Longrightarrow>
    hw_loop sr (pre @ concat (map hw_entry es)) [i..<i + length es] = entries_loop sr es"
proof (induction es arbitrary: pre i sr)
  case (Cons x es)
  obtain k v where x: "x = (k, v)" by (cases x)
  let ?later = "concat (map hw_entry es)"
  let ?buf = "pre @ concat (map hw_entry (x # es))"
  have buf: "?buf = pre @ bytes32 (htonl k) @ v @ ?later" by (simp add: hw_entry_def x)
  have v: "length v = 32" using Cons.prems(2) x by auto
  have 1: "ld32 ?buf (8 + 36 * i) = Inr (htonl k)"
    using get32_at [OF Cons.prems(1)] Cons.prems(1) unfolding buf by (simp add: access_ok)
  have 2: "rd ?buf (12 + 36 * i) 32 = Inr v"
    using slice_at [of "pre @ bytes32 (htonl k)" "12 + 36 * i" v 32 ?later] Cons.prems(1) v unfolding buf
    by (simp add: access_ok)
  have "hw_loop sr' ((pre @ bytes32 (htonl k) @ v) @ ?later) [Suc i..<Suc i + length es] = entries_loop sr' es"
    for sr'
    using Cons.prems v by (intro Cons.IH) auto
  then have 3: "hw_loop sr' ?buf [Suc i..<i + length (x # es)] = entries_loop sr' es" for sr'
    unfolding buf by simp
  have u: "[i..<i + length (x # es)] = i # [Suc i..<i + length (x # es)]"
    by (rule upt_conv_Cons) simp
  show ?case unfolding u hw_loop.simps 1 2 3 rbind_simps by (simp add: x)
qed simp

lemma strncpy_strncpy_field: "strncpy 32 (strncpy_field 32 s) = strncpy 32 s"
proof -
  have nz: "\<forall>c \<in> set (strncpy 32 s). c \<noteq> 0"
    by (auto simp: strncpy_def c_string_def dest: in_set_takeD set_takeWhileD)
  have "takeWhile (\<lambda>c. c \<noteq> 0) (replicate k (0 :: byte)) = []" for k by (cases k) simp_all
  then have "c_string (strncpy_field 32 s) = strncpy 32 s"
    using nz by (simp add: strncpy_field_def c_string_def)
  then show ?thesis by (simp add: strncpy_def)
qed

lemma entries_interface:
  assumes "length mac = 6"
  shows "\<exists>sr'. entries_loop sr (hw_interface (name, mac, ip) @ es) = entries_loop sr' es \<and>
    interfaces sr' = interfaces sr @ [(strncpy 32 name, mac, ip)] \<and> routing_table sr' = routing_table sr"
proof -
  obtain node where a: "if_list (sr_add_interface sr (strncpy_field 32 name)) = if_list sr @ [node]"
      "if_name node = strncpy 32 name" "routing_table (sr_add_interface sr (strncpy_field 32 name)) = routing_table sr"
    by (simp add: sr_add_interface_def Let_def sr_IFACE_NAMELEN_def strncpy_strncpy_field)
  have m: "rd (mac @ replicate 26 0) 0 6 = Inr mac" using assms by (simp add: rd_def slice_def)
  have i: "ld32 (bytes32 ip @ replicate 28 0) 0 = Inr ip" using get32_at [of "[]" 0 ip] by (simp add: ld32_def)
  show ?thesis
    by (rule exI [of _ "sr_add_interface sr (strncpy_field 32 name)
        \<lparr>if_list := if_list sr @ [node\<lparr>if_addr := mac, if_ip := ip\<rparr>]\<rparr>"])
      (simp add: hw_interface_def handle_entry_def HWINTERFACE_def HWETHER_def HWETHIP_def a m i
        sr_set_ether_addr_def sr_set_ether_ip_def interfaces_def)
qed

lemma entries_interfaces:
  "\<forall>(n, a, ip) \<in> set ifs. length a = 6 \<Longrightarrow>
    \<exists>sr'. entries_loop sr (concat (map hw_interface ifs)) = Inr sr' \<and>
      interfaces sr' = interfaces sr @ map (\<lambda>(n, a, ip). (strncpy 32 n, a, ip)) ifs \<and>
      routing_table sr' = routing_table sr"
proof (induction ifs arbitrary: sr)
  case (Cons x ifs)
  obtain n a ip where x: "x = (n, a, ip)" by (cases x)
  obtain sr1 where sr1: "entries_loop sr (hw_interface (n, a, ip) @ concat (map hw_interface ifs)) =
      entries_loop sr1 (concat (map hw_interface ifs))"
      "interfaces sr1 = interfaces sr @ [(strncpy 32 n, a, ip)]" "routing_table sr1 = routing_table sr"
    using entries_interface [of a sr n ip] Cons.prems x by auto
  obtain sr' where "entries_loop sr1 (concat (map hw_interface ifs)) = Inr sr'"
      "interfaces sr' = interfaces sr1 @ map (\<lambda>(n, a, ip). (strncpy 32 n, a, ip)) ifs"
      "routing_table sr' = routing_table sr1"
    using Cons.IH [of sr1] Cons.prems by auto
  then show ?case using sr1 x by simp
qed simp

lemma length_hw_body:
  "\<forall>(n, a, ip) \<in> set ifs. length a = 6 \<Longrightarrow> length (hw_body ifs) = 108 * length ifs"
  by (induction ifs) (auto simp: hw_body_def hw_interface_def hw_entry_def strncpy_field_def strncpy_def)

lemma handle_hwinfo:
  assumes a: "\<forall>(n, a, ip) \<in> set ifs. length a = 6" and n: "108 * length ifs \<le> 9992"
  shows "\<exists>sr'. sr_handle_hwinfo sr (read_message ty (hw_body ifs)) = Inr (3 * length ifs, sr') \<and>
    interfaces sr' = interfaces sr @ map (\<lambda>(n, a, ip). (strncpy 32 n, a, ip)) ifs \<and>
    routing_table sr' = routing_table sr"
proof -
  let ?es = "concat (map hw_interface ifs)"
  let ?h = "bytes32 (htonl (word_of_nat (8 + length (hw_body ifs)))) @ bytes32 ty"
  have v: "\<forall>(k, v) \<in> set ?es. length v = 32"
    using a by (auto simp: hw_interface_def strncpy_field_def strncpy_def)
  have e: "length ?es = 3 * length ifs"
    by (induction ifs) (auto simp: hw_interface_def)
  have buf: "read_message ty (hw_body ifs) = ?h @ concat (map hw_entry ?es)"
    by (simp add: read_message_def hw_body_def)
  have len: "ld32 (read_message ty (hw_body ifs)) 0 = Inr (htonl (word_of_nat (8 + length (hw_body ifs))))"
    using get32_at [of "[]" 0] by (simp add: access_ok read_message_def)
  have "(unat (word_of_nat (8 + length (hw_body ifs)) :: u32) - 8) div 36 = length ?es"
    using length_hw_body [OF a] n e by (subst unat_word_small) simp_all
  moreover have "hw_loop sr (read_message ty (hw_body ifs)) [0..<length ?es] = entries_loop sr ?es"
    using hw_loop_entries [of ?h 0 ?es sr] v unfolding buf by simp
  moreover obtain sr' where "entries_loop sr ?es = Inr sr'"
      "interfaces sr' = interfaces sr @ map (\<lambda>(n, a, ip). (strncpy 32 n, a, ip)) ifs"
      "routing_table sr' = routing_table sr"
    using entries_interfaces [OF a] by blast
  ultimately show ?thesis unfolding sr_handle_hwinfo_def len by (simp add: e del: of_nat_add)
qed

text \<open>A router with nothing configured, for the examples.\<close>

definition plain_router :: sr_instance where
  "plain_router = \<lparr>user = [114, 111, 111, 116], host = [118], template = [], topo_id = 7, if_list = [],
     routing_table = [], cache = sr_arpcache_init, logfile = None, now = 0, now_usec = 0, sock_ok = True,
     sock_out = [], junk = \<lambda>_ _. 0, allocs = 0\<rparr>"

section \<open>Properties\<close>

text \<open>
  C8: commands are framed by their length alone.  Whatever pieces the bytes of a command of at most 10000
  bytes arrive in, with interrupted calls in between and the beginning of the next command in the last piece, the
  client reads exactly this command, hands it with its type in host order to the handler of the type, or refuses
  it when another type was expected and it does not close the session, and leaves the bytes after it for the
  next call.
\<close>

theorem commands_are_framed:
  assumes "stream (inp e) = vns_message ty body @ later" "length body \<le> 9992"
  shows "\<exists>s'. stream s' = later \<and> sr_read_from_server_expect sr e expected =
    Some (let sr = snd (malloc sr (8 + length body)); e = e\<lparr>inp := s'\<rparr> in
      if expected = 0 \<or> ty = expected \<or> ty = VNSCLOSE
      then dispatch sr e ty (read_message ty body) (8 + length body) else Inr (-1, sr, e))"
  using read_command [OF assms, of sr expected] by (simp only: accepts_def)

theorem commands_are_framed_witness:
  fixes m :: "byte list"
  defines "m \<equiv> vns_message VNSBANNER [104, 105, 0]"
  shows "\<exists>s'. stream s' = [1, 2] \<and> sr_read_from_server_expect plain_router
      \<lparr>inp = [Chunk (take 3 m), Interrupted, Chunk (drop 3 m @ [1]), Chunk [2]], files = \<lambda>_. None, writable = \<lambda>_. False\<rparr> 0 =
    Some (let sr = snd (malloc plain_router (8 + length [104, 105, 0 :: byte]));
              e = \<lparr>inp = s', files = \<lambda>_. None, writable = \<lambda>_. False\<rparr> in
      if (0 :: u32) = 0 \<or> VNSBANNER = 0 \<or> VNSBANNER = VNSCLOSE
      then dispatch sr e VNSBANNER (read_message VNSBANNER [104, 105, 0]) (8 + length [104, 105, 0 :: byte])
      else Inr (-1, sr, e))"
proof -
  have "stream [Chunk (take 3 m), Interrupted, Chunk (drop 3 m @ [1]), Chunk [2]] =
      vns_message VNSBANNER [104, 105, 0] @ [1, 2]"
    unfolding m_def by (simp only: stream.simps append_assoc [symmetric] append_take_drop_id) simp
  then show ?thesis
    using commands_are_framed [of "\<lparr>inp = [Chunk (take 3 m), Interrupted, Chunk (drop 3 m @ [1]), Chunk [2]],
        files = \<lambda>_. None, writable = \<lambda>_. False\<rparr>" VNSBANNER "[104, 105, 0]" "[1, 2]" plain_router 0]
    by simp
qed

text \<open>
  C9: opening a session.  When the server sends an authentication request and then a positive status, the client
  connects successfully and sends exactly two commands: the reply with the user's name and the SHA-1 of the
  salt followed by the 64 characters of the key, each word of the digest in network order, and the request to
  open the topology.
\<close>

theorem session_is_opened:
  assumes "stream (inp e) = vns_message VNS_AUTH_REQUEST salt @ vns_message VNS_AUTH_STATUS (1 # msg) @ later"
    and "files e auth_key_file = Some content" "64 \<le> length content" "10 \<notin> set (take 64 content)"
    and "length salt \<le> 9992" "length msg < 9992" "length (user sr) < 32" "template sr = []"
  shows "\<exists>sr' s'. stream s' = later \<and>
    sr_connect_to_server sr e True True True = Some (Inr (0, sr', e\<lparr>inp := s'\<rparr>)) \<and>
    sock_out sr' = sock_out sr @ [vns_message VNS_AUTH_REPLY
      (bytes32 (htonl (word_of_nat (length (user sr)))) @ user sr @ digest_string (sha1 (salt @ take 64 content))),
      c_open_bytes sr]"
  using session_opened [OF assms(1-6,7,8)] by (simp only: digest_bytes_string)

theorem session_is_opened_witness:
  "\<exists>sr' s'. stream s' = [] \<and>
    sr_connect_to_server plain_router \<lparr>inp = [Chunk (vns_message VNS_AUTH_REQUEST [1, 2, 3]),
        Chunk (vns_message VNS_AUTH_STATUS [1])], files = \<lambda>_. Some (replicate 64 97), writable = \<lambda>_. False\<rparr>
      True True True =
      Some (Inr (0, sr', \<lparr>inp = s', files = \<lambda>_. Some (replicate 64 97), writable = \<lambda>_. False\<rparr>)) \<and>
    sock_out sr' = [vns_message VNS_AUTH_REPLY (bytes32 (htonl (word_of_nat 4)) @ [114, 111, 111, 116] @
        digest_string (sha1 ([1, 2, 3] @ replicate 64 97))), c_open_bytes plain_router]"
  using session_is_opened [of "\<lparr>inp = [Chunk (vns_message VNS_AUTH_REQUEST [1, 2, 3]),
        Chunk (vns_message VNS_AUTH_STATUS [1])], files = \<lambda>_. Some (replicate 64 97), writable = \<lambda>_. False\<rparr>"
      "[1, 2, 3]" "[]" "[]" "replicate 64 97" plain_router]
  by (simp add: plain_router_def)

definition routes_usable :: "(cstr \<times> byte list \<times> u32) list \<Rightarrow> sr_rt list \<Rightarrow> bool" where
  \<comment> \<open>there are interfaces and routes, and every route names one of the interfaces (32 characters count)\<close>
  "routes_usable ifs rts \<longleftrightarrow> ifs \<noteq> [] \<and> rts \<noteq> [] \<and>
     (\<forall>rt \<in> set rts. \<exists>(n, a, ip) \<in> set ifs. strncpy 32 n = strncpy 32 (rt_interface rt))"

lemma verify_routing_table_usable:
  "sr_verify_routing_table sr = 0 \<longleftrightarrow> routes_usable (interfaces sr) (routing_table sr)"
proof -
  have "(\<exists>i. find P is' = Some i) \<longleftrightarrow> (\<exists>i \<in> set is'. P i)" for P and is' :: "sr_if list"
    by (induction is') auto
  then have "(\<exists>i. sr_get_interface sr name = Some i) \<longleftrightarrow> (\<exists>i \<in> set (if_list sr). strneq 32 (if_name i) name)" for name
    by (simp add: sr_get_interface_def sr_IFACE_NAMELEN_def)
  then show ?thesis
    by (simp add: verified_table_has_interfaces routes_usable_def interfaces_def strneq_c_string)
qed

text \<open>
  C10: the hardware description is decoded into the interface list.  When the server describes interfaces by name,
  hardware address and IP address, at most 92 of them, the client appends exactly these interfaces in this
  order and keeps the routing table; it answers 1 and goes on when there are interfaces and routes and every route
  names an interface of the resulting list, and otherwise, also when the table is empty, answers -1.
\<close>

theorem hardware_description_decoded:
  assumes "stream (inp e) = vns_message VNSHWINFO (hw_body ifs) @ later"
    and "\<forall>(n, a, ip) \<in> set ifs. length a = 6" "108 * length ifs \<le> 9992"
  shows "\<exists>sr' s' all. stream s' = later \<and>
    all = interfaces sr @ map (\<lambda>(n, a, ip). (strncpy 32 n, a, ip)) ifs \<and>
    sr_read_from_server sr e =
      Some (Inr (if routes_usable all (routing_table sr) then 1 else -1, sr', e\<lparr>inp := s'\<rparr>)) \<and>
    interfaces sr' = all \<and> routing_table sr' = routing_table sr"
proof -
  have l: "length (hw_body ifs) \<le> 9992" using length_hw_body [OF assms(2)] assms(3) by simp
  let ?sr1 = "snd (malloc sr (8 + length (hw_body ifs)))"
  obtain s' where s': "stream s' = later" "sr_read_from_server_expect sr e 0 =
      Some (dispatch ?sr1 (e\<lparr>inp := s'\<rparr>) VNSHWINFO (read_message VNSHWINFO (hw_body ifs)) (8 + length (hw_body ifs)))"
    using read_command [OF assms(1) l, of sr 0] by (auto simp: Let_def accepts_def)
  obtain sr' where sr': "sr_handle_hwinfo ?sr1 (read_message VNSHWINFO (hw_body ifs)) = Inr (3 * length ifs, sr')"
      "interfaces sr' = interfaces ?sr1 @ map (\<lambda>(n, a, ip). (strncpy 32 n, a, ip)) ifs"
      "routing_table sr' = routing_table ?sr1"
    using handle_hwinfo [OF assms(2,3)] by blast
  have "sr_read_from_server sr e =
      Some (Inr (if sr_verify_routing_table sr' = 0 then 1 else -1, sr', e\<lparr>inp := s'\<rparr>))"
    using s'(2) sr'(1) by (simp add: sr_read_from_server_def dispatch_def vns_type_defs)
  then have "sr_read_from_server sr e =
      Some (Inr (if routes_usable (interfaces sr') (routing_table sr') then 1 else -1, sr', e\<lparr>inp := s'\<rparr>))"
    by (simp only: verify_routing_table_usable)
  then show ?thesis using s'(1) sr'(2,3) by (auto simp: malloc_def interfaces_def)
qed

text \<open>One interface is announced: a route through it, a route through another interface, no route.\<close>

theorem hardware_description_decoded_witness:
  fixes e :: vns and rt :: "cstr \<Rightarrow> sr_instance"
  defines "e \<equiv> \<lparr>inp = [Chunk (vns_message VNSHWINFO (hw_body [([101], [1, 2, 3, 4, 5, 6], 9)]))],
        files = \<lambda>_. None, writable = \<lambda>_. False\<rparr>"
    and "rt \<equiv> \<lambda>name. plain_router\<lparr>routing_table := [\<lparr>rt_dest = 10, rt_gw = 1, rt_mask = 0xFF, rt_interface = name\<rparr>]\<rparr>"
  shows "(\<exists>sr' s'. sr_read_from_server (rt [101]) e = Some (Inr (1, sr', e\<lparr>inp := s'\<rparr>)) \<and>
      interfaces sr' = [([101], [1, 2, 3, 4, 5, 6], 9)] \<and> routing_table sr' = routing_table (rt [101])) \<and>
    (\<exists>sr' s'. sr_read_from_server (rt [102]) e = Some (Inr (-1, sr', e\<lparr>inp := s'\<rparr>))) \<and>
    (\<exists>sr' s'. sr_read_from_server plain_router e = Some (Inr (-1, sr', e\<lparr>inp := s'\<rparr>)) \<and>
      interfaces sr' = [([101], [1, 2, 3, 4, 5, 6], 9)])"
proof -
  have s: "stream (inp e) = vns_message VNSHWINFO (hw_body [([101], [1, 2, 3, 4, 5, 6], 9)]) @ []" by (simp add: e_def)
  have none: "interfaces (rt n) = []" "interfaces plain_router = []" "routing_table plain_router = []" for n
    by (simp_all add: rt_def plain_router_def interfaces_def)
  have one: "strncpy 32 [101] = [101]" "strncpy 32 [102] = [102]" by (simp_all add: strncpy_def c_string_def)
  have u: "routes_usable [([101], [1, 2, 3, 4, 5, 6], 9)] (routing_table (rt n)) \<longleftrightarrow> strncpy 32 n = [101]" for n
    by (auto simp: routes_usable_def rt_def one)
  show ?thesis
    using hardware_description_decoded [OF s, of "rt [101]"] hardware_description_decoded [OF s, of "rt [102]"]
      hardware_description_decoded [OF s, of plain_router]
    by (auto simp: none one u) (auto simp: routes_usable_def)
qed

text \<open>
  C35: what goes wrong when reading.  If the server closes the connection in the middle of a command the
  client never returns: \<open>recv\<close> answers 0 for ever and the loop counts it as progress.  An announced length above
  10000, or with the sign bit set, ends the session and closes the socket.  A length below 8 is accepted
  and makes the client access memory behind its buffer.
\<close>

theorem reading_errors:
  assumes "Failed \<notin> set (inp e)"
  shows "(stream (inp e) = bytes32 (htonl (word_of_nat n)) @ part \<and> length part < n - 4 \<and> n \<le> 10000 \<longrightarrow>
      sr_read_from_server_expect sr e expected = None) \<and>
    (stream (inp e) = bytes32 (htonl w) @ part \<and> 10000 < unat w \<longrightarrow>
      (\<exists>s'. sr_read_from_server_expect sr e expected = Some (Inr (-1, close_socket sr, e\<lparr>inp := s'\<rparr>)))) \<and>
    (stream (inp e) = bytes32 (htonl w) @ part \<and> unat w < 8 \<and> 8 \<le> length part \<longrightarrow>
      sr_read_from_server_expect sr e expected = Some (Inl OutOfBounds))"
proof (intro conjI impI; elim conjE)
  assume s: "stream (inp e) = bytes32 (htonl (word_of_nat n)) @ part" and n: "length part < n - 4" "n \<le> 10000"
  obtain s1 where s1: "recv_loop 4 [] (inp e) = Some (Some (bytes32 (htonl (word_of_nat n))), s1)"
      "stream s1 = part" "Failed \<notin> set s1"
    using read_size [OF s assms] by blast
  have "sint (word_of_nat n :: u32) = int n" using n by (intro sint_small) simp
  moreover have "recv_loop (n - 4) [] s1 = None" using s1(2,3) n(1) by (intro recv_loop_spins) simp_all
  ultimately show "sr_read_from_server_expect sr e expected = None"
    using n s1(1) by (simp add: sr_read_from_server_expect_def Let_def access_ok split_beta del: of_nat_add)
next
  assume s: "stream (inp e) = bytes32 (htonl w) @ part" and w: "10000 < unat w"
  obtain s1 where s1: "recv_loop 4 [] (inp e) = Some (Some (bytes32 (htonl w)), s1)"
    using read_size [OF s assms] by blast
  have "\<not> (0 \<le> sint w \<and> sint w \<le> 10000)"
  proof
    assume r: "0 \<le> sint w \<and> sint w \<le> 10000"
    then have "w = word_of_nat (nat (sint w))" by simp
    moreover have "unat (word_of_nat (nat (sint w)) :: u32) = nat (sint w)" using r by (intro unat_word_small) arith
    ultimately have "unat w = nat (sint w)" by simp
    then show False using w r by arith
  qed
  then have "10000 < sint w \<or> sint w < 0" by linarith
  then show "\<exists>s'. sr_read_from_server_expect sr e expected = Some (Inr (-1, close_socket sr, e\<lparr>inp := s'\<rparr>))"
    using s1 by (intro exI [of _ s1]) (simp add: sr_read_from_server_expect_def Let_def)
next
  assume s: "stream (inp e) = bytes32 (htonl w) @ part" and w: "unat w < 8" "8 \<le> length part"
  obtain s1 where s1: "recv_loop 4 [] (inp e) = Some (Some (bytes32 (htonl w)), s1)" "stream s1 = part"
    using read_size [OF s assms] by blast
  have "unat w - 4 \<le> length (stream s1)" using s1(2) w by arith
  then obtain s2 where s2: "recv_loop (unat w - 4) [] s1 = Some (Some (take (unat w - 4) part), s2)"
    using recv_loop_gets [of "[]" "unat w - 4" s1] s1(2) by auto
  have i: "sint w = int (unat w)" using sint_small [of "unat w"] w by simp
  have c: "\<not> (10000 < sint w \<or> sint w < 0)" "nat (sint w) = unat w" using i w by arith+
  show "sr_read_from_server_expect sr e expected = Some (Inl OutOfBounds)"
  proof (cases "unat w < 4")
    case True
    then show ?thesis
      using s1(1) c by (simp add: sr_read_from_server_expect_def Let_def split_beta st32_def wr_def)
  next
    case False
    then show ?thesis
      using s1(1) s2 c w
      by (simp add: sr_read_from_server_expect_def Let_def split_beta st32_def wr_def handle_command_def ld32_def)
  qed
qed

theorem reading_errors_witness:
  fixes e :: vns and f :: vns and g :: vns
  defines "e \<equiv> \<lparr>inp = [Chunk (bytes32 (htonl 30)), Chunk [1, 2]], files = \<lambda>_. None, writable = \<lambda>_. False\<rparr>"
    and "f \<equiv> \<lparr>inp = [Chunk (bytes32 (htonl 0x80000000))], files = \<lambda>_. None, writable = \<lambda>_. False\<rparr>"
    and "g \<equiv> \<lparr>inp = [Chunk (bytes32 (htonl 5)), Chunk (replicate 8 0)], files = \<lambda>_. None, writable = \<lambda>_. False\<rparr>"
  shows "sr_read_from_server_expect plain_router e 0 = None \<and>
    (\<exists>s'. sr_read_from_server_expect plain_router f 0 = Some (Inr (-1, close_socket plain_router, f\<lparr>inp := s'\<rparr>))) \<and>
    sr_read_from_server_expect plain_router g 0 = Some (Inl OutOfBounds)"
  using reading_errors [of e 30 "[1, 2]" plain_router 0 0] reading_errors [of f 0 "[]" plain_router 0 "0x80000000"]
    reading_errors [of g 0 "replicate 8 0" plain_router 0 5]
  by (simp add: e_def f_def g_def)

end
