(* ===== verification/Router_Safety.thy ===== *)
theory Router_Safety
  imports Router
begin

text \<open>
  What every operation on packets and the timeout keep, whatever the packets: the interface list and the routing
  table are not touched, the address table keeps its 100 slots, there is one request per address, and
  every message written to the server is one framed packet whose source address is that of the
  interface it names.  The relation \<open>evolves\<close> states this for a pair of states.
\<close>

named_theorems evolution \<open>the operations of the router relate their states by \<open>evolves\<close>\<close>

definition framed :: "sr_instance \<Rightarrow> byte list \<Rightarrow> bool" where
  "framed sr msg \<longleftrightarrow> (\<exists>f name i. msg = vns_frame f name \<and> eth_sz \<le> length f \<and>
     sr_get_interface sr name = Some i \<and> slice f 6 6 = slice (if_addr i) 0 6)"

definition tries_ok :: "sr_arpcache \<Rightarrow> bool" where
  "tries_ok c \<longleftrightarrow> (\<forall>r \<in> set (requests c). rq_times_sent r \<le> 5)"

definition router_queue_ok :: "sr_instance \<Rightarrow> bool" where
  "router_queue_ok sr \<longleftrightarrow> queue_ok (allocs sr, cache sr) \<and> tries_ok (cache sr)"

lemma tries_requests: "requests c' = requests c \<Longrightarrow> tries_ok c' = tries_ok c"
  by (simp add: tries_ok_def)

lemma add_packet_tries:
  "\<forall>r \<in> set rs. rq_times_sent r \<le> n \<Longrightarrow> \<forall>r \<in> set (add_packet ip p rs). rq_times_sent r \<le> n"
  by (induction rs) auto

lemma queuereq_tries:
  "sr_arpcache_queuereq n c ip p len i = Inr c' \<Longrightarrow> tries_ok c \<Longrightarrow> tries_ok c'"
  using add_packet_tries [of _ 5]
  by (auto simp: sr_arpcache_queuereq_def Let_def fault_simps tries_ok_def split: if_splits option.splits)

definition evolves :: "sr_instance \<Rightarrow> sr_instance \<Rightarrow> bool" where
  "evolves sr sr' \<longleftrightarrow> if_list sr' = if_list sr \<and> routing_table sr' = routing_table sr \<and>
     now sr' = now sr \<and> sock_ok sr' = sock_ok sr \<and>
     length (entries (cache sr')) = length (entries (cache sr)) \<and>
     (router_queue_ok sr \<longrightarrow> router_queue_ok sr') \<and>
     (\<exists>ms. sock_out sr' = sock_out sr @ ms \<and> (\<forall>m \<in> set ms. framed sr m))"

lemma framed_cong: "if_list a = if_list b \<Longrightarrow> framed a m = framed b m"
  by (simp add: framed_def sr_get_interface_def)

lemma evolves_refl [simp, intro]: "evolves sr sr"
  by (simp add: evolves_def)

lemma evolves_trans [trans]: "evolves a b \<Longrightarrow> evolves b c \<Longrightarrow> evolves a c"
  using framed_cong [of a b] by (fastforce simp: evolves_def)

lemma queue_ok_mono: "queue_ok (n, c) \<Longrightarrow> n \<le> m \<Longrightarrow> queue_ok (m, c)"
  by (fastforce simp: queue_ok_def)

lemma malloc_evolves [evolution]: "evolves sr (snd (malloc sr n))"
  by (auto simp: evolves_def malloc_def router_queue_ok_def intro: queue_ok_mono)

lemma send_evolves [evolution]:
  assumes "sr_send_packet sr buf len iface = Inr (r, sr')"
  shows "evolves sr sr'"
proof -
  note e = send_packet_effect [OF assms]
  have "\<exists>ms. sock_out sr' = sock_out sr @ ms \<and> (\<forall>m \<in> set ms. framed sr m)"
  proof (cases "sock_out sr' = sock_out sr")
    case False
    with e obtain i where "eth_sz \<le> len" "len \<le> length buf" "sr_get_interface sr iface = Some i"
      "slice buf 6 6 = slice (if_addr i) 0 6"
      "sock_out sr' = sock_out sr @ [vns_frame (slice buf 0 len) iface]" by auto
    moreover from this have "slice (slice buf 0 len) 6 6 = slice buf 6 6"
      by (simp add: slice_slice)
    ultimately have "framed sr (vns_frame (slice buf 0 len) iface)"
      unfolding framed_def by (intro exI [of _ "slice buf 0 len"] exI [of _ iface] exI [of _ i]) simp
    with \<open>sock_out sr' = _ @ _\<close> show ?thesis by simp
  qed simp
  with e show ?thesis by (simp add: evolves_def same_tables_def router_queue_ok_def)
qed

lemma queuereq_evolves [evolution]:
  assumes "sr_arpcache_queuereq (allocs sr) (cache sr) ip p n i = Inr c"
  shows "evolves sr (sr\<lparr>cache := c, allocs := Suc (allocs sr)\<rparr>)"
proof -
  have "queue_ok (Suc (allocs sr), c)" if "queue_ok (allocs sr, cache sr)"
  proof -
    have "requests_ok c" using queuereq_ok [OF assms] that by (fastforce simp: queue_ok_def)
    moreover have "rq_ptr ` set (requests c) \<subseteq> insert (allocs sr) (rq_ptr ` set (requests (cache sr)))"
      using assms add_packet_map(2) [THEN arg_cong [where f = set]]
      by (auto simp: sr_arpcache_queuereq_def Let_def fault_simps split: if_splits option.splits) blast+
    ultimately show ?thesis using that by (fastforce simp: queue_ok_def)
  qed
  then show ?thesis
    using queuereq_entries [OF assms] queuereq_tries [OF assms]
    by (simp add: evolves_def router_queue_ok_def)
qed

lemma learn_evolves [evolution]:
  "evolves sr (sr\<lparr>cache := sr_arpcacheinsert t (cache sr) mac ip\<rparr>)"
  by (simp add: evolves_def router_queue_ok_def queue_ok_def requests_ok_def tries_ok_def)

lemma destroy_evolves [evolution]:
  "evolves sr (sr\<lparr>cache := sr_arpreq_destroy (cache sr) a\<rparr>)"
proof -
  have "entries (sr_arpreq_destroy c a) = entries c" for c
    by (simp add: sr_arpreq_destroy_def split: option.split)
  moreover have "set (requests (sr_arpreq_destroy c a)) \<subseteq> set (requests c)" for c
    using remove_request_set by (auto simp: sr_arpreq_destroy_def split: option.split)
  ultimately show ?thesis
    using destroy_ok [of "cache sr" a]
    by (auto simp: evolves_def router_queue_ok_def queue_ok_def tries_ok_def) blast
qed

lemma expire_evolves [evolution]: "evolves sr (sr\<lparr>cache := expire t (cache sr)\<rparr>)"
  by (simp add: evolves_def router_queue_ok_def queue_ok_def requests_ok_def expire_def tries_ok_def)

text \<open>The retry of a request that has been sent fewer than five times.\<close>

definition count_try :: "int \<Rightarrow> sr_arpreq \<Rightarrow> sr_arpreq" where
  "count_try t r = r\<lparr>rq_times_sent := rq_times_sent r + 1, rq_sent := t\<rparr>"

lemma update_evolves [evolution]:
  assumes "\<forall>r \<in> set (requests (cache sr)). rq_ptr r = a \<longrightarrow> rq_times_sent r < 5"
  shows "evolves sr (update_request a (count_try t) sr)"
proof -
  let ?f = "\<lambda>r. if rq_ptr r = a then count_try t r else r"
  have "rq_ptr \<circ> ?f = rq_ptr" "rq_ip \<circ> ?f = rq_ip" by (auto simp: count_try_def)
  then show ?thesis
    using assms by (auto simp: evolves_def router_queue_ok_def queue_ok_def requests_ok_def tries_ok_def
        update_request_def count_try_def inc_le)
qed

section \<open>The operations\<close>

lemma ForwardPacket_evolves [evolution]:
  "sr_ForwardPacket sr p ip len i = Inr sr' \<Longrightarrow> evolves sr sr'"
  by (auto simp: sr_ForwardPacket_def split: option.splits elim!: rbind_InrE
      dest: send_evolves queuereq_evolves)

lemma arp_make_packet_evolves [evolution]:
  assumes "sr_arp_make_packet sr i tha ip mode = Inr sr'"
  shows "evolves sr sr'"
proof -
  let ?m = "malloc sr (eth_sz + arp_sz)"
  from assms obtain p n name r where "sr_send_packet (snd ?m) p n name = Inr (r, sr')"
    by (auto simp: sr_arp_make_packet_def Let_def split_beta elim!: rbind_InrE)
  then show ?thesis using evolves_trans [OF malloc_evolves send_evolves] by blast
qed

lemma icmp_make_packet_evolves [evolution]:
  assumes "sr_icmp_make_packet sr siphdr type code = Inr sr'"
  shows "evolves sr sr'"
proof -
  from assms have "sr' = sr \<or> (\<exists>n p ip len i. sr_ForwardPacket (snd (malloc sr n)) p ip len i = Inr sr')"
    by (auto simp: sr_icmp_make_packet_def Let_def split_beta split: option.splits elim!: rbind_InrE)
  then show ?thesis using evolves_trans [OF malloc_evolves ForwardPacket_evolves] by blast
qed

lemma arp_request_evolves [evolution]: "sr_arp_request sr ip = Inr sr' \<Longrightarrow> evolves sr sr'"
  by (auto simp: sr_arp_request_def split: option.splits dest: arp_make_packet_evolves)

lemma handle_arp_evolves [evolution]:
  assumes "handle_arp sr p len iface = Inr sr'"
  shows "evolves sr sr'"
  using assms
  by (auto simp: handle_arp_def Let_def split: option.splits if_splits elim!: rbind_InrE)
    (blast dest: ForwardPacket_evolves arp_make_packet_evolves queuereq_evolves
      intro: learn_evolves evolves_trans [OF _ learn_evolves])+

lemma handle_ip_local_evolves [evolution]: "handle_ip_local sr p = Inr sr' \<Longrightarrow> evolves sr sr'"
  by (auto simp: handle_ip_local_def split: if_splits elim!: rbind_InrE)
    (blast dest: icmp_make_packet_evolves)+

lemma handle_ip_forward_evolves [evolution]:
  "handle_ip_forward sr p len = Inr sr' \<Longrightarrow> evolves sr sr'"
  by (auto simp: handle_ip_forward_def Let_def split: if_splits option.splits elim!: rbind_InrE)
    (blast dest: icmp_make_packet_evolves ForwardPacket_evolves)+

lemma handle_ip_evolves [evolution]: "handle_ip sr p len = Inr sr' \<Longrightarrow> evolves sr sr'"
  by (auto simp: handle_ip_def split: if_splits option.splits elim!: rbind_InrE)
    (blast dest: handle_ip_local_evolves handle_ip_forward_evolves)+

lemma handlepacket_evolves [evolution]:
  "sr_handlepacket sr p len iface = Inr sr' \<Longrightarrow> evolves sr sr'"
  by (auto simp: sr_handlepacket_def split: if_splits elim!: rbind_InrE
      dest: handle_arp_evolves handle_ip_evolves)

lemma send_unreachables_evolves [evolution]:
  "send_unreachables sr ps = Inr sr' \<Longrightarrow> evolves sr sr'"
  by (induction ps arbitrary: sr)
    (auto elim!: rbind_InrE intro: evolves_trans [OF icmp_make_packet_evolves])

lemma handle_queued_evolves [evolution]: "handle_queued sr ps = Inr sr' \<Longrightarrow> evolves sr sr'"
  by (induction ps arbitrary: sr)
    (auto elim!: rbind_InrE intro: evolves_trans [OF handlepacket_evolves])

lemma arp_request_cache: "sr_arp_request sr ip = Inr sr' \<Longrightarrow> cache sr' = cache sr"
proof -
  assume "sr_arp_request sr ip = Inr sr'"
  then have "sr' = sr \<or> (\<exists>n p l name r. sr_send_packet (snd (malloc sr n)) p l name = Inr (r, sr'))"
    by (auto simp: sr_arp_request_def sr_arp_make_packet_def Let_def split_beta
        split: option.splits elim!: rbind_InrE)
  then show ?thesis
    using send_packet_effect by (fastforce simp: same_tables_def malloc_def)
qed

lemma find_ptr_unique:
  assumes "distinct (map rq_ptr rs)" "find (\<lambda>r. rq_ptr r = a) rs = Some req"
  shows "\<forall>r \<in> set rs. rq_ptr r = a \<longrightarrow> r = req"
  using assms by (induction rs) (auto split: if_splits, metis imageI)

lemma sweep_request_evolves [evolution]:
  assumes "sweep_request sr a = Inr (d, sr')" "router_queue_ok sr"
  shows "evolves sr sr'"
proof -
  obtain req where req: "find (\<lambda>r. rq_ptr r = a) (requests (cache sr)) = Some req"
    using assms(1) by (auto simp: sweep_request_def split: option.splits)
  have d: "distinct (map rq_ptr (requests (cache sr)))"
    using assms(2) by (simp add: router_queue_ok_def queue_ok_def requests_ok_def)
  have f: "(\<lambda>r. r\<lparr>rq_times_sent := rq_times_sent r + 1, rq_sent := now sr\<rparr>) = count_try (now sr)"
    by (simp add: count_try_def fun_eq_iff)
  have u: "evolves sr1 (update_request a (count_try (now sr)) sr1)"
    if "sr_arp_request sr (rq_ip req) = Inr sr1" "\<not> 5 \<le> rq_times_sent req" for sr1
    using that arp_request_cache [OF that(1)] find_ptr_unique [OF d req]
    by (intro update_evolves) (auto simp: not_le)
  show ?thesis
    using assms(1) req
    by (auto simp: sweep_request_def Let_def f split: option.splits if_splits elim!: rbind_InrE
        intro: evolves_trans [OF send_unreachables_evolves destroy_evolves]
          evolves_trans [OF handle_queued_evolves destroy_evolves]
          evolves_trans [OF arp_request_evolves u])
qed

lemma evolves_queue_ok: "evolves sr sr' \<Longrightarrow> router_queue_ok sr \<Longrightarrow> router_queue_ok sr'"
  by (simp add: evolves_def)

lemma sweep_loop_evolves [evolution]:
  "sweep_loop sr as = Inr sr' \<Longrightarrow> router_queue_ok sr \<Longrightarrow> evolves sr sr'"
proof (induction as arbitrary: sr)
  case (Cons a as)
  then obtain sr1 where sr1: "sweep_request sr a = Inr (False, sr1)" "sweep_loop sr1 as = Inr sr'"
    by (auto elim!: rbind_InrE split: if_splits)
  have "evolves sr sr1" using sweep_request_evolves [OF sr1(1) Cons.prems(2)] .
  then show ?case
    using Cons.IH [OF sr1(2)] Cons.prems(2) evolves_queue_ok evolves_trans by blast
qed simp

lemma timeout_evolves [evolution]:
  "sr_arpcache_timeout sr = Inr sr' \<Longrightarrow> router_queue_ok sr \<Longrightarrow> evolves sr sr'"
  unfolding sr_arpcache_timeout_def sr_arpcache_sweepreqs_def
  using expire_evolves evolves_queue_ok sweep_loop_evolves evolves_trans by blast

end
