(* ===== verification/Router_Icmp.thy ===== *)
theory Router_Icmp
  imports Router_Safety Access
begin

text \<open>
  What the router answers and forwards, packet by packet: the contents of the echo reply, of the ICMP
  errors, of ARP replies and requests and of forwarded datagrams, as relations between the bytes that
  came in and the bytes that go out.
\<close>

section \<open>Echo replies\<close>

lemma echo_reply_packet_ok:
  assumes "length packet = 14 + unat n" "unat n \<le> length siphdr" "24 \<le> unat n"
    "get16 siphdr 10 = 0"
  shows "\<exists>f. echo_reply_packet packet siphdr n type code = Inr f \<and> length f = length packet \<and>
    slice f 0 14 = slice packet 0 14 \<and> slice f 14 10 = slice siphdr 0 10 \<and>
    get32 f 26 = get32 siphdr 16 \<and> get32 f 30 = get32 siphdr 12 \<and>
    get8 f 34 = type \<and> get8 f 35 = code \<and> drop 38 f = slice siphdr 24 (unat n - 24) \<and>
    cksum (slice f 14 20) = 0xffff \<and> cksum (drop 34 f) = 0xffff"
proof -
  let ?m = "unat n"
  define a where "a = put (put (put packet 14 (slice siphdr 0 ?m)) 30 (bytes32 (get32 siphdr 12)))
    26 (bytes32 (get32 siphdr 16))"
  define b where "b = put a 24 (bytes16 (cksum (slice a 14 20)))"
  define c where "c = put (put (put b 34 [type]) 35 [code]) 36 (bytes16 0)"
  define f where "f = put c 36 (bytes16 (cksum (slice c 34 (?m - 20))))"
  have len: "length a = 14 + ?m" "length b = 14 + ?m" "length c = 14 + ?m" "length f = 14 + ?m"
    using assms by (simp_all add: a_def b_def c_def f_def)
  have "nat (uint n - 20) = ?m - 20" unfolding uint_nat by arith
  then have run: "echo_reply_packet packet siphdr n type code = Inr f"
    using assms len
    by (simp add: echo_reply_packet_def access_ok a_def b_def c_def f_def)
  have a: "slice a 0 14 = slice packet 0 14" "slice a 14 10 = slice siphdr 0 10" "get16 a 24 = 0"
    "get32 a 26 = get32 siphdr 16" "get32 a 30 = get32 siphdr 12"
    "slice a 38 (?m - 24) = slice siphdr 24 (?m - 24)"
    using assms by (simp_all add: a_def field_simps slice_slice)
  have b: "slice b 0 14 = slice a 0 14" "slice b 14 10 = slice a 14 10" "get32 b 26 = get32 a 26"
    "get32 b 30 = get32 a 30" "slice b 38 (?m - 24) = slice a 38 (?m - 24)"
    "cksum (slice b 14 20) = 0xffff"
    using assms len a cksum_field [of 14 20 a 24] by (simp_all add: b_def field_simps)
  have c: "slice c 0 14 = slice b 0 14" "slice c 14 10 = slice b 14 10" "get32 c 26 = get32 b 26"
    "get32 c 30 = get32 b 30" "slice c 38 (?m - 24) = slice b 38 (?m - 24)"
    "slice c 14 20 = slice b 14 20" "get8 c 34 = type" "get8 c 35 = code" "get16 c 36 = 0"
    using assms len by (simp_all add: c_def field_simps)
  have "?m - 20 \<le> 131072" using unat_u16_less [of n] by linarith
  then have "cksum (slice f 34 (?m - 20)) = 0xffff"
    unfolding f_def using assms len c by (intro cksum_field) simp_all
  then have f: "slice f 0 14 = slice c 0 14" "slice f 14 10 = slice c 14 10" "get32 f 26 = get32 c 26"
    "get32 f 30 = get32 c 30" "slice f 38 (?m - 24) = slice c 38 (?m - 24)"
    "slice f 14 20 = slice c 14 20" "get8 f 34 = type" "get8 f 35 = code"
    "cksum (slice f 34 (?m - 20)) = 0xffff"
    using assms len c by (simp_all add: f_def field_simps)
  have "drop 38 f = slice f 38 (?m - 24)" "drop 34 f = slice f 34 (?m - 20)"
    using len assms by (simp_all add: drop_slice)
  with run a b c f len assms(1) show ?thesis by (intro exI [of _ f]) simp
qed

section \<open>ICMP errors\<close>

lemma error_packet_ok:
  assumes "length packet = 70" "28 \<le> length siphdr" "get16 packet 24 = 0"
    "code \<noteq> 3 \<Longrightarrow> interface = Some i"
    "me = (if code = 3 then get32 siphdr 16 else if_ip i)"
  shows "\<exists>f. error_packet packet siphdr interface 70 type code = Inr f \<and> length f = 70 \<and>
    slice f 0 14 = slice packet 0 14 \<and>
    get_ip f 14 = \<lparr>ip_hl = 5, ip_v = 4, ip_tos = get8 siphdr 1, ip_len = htons 56,
      ip_id = get16 siphdr 4, ip_off = 0, ip_ttl = 64, ip_p = 1, ip_sum = get16 f 24, ip_src = me,
      ip_dst = get32 siphdr 12\<rparr> \<and>
    get8 f 34 = type \<and> get8 f 35 = code \<and> slice f 42 28 = slice siphdr 0 28 \<and>
    cksum (slice f 14 20) = 0xffff \<and> cksum (drop 34 f) = 0xffff"
proof -
  define a where "a = put (put (put (put (put (put (put (put (put packet
    16 (bytes16 (htons 56))) 14 [vhl_byte 4 5]) 18 (bytes16 (get16 siphdr 4))) 15 [get8 siphdr 1])
    20 (bytes16 0)) 22 [64]) 23 [1]) 30 (bytes32 (get32 siphdr 12))) 26 (bytes32 me)"
  define b where "b = put a 24 (bytes16 (cksum (slice a 14 20)))"
  define c where "c = put (put (put (put b 34 [type]) 35 [code]) 42 (slice siphdr 0 28)) 36 (bytes16 0)"
  define f where "f = put c 36 (bytes16 (cksum (slice c 34 36)))"
  have len: "length a = 70" "length b = 70" "length c = 70" "length f = 70"
    using assms by (simp_all add: a_def b_def c_def f_def)
  have run: "error_packet packet siphdr interface 70 type code = Inr f"
    using assms len by (simp add: error_packet_def access_ok a_def b_def c_def f_def)
  have a: "slice a 0 14 = slice packet 0 14" "get8 a 14 = vhl_byte 4 5" "get8 a 15 = get8 siphdr 1"
    "get16 a 16 = htons 56" "get16 a 18 = get16 siphdr 4" "get16 a 20 = 0" "get8 a 22 = 64"
    "get8 a 23 = 1" "get16 a 24 = 0" "get32 a 26 = me" "get32 a 30 = get32 siphdr 12"
    using assms by (simp_all add: a_def field_simps)
  have b: "slice b 0 14 = slice a 0 14" "get8 b 14 = get8 a 14" "get8 b 15 = get8 a 15"
    "get16 b 16 = get16 a 16" "get16 b 18 = get16 a 18" "get16 b 20 = get16 a 20" "get8 b 22 = get8 a 22"
    "get8 b 23 = get8 a 23" "get32 b 26 = get32 a 26" "get32 b 30 = get32 a 30"
    "cksum (slice b 14 20) = 0xffff"
    using len a cksum_field [of 14 20 a 24] by (simp_all add: b_def field_simps)
  have c: "slice c 0 34 = slice b 0 34" "get8 c 34 = type" "get8 c 35 = code" "get16 c 36 = 0"
    "slice c 42 28 = slice siphdr 0 28"
    using len assms(2) by (simp_all add: c_def field_simps)
  have f: "slice f 0 34 = slice c 0 34" "get8 f 34 = type" "get8 f 35 = code" "slice f 42 28 = slice c 42 28"
    "cksum (slice f 34 36) = 0xffff"
    using len c cksum_field [of 34 36 c 36] by (simp_all add: f_def field_simps)
  have hdr: "slice f 0 34 = slice b 0 34" using f c by simp
  have same: "get8 f k = get8 b k" if "k < 34" for k
    using that len hdr get_slice(1) [of 0 k 34 0 f] get_slice(1) [of 0 k 34 0 b] by simp
  have same16: "get16 f k = get16 b k" if "k + 1 < 34" for k
    using that len hdr get_slice(2) [of k 34 0 f] get_slice(2) [of k 34 0 b] by simp
  have same32: "get32 f k = get32 b k" if "k + 3 < 34" for k
    using that len hdr get_slice(3) [of k 34 0 f] get_slice(3) [of k 34 0 b] by simp
  have part: "slice f j n = slice b j n" if "j + n \<le> 34" for j n
    using that len hdr slice_slice [of j n 34 0 f] slice_slice [of j n 34 0 b] by simp
  have "get_ip f 14 = \<lparr>ip_hl = 5, ip_v = 4, ip_tos = get8 siphdr 1, ip_len = htons 56,
      ip_id = get16 siphdr 4, ip_off = 0, ip_ttl = 64, ip_p = 1, ip_sum = get16 f 24, ip_src = me,
      ip_dst = get32 siphdr 12\<rparr>"
    by (simp add: get_ip_def same same16 same32 a b)
  then show ?thesis
    using run a b c f part [of 0 14] part [of 14 20] len
    by (intro exI [of _ f]) (simp add: drop_slice)
qed

section \<open>The last hop of every packet: \<open>sr_ForwardPacket\<close>\<close>

lemma get_interface_self:
  "sr_get_interface sr n = Some i \<Longrightarrow> sr_get_interface sr (if_name i) = Some i"
  using sr_get_interface_Some [of sr n i]
  by (simp add: sr_get_interface_def strneq_c_string sr_IFACE_NAMELEN_def)

definition addressed :: "byte list \<Rightarrow> sr_arpentry \<Rightarrow> sr_if \<Rightarrow> byte list" where
  \<comment> \<open>the frame with the Ethernet addresses of the next hop and of the outgoing interface\<close>
  "addressed p e i = ae_mac e @ if_addr i @ drop 12 p"

lemma addressed_fields:
  assumes "length (ae_mac e) = 6" "length (if_addr i) = 6" "14 \<le> length p"
  shows "length (addressed p e i) = length p" "slice (addressed p e i) 0 6 = ae_mac e"
    "slice (addressed p e i) 6 6 = if_addr i"
    "12 \<le> k \<Longrightarrow> get8 (addressed p e i) k = get8 p k"
    "12 \<le> k \<Longrightarrow> get16 (addressed p e i) k = get16 p k"
    "12 \<le> k \<Longrightarrow> get32 (addressed p e i) k = get32 p k"
    "12 \<le> k \<Longrightarrow> slice (addressed p e i) k n = slice p k n"
    "12 \<le> k \<Longrightarrow> drop k (addressed p e i) = drop k p"
proof -
  have d: "drop k (addressed p e i) = drop k p" if "12 \<le> k" for k
    using that assms by (simp add: addressed_def)
  have n: "addressed p e i ! k = p ! k" if "12 \<le> k" for k
  proof -
    have "(ae_mac e @ if_addr i) @ drop 12 p = addressed p e i" by (simp add: addressed_def)
    then show ?thesis using that assms nth_append [of "ae_mac e @ if_addr i" "drop 12 p" k] by simp
  qed
  show "length (addressed p e i) = length p" "slice (addressed p e i) 0 6 = ae_mac e"
    "slice (addressed p e i) 6 6 = if_addr i"
    using assms by (simp_all add: addressed_def slice_def)
  show "12 \<le> k \<Longrightarrow> get8 (addressed p e i) k = get8 p k"
    "12 \<le> k \<Longrightarrow> get16 (addressed p e i) k = get16 p k"
    "12 \<le> k \<Longrightarrow> get32 (addressed p e i) k = get32 p k"
    "12 \<le> k \<Longrightarrow> slice (addressed p e i) k n = slice p k n"
    "12 \<le> k \<Longrightarrow> drop k (addressed p e i) = drop k p"
    by (simp_all add: get8_def get16_def get32_def slice_def d n)
qed

lemma put_addresses:
  assumes "length m = 6" "length a = 6" "12 \<le> length p"
  shows "put (put p 6 a) 0 m = m @ a @ drop 12 p"
  using assms by (simp add: put_append)

definition next_hop :: "sr_instance \<Rightarrow> u32 \<Rightarrow> sr_rt \<Rightarrow> sr_if \<Rightarrow> sr_arpentry \<Rightarrow> bool" where
  \<comment> \<open>there is a route to the address, its interface exists and the gateway's MAC is cached\<close>
  "next_hop sr dst nh i e \<longleftrightarrow> longestprefixmatch sr dst = Some nh \<and>
     sr_get_interface sr (rt_interface nh) = Some i \<and> length (if_addr i) = 6 \<and>
     sr_arpcache_lookup (cache sr) (rt_gw nh) = Some e \<and> length (ae_mac e) = 6 \<and> sock_ok sr"

lemma ForwardPacket_sends:
  assumes "next_hop sr dst nh i e" "14 \<le> length p"
  shows "\<exists>sr'. sr_ForwardPacket sr p (rt_gw nh) (length p) (Some i) = Inr sr' \<and> same_tables sr sr' \<and>
    sock_out sr' = sock_out sr @ [vns_frame (addressed p e i) (if_name i)]"
proof -
  have i: "sr_get_interface sr (if_name i) = Some i" "length (if_addr i) = 6" "length (ae_mac e) = 6"
    using assms(1) get_interface_self by (auto simp: next_hop_def)
  have "slice (addressed p e i) 6 6 = if_addr i" "length (addressed p e i) = length p"
    using addressed_fields [OF i(3,2) assms(2)] by simp_all
  then obtain sr' where sr': "sr_send_packet sr (addressed p e i) (length p) (if_name i) = Inr (0, sr')"
    "same_tables sr sr'" "sock_out sr' = sock_out sr @ [vns_frame (addressed p e i) (if_name i)]"
    using send_packet_sends [OF i(1), of "addressed p e i"] i assms by (auto simp: next_hop_def)
  have "put (put p 6 (if_addr i)) 0 (ae_mac e) = addressed p e i"
    using put_addresses [OF i(3,2)] assms(2) by (simp add: addressed_def)
  then have "sr_ForwardPacket sr p (rt_gw nh) (length p) (Some i) = Inr sr'"
    using assms i sr'(1)
    by (simp add: sr_ForwardPacket_def next_hop_def access_ok slice_def)
  with sr' show ?thesis by blast
qed

section \<open>What \<open>sr_icmp_make_packet\<close> sends\<close>

definition eth_prefix :: "byte list \<Rightarrow> byte list" where
  \<comment> \<open>the stores to the fresh packet before the branch on the type\<close>
  "eth_prefix p = put (put (put (put p 12 (bytes16 (htons ethertype_ip))) 6 (replicate 6 0)) 0
     (replicate 6 0)) 24 (bytes16 0)"

lemma eth_prefix_fields:
  assumes "38 \<le> length p"
  shows "length (eth_prefix p) = length p" "get16 (eth_prefix p) 12 = htons ethertype_ip"
    "get16 (eth_prefix p) 24 = 0"
  using assms by (simp_all add: eth_prefix_def field_simps)

lemma next_hop_malloc: "next_hop (sr\<lparr>allocs := n\<rparr>) d nh i e = next_hop sr d nh i e"
  by (simp add: next_hop_def longestprefixmatch_def sr_get_interface_def)

lemma icmp_make_packet_run:
  assumes "20 \<le> length siphdr" "next_hop sr (get32 siphdr 12) nh i e"
    "icmp_len type (ntohs (get16 siphdr 2)) = Some len" "38 \<le> len"
    "(if type = 0
      then echo_reply_packet (eth_prefix (fst (malloc sr len))) siphdr (ntohs (get16 siphdr 2)) type code
      else error_packet (eth_prefix (fst (malloc sr len))) siphdr (Some i) len type code) = Inr f"
    "length f = len"
  shows "\<exists>sr'. sr_icmp_make_packet sr siphdr type code = Inr sr' \<and> same_tables sr sr' \<and>
    sock_out sr' = sock_out sr @ [vns_frame (addressed f e i) (if_name i)]"
proof -
  let ?sr = "sr\<lparr>allocs := Suc (allocs sr)\<rparr>"
  obtain sr' where "sr_ForwardPacket ?sr f (rt_gw nh) len (Some i) = Inr sr'" "same_tables ?sr sr'"
    "sock_out sr' = sock_out ?sr @ [vns_frame (addressed f e i) (if_name i)]"
    using ForwardPacket_sends [of ?sr "get32 siphdr 12" nh i e f] assms
    by (auto simp: next_hop_malloc)
  moreover have "longestprefixmatch sr (get32 siphdr 12) = Some nh"
    "sr_get_interface sr (rt_interface nh) = Some i"
    using assms(2) by (simp_all add: next_hop_def)
  moreover have "st16 (put (put (put (fst (malloc sr len)) 12 (bytes16 (htons ethertype_ip))) 6
      (replicate 6 0)) 0 (replicate 6 0)) 24 0 = Inr (eth_prefix (fst (malloc sr len)))"
    using assms(4) by (simp add: eth_prefix_def access_ok)
  ultimately show ?thesis
    using assms length_malloc [of sr len]
    by (simp add: sr_icmp_make_packet_def access_ok malloc_def same_tables_def split: if_splits)
qed

lemma icmp_echo_sends:
  assumes "next_hop sr (get32 siphdr 12) nh i e" "get16 siphdr 10 = 0"
    "n = unat (ntohs (get16 siphdr 2))" "24 \<le> n" "n \<le> length siphdr"
  shows "\<exists>sr' f. sr_icmp_make_packet sr siphdr 0 0 = Inr sr' \<and> same_tables sr sr' \<and>
    sock_out sr' = sock_out sr @ [vns_frame f (if_name i)] \<and>
    length f = 14 + n \<and> slice f 0 6 = ae_mac e \<and> slice f 6 6 = if_addr i \<and>
    get16 f 12 = htons ethertype_ip \<and> slice f 14 10 = slice siphdr 0 10 \<and>
    get32 f 26 = get32 siphdr 16 \<and> get32 f 30 = get32 siphdr 12 \<and>
    get8 f 34 = 0 \<and> get8 f 35 = 0 \<and> drop 38 f = slice siphdr 24 (n - 24) \<and>
    cksum (slice f 14 20) = 0xffff \<and> cksum (drop 34 f) = 0xffff"
proof -
  let ?p = "eth_prefix (fst (malloc sr (14 + n)))"
  have p: "length ?p = 14 + n" "get16 ?p 12 = htons ethertype_ip"
    using eth_prefix_fields [of "fst (malloc sr (14 + n))"] assms by simp_all
  obtain f where f: "echo_reply_packet ?p siphdr (ntohs (get16 siphdr 2)) 0 0 = Inr f"
    "length f = length ?p" "slice f 0 14 = slice ?p 0 14" "slice f 14 10 = slice siphdr 0 10"
    "get32 f 26 = get32 siphdr 16" "get32 f 30 = get32 siphdr 12" "get8 f 34 = 0" "get8 f 35 = 0"
    "drop 38 f = slice siphdr 24 (n - 24)" "cksum (slice f 14 20) = 0xffff" "cksum (drop 34 f) = 0xffff"
    using echo_reply_packet_ok [of ?p "ntohs (get16 siphdr 2)" siphdr 0 0] p assms by auto
  have "get16 f 12 = get16 ?p 12"
    using f(2,3) p get_slice(2) [of 12 14 0 f] get_slice(2) [of 12 14 0 ?p] by simp
  moreover have "\<exists>sr'. sr_icmp_make_packet sr siphdr 0 0 = Inr sr' \<and> same_tables sr sr' \<and>
    sock_out sr' = sock_out sr @ [vns_frame (addressed f e i) (if_name i)]"
    using assms f(1,2) p by (intro icmp_make_packet_run) (auto simp: icmp_len_def)
  moreover have "length (ae_mac e) = 6" "length (if_addr i) = 6" "14 \<le> length f"
    using assms(1) f(2) p by (auto simp: next_hop_def)
  note addressed_fields [OF this]
  ultimately show ?thesis
    using f p by (elim exE conjE, intro exI [of _ "addressed f e i"] exI conjI) auto
qed

lemma icmp_error_sends:
  assumes "next_hop sr (get32 siphdr 12) nh i e" "28 \<le> length siphdr" "type = 3 \<or> type = 11"
    "me = (if code = 3 then get32 siphdr 16 else if_ip i)"
  shows "\<exists>sr' f. sr_icmp_make_packet sr siphdr type code = Inr sr' \<and> same_tables sr sr' \<and>
    sock_out sr' = sock_out sr @ [vns_frame f (if_name i)] \<and>
    length f = 70 \<and> slice f 0 6 = ae_mac e \<and> slice f 6 6 = if_addr i \<and>
    get16 f 12 = htons ethertype_ip \<and>
    get_ip f 14 = \<lparr>ip_hl = 5, ip_v = 4, ip_tos = get8 siphdr 1, ip_len = htons 56,
      ip_id = get16 siphdr 4, ip_off = 0, ip_ttl = 64, ip_p = 1, ip_sum = get16 f 24, ip_src = me,
      ip_dst = get32 siphdr 12\<rparr> \<and>
    get8 f 34 = type \<and> get8 f 35 = code \<and> slice f 42 28 = slice siphdr 0 28 \<and>
    cksum (slice f 14 20) = 0xffff \<and> cksum (drop 34 f) = 0xffff"
proof -
  let ?p = "eth_prefix (fst (malloc sr 70))"
  have p: "length ?p = 70" "get16 ?p 12 = htons ethertype_ip" "get16 ?p 24 = 0"
    using eth_prefix_fields [of "fst (malloc sr 70)"] by simp_all
  obtain f where f: "error_packet ?p siphdr (Some i) 70 type code = Inr f" "length f = 70"
    "slice f 0 14 = slice ?p 0 14"
    "get_ip f 14 = \<lparr>ip_hl = 5, ip_v = 4, ip_tos = get8 siphdr 1, ip_len = htons 56,
      ip_id = get16 siphdr 4, ip_off = 0, ip_ttl = 64, ip_p = 1, ip_sum = get16 f 24, ip_src = me,
      ip_dst = get32 siphdr 12\<rparr>"
    "get8 f 34 = type" "get8 f 35 = code" "slice f 42 28 = slice siphdr 0 28"
    "cksum (slice f 14 20) = 0xffff" "cksum (drop 34 f) = 0xffff"
    using error_packet_ok [OF p(1) assms(2) p(3), of code "Some i" i me type] assms(4) by auto
  have "get16 f 12 = get16 ?p 12"
    using f(2,3) p get_slice(2) [of 12 14 0 f] get_slice(2) [of 12 14 0 ?p] by simp
  moreover have "\<exists>sr'. sr_icmp_make_packet sr siphdr type code = Inr sr' \<and> same_tables sr sr' \<and>
    sock_out sr' = sock_out sr @ [vns_frame (addressed f e i) (if_name i)]"
    using assms f(1,2) p by (intro icmp_make_packet_run) (auto simp: icmp_len_def)
  moreover have m: "length (ae_mac e) = 6" "length (if_addr i) = 6" "14 \<le> length f"
    using assms(1) f(2) by (auto simp: next_hop_def)
  note a = addressed_fields [OF m]
  moreover have "get_ip (addressed f e i) 14 = get_ip f 14" by (simp add: get_ip_def a)
  ultimately show ?thesis
    using f p by (elim exE conjE, intro exI [of _ "addressed f e i"] exI conjI) auto
qed

end
