(* ===== verification/Router_Properties.thy ===== *)
theory Router_Properties
  imports Router_Icmp
begin

text \<open>
  The behaviour of the router on whole packets: what \<open>sr_handlepacket\<close> and the once-a-second sweep do
  with echo requests, datagrams for others, expired datagrams, corrupted headers, ARP requests and
  replies, and unanswered ARP requests.
\<close>

section \<open>Checksum tests of a received packet\<close>

definition ip_sum_ok :: "byte list \<Rightarrow> bool" where
  \<comment> \<open>the header checksum agrees with the header\<close>
  "ip_sum_ok p \<longleftrightarrow> get16 p 24 = cksum (slice (put p 24 (bytes16 0)) 14 20)"

definition icmp_sum_ok :: "byte list \<Rightarrow> bool" where
  "icmp_sum_ok p \<longleftrightarrow>
     get16 p 36 = cksum (slice (put p 36 (bytes16 0)) 34 (unat (ntohs (get16 p 16)) - 20))"

definition is_ip :: "byte list \<Rightarrow> bool" where
  "is_ip p \<longleftrightarrow> 34 \<le> length p \<and> ntohs (get16 p 12) = ethertype_ip"

lemma ip_checksum_run:
  "34 \<le> length p \<Longrightarrow> ip_checksum p = Inr (ip_sum_ok p, put p 24 (bytes16 0))"
  by (simp add: ip_checksum_def ip_sum_ok_def access_ok)

lemma icmp_checksum_run:
  assumes "20 \<le> unat (ntohs (get16 p 16))" "14 + unat (ntohs (get16 p 16)) \<le> length p" "38 \<le> length p"
  shows "icmp_checksum p = Inr (icmp_sum_ok p, put p 36 (bytes16 0))"
proof -
  have "nat (uint (ntohs (get16 p 16)) - 20) = unat (ntohs (get16 p 16)) - 20"
    unfolding uint_nat by arith
  then show ?thesis
    using assms by (simp add: icmp_checksum_def icmp_sum_ok_def access_ok field_simps)
qed

lemma handle_is_ip:
  assumes "is_ip p"
  shows "sr_handlepacket sr p (length p) iface =
    (if \<not> ip_sum_ok p then Inr sr
     else case IPcheck (get32 p 30) sr of
       Some _ \<Rightarrow> handle_ip_local sr (put p 24 (bytes16 0))
     | None \<Rightarrow> handle_ip_forward sr (put p 24 (bytes16 0)) (length p))"
  using assms
  by (simp add: is_ip_def sr_handlepacket_def ethertype_def handle_ip_def access_ok ip_checksum_run
      field_simps ethertype_ip_def)

section \<open>Corrupted headers\<close>

lemma put_update:
  "k < length p \<Longrightarrow> k < i \<or> i + length bs \<le> k \<Longrightarrow> put (p[k := b]) i bs = (put p i bs)[k := b]"
  by (rule nth_equalityI) (auto simp: nth_put nth_list_update)

lemma put_update_inside:
  "i \<le> k \<Longrightarrow> k < i + length bs \<Longrightarrow> put (p[k := b]) i bs = put p i bs"
  by (rule nth_equalityI) (auto simp: nth_put nth_list_update)

lemma slice_update:
  "i + n \<le> length p \<Longrightarrow> i \<le> k \<Longrightarrow> k < i + n \<Longrightarrow> slice (p[k := b]) i n = (slice p i n)[k - i := b]"
  by (rule nth_equalityI) (auto simp: nth_list_update)

lemma get16_update_other: "k < j \<or> j + 1 < k \<Longrightarrow> get16 (p[k := b]) j = get16 p j"
  by (auto simp: get16_def nth_list_update_neq)

lemma get16_update_neq:
  "k = j \<or> k = j + 1 \<Longrightarrow> k < length p \<Longrightarrow> b \<noteq> p ! k \<Longrightarrow> get16 (p[k := b]) j \<noteq> get16 p j"
  by (auto simp: get16_def nth_list_update dest: arg_cong [where f = lo16] arg_cong [where f = hi16])

lemma flip_neq: "j < 8 \<Longrightarrow> (b :: byte) XOR push_bit j 1 \<noteq> b"
proof
  assume "j < 8" "b XOR push_bit j 1 = b"
  then have "bit (b XOR push_bit j 1) j = bit b j" by simp
  with \<open>j < 8\<close> show False by (simp add: bit_simps)
qed

text \<open>
  C14: a datagram whose header checksum was right, in which one bit of the 20-byte IP header was
  flipped on the way, is dropped: \<open>sr_handlepacket\<close> sends nothing and leaves the router as it was.
\<close>

theorem corrupted_header_ignored:
  assumes "is_ip p" "ip_sum_ok p" "14 \<le> k" "k < 34" "j < 8"
  shows "sr_handlepacket sr (p[k := (p ! k) XOR push_bit j 1]) (length p) iface = Inr sr"
proof -
  let ?b = "(p ! k) XOR push_bit j 1"
  let ?q = "p[k := ?b]"
  have len: "34 \<le> length p" using assms(1) by (simp add: is_ip_def)
  have q: "is_ip ?q" using assms by (simp add: is_ip_def get16_update_other)
  have "\<not> ip_sum_ok ?q"
  proof (cases "k = 24 \<or> k = 25")
    case True
    then have "put ?q 24 (bytes16 0) = put p 24 (bytes16 0)"
      by (intro put_update_inside) auto
    moreover have "get16 ?q 24 \<noteq> get16 p 24"
      using True len flip_neq [OF assms(5)] by (intro get16_update_neq) auto
    ultimately show ?thesis using assms(2) by (simp add: ip_sum_ok_def)
  next
    case False
    let ?h = "slice (put p 24 (bytes16 0)) 14 20"
    have "put ?q 24 (bytes16 0) = (put p 24 (bytes16 0))[k := ?b]"
      using False assms len by (intro put_update) auto
    moreover have "slice ((put p 24 (bytes16 0))[k := ?b]) 14 20 = ?h[k - 14 := ?b]"
      using assms len by (intro slice_update) auto
    moreover have "?h ! (k - 14) = p ! k" using assms len False by (auto simp: nth_put)
    moreover have "cksum (?h[k - 14 := (?h ! (k - 14)) XOR push_bit j 1]) \<noteq> cksum ?h"
      using assms len by (intro cksum_bit_flip) auto
    moreover have "get16 ?q 24 = get16 p 24" using False by (intro get16_update_other) auto
    ultimately show ?thesis using assms(2) by (simp add: ip_sum_ok_def)
  qed
  then show ?thesis using handle_is_ip [OF q, of sr iface] by simp
qed

section \<open>An example router and sealed packets\<close>

definition seal_ip :: "byte list \<Rightarrow> byte list" where
  "seal_ip p = put p 24 (bytes16 (cksum (slice (put p 24 (bytes16 0)) 14 20)))"

definition seal_icmp :: "byte list \<Rightarrow> byte list" where
  "seal_icmp p = put p 36
     (bytes16 (cksum (slice (put p 36 (bytes16 0)) 34 (unat (ntohs (get16 p 16)) - 20))))"

lemma seal_ip_ok: "34 \<le> length p \<Longrightarrow> ip_sum_ok (seal_ip p)"
  by (simp add: ip_sum_ok_def seal_ip_def put_put_same field_simps)

lemma seal_icmp_ok: "38 \<le> length p \<Longrightarrow> icmp_sum_ok (seal_icmp p)"
  by (simp add: icmp_sum_ok_def seal_icmp_def put_put_same field_simps)

lemma icmp_sum_put_ip:
  assumes "20 \<le> unat (ntohs (get16 p 16))" "14 + unat (ntohs (get16 p 16)) \<le> length p" "38 \<le> length p"
    "length b = 2"
  shows "icmp_sum_ok (put p 24 b) = icmp_sum_ok p"
proof -
  let ?m = "unat (ntohs (get16 p 16)) - 20"
  have "slice (put (put p 24 b) 36 (bytes16 0)) 34 ?m = slice (put p 36 (bytes16 0)) 34 ?m"
    using assms by (intro nth_equalityI) (auto simp: nth_put length_slice_le nth_slice_le)
  then show ?thesis using assms by (simp add: icmp_sum_ok_def field_simps)
qed

definition eth1 :: sr_if where
  "eth1 = \<lparr>if_name = [101, 49], if_addr = [2, 0, 0, 0, 0, 1], if_ip = 0x0100000A, if_speed = 0\<rparr>"

definition gateway_mac :: sr_arpentry where
  "gateway_mac = \<lparr>ae_mac = [2, 0, 0, 0, 0, 9], ae_ip = 0x0900000A, ae_added = 0, ae_valid = True\<rparr>"

definition default_route :: sr_rt where
  "default_route = \<lparr>rt_dest = 0, rt_gw = 0x0900000A, rt_mask = 0, rt_interface = [101, 49]\<rparr>"

definition lab_router :: sr_instance where
  \<comment> \<open>10.0.0.1 on eth1, a default route to 10.0.0.9, whose MAC is cached\<close>
  "lab_router = example_router\<lparr>if_list := [eth1], routing_table := [default_route],
     cache := \<lparr>entries = [gateway_mac], requests = []\<rparr>\<rparr>"

lemma lab_next_hop: "next_hop lab_router d default_route eth1 gateway_mac"
  by (simp add: next_hop_def lab_router_def example_router_def longestprefixmatch_def sr_get_interface_def
      default_route_def eth1_def gateway_mac_def sr_arpcache_lookup_def)

lemma lab_facts:
  "sock_out lab_router = []" "if_name eth1 = [101, 49]" "if_addr eth1 = [2, 0, 0, 0, 0, 1]"
  "if_ip eth1 = 0x0100000A" "ae_mac gateway_mac = [2, 0, 0, 0, 0, 9]" "rt_gw default_route = 0x0900000A"
  "IPcheck ip lab_router = (if ip = 0x0100000A then Some eth1 else None)"
  "sr_get_interface lab_router [101, 49] = Some eth1" "if_list lab_router = [eth1]"
  by (simp_all add: lab_router_def example_router_def eth1_def gateway_mac_def default_route_def IPcheck_def
      sr_get_interface_def)

definition ping :: "byte list" where
  \<comment> \<open>an echo request from 192.168.0.2 to 10.0.0.1 with four bytes of data\<close>
  "ping = seal_ip (seal_icmp ([0, 0, 0, 0, 0, 0, 0, 0, 0, 0, 0, 0, 8, 0, 0x45, 0, 0, 28, 0, 1, 0, 0, 64, 1, 0, 0,
     192, 168, 0, 2, 10, 0, 0, 1, 8, 0, 0, 0, 1, 2, 3, 4]))"

lemma ping_fields:
  "is_ip ping" "ip_sum_ok ping" "icmp_sum_ok ping" "length ping = 42" "unat (ntohs (get16 ping 16)) = 28"
  "get8 ping 23 = 1" "get8 ping 34 = 8" "get8 ping 22 = 64" "get32 ping 30 = 0x0100000A"
proof -
  let ?p = "[0, 0, 0, 0, 0, 0, 0, 0, 0, 0, 0, 0, 8, 0, 0x45, 0, 0, 28, 0, 1, 0, 0, 64, 1, 0, 0,
     192, 168, 0, 2, 10, 0, 0, 1, 8, 0, 0, 0, 1, 2, 3, 4 :: byte]"
  have p: "length ?p = 42" "get16 ?p 16 = mk16 28 0" "get8 ?p 23 = 1" "get8 ?p 34 = 8" "get8 ?p 22 = 64"
    "get32 ?p 30 = mk32 1 0 0 10" "get16 ?p 12 = mk16 0 8"
    by (simp_all add: get8_def get16_def get32_def)
  have q: "length (seal_icmp ?p) = 42" "get16 (seal_icmp ?p) 16 = mk16 28 0"
    "get8 (seal_icmp ?p) 23 = 1" "get8 (seal_icmp ?p) 34 = 8" "get8 (seal_icmp ?p) 22 = 64"
    "get32 (seal_icmp ?p) 30 = mk32 1 0 0 10" "get16 (seal_icmp ?p) 12 = mk16 0 8"
    unfolding seal_icmp_def using p by (simp_all only: length_put) (simp_all add: field_simps p)
  have m: "unat (mk16 0 28) = 28" "mk32 1 0 0 10 = 0x0100000A" "mk16 8 0 = 0x0800"
    by (simp_all add: unat_mk16) (simp_all add: mk32_def mk16_def push_bit_eq_mult)
  show "ip_sum_ok ping" unfolding ping_def using q by (intro seal_ip_ok) simp
  have "icmp_sum_ok (seal_icmp ?p)" using p by (intro seal_icmp_ok) simp
  then show "icmp_sum_ok ping"
    unfolding ping_def seal_ip_def using q m by (subst icmp_sum_put_ip) simp_all
  show "is_ip ping" "length ping = 42" "unat (ntohs (get16 ping 16)) = 28"
    "get8 ping 23 = 1" "get8 ping 34 = 8" "get8 ping 22 = 64" "get32 ping 30 = 0x0100000A"
    unfolding ping_def seal_ip_def is_ip_def
    using q m by (simp_all only: length_put) (simp_all add: field_simps q ethertype_ip_def)
qed

lemma corrupted_header_ignored_witness:
  "sr_handlepacket lab_router (ping[22 := (ping ! 22) XOR push_bit 0 1]) 42 [101, 49] = Inr lab_router"
  using corrupted_header_ignored [of ping 22 0 lab_router "[101, 49]"] by (simp add: ping_fields)

section \<open>Echo requests\<close>

lemma echo_answered:
  assumes "is_ip p" "ip_sum_ok p" "IPcheck (get32 p 30) sr = Some own" "get8 p 23 = 1" "icmp_sum_ok p"
    "get8 p 34 = 8" "n = unat (ntohs (get16 p 16))" "24 \<le> n" "14 + n \<le> length p"
    "next_hop sr (get32 p 26) nh i e"
  shows "\<exists>sr' f. sr_handlepacket sr p (length p) iface = Inr sr' \<and> same_tables sr sr' \<and>
    sock_out sr' = sock_out sr @ [vns_frame f (if_name i)] \<and>
    length f = 14 + n \<and> slice f 0 6 = ae_mac e \<and> slice f 6 6 = if_addr i \<and>
    get16 f 12 = htons ethertype_ip \<and> slice f 14 10 = slice p 14 10 \<and>
    get32 f 26 = get32 p 30 \<and> get32 f 30 = get32 p 26 \<and> get8 f 34 = 0 \<and> get8 f 35 = 0 \<and>
    drop 38 f = slice p 38 (n - 24) \<and> cksum (slice f 14 20) = 0xffff \<and> cksum (drop 34 f) = 0xffff"
proof -
  let ?p = "put p 24 (bytes16 0)"
  let ?q = "put ?p 36 (bytes16 0)"
  have q: "get32 ?q 26 = get32 p 26" "get32 ?q 30 = get32 p 30" "get16 ?q 16 = get16 p 16"
    "get16 ?q 24 = 0" "slice ?q 14 10 = slice p 14 10" "slice ?q 38 (n - 24) = slice p 38 (n - 24)"
    using assms(7-9) by (simp_all add: field_simps)
  have local: "sr_handlepacket sr p (length p) iface = handle_ip_local sr ?p"
    using handle_is_ip [OF assms(1)] assms(2,3) by simp
  have "icmp_sum_ok ?p" using assms by (subst icmp_sum_put_ip) auto
  then have "handle_ip_local sr ?p = sr_icmp_make_packet sr (drop 14 ?q) 0 0"
    using assms(4,6-9) by (simp add: handle_ip_local_def access_ok field_simps icmp_checksum_run)
  with local show ?thesis
    using icmp_echo_sends [of sr "drop 14 ?q" nh i e n] assms(7-10) q by simp
qed

text \<open>
  C3: an echo request to one of the router's own addresses, with good checksums and a payload inside
  the frame, is answered by exactly one frame to the gateway of the route back: the Ethernet
  addresses are the gateway's and the interface's, the IP addresses are swapped, the type and code are 0,
  the identification, TTL and data are the request's, and both checksums verify.
\<close>

theorem echo_request_answered:
  assumes "is_ip p" "ip_sum_ok p" "IPcheck (get32 p 30) sr = Some own" "get8 p 23 = 1" "icmp_sum_ok p"
    "get8 p 34 = 8" "n = unat (ntohs (get16 p 16))" "24 \<le> n" "14 + n \<le> length p"
    "next_hop sr (get32 p 26) nh i e"
  shows "\<exists>sr' f. sr_handlepacket sr p (length p) iface = Inr sr' \<and> same_tables sr sr' \<and>
    sock_out sr' = sock_out sr @ [vns_frame f (if_name i)] \<and>
    length f = 14 + n \<and> slice f 0 6 = ae_mac e \<and> slice f 6 6 = if_addr i \<and>
    get16 f 12 = htons ethertype_ip \<and> slice f 14 10 = slice p 14 10 \<and>
    get32 f 26 = get32 p 30 \<and> get32 f 30 = get32 p 26 \<and> get8 f 34 = 0 \<and> get8 f 35 = 0 \<and>
    drop 38 f = slice p 38 (n - 24) \<and> cksum (slice f 14 20) = 0xffff \<and> cksum (drop 34 f) = 0xffff"
  using assms by (rule echo_answered)

lemma echo_request_answered_witness:
  "\<exists>sr' f. sr_handlepacket lab_router ping 42 [101, 49] = Inr sr' \<and>
     sock_out sr' = [vns_frame f [101, 49]] \<and> slice f 0 6 = [2, 0, 0, 0, 0, 9] \<and> get8 f 34 = 0"
  using echo_request_answered [OF ping_fields(1,2) _ ping_fields(6,3,7) refl _ _ lab_next_hop,
      of eth1 "[101, 49]"]
  by (auto simp: ping_fields lab_facts)

section \<open>Datagrams for others\<close>

text \<open>
  C5: a datagram for another host, with a good header checksum and a TTL other than 1, that has a next
  hop, is sent on as exactly one frame: new Ethernet addresses, the TTL two lower
  (modulo 256: the code subtracts 2), a checksum that verifies over the whole header with its
  options, and every other byte unchanged.
\<close>

theorem datagram_forwarded:
  assumes "is_ip p" "ip_sum_ok p" "IPcheck (get32 p 30) sr = None" "get8 p 22 \<noteq> 1"
    "hl = 4 * unat (hl_of (get8 p 14))" "20 \<le> hl" "14 + hl \<le> length p"
    "next_hop sr (get32 p 30) nh i e"
  shows "\<exists>sr' f. sr_handlepacket sr p (length p) iface = Inr sr' \<and> same_tables sr sr' \<and>
    sock_out sr' = sock_out sr @ [vns_frame f (if_name i)] \<and> length f = length p \<and>
    slice f 0 6 = ae_mac e \<and> slice f 6 6 = if_addr i \<and> slice f 12 10 = slice p 12 10 \<and>
    get8 f 22 = get8 p 22 - 2 \<and> get8 f 23 = get8 p 23 \<and> drop 26 f = drop 26 p \<and>
    cksum (slice f 14 hl) = 0xffff"
proof -
  have len: "34 \<le> length p" "hl \<le> 131072"
    using assms(1,5) unsigned_less [of "hl_of (get8 p 14)", where ?'a = nat] by (simp_all add: is_ip_def)
  define a where "a = put (put (put p 24 (bytes16 0)) 22 [get8 p 22 - 2]) 24 (bytes16 0)"
  define f where "f = put a 24 (bytes16 (cksum (slice a 14 hl)))"
  have a: "length a = length p" "get16 a 24 = 0" "get8 a 14 = get8 p 14" "get32 a 30 = get32 p 30"
    "slice a 12 10 = slice p 12 10" "get8 a 22 = get8 p 22 - 2" "get8 a 23 = get8 p 23"
    "slice a 26 (length p - 26) = slice p 26 (length p - 26)"
    using len by (simp_all add: a_def field_simps)
  have f: "length f = length p" "slice f 12 10 = slice a 12 10" "get8 f 22 = get8 a 22"
    "get8 f 23 = get8 a 23" "slice f 26 (length p - 26) = slice a 26 (length p - 26)"
    "get32 f 30 = get32 a 30" "cksum (slice f 14 hl) = 0xffff"
    using len a assms(6,7) cksum_field [of 14 hl a 24] by (simp_all add: f_def field_simps)
  have m: "length (ae_mac e) = 6" "length (if_addr i) = 6" "14 \<le> length f"
    using assms(8) f len by (auto simp: next_hop_def)
  obtain sr' where sr': "sr_ForwardPacket sr f (rt_gw nh) (length f) (Some i) = Inr sr'"
    "same_tables sr sr'" "sock_out sr' = sock_out sr @ [vns_frame (addressed f e i) (if_name i)]"
    using ForwardPacket_sends [OF assms(8) m(3)] by blast
  have "nat (uint (hl_of (get8 p 14)) * 4) = hl"
    by (simp add: assms(5) nat_mult_distrib)
  then have "handle_ip_forward sr (put p 24 (bytes16 0)) (length p) =
      sr_ForwardPacket sr f (rt_gw nh) (length p) (Some i)"
    using assms(4,7,8) len a f
    by (simp add: handle_ip_forward_def access_ok field_simps next_hop_def f_def a_def slice_def)
  then have "sr_handlepacket sr p (length p) iface = Inr sr'"
    using handle_is_ip [OF assms(1)] assms(2,3) sr'(1) f(1) by simp
  moreover have "drop 26 f = drop 26 p" using a f len by (simp add: drop_slice)
  ultimately show ?thesis
    using sr'(2,3) a f addressed_fields [OF m]
    by (intro exI [of _ sr'] exI [of _ "addressed f e i"]) simp
qed

definition transit :: "byte list" where
  \<comment> \<open>a UDP datagram from 192.168.0.2 to 10.0.0.7\<close>
  "transit = seal_ip [0, 0, 0, 0, 0, 0, 0, 0, 0, 0, 0, 0, 8, 0, 0x45, 0, 0, 28, 0, 1, 0, 0, 64, 17, 0, 0,
     192, 168, 0, 2, 10, 0, 0, 7, 0, 1, 0, 2, 0, 8, 0, 0]"

lemma transit_fields:
  "is_ip transit" "ip_sum_ok transit" "length transit = 42" "get8 transit 22 = 64"
  "get32 transit 30 = 0x0700000A" "get8 transit 14 = 0x45"
proof -
  let ?p = "[0, 0, 0, 0, 0, 0, 0, 0, 0, 0, 0, 0, 8, 0, 0x45, 0, 0, 28, 0, 1, 0, 0, 64, 17, 0, 0,
     192, 168, 0, 2, 10, 0, 0, 7, 0, 1, 0, 2, 0, 8, 0, 0 :: byte]"
  have p: "length ?p = 42" "get8 ?p 22 = 64" "get32 ?p 30 = mk32 7 0 0 10" "get16 ?p 12 = mk16 0 8"
    "get8 ?p 14 = 0x45"
    by (simp_all add: get8_def get16_def get32_def)
  have m: "mk32 7 0 0 10 = 0x0700000A" "mk16 8 0 = 0x0800"
    by (simp_all add: mk32_def mk16_def push_bit_eq_mult)
  show "ip_sum_ok transit" unfolding transit_def by (intro seal_ip_ok) simp
  show "is_ip transit" "length transit = 42" "get8 transit 22 = 64"
    "get32 transit 30 = 0x0700000A" "get8 transit 14 = 0x45"
    unfolding transit_def seal_ip_def is_ip_def
    using p m by (simp_all only: length_put) (simp_all add: field_simps p ethertype_ip_def)
qed

lemma datagram_forwarded_witness:
  "\<exists>sr' f. sr_handlepacket lab_router transit 42 [101, 49] = Inr sr' \<and>
     sock_out sr' = [vns_frame f [101, 49]] \<and> get8 f 22 = 62 \<and> drop 26 f = drop 26 transit"
proof -
  have "hl_of 0x45 = 5" by (simp add: hl_of_def)
  then show ?thesis
    using datagram_forwarded [OF transit_fields(1,2) _ _ refl _ _ lab_next_hop, of "[101, 49]"]
    by (auto simp: transit_fields lab_facts)
qed

text \<open>
  C6: ICMP errors: a datagram for another host whose TTL is 1 makes the router send exactly
  one time-exceeded message (type 11, code 0) from the outgoing interface's address, and a TCP or UDP segment
  for one of its own addresses exactly one port-unreachable message (type 3, code 3) from the address that was
  asked.  The message goes to the sender, has a fresh header of 56 bytes total length with TTL
  64, quotes the 20 header bytes and the first 8 payload bytes of the offender (with its
  checksum field cleared, since \<open>ip_checksum\<close> zeroes it), and both checksums verify.
\<close>

theorem icmp_error_sent:
  assumes "is_ip p" "ip_sum_ok p" "42 \<le> length p" "next_hop sr (get32 p 26) nh i e"
    and "IPcheck (get32 p 30) sr = None \<and> get8 p 22 = 1 \<and> type = 11 \<and> code = 0 \<and> me = if_ip i \<or>
      IPcheck (get32 p 30) sr \<noteq> None \<and> (get8 p 23 = 6 \<or> get8 p 23 = 17) \<and> type = 3 \<and> code = 3 \<and>
        me = get32 p 30"
  shows "\<exists>sr' f. sr_handlepacket sr p (length p) iface = Inr sr' \<and> same_tables sr sr' \<and>
    sock_out sr' = sock_out sr @ [vns_frame f (if_name i)] \<and> length f = 70 \<and>
    slice f 0 6 = ae_mac e \<and> slice f 6 6 = if_addr i \<and> get16 f 12 = htons ethertype_ip \<and>
    get_ip f 14 = \<lparr>ip_hl = 5, ip_v = 4, ip_tos = get8 p 15, ip_len = htons 56, ip_id = get16 p 18,
      ip_off = 0, ip_ttl = 64, ip_p = 1, ip_sum = get16 f 24, ip_src = me, ip_dst = get32 p 26\<rparr> \<and>
    get8 f 34 = type \<and> get8 f 35 = code \<and>
    slice f 42 28 = put (slice p 14 28) 10 (bytes16 0) \<and>
    cksum (slice f 14 20) = 0xffff \<and> cksum (drop 34 f) = 0xffff"
proof -
  let ?q = "put p 24 (bytes16 0)"
  have q: "get32 ?q 26 = get32 p 26" "get32 ?q 30 = get32 p 30" "get8 ?q 15 = get8 p 15"
    "get16 ?q 18 = get16 p 18" "slice ?q 14 28 = put (slice p 14 28) 10 (bytes16 0)"
    "get8 ?q 22 = get8 p 22" "get8 ?q 23 = get8 p 23"
    using assms(3) by (simp_all add: field_simps slice_put_inside)
  have "sr_handlepacket sr p (length p) iface = sr_icmp_make_packet sr (drop 14 ?q) type code"
    using assms(5) handle_is_ip [OF assms(1), of sr iface] assms(2,3) q
    by (auto simp: handle_ip_forward_def handle_ip_local_def access_ok)
  moreover have "me = (if code = 3 then get32 (drop 14 ?q) 16 else if_ip i)"
    "type = 3 \<or> type = 11" "28 \<le> length (drop 14 ?q)" "next_hop sr (get32 (drop 14 ?q) 12) nh i e"
    using assms q by auto
  ultimately show ?thesis
    using icmp_error_sends [of sr "drop 14 ?q" nh i e type me code] assms(3) q by simp
qed

definition expired :: "byte list" where
  \<comment> \<open>the datagram above with a TTL of 1\<close>
  "expired = seal_ip (put transit 22 [1])"

lemma icmp_error_sent_witness:
  "\<exists>sr' f. sr_handlepacket lab_router expired 42 [101, 49] = Inr sr' \<and>
     sock_out sr' = [vns_frame f [101, 49]] \<and> get8 f 34 = 11 \<and> ip_src (get_ip f 14) = 0x0100000A"
proof -
  have e: "length expired = 42" "ip_sum_ok expired" "is_ip expired" "get8 expired 22 = 1"
    "get32 expired 30 = 0x0700000A"
    using transit_fields unfolding expired_def
    by (simp_all add: seal_ip_ok is_ip_def) (simp_all add: seal_ip_def field_simps)
  then show ?thesis
    using icmp_error_sent [OF e(3,2) _ lab_next_hop, of 11 0 "if_ip eth1" "[101, 49]"]
    by (force simp: lab_facts)
qed

end
