(* ===== verification/Router_Session.thy ===== *)
theory Router_Session
  imports Vns_Session Router_Properties
begin

text \<open>
  The router in its session: frames that arrive as commands of the server go through the main loop to the packet handler,
  and what it sends goes back as commands of the same form.
\<close>

section \<open>Frames as commands\<close>

lemma length_strncpy_field [simp]: "length (strncpy_field n s) = n"
  by (simp add: strncpy_field_def strncpy_def)

lemma frame_message: "vns_frame p name = vns_message VNSPACKET (strncpy_field 16 name @ p)"
  by (simp add: vns_frame_def vns_message_def c_packet_header_bytes_def add.commute)

definition plain_name :: "cstr \<Rightarrow> bool" where
  \<comment> \<open>a name that is terminated within the field of a command\<close>
  "plain_name s \<longleftrightarrow> 0 \<notin> set s \<and> length s < 16"

lemma strncpy_plain:
  assumes "plain_name s"
  shows "strncpy 32 (strncpy_field 16 s @ p) = strncpy 32 s"
proof -
  have s: "c_string s = s" using assms by (auto simp: c_string_def plain_name_def intro: takeWhile_eq_all_conv [THEN iffD2])
  have "replicate (16 - length s) (0 :: byte) = 0 # replicate (15 - length s) 0"
    using assms by (cases "16 - length s") (auto simp: plain_name_def)
  then have "strncpy_field 16 s = s @ 0 # replicate (15 - length s) 0"
    using assms s by (simp add: strncpy_field_def strncpy_def plain_name_def)
  moreover have "takeWhile (\<lambda>c. c \<noteq> 0) (s @ 0 # t) = s" for t
    using assms by (subst takeWhile_append2) (auto simp: plain_name_def)
  ultimately have "c_string (strncpy_field 16 s @ p) = s" by (simp add: c_string_def)
  then show ?thesis using s by (simp add: strncpy_def)
qed

lemma named_interface:
  "plain_name s \<Longrightarrow> sr_get_interface sr (strncpy_field 16 s @ p) = sr_get_interface sr s"
  by (simp add: sr_get_interface_def strneq_c_string sr_IFACE_NAMELEN_def strncpy_plain)

lemma packet_command:
  assumes "length field = 16" "14 \<le> length p" "length p \<le> 9976"
  shows "vns_packet sr (read_message VNSPACKET (field @ p)) (24 + length p) =
    rbind (sr_arp_req_not_for_us sr p (length p) (field @ p)) (\<lambda>not_for_us.
    if not_for_us then Inr sr
    else rbind (sr_log_packet sr p (int (length p))) (\<lambda>sr. sr_handlepacket sr p (length p) (field @ p)))"
proof -
  let ?buf = "read_message VNSPACKET (field @ p)"
  have d: "drop 24 ?buf = p" "drop 8 ?buf = field @ p" using assms(1) by (simp_all add: read_message_def)
  have n: "(word_of_nat (24 + length p) - 38 + 14 :: u32) = word_of_nat (length p)"
      "(word_of_nat (24 + length p) - 24 :: u32) = word_of_nat (length p)" by simp_all
  have u: "unat (word_of_nat (length p) :: u32) = length p" using assms(3) by (intro unat_word_small) simp
  have i: "sint (word_of_nat (length p) :: u32) = int (length p)" using assms(3) by (intro sint_small) simp
  have l: "ld32 ?buf 0 = Inr (htonl (word_of_nat (24 + length p)))"
    using get32_at [of "[]" 0] assms(1) by (simp add: access_ok read_message_def)
  show ?thesis
    unfolding vns_packet_def Let_def d n u l rbind_simps htonl_htonl i ..
qed


section \<open>Echo requests in a session\<close>

definition echo_request_for :: "sr_instance \<Rightarrow> byte list \<Rightarrow> bool" where
  \<comment> \<open>a sound echo request to the router, from a host to which there is a next hop\<close>
  "echo_request_for sr p \<longleftrightarrow> is_ip p \<and> ip_sum_ok p \<and> IPcheck (get32 p 30) sr \<noteq> None \<and> get8 p 23 = 1 \<and>
     icmp_sum_ok p \<and> get8 p 34 = 8 \<and> 24 \<le> unat (ntohs (get16 p 16)) \<and>
     14 + unat (ntohs (get16 p 16)) \<le> length p \<and> length p \<le> 9976 \<and> (\<exists>nh i e. next_hop sr (get32 p 26) nh i e)"

definition echo_reply_to :: "sr_instance \<Rightarrow> byte list \<Rightarrow> byte list \<Rightarrow> bool" where
  \<comment> \<open>the command carries the reply to the request: to the next hop, addresses swapped, type and code 0, the same
    identification and data, checksums that verify\<close>
  "echo_reply_to sr p m \<longleftrightarrow> (\<exists>nh i e f. next_hop sr (get32 p 26) nh i e \<and> m = vns_frame f (if_name i) \<and>
     length f = 14 + unat (ntohs (get16 p 16)) \<and> slice f 0 6 = ae_mac e \<and> slice f 6 6 = if_addr i \<and>
     get16 f 12 = htons ethertype_ip \<and> slice f 14 10 = slice p 14 10 \<and>
     get32 f 26 = get32 p 30 \<and> get32 f 30 = get32 p 26 \<and> get8 f 34 = 0 \<and> get8 f 35 = 0 \<and>
     drop 38 f = slice p 38 (unat (ntohs (get16 p 16)) - 24) \<and>
     cksum (slice f 14 20) = 0xffff \<and> cksum (drop 34 f) = 0xffff)"

definition arrives_on :: "sr_instance \<Rightarrow> cstr \<Rightarrow> byte list \<Rightarrow> bool" where
  "arrives_on sr name p \<longleftrightarrow> plain_name name \<and> sr_get_interface sr name \<noteq> None \<and> echo_request_for sr p"

lemma next_hop_same_tables: "same_tables a b \<Longrightarrow> next_hop a = next_hop b"
  by (intro ext) (simp add: next_hop_def lpm_tables [of a b] get_interface_tables [of a b] same_tables_def)

lemma IPcheck_tables: "same_tables a b \<Longrightarrow> IPcheck ip a = IPcheck ip b"
  by (simp add: IPcheck_def same_tables_def)

lemma request_tables:
  assumes "same_tables a b"
  shows "echo_request_for a p = echo_request_for b p"
  by (simp only: echo_request_for_def next_hop_same_tables [OF assms] IPcheck_tables [OF assms])

lemma arrives_tables:
  assumes "same_tables a b"
  shows "arrives_on a name p = arrives_on b name p"
  by (simp only: arrives_on_def request_tables [OF assms] get_interface_tables [OF assms])

lemma reply_tables:
  assumes "same_tables a b"
  shows "echo_reply_to a p m = echo_reply_to b p m"
  by (simp only: echo_reply_to_def next_hop_same_tables [OF assms])

lemma malloc_tables: "same_tables sr (snd (malloc sr n))" "sock_out (snd (malloc sr n)) = sock_out sr"
  by (simp_all add: malloc_def same_tables_def)

lemma ip_frame_for_us:
  assumes "is_ip p" "sr_get_interface sr name \<noteq> None"
  shows "sr_arp_req_not_for_us sr p (length p) name = Inr False"
proof -
  obtain i where i: "sr_get_interface sr name = Some i" using assms(2) by blast
  have "htons (get16 p 12) \<noteq> ethertype_arp"
    using assms(1) by (simp add: is_ip_def ethertype_arp_def ethertype_ip_def)
  then have "get16 p 12 \<noteq> htons ethertype_arp" by (metis htons_htons)
  moreover have "ld16 p 12 = Inr (get16 p 12)" using assms(1) by (simp add: is_ip_def access_ok)
  ultimately show ?thesis by (simp add: sr_arp_req_not_for_us_def i)
qed

lemma echo_handled:
  assumes "echo_request_for sr p"
  shows "\<exists>sr' m. sr_handlepacket sr p (length p) iface = Inr sr' \<and> same_tables sr sr' \<and>
    sock_out sr' = sock_out sr @ [m] \<and> echo_reply_to sr p m"
proof -
  obtain own nh i e where "IPcheck (get32 p 30) sr = Some own" and hop: "next_hop sr (get32 p 26) nh i e"
    using assms by (auto simp: echo_request_for_def)
  then show ?thesis
    using echo_answered [of p sr own "unat (ntohs (get16 p 16))" nh i e iface] assms
    unfolding echo_request_for_def echo_reply_to_def by blast
qed

lemma echo_packet:
  assumes "arrives_on sr name p"
  shows "\<exists>sr' m. vns_packet sr (read_message VNSPACKET (strncpy_field 16 name @ p)) (24 + length p) = Inr sr' \<and>
    same_tables sr sr' \<and> sock_out sr' = sock_out sr @ [m] \<and> echo_reply_to sr p m"
proof -
  have p: "is_ip p" "14 \<le> length p" "length p \<le> 9976" "echo_request_for sr p"
    using assms by (auto simp: arrives_on_def echo_request_for_def is_ip_def)
  have "sr_get_interface sr (strncpy_field 16 name @ p) \<noteq> None"
    using assms by (simp add: arrives_on_def named_interface)
  then have us: "sr_arp_req_not_for_us sr p (length p) (strncpy_field 16 name @ p) = Inr False"
    using p(1) by (rule ip_frame_for_us [rotated])
  obtain sr1 where l: "sr_log_packet sr p (int (length p)) = Inr sr1" using log_packet_ok [OF order_refl] by blast
  have t: "same_tables sr sr1" "sock_out sr1 = sock_out sr" using log_packet_tables [OF l] by auto
  have "echo_request_for sr1 p"
    using p(4) request_tables [OF t(1)] by simp
  then obtain sr' m where "sr_handlepacket sr1 p (length p) (strncpy_field 16 name @ p) = Inr sr'"
      "same_tables sr1 sr'" "sock_out sr' = sock_out sr1 @ [m]" "echo_reply_to sr1 p m"
    using echo_handled by blast
  then show ?thesis
    unfolding packet_command [OF length_strncpy_field p(2,3)] us rbind_simps l if_False
    using t same_tables_trans [OF t(1)] reply_tables [OF t(1)] by auto
qed

lemma echo_served:
  assumes "stream (inp e) = vns_frame p name @ later" "arrives_on sr name p"
  shows "\<exists>sr' s' m. sr_read_from_server sr e = Some (Inr (1, sr', e\<lparr>inp := s'\<rparr>)) \<and> stream s' = later \<and>
    same_tables sr sr' \<and> sock_out sr' = sock_out sr @ [m] \<and> echo_reply_to sr p m"
proof -
  let ?body = "strncpy_field 16 name @ p"
  let ?sr = "snd (malloc sr (8 + length ?body))"
  have "length ?body \<le> 9992" using assms(2) by (simp add: arrives_on_def echo_request_for_def)
  then obtain s' where s': "stream s' = later" "sr_read_from_server_expect sr e 0 =
      Some (dispatch ?sr (e\<lparr>inp := s'\<rparr>) VNSPACKET (read_message VNSPACKET ?body) (8 + length ?body))"
    using read_command [of e VNSPACKET ?body later sr 0] assms(1)
    by (auto simp: frame_message accepts_def Let_def)
  have t: "same_tables sr ?sr" "sock_out ?sr = sock_out sr" by (rule malloc_tables)+
  obtain sr' m where v: "vns_packet ?sr (read_message VNSPACKET ?body) (24 + length p) = Inr sr'"
      "same_tables ?sr sr'" "sock_out sr' = sock_out ?sr @ [m]" "echo_reply_to ?sr p m"
    using echo_packet assms(2) arrives_tables [OF t(1)] by blast
  have "8 + length ?body = 24 + length p" by simp
  then have "sr_read_from_server sr e = Some (Inr (1, sr', e\<lparr>inp := s'\<rparr>))"
    using s'(2) v(1) unfolding sr_read_from_server_def dispatch_def by simp
  then show ?thesis
    using s'(1) v t same_tables_trans [OF t(1)] reply_tables [OF t(1)] by auto
qed

lemma close_served:
  assumes "stream (inp e) = vns_message VNSCLOSE reason @ later" "0 \<in> set reason" "length reason \<le> 9992"
  shows "\<exists>sr' s'. sr_read_from_server sr e = Some (Inr (0, sr', e\<lparr>inp := s'\<rparr>)) \<and> stream s' = later \<and>
    same_tables sr sr' \<and> sock_out sr' = sock_out sr"
proof -
  let ?sr = "snd (malloc sr (8 + length reason))"
  obtain s' where s': "stream s' = later" "sr_read_from_server_expect sr e 0 =
      Some (dispatch ?sr (e\<lparr>inp := s'\<rparr>) VNSCLOSE (read_message VNSCLOSE reason) (8 + length reason))"
    using read_command [OF assms(1,3), of sr 0] by (auto simp: accepts_def Let_def)
  have "string_at (read_message VNSCLOSE reason) 8 = Inr (c_string reason)"
    using assms(2) by (simp add: string_at_def read_message_def)
  then have "sr_read_from_server sr e = Some (Inr (0, ?sr, e\<lparr>inp := s'\<rparr>))"
    using s'(2) by (simp add: sr_read_from_server_def dispatch_def vns_type_defs)
  then show ?thesis using s'(1) malloc_tables by blast
qed

text \<open>
  C4: a whole session of the main loop.  The server sends any number of echo requests to addresses of the router,
  each on an existing interface, in whatever pieces, and then closes the session.  The main loop answers every
  request with the reply that belongs to it, in order, sends nothing else, reads nothing after the closing
  command, and ends with the tables it began with.
\<close>

theorem pings_answered:
  assumes "stream (inp e) = concat (map (\<lambda>(name, p). vns_frame p name) ps) @ vns_message VNSCLOSE reason @ later"
    and "\<forall>(name, p) \<in> set ps. arrives_on sr name p" "0 \<in> set reason" "length reason \<le> 9992"
  shows "\<exists>sr' s' ms. main_loop sr e = Some (Inr (0, sr', e\<lparr>inp := s'\<rparr>)) \<and> stream s' = later \<and>
    same_tables sr sr' \<and> sock_out sr' = sock_out sr @ ms \<and>
    list_all2 (\<lambda>(name, p) m. echo_reply_to sr p m) ps ms"
  using assms(1,2)
proof (induction ps arbitrary: sr e)
  case Nil
  then obtain sr' s' where "sr_read_from_server sr e = Some (Inr (0, sr', e\<lparr>inp := s'\<rparr>))" "stream s' = later"
      "same_tables sr sr'" "sock_out sr' = sock_out sr"
    using close_served [OF _ assms(3,4), of e later sr] by auto
  then show ?case by (intro exI [of _ sr'] exI [of _ s'] exI [of _ "[]"]) (simp add: main_loop.simps [of sr e])
next
  case (Cons x ps)
  obtain name p where x: "x = (name, p)" by (cases x)
  obtain sr1 s1 m where 1: "sr_read_from_server sr e = Some (Inr (1, sr1, e\<lparr>inp := s1\<rparr>))"
      "stream s1 = concat (map (\<lambda>(name, p). vns_frame p name) ps) @ vns_message VNSCLOSE reason @ later"
      "same_tables sr sr1" "sock_out sr1 = sock_out sr @ [m]" "echo_reply_to sr p m"
    using echo_served [of e p name _ sr] Cons.prems x by fastforce
  have "\<forall>(name, p) \<in> set ps. arrives_on sr1 name p"
    using Cons.prems(2) arrives_tables [OF 1(3)] by auto
  then obtain sr' s' ms where 2: "main_loop sr1 (e\<lparr>inp := s1\<rparr>) = Some (Inr (0, sr', e\<lparr>inp := s'\<rparr>))" "stream s' = later"
      "same_tables sr1 sr'" "sock_out sr' = sock_out sr1 @ ms"
      "list_all2 (\<lambda>(name, p) m. echo_reply_to sr1 p m) ps ms"
    using Cons.IH [of "e\<lparr>inp := s1\<rparr>" sr1] 1(2) by auto
  have "main_loop sr e = Some (Inr (0, sr', e\<lparr>inp := s'\<rparr>))"
    using 1(1) 2(1) by (simp add: main_loop.simps [of sr e])
  moreover have "list_all2 (\<lambda>(name, p) m. echo_reply_to sr p m) (x # ps) (m # ms)"
    using 1(5) 2(5) x reply_tables [OF 1(3)] by simp
  ultimately show ?case
    using 2 1(4) same_tables_trans [OF 1(3) 2(3)] by (intro exI conjI) auto
qed

lemma ping_arrives: "arrives_on lab_router [101, 49] ping"
  using lab_next_hop
  by (auto simp: arrives_on_def echo_request_for_def ping_fields lab_facts plain_name_def)

theorem pings_answered_witness:
  fixes e :: vns
  defines "e \<equiv> \<lparr>inp = [Chunk (vns_frame ping [101, 49] @ vns_frame ping [101, 49]), Interrupted,
      Chunk (vns_message VNSCLOSE [98, 0])], files = \<lambda>_. None, writable = \<lambda>_. False\<rparr>"
  shows "\<exists>sr' s' m n. main_loop lab_router e = Some (Inr (0, sr', e\<lparr>inp := s'\<rparr>)) \<and> stream s' = [] \<and>
    sock_out sr' = [m, n] \<and> echo_reply_to lab_router ping m \<and> echo_reply_to lab_router ping n"
  using pings_answered [of e "[([101, 49], ping), ([101, 49], ping)]" "[98, 0]" "[]" lab_router]
  by (auto simp: e_def ping_arrives lab_facts list_all2_Cons1)

end
