(* ===== verification/Router_Arp.thy ===== *)
theory Router_Arp
  imports Router_Properties
begin

text \<open>
  ARP at the router: the frames \<open>sr_arp_make_packet\<close> builds, the answer to a request and what is learnt
  from requests and replies, and the once-a-second sweep over the unanswered requests.
\<close>

section \<open>The frames\<close>

definition arp_frame :: "sr_if \<Rightarrow> byte list \<Rightarrow> byte list \<Rightarrow> u32 \<Rightarrow> u16 \<Rightarrow> byte list" where
  \<comment> \<open>an ARP packet sent from the interface: Ethernet destination, target hardware address, target address
     and opcode\<close>
  "arp_frame i dhost tha tip oper =
     eth_bytes \<lparr>ether_dhost = dhost, ether_shost = if_addr i, ether_type = htons ethertype_arp\<rparr> @
     arp_bytes \<lparr>ar_hrd = htons arp_hrd_ethernet, ar_pro = htons ethertype_ip, ar_hln = 6, ar_pln = 4,
       ar_op = htons oper, ar_sha = if_addr i, ar_sip = if_ip i, ar_tha = tha, ar_tip = tip\<rparr>"

lemma bytes_put_ends: "slice p 0 n @ drop n p = p"
  by (simp add: slice_def)

lemma bytes16_get16: "k + 2 \<le> length p \<Longrightarrow> bytes16 (get16 p k) = slice p k 2"
proof (rule nth_equalityI)
  fix j assume "j < length (bytes16 (get16 p k))" "k + 2 \<le> length p"
  then have "j = 0 \<or> j = 1" by auto
  then show "bytes16 (get16 p k) ! j = slice p k 2 ! j"
    using \<open>k + 2 \<le> length p\<close> by (auto simp: bytes16_def get16_def)
qed simp

lemma bytes32_get32: "k + 4 \<le> length p \<Longrightarrow> bytes32 (get32 p k) = slice p k 4"
proof (rule nth_equalityI)
  fix j assume "j < length (bytes32 (get32 p k))" "k + 4 \<le> length p"
  then have "j = 0 \<or> j = 1 \<or> j = 2 \<or> j = 3" by auto
  then show "bytes32 (get32 p k) ! j = slice p k 4 ! j"
    using \<open>k + 4 \<le> length p\<close>
    by (auto simp: bytes32_def get32_def numeral_2_eq_2 numeral_3_eq_3
        byte32_mk32 [unfolded numeral_2_eq_2 numeral_3_eq_3])
qed simp

lemma get8_slice1: "k < length p \<Longrightarrow> [get8 p k] = slice p k 1"
  by (rule nth_equalityI) (auto simp: get8_def)

lemma slice_join:
  "j = i + m \<Longrightarrow> slice p i m @ slice p j n = slice p i (m + n)"
  "j = i + m \<Longrightarrow> slice p i m @ slice p j n @ r = slice p i (m + n) @ r"
  by (simp_all add: slice_def take_add add.commute)

text \<open>A 42-byte buffer with the fields of an ARP frame is that frame.\<close>

lemma arp_frameI:
  assumes "length f = 42" "slice f 0 6 = dhost" "slice f 6 6 = if_addr i"
    "get16 f 12 = htons ethertype_arp" "get16 f 14 = htons arp_hrd_ethernet" "get16 f 16 = htons ethertype_ip"
    "get8 f 18 = 6" "get8 f 19 = 4" "get16 f 20 = htons oper" "slice f 22 6 = if_addr i"
    "get32 f 28 = if_ip i" "slice f 32 6 = tha" "get32 f 38 = tip"
  shows "f = arp_frame i dhost tha tip oper"
proof -
  have "arp_frame i dhost tha tip oper = slice f 0 6 @ slice f 6 6 @ bytes16 (get16 f 12) @
    bytes16 (get16 f 14) @ bytes16 (get16 f 16) @ [get8 f 18] @ [get8 f 19] @ bytes16 (get16 f 20) @
    slice f 22 6 @ bytes32 (get32 f 28) @ slice f 32 6 @ bytes32 (get32 f 38)"
    using assms by (simp add: arp_frame_def eth_bytes_def arp_bytes_def)
  also have "\<dots> = slice f 0 42"
    using assms(1) by (simp add: bytes16_get16 bytes32_get32 get8_slice1 slice_join)
  finally show ?thesis using assms(1) by (simp add: slice_def)
qed

text \<open>Built on an existing interface, the frame goes out.\<close>

lemma arp_make_packet_sends:
  assumes "sr_get_interface sr name = Some i" "length (if_addr i) = 6" "sock_ok sr"
    "mode = 0 \<Longrightarrow> tha = Some t \<and> length t = 6"
  shows "\<exists>sr'. sr_arp_make_packet sr (Some i) tha tip mode = Inr sr' \<and> same_tables sr sr' \<and>
    sock_out sr' = sock_out sr @
      [vns_frame (if mode = 0 then arp_frame i t t tip arp_op_reply
                  else arp_frame i (replicate 6 0xff) (replicate 6 0) tip arp_op_request) (if_name i)]"
proof -
  let ?f = "if mode = 0 then arp_frame i t t tip arp_op_reply
    else arp_frame i (replicate 6 0xff) (replicate 6 0) tip arp_op_request"
  let ?sr = "sr\<lparr>allocs := Suc (allocs sr)\<rparr>"
  obtain pk where pk: "malloc sr 42 = (pk, ?sr)" "length pk = 42"
    by (simp add: malloc_def)
  define a where "a = put (put (put (put (put (put (put (put (put pk 6 (if_addr i))
    12 (bytes16 (htons ethertype_arp))) 16 (bytes16 (htons ethertype_ip)))
    14 (bytes16 (htons arp_hrd_ethernet))) 18 [6]) 19 [4]) 28 (bytes32 (if_ip i)))
    38 (bytes32 tip)) 22 (if_addr i)"
  define f where "f = (if mode = 0 then put (put (put a 20 (bytes16 (htons arp_op_reply))) 0 t) 32 t
    else put (put (put a 20 (bytes16 (htons arp_op_request))) 32 (replicate 6 0)) 0 (replicate 6 0xff))"
  have len: "length a = 42" "length f = 42" using pk by (simp_all add: a_def f_def)
  have a: "slice a 6 6 = if_addr i" "get16 a 12 = htons ethertype_arp"
    "get16 a 14 = htons arp_hrd_ethernet" "get16 a 16 = htons ethertype_ip" "get8 a 18 = 6"
    "get8 a 19 = 4" "slice a 22 6 = if_addr i" "get32 a 28 = if_ip i" "get32 a 38 = tip"
    using assms(2) pk by (simp_all add: a_def field_simps)
  have f: "f = ?f"
    using a len assms(4) by (auto simp: f_def field_simps intro!: arp_frameI)
  have s6: "slice (if_addr i) 0 6 = if_addr i" "mode = 0 \<Longrightarrow> slice t 0 6 = t"
    using assms(2,4) by (simp_all add: slice_def)
  have i: "sr_get_interface ?sr (if_name i) = Some i"
    using get_interface_self [OF assms(1)] by (simp add: sr_get_interface_def)
  have "slice f 6 6 = if_addr i" using a len assms(4) by (simp add: f_def field_simps)
  then obtain sr' where sr': "sr_send_packet ?sr f 42 (if_name i) = Inr (0, sr')" "same_tables ?sr sr'"
    "sock_out sr' = sock_out ?sr @ [vns_frame f (if_name i)]"
    using send_packet_sends [OF i, of f] assms(2,3) len by auto
  have "sr_arp_make_packet sr (Some i) tha tip mode = Inr sr'"
    using assms(2,4) s6 sr'(1) pk
    by (auto simp: sr_arp_make_packet_def access_ok a_def f_def)
  with sr' f show ?thesis by (auto simp: same_tables_def)
qed

section \<open>Requests and replies\<close>

definition is_arp :: "byte list \<Rightarrow> u16 \<Rightarrow> bool" where
  "is_arp p oper \<longleftrightarrow> 42 \<le> length p \<and> ntohs (get16 p 12) = 0x0806 \<and> ntohs (get16 p 20) = oper"

definition learn :: "byte list \<Rightarrow> sr_instance \<Rightarrow> sr_arpcache" where
  \<comment> \<open>the cache with the sender of the packet added\<close>
  "learn p sr = sr_arpcacheinsert (now sr) (cache sr) (slice p 22 6) (get32 p 28)"

lemma handle_is_arp:
  assumes "is_arp p oper"
  shows "sr_handlepacket sr p (length p) iface = handle_arp sr p (length p) iface"
  using assms by (simp add: is_arp_def sr_handlepacket_def ethertype_def access_ok)

lemma arp_request_reply:
  assumes "is_arp p 1" "IPcheck (get32 p 38) sr = Some own" "sr_get_interface sr iface = Some i"
    "length (if_addr i) = 6" "sock_ok sr"
  shows "\<exists>sr'. sr_handlepacket sr p (length p) iface = Inr sr' \<and>
    sock_out sr' = sock_out sr @
      [vns_frame (arp_frame i (slice p 22 6) (slice p 22 6) (get32 p 28) arp_op_reply) (if_name i)] \<and>
    cache sr' = learn p sr \<and> if_list sr' = if_list sr \<and> routing_table sr' = routing_table sr"
proof -
  have p: "42 \<le> length p" "ntohs (get16 p 20) = 1" using assms(1) by (simp_all add: is_arp_def)
  obtain sr1 where s: "sr_arp_make_packet sr (Some i) (Some (slice p 22 6)) (get32 p 28) 0 = Inr sr1"
    "same_tables sr sr1" "sock_out sr1 = sock_out sr @
      [vns_frame (arp_frame i (slice p 22 6) (slice p 22 6) (get32 p 28) arp_op_reply) (if_name i)]"
    using arp_make_packet_sends [OF assms(3-5), of 0 "Some (slice p 22 6)" "slice p 22 6"] p by auto
  then have "sr_handlepacket sr p (length p) iface = Inr (sr1\<lparr>cache := learn p sr\<rparr>)"
    using assms(2,3) p
    by (simp add: handle_is_arp [OF assms(1)] handle_arp_def access_ok learn_def same_tables_def)
  then show ?thesis using s by (simp add: same_tables_def)
qed

text \<open>
  C17: an ARP request for one of the router's addresses is answered on the interface it came in on with
  exactly one ARP reply, addressed to the sender: it carries that interface's MAC and IP address as
  sender and the requester's as target; and the requester's mapping is learnt.
\<close>

theorem arp_request_answered:
  assumes "is_arp p 1" "IPcheck (get32 p 38) sr = Some own" "sr_get_interface sr iface = Some i"
    "length (if_addr i) = 6" "sock_ok sr"
  shows "\<exists>sr'. sr_handlepacket sr p (length p) iface = Inr sr' \<and>
    sock_out sr' = sock_out sr @
      [vns_frame (arp_frame i (slice p 22 6) (slice p 22 6) (get32 p 28) arp_op_reply) (if_name i)] \<and>
    cache sr' = learn p sr \<and> if_list sr' = if_list sr \<and> routing_table sr' = routing_table sr"
  using assms by (rule arp_request_reply)

text \<open>
  An ARP reply to one of the router's addresses is learnt when its target hardware address agrees
  with that interface's in the sense of \<open>strncmp\<close> and changes nothing else; otherwise it is ignored.
  If its sender was unknown and the table had a free slot, the sender's address then resolves to
  the announced MAC.
\<close>

theorem arp_reply_learnt:
  assumes "is_arp p 2" "IPcheck (get32 p 38) sr = Some own"
  shows "sr_handlepacket sr p (length p) iface =
      Inr (if strneq 6 (if_addr own) (slice p 32 6) then sr\<lparr>cache := learn p sr\<rparr> else sr) \<and>
    (0 < free_slots (cache sr) \<and> sr_arpcache_lookup (cache sr) (get32 p 28) = None \<longrightarrow>
      map_option ae_mac (sr_arpcache_lookup (learn p sr) (get32 p 28)) = Some (slice p 22 6))"
  using assms arp.lookup_learn_new
  by (auto simp: handle_is_arp [OF assms(1)] handle_arp_def access_ok learn_def is_arp_def)

definition who_has :: "u16 \<Rightarrow> byte list" where
  \<comment> \<open>an ARP packet from 10.0.0.7 to 10.0.0.1\<close>
  "who_has oper = [0xff, 0xff, 0xff, 0xff, 0xff, 0xff, 2, 0, 0, 0, 0, 7, 8, 6, 0, 1, 8, 0, 6, 4,
     hi16 oper, lo16 oper, 2, 0, 0, 0, 0, 7, 10, 0, 0, 7, 2, 0, 0, 0, 0, 1, 10, 0, 0, 1]"

lemma who_has_fields:
  "is_arp (who_has oper) oper" "length (who_has oper) = 42" "get32 (who_has oper) 38 = 0x0100000A"
  "get32 (who_has oper) 28 = 0x0700000A" "slice (who_has oper) 22 6 = [2, 0, 0, 0, 0, 7]"
  "slice (who_has oper) 32 6 = [2, 0, 0, 0, 0, 1]"
proof -
  have m: "mk16 8 6 = 0x0806" "mk32 1 0 0 10 = 0x0100000A" "mk32 7 0 0 10 = 0x0700000A"
    by (simp_all add: mk32_def mk16_def push_bit_eq_mult)
  show "is_arp (who_has oper) oper" "length (who_has oper) = 42" "get32 (who_has oper) 38 = 0x0100000A"
    "get32 (who_has oper) 28 = 0x0700000A" "slice (who_has oper) 22 6 = [2, 0, 0, 0, 0, 7]"
    "slice (who_has oper) 32 6 = [2, 0, 0, 0, 0, 1]"
    by (simp_all add: is_arp_def who_has_def get16_def get32_def slice_def m)
qed

lemma arp_request_answered_witness:
  "\<exists>sr'. sr_handlepacket lab_router (who_has 1) 42 [101, 49] = Inr sr' \<and>
     sock_out sr' = [vns_frame (arp_frame eth1 [2, 0, 0, 0, 0, 7] [2, 0, 0, 0, 0, 7] 0x0700000A
       arp_op_reply) [101, 49]]"
proof -
  have "length (if_addr eth1) = 6" "sock_ok lab_router"
    by (simp_all add: lab_facts) (simp add: lab_router_def example_router_def)
  then show ?thesis
    using arp_request_answered [OF who_has_fields(1), of lab_router eth1 "[101, 49]" eth1]
    by (auto simp: who_has_fields lab_facts)
qed

lemma arp_reply_learnt_witness:
  "sr_handlepacket lab_router (who_has 2) 42 [101, 49] =
     Inr (lab_router\<lparr>cache := learn (who_has 2) lab_router\<rparr>)"
  using arp_reply_learnt [OF who_has_fields(1), of lab_router eth1 "[101, 49]"]
  by (simp add: who_has_fields lab_facts)

section \<open>Unanswered requests\<close>

lemma same_tables_sym: "same_tables a b \<Longrightarrow> same_tables b a"
  by (simp add: same_tables_def)

lemma next_hop_tables: "same_tables a b \<Longrightarrow> next_hop a d nh i e = next_hop b d nh i e"
  by (simp add: next_hop_def same_tables_def longestprefixmatch_def sr_get_interface_def)

definition host_unreachable :: "sr_instance \<Rightarrow> byte list \<Rightarrow> byte list \<Rightarrow> bool" where
  \<comment> \<open>the message tells the sender of the packet that the host is unreachable\<close>
  "host_unreachable sr p msg \<longleftrightarrow> (\<exists>nh i e f. next_hop sr (get32 p 26) nh i e \<and>
     msg = vns_frame f (if_name i) \<and> length f = 70 \<and> slice f 0 6 = ae_mac e \<and>
     slice f 6 6 = if_addr i \<and> ip_dst (get_ip f 14) = get32 p 26 \<and> ip_src (get_ip f 14) = if_ip i \<and>
     get8 f 34 = 3 \<and> get8 f 35 = 1 \<and> slice f 42 28 = slice p 14 28 \<and>
     cksum (slice f 14 20) = 0xffff \<and> cksum (drop 34 f) = 0xffff)"

lemma host_unreachable_tables: "same_tables a b \<Longrightarrow> host_unreachable a p m = host_unreachable b p m"
  by (simp add: host_unreachable_def next_hop_tables)

lemma send_unreachables_spec:
  "\<forall>p \<in> set ps. 42 \<le> length (pk_buf p) \<and> (\<exists>nh i e. next_hop sr (get32 (pk_buf p) 26) nh i e) \<Longrightarrow>
    \<exists>sr' ms. send_unreachables sr ps = Inr sr' \<and> same_tables sr sr' \<and>
      sock_out sr' = sock_out sr @ ms \<and> list_all2 (\<lambda>p m. host_unreachable sr (pk_buf p) m) ps ms"
proof (induction ps arbitrary: sr)
  case (Cons p ps)
  let ?b = "pk_buf p"
  from Cons.prems obtain nh i e where p: "42 \<le> length ?b" "next_hop sr (get32 ?b 26) nh i e" by auto
  have q: "next_hop sr (get32 (drop 14 ?b) 12) nh i e" "28 \<le> length (drop 14 ?b)" using p by simp_all
  obtain sr1 f where f: "sr_icmp_make_packet sr (drop 14 ?b) 3 1 = Inr sr1" "same_tables sr sr1"
    "sock_out sr1 = sock_out sr @ [vns_frame f (if_name i)]" "length f = 70" "slice f 0 6 = ae_mac e"
    "slice f 6 6 = if_addr i"
    "get_ip f 14 = \<lparr>ip_hl = 5, ip_v = 4, ip_tos = get8 (drop 14 ?b) 1, ip_len = htons 56,
      ip_id = get16 (drop 14 ?b) 4, ip_off = 0, ip_ttl = 64, ip_p = 1, ip_sum = get16 f 24,
      ip_src = if_ip i, ip_dst = get32 (drop 14 ?b) 12\<rparr>"
    "get8 f 34 = 3" "get8 f 35 = 1" "slice f 42 28 = slice (drop 14 ?b) 0 28"
    "cksum (slice f 14 20) = 0xffff" "cksum (drop 34 f) = 0xffff"
    using icmp_error_sends [OF q, of 3 "if_ip i" 1] by auto
  have m: "host_unreachable sr ?b (vns_frame f (if_name i))"
    unfolding host_unreachable_def
    using p f by (intro exI [of _ nh] exI [of _ i] exI [of _ e] exI [of _ f]) simp
  have "\<forall>p \<in> set ps. 42 \<le> length (pk_buf p) \<and> (\<exists>nh i e. next_hop sr1 (get32 (pk_buf p) 26) nh i e)"
    using Cons.prems next_hop_tables [OF f(2)] by simp
  from Cons.IH [OF this] obtain sr' ms where "send_unreachables sr1 ps = Inr sr'" "same_tables sr1 sr'"
    "sock_out sr' = sock_out sr1 @ ms" "list_all2 (\<lambda>p m. host_unreachable sr1 (pk_buf p) m) ps ms"
    by blast
  then show ?case
    using f(1-3) m host_unreachable_tables [OF f(2)] same_tables_trans [OF f(2)]
    by (intro exI [of _ sr'] exI [of _ "vns_frame f (if_name i) # ms"]) simp
qed simp

text \<open>
  C12: five tries: when the sweep finds a request that was sent five times, the last time at least a
  second ago, it sends one ICMP host-unreachable message to the source of every packet that waits
  for it, in queue order, and removes exactly this request; the requests of all other
  addresses keep their packets.  The loop then continues through the memory it has just freed.
\<close>

theorem arp_gives_up:
  assumes "router_queue_ok sr" "requests (cache sr) = req # rs" "1 \<le> now sr - rq_sent req"
    "5 \<le> rq_times_sent req"
    "\<forall>p \<in> set (rq_packets req). 42 \<le> length (pk_buf p) \<and>
       (\<exists>nh i e. next_hop sr (get32 (pk_buf p) 26) nh i e)"
  shows "(\<exists>sr' ms. sweep_request sr (rq_ptr req) = Inr (True, sr') \<and>
      sock_out sr' = sock_out sr @ ms \<and>
      list_all2 (\<lambda>p m. host_unreachable sr (pk_buf p) m) (rq_packets req) ms \<and>
      pending (cache sr') (rq_ip req) = None \<and>
      (\<forall>ip. ip \<noteq> rq_ip req \<longrightarrow> pending (cache sr') ip = pending (cache sr) ip)) \<and>
    sr_arpcache_sweepreqs sr = Inl UseAfterFree"
proof -
  have find: "find (\<lambda>r. rq_ptr r = rq_ptr req) (requests (cache sr)) = Some req"
    "find (\<lambda>r. rq_ip r = rq_ip req) (requests (cache sr)) = Some req" using assms(2) by simp_all
  have ok: "requests_ok (cache sr)" using assms(1) by (simp add: router_queue_ok_def queue_ok_def)
  obtain sr1 ms where s: "send_unreachables sr (rq_packets req) = Inr sr1" "same_tables sr sr1"
    "sock_out sr1 = sock_out sr @ ms"
    "list_all2 (\<lambda>p m. host_unreachable sr (pk_buf p) m) (rq_packets req) ms"
    using send_unreachables_spec [OF assms(5)] by blast
  let ?sr = "sr1\<lparr>cache := sr_arpreq_destroy (cache sr1) (Some (rq_ptr req))\<rparr>"
  have c: "cache sr1 = cache sr" using s(2) by (simp add: same_tables_def)
  have run: "sweep_request sr (rq_ptr req) = Inr (True, ?sr)"
    using assms(3,4) s(1) find(1) by (simp add: sweep_request_def)
  moreover have "sr_arpcache_sweepreqs sr = Inl UseAfterFree"
    using assms(2) run by (simp add: sr_arpcache_sweepreqs_def)
  ultimately show ?thesis
    using s c destroy_pending [OF ok find(2)]
    by (intro conjI exI [of _ ?sr] exI [of _ ms]) simp_all
qed

definition stale_request :: sr_arpreq where
  "stale_request = \<lparr>rq_ptr = 0, rq_ip = 0x0700000A, rq_sent = 3, rq_times_sent = 5,
     rq_packets = [\<lparr>pk_buf = transit, pk_len = 42, pk_iface = [101, 49]\<rparr>]\<rparr>"

definition waiting_router :: sr_instance where
  "waiting_router = lab_router\<lparr>cache := \<lparr>entries = [gateway_mac], requests = [stale_request]\<rparr>,
     now := 5, allocs := 1\<rparr>"

lemma waiting_next_hop: "next_hop waiting_router d default_route eth1 gateway_mac"
  using lab_next_hop [of d]
  by (simp add: next_hop_def waiting_router_def longestprefixmatch_def sr_get_interface_def
      lab_router_def sr_arpcache_lookup_def)

lemma arp_gives_up_witness:
  "\<exists>sr' m. sweep_request waiting_router 0 = Inr (True, sr') \<and> sock_out sr' = [m] \<and>
     host_unreachable waiting_router transit m"
proof -
  have w: "router_queue_ok waiting_router" "requests (cache waiting_router) = stale_request # []"
    "1 \<le> now waiting_router - rq_sent stale_request" "5 \<le> rq_times_sent stale_request"
    "rq_ptr stale_request = 0" "sock_out waiting_router = []"
    "rq_packets stale_request = [\<lparr>pk_buf = transit, pk_len = 42, pk_iface = [101, 49]\<rparr>]"
    by (simp_all add: waiting_router_def stale_request_def router_queue_ok_def queue_ok_def requests_ok_def
        tries_ok_def lab_facts)
  have "\<exists>nh i e. next_hop waiting_router (get32 transit 26) nh i e" using waiting_next_hop by blast
  then show ?thesis
    using arp_gives_up [OF w(1-4)] by (auto simp: w transit_fields list_all2_Cons1)
qed

lemma find_member_ptr:
  "distinct (map rq_ptr rs) \<Longrightarrow> req \<in> set rs \<Longrightarrow> find (\<lambda>r. rq_ptr r = rq_ptr req) rs = Some req"
  by (induction rs) auto

text \<open>
  The retry: when the sweep finds a request that is due, was sent fewer than five times and whose
  address is still unknown, it broadcasts one ARP request for the address on the interface of the
  route to it, counts the try and notes the time; the packets that wait stay where they are.
\<close>

theorem arp_retries:
  assumes "router_queue_ok sr" "req \<in> set (requests (cache sr))" "1 \<le> now sr - rq_sent req"
    "rq_times_sent req < 5" "sr_arpcache_lookup (cache sr) (rq_ip req) = None"
    "longestprefixmatch sr (rq_ip req) = Some nh" "sr_get_interface sr (rt_interface nh) = Some i"
    "length (if_addr i) = 6" "sock_ok sr"
  shows "\<exists>sr'. sweep_request sr (rq_ptr req) = Inr (False, sr') \<and>
    sock_out sr' = sock_out sr @ [vns_frame
      (arp_frame i (replicate 6 0xff) (replicate 6 0) (rq_ip req) arp_op_request) (if_name i)] \<and>
    entries (cache sr') = entries (cache sr) \<and>
    requests (cache sr') = map (\<lambda>r. if r = req
      then r\<lparr>rq_times_sent := rq_times_sent r + 1, rq_sent := now sr\<rparr> else r) (requests (cache sr))"
proof -
  have d: "distinct (map rq_ptr (requests (cache sr)))"
    using assms(1) by (simp add: router_queue_ok_def queue_ok_def requests_ok_def)
  have f: "find (\<lambda>r. rq_ptr r = rq_ptr req) (requests (cache sr)) = Some req"
    using find_member_ptr [OF d assms(2)] .
  have same: "rq_ptr r = rq_ptr req \<longleftrightarrow> r = req" if "r \<in> set (requests (cache sr))" for r
    using find_ptr_unique [OF d f] that by blast
  obtain sr1 where s: "sr_arp_make_packet sr (Some i) None (rq_ip req) 1 = Inr sr1" "same_tables sr sr1"
    "sock_out sr1 = sock_out sr @ [vns_frame
      (arp_frame i (replicate 6 0xff) (replicate 6 0) (rq_ip req) arp_op_request) (if_name i)]"
    using arp_make_packet_sends [OF assms(7-9), of 1 None] by auto
  have "sweep_request sr (rq_ptr req) = Inr (False, update_request (rq_ptr req)
      (\<lambda>r. r\<lparr>rq_times_sent := rq_times_sent r + 1, rq_sent := now sr\<rparr>) sr1)"
    using f assms(3-7) s(1) by (simp add: sweep_request_def sr_arp_request_def not_le [symmetric])
  then show ?thesis
    using s same by (auto simp: update_request_def same_tables_def)
qed

lemma arp_retries_witness:
  "\<exists>sr'. sweep_request (waiting_router\<lparr>cache := \<lparr>entries = [gateway_mac],
      requests = [stale_request\<lparr>rq_times_sent := 2\<rparr>]\<rparr>\<rparr>) 0 = Inr (False, sr') \<and>
     sock_out sr' = [vns_frame (arp_frame eth1 (replicate 6 0xff) (replicate 6 0) 0x0700000A arp_op_request)
       [101, 49]]"
proof -
  let ?r = "stale_request\<lparr>rq_times_sent := 2\<rparr>"
  let ?sr = "waiting_router\<lparr>cache := \<lparr>entries = [gateway_mac], requests = [?r]\<rparr>\<rparr>"
  have w: "router_queue_ok ?sr" "?r \<in> set (requests (cache ?sr))" "1 \<le> now ?sr - rq_sent ?r"
    "rq_times_sent ?r < 5" "sr_arpcache_lookup (cache ?sr) (rq_ip ?r) = None"
    "sr_get_interface ?sr (rt_interface default_route) = Some eth1" "sock_ok ?sr"
    "longestprefixmatch ?sr (rq_ip ?r) = Some default_route"
    by (simp_all add: waiting_router_def stale_request_def router_queue_ok_def queue_ok_def requests_ok_def
        tries_ok_def lab_router_def example_router_def sr_arpcache_lookup_def gateway_mac_def
        longestprefixmatch_def default_route_def sr_get_interface_def eth1_def)
  have f: "rq_ptr ?r = 0" "rq_ip ?r = 0x0700000A" "sock_out ?sr = []" "length (if_addr eth1) = 6"
    by (simp_all add: stale_request_def waiting_router_def lab_facts)
  show ?thesis
    using arp_retries [OF w(1-5,8,6) f(4) w(7)] unfolding f lab_facts by auto
qed

end
