(* ===== verification/Router_Runs.thy ===== *)
theory Router_Runs
  imports Router_Session Router_Arp
begin

text \<open>
  The router between its start-up and the end of its session: a step is one command of the server, whatever it is and
  in whatever pieces it arrives, or one round of the timeout thread.  What a step does to the tables and what it sends.
\<close>

section \<open>What a command does\<close>

definition auth_message :: "sr_instance \<Rightarrow> byte list \<Rightarrow> bool" where
  \<comment> \<open>an answer to an authentication request: the user's name and a digest\<close>
  "auth_message sr m \<longleftrightarrow> (\<exists>ds. m = vns_message VNS_AUTH_REPLY
     (bytes32 (htonl (word_of_nat (length (user sr)))) @ user sr @ digest_bytes ds))"

definition extends_interfaces :: "sr_if list \<Rightarrow> sr_if list \<Rightarrow> bool" where
  \<comment> \<open>interfaces are added at the end; of the old ones only the last may get other addresses\<close>
  "extends_interfaces is js \<longleftrightarrow> (\<exists>new. map if_name js = map if_name is @ new) \<and> take (length is - 1) js = butlast is"

lemma extends_refl [simp]: "extends_interfaces is is"
  by (simp add: extends_interfaces_def butlast_conv_take)

lemma extends_length: "extends_interfaces is js \<Longrightarrow> length is \<le> length js"
  unfolding extends_interfaces_def by (metis length_append length_map le_add1)

lemma extends_trans:
  assumes "extends_interfaces is js" "extends_interfaces js ks"
  shows "extends_interfaces is ks"
proof -
  have "length is - 1 \<le> length js - 1" using extends_length [OF assms(1)] by simp
  then have "take (length is - 1) ks = take (length is - 1) (take (length js - 1) ks)" by (simp add: min_def)
  also have "\<dots> = take (length is - 1) (butlast js)" using assms(2) by (simp add: extends_interfaces_def)
  also have "\<dots> = take (length is - 1) js"
    using \<open>length is - 1 \<le> length js - 1\<close> by (simp add: butlast_conv_take)
  finally show ?thesis using assms by (auto simp: extends_interfaces_def)
qed

definition describes :: "sr_instance \<Rightarrow> sr_instance \<Rightarrow> bool" where
  \<comment> \<open>the effect of a hardware description\<close>
  "describes sr sr' \<longleftrightarrow> extends_interfaces (if_list sr) (if_list sr') \<and> allocs sr \<le> allocs sr' \<and>
     sr' = sr\<lparr>if_list := if_list sr', allocs := allocs sr'\<rparr>"

lemma describes_refl [simp]: "describes sr sr"
  by (simp add: describes_def)

lemma describes_trans: "describes a b \<Longrightarrow> describes b c \<Longrightarrow> describes a c"
proof -
  assume ab: "describes a b" and bc: "describes b c"
  have "c = a\<lparr>if_list := if_list c, allocs := allocs c\<rparr>"
    using ab bc by (cases a; cases b; cases c) (simp add: describes_def)
  then show ?thesis using ab bc extends_trans by (auto simp: describes_def)
qed

lemma handle_entry_describes:
  assumes "handle_entry sr key value = Inr sr'"
  shows "describes sr sr'"
proof -
  have last: "if_list sr \<noteq> [] \<Longrightarrow> if_name i = if_name (last (if_list sr)) \<Longrightarrow>
      extends_interfaces (if_list sr) (butlast (if_list sr) @ [i])" for i
    by (cases "if_list sr" rule: rev_cases) (auto simp: extends_interfaces_def)
  have new: "extends_interfaces is (is @ [i])" for "is" i
    by (simp add: extends_interfaces_def butlast_conv_take)
  show ?thesis
    using assms last new [of "[]"] new
    by (auto simp: handle_entry_def describes_def sr_add_interface_def sr_set_ether_ip_def sr_set_ether_addr_def Let_def
        split: if_split_asm elim!: rbind_InrE)
qed

lemma hw_loop_describes: "hw_loop sr h is = Inr sr' \<Longrightarrow> describes sr sr'"
  by (induction "is" arbitrary: sr)
     (auto elim!: rbind_InrE intro: describes_trans [OF handle_entry_describes])

lemma auth_request_sends:
  assumes "sr_handle_auth_request sr e req = Inr (r, sr')"
  shows "\<exists>n ms. sr' = sr\<lparr>allocs := allocs sr + n, sock_out := sock_out sr @ ms\<rparr> \<and> (\<forall>m \<in> set ms. auth_message sr m)"
proof (cases "files e auth_key_file")
  case None
  then show ?thesis
    using assms by (intro exI [of _ 0] exI [of _ "[]"]) (simp add: sr_handle_auth_request_def)
next
  case (Some content)
  let ?sr2 = "sr\<lparr>allocs := allocs sr + 2\<rparr>"
  consider "sr' = ?sr2"
    | ds buf sr3 where "auth_reply ?sr2 ds = Inr (buf, sr3)" "sr' = snd (send sr3 buf)"
    using assms Some
    by (auto simp: sr_handle_auth_request_def malloc_def Let_def split_beta split: if_split_asm elim!: rbind_InrE)
  then show ?thesis
  proof cases
    case 1
    then show ?thesis by (intro exI [of _ 2] exI [of _ "[]"]) simp
  next
    case 2
    then have "length (user ?sr2) < 32" by (simp add: auth_reply_def IDSIZE_def split: if_split_asm)
    from auth_reply_message [OF this, of ds] 2
    have "buf = vns_message VNS_AUTH_REPLY (bytes32 (htonl (word_of_nat (length (user sr)))) @ user sr @ digest_bytes ds)"
      and "sr3 = sr\<lparr>allocs := allocs sr + 3\<rparr>" by (simp_all add: eval_nat_numeral)
    then have "auth_message sr buf" and "sr' = sr\<lparr>allocs := allocs sr + 3, sock_out := sock_out sr @ (if sock_ok sr then [buf] else [])\<rparr>"
      using 2(2) by (auto simp: auth_message_def send_def)
    then show ?thesis
      by (intro exI [of _ 3] exI [of _ "if sock_ok sr then [buf] else []"]) simp
  qed
qed

section \<open>What a step does\<close>

definition router_progress :: "sr_instance \<Rightarrow> sr_instance \<Rightarrow> bool" where
  "router_progress sr sr' \<longleftrightarrow> routing_table sr' = routing_table sr \<and>
     length (entries (cache sr')) = length (entries (cache sr)) \<and>
     (router_queue_ok sr \<longrightarrow> router_queue_ok sr') \<and> extends_interfaces (if_list sr) (if_list sr') \<and>
     (\<exists>ms. sock_out sr' = sock_out sr @ ms \<and> (if_list sr' \<noteq> if_list sr \<longrightarrow> ms = []) \<and>
        (\<forall>m \<in> set ms. framed sr m \<or> auth_message sr m))"

lemma progress_refl [simp]: "router_progress sr sr"
  by (simp add: router_progress_def)

lemma evolves_progress: "evolves sr sr' \<Longrightarrow> router_progress sr sr'"
  by (fastforce simp: evolves_def router_progress_def)

lemma describes_progress: "describes sr sr' \<Longrightarrow> router_progress sr sr'"
proof -
  assume d: "describes sr sr'"
  then have s: "sr' = sr\<lparr>if_list := if_list sr', allocs := allocs sr'\<rparr>" by (simp add: describes_def)
  have "cache sr' = cache sr" "routing_table sr' = routing_table sr" "sock_out sr' = sock_out sr"
    using arg_cong [OF s, of cache] arg_cong [OF s, of routing_table] arg_cong [OF s, of sock_out] by simp_all
  then show ?thesis
    using d by (auto simp: router_progress_def describes_def router_queue_ok_def intro: queue_ok_mono)
qed

lemma auth_progress: "sr_handle_auth_request sr e req = Inr (r, sr') \<Longrightarrow> router_progress sr sr'"
  using auth_request_sends [of sr e req r sr']
  by (auto simp: router_progress_def router_queue_ok_def intro: queue_ok_mono)

lemma packet_evolves:
  assumes "vns_packet sr buf len = Inr sr'"
  shows "evolves sr sr'"
proof -
  have log: "evolves a b" if "sr_log_packet a p n = Inr b" for a b p n
    using log_packet_tables [OF that] by (auto simp: evolves_def same_tables_def router_queue_ok_def)
  show ?thesis
    using assms
    by (auto simp: vns_packet_def Let_def split: if_split_asm elim!: rbind_InrE
        intro: evolves_trans [OF log handlepacket_evolves])
qed

lemma dispatch_progress:
  assumes "dispatch sr e command buf len = Inr (r, sr', e')"
  shows "router_progress sr sr'"
  using assms
  by (auto simp: dispatch_def sr_handle_hwinfo_def Let_def split: if_split_asm elim!: rbind_InrE
      dest: packet_evolves hw_loop_describes intro: evolves_progress describes_progress auth_progress)

lemma malloc_progress:
  assumes "router_progress (snd (malloc sr n)) sr'"
  shows "router_progress sr sr'"
proof -
  have "framed (snd (malloc sr n)) = framed sr" "auth_message (snd (malloc sr n)) = auth_message sr"
    by (simp_all add: fun_eq_iff framed_def auth_message_def sr_get_interface_def malloc_def)
  moreover have "router_queue_ok sr \<longrightarrow> router_queue_ok (snd (malloc sr n))"
    using malloc_evolves [of sr n] by (simp add: evolves_def)
  ultimately show ?thesis using assms by (simp add: router_progress_def) (simp add: malloc_def)
qed

lemma close_progress: "router_progress sr (close_socket sr)"
  by (simp add: router_progress_def close_socket_def router_queue_ok_def)

lemma read_progress:
  assumes "sr_read_from_server_expect sr e expected = Some (Inr (r, sr', e'))"
  shows "router_progress sr sr'"
proof -
  obtain size s where 1: "recv_loop 4 [] (inp e) = Some (size, s)"
    using assms by (auto simp: sr_read_from_server_expect_def bind_eq_Some_conv)
  show ?thesis
  proof (cases size)
    case None
    then show ?thesis using assms 1 by (simp add: sr_read_from_server_expect_def)
  next
    case (Some word)
    let ?len = "sint (ntohl (get32 word 0))"
    let ?sr = "snd (malloc sr (nat ?len))"
    show ?thesis
    proof (cases "?len > 10000 \<or> ?len < 0")
      case True
      then show ?thesis
        using assms 1 Some close_progress [of sr] by (auto simp: sr_read_from_server_expect_def Let_def)
    next
      case False
      consider "sr' = close_socket ?sr"
        | buf e1 where "handle_command ?sr e1 expected buf (nat ?len) = Inr (r, sr', e')"
        using assms 1 Some False
        by (auto simp: sr_read_from_server_expect_def Let_def split_beta bind_eq_Some_conv
            split: sum.splits option.splits elim!: rbind_InrE)
      then have "router_progress ?sr sr'"
      proof cases
        case 2
        then show ?thesis
          by (auto simp: handle_command_def Let_def split: if_split_asm elim!: rbind_InrE intro: dispatch_progress)
      qed (simp add: close_progress)
      then show ?thesis by (rule malloc_progress)
    qed
  qed
qed

section \<open>The router as a transition system\<close>

text \<open>
  What can happen to a router from the end of its start-up: the main loop reads a command from what the server has sent, the
  timeout thread wakes up, the clock advances, the socket fails or recovers.  A step is one complete call; calls that
  fault or never return have no successor.
\<close>

inductive router_step :: "sr_instance \<Rightarrow> sr_instance \<Rightarrow> bool" where
  command: "sr_read_from_server sr e = Some (Inr (ret, sr', e')) \<Longrightarrow> router_step sr sr'"
| timeout: "sr_arpcache_timeout sr = Inr sr' \<Longrightarrow> router_step sr sr'"
| clock: "now sr \<le> t \<Longrightarrow> router_step sr (sr\<lparr>now := t, now_usec := us\<rparr>)"
| socket: "router_step sr (sr\<lparr>sock_ok := b\<rparr>)"

inductive router_reachable :: "sr_instance \<Rightarrow> sr_instance \<Rightarrow> bool" for sr0 where
  start: "router_reachable sr0 (sr_init sr0)"
| step: "router_reachable sr0 sr \<Longrightarrow> router_step sr sr' \<Longrightarrow> router_reachable sr0 sr'"

definition router_inv :: "sr_instance \<Rightarrow> sr_instance \<Rightarrow> bool" where
  "router_inv sr0 sr \<longleftrightarrow> routing_table sr = routing_table sr0 \<and> extends_interfaces (if_list sr0) (if_list sr) \<and>
     length (entries (cache sr)) = SR_ARPCACHE_SZ \<and> router_queue_ok sr"

lemma router_step_progress:
  assumes "router_step sr sr'" "router_queue_ok sr"
  shows "router_progress sr sr'"
  using assms(1)
proof (cases rule: router_step.cases)
  case command
  then show ?thesis unfolding sr_read_from_server_def by (rule read_progress)
next
  case timeout
  then show ?thesis using timeout_evolves assms(2) by (blast intro: evolves_progress)
qed (auto simp: router_progress_def router_queue_ok_def)

lemma progress_inv: "router_inv sr0 sr \<Longrightarrow> router_progress sr sr' \<Longrightarrow> router_inv sr0 sr'"
  by (auto simp: router_inv_def router_progress_def intro: extends_trans)

lemma router_reachable_inv: "router_reachable sr0 sr \<Longrightarrow> router_inv sr0 sr"
proof (induction rule: router_reachable.induct)
  case start
  then show ?case
    by (simp add: router_inv_def sr_init_def sr_arpcache_init_def router_queue_ok_def queue_ok_def requests_ok_def
        tries_ok_def)
next
  case (step sr sr')
  then have "router_progress sr sr'" using router_step_progress by (simp add: router_inv_def)
  then show ?case by (rule progress_inv [OF step.IH])
qed

text \<open>
  C7: whatever commands the server sends, in whatever order, and whatever clock, timeouts and socket do, from any configuration
  the router is started with: in every state it reaches the routing table is the one it started with, the ARP table has
  its 100 slots, there is at most one ARP request per address, and it has been sent at most five times.  Interfaces are
  never removed or renamed: a hardware description may add some at the end or change the addresses of the last one, and
  the command that does so sends nothing.  And every message a step writes to the server either carries a frame
  of at least 14 bytes whose Ethernet source is the address of an existing interface, the one it names, or is an answer
  to an authentication request with the user's name and a digest.
\<close>

theorem router_safe:
  assumes "router_reachable sr0 sr" "router_step sr sr'"
  shows "routing_table sr' = routing_table sr0 \<and> length (entries (cache sr')) = 100 \<and>
    distinct (map rq_ip (requests (cache sr'))) \<and> (\<forall>r \<in> set (requests (cache sr')). rq_times_sent r \<le> 5) \<and>
    (\<exists>new. map if_name (if_list sr') = map if_name (if_list sr) @ new) \<and>
    take (length (if_list sr) - 1) (if_list sr') = butlast (if_list sr) \<and>
    (\<exists>ms. sock_out sr' = sock_out sr @ ms \<and> (if_list sr' \<noteq> if_list sr \<longrightarrow> ms = []) \<and>
      (\<forall>m \<in> set ms.
        (\<exists>f name i. m = vns_frame f name \<and> 14 \<le> length f \<and> sr_get_interface sr name = Some i \<and>
          slice f 6 6 = slice (if_addr i) 0 6) \<or>
        (\<exists>ds. m = vns_message VNS_AUTH_REPLY
          (bytes32 (htonl (word_of_nat (length (user sr)))) @ user sr @ digest_bytes ds))))"
proof -
  have i: "router_inv sr0 sr" by (rule router_reachable_inv [OF assms(1)])
  then have p: "router_progress sr sr'" using router_step_progress [OF assms(2)] by (simp add: router_inv_def)
  then have "router_inv sr0 sr'" by (rule progress_inv [OF i])
  then show ?thesis
    using p by (simp add: router_inv_def router_progress_def router_queue_ok_def queue_ok_def requests_ok_def tries_ok_def
        framed_def auth_message_def extends_interfaces_def SR_ARPCACHE_SZ_def)
qed

text \<open>Two steps for the example: a command that carries an ARP request, and a hardware description.\<close>

lemma arp_request_served:
  assumes "stream (inp e) = vns_frame p name @ later" "plain_name name" "is_arp p 1" "length p \<le> 9976"
    and "sr_get_interface sr name = Some i" "if_ip i = get32 p 38" "length (if_addr i) = 6" "sock_ok sr"
  shows "\<exists>sr' s'. sr_read_from_server sr e = Some (Inr (1, sr', e\<lparr>inp := s'\<rparr>)) \<and>
    sock_out sr' = sock_out sr @
      [vns_frame (arp_frame i (slice p 22 6) (slice p 22 6) (get32 p 28) arp_op_reply) (if_name i)]"
proof -
  let ?field = "strncpy_field 16 name"
  let ?body = "?field @ p"
  let ?sr = "snd (malloc sr (8 + length ?body))"
  have l: "14 \<le> length p" "length ?body \<le> 9992" "8 + length ?body = 24 + length p" using assms(3,4) by (simp_all add: is_arp_def)
  obtain s' where s': "sr_read_from_server_expect sr e 0 =
      Some (dispatch ?sr (e\<lparr>inp := s'\<rparr>) VNSPACKET (read_message VNSPACKET ?body) (8 + length ?body))"
    using read_command [of e VNSPACKET ?body later sr 0] assms(1) l(2)
    by (auto simp: frame_message accepts_def Let_def)
  have t: "same_tables sr ?sr" "sock_out ?sr = sock_out sr" by (rule malloc_tables)+
  obtain sr1 where g: "sr_log_packet ?sr p (int (length p)) = Inr sr1" using log_packet_ok [OF order_refl] by blast
  have t1: "same_tables sr sr1" "sock_out sr1 = sock_out sr"
    using log_packet_tables [OF g] t same_tables_trans [OF t(1)] by auto
  have i: "sr_get_interface ?sr ?body = Some i" "sr_get_interface sr1 ?body = Some i"
    using assms(2,5) named_interface get_interface_tables [OF t(1)] get_interface_tables [OF t1(1)] by metis+
  have "i \<in> set (if_list sr1)"
    using sr_get_interface_Some [OF i(2)] by simp
  then obtain own where own: "IPcheck (get32 p 38) sr1 = Some own"
    using assms(6) by (cases "IPcheck (get32 p 38) sr1") (auto simp: IPcheck_def find_None_iff)
  have us: "sr_arp_req_not_for_us ?sr p (length p) ?body = Inr False"
    using assms(3,6) i(1) by (simp add: sr_arp_req_not_for_us_def Let_def access_ok is_arp_def)
  obtain sr' where sr': "sr_handlepacket sr1 p (length p) ?body = Inr sr'"
      "sock_out sr' = sock_out sr1 @
        [vns_frame (arp_frame i (slice p 22 6) (slice p 22 6) (get32 p 28) arp_op_reply) (if_name i)]"
    using arp_request_reply [OF assms(3) own i(2) assms(7)] assms(8) t1(1) by (auto simp: same_tables_def)
  have "vns_packet ?sr (read_message VNSPACKET ?body) (24 + length p) = Inr sr'"
    unfolding packet_command [OF length_strncpy_field l(1) assms(4)] us rbind_simps g if_False by (rule sr'(1))
  then have "sr_read_from_server sr e = Some (Inr (1, sr', e\<lparr>inp := s'\<rparr>))"
    using s' l(3) unfolding sr_read_from_server_def dispatch_def by simp
  then show ?thesis using sr'(2) t1(2) by auto
qed

lemma router_safe_witness:
  "(\<exists>sr' m. router_step (sr_init lab_router) sr' \<and> sock_out sr' = [m] \<and>
      m = vns_frame (arp_frame eth1 [2, 0, 0, 0, 0, 7] [2, 0, 0, 0, 0, 7] 0x0700000A arp_op_reply) [101, 49] \<and>
      routing_table sr' = routing_table lab_router \<and> length (entries (cache sr')) = 100) \<and>
   (\<exists>sr'. router_step (sr_init lab_router) sr' \<and> interfaces sr' = interfaces lab_router @ [([101, 50], [1, 2, 3, 4, 5, 6], 9)] \<and>
      sock_out sr' = sock_out (sr_init lab_router) \<and> routing_table sr' = routing_table lab_router)"
proof
  let ?sr = "sr_init lab_router"
  note safe = router_safe [OF router_reachable.start [of lab_router]]
  have f: "sr_get_interface ?sr [101, 49] = Some eth1" "sock_ok ?sr" "sock_out ?sr = []"
      "interfaces ?sr = interfaces lab_router"
    using lab_facts by (simp_all add: sr_init_def sr_get_interface_def interfaces_def) (simp add: lab_router_def example_router_def)
  let ?e = "\<lparr>inp = [Chunk (vns_frame (who_has 1) [101, 49])], files = \<lambda>_. None, writable = \<lambda>_. False\<rparr>"
  have e: "stream (inp ?e) = vns_frame (who_has 1) [101, 49] @ []" by simp
  obtain sr' s' where r: "sr_read_from_server ?sr ?e = Some (Inr (1, sr', ?e\<lparr>inp := s'\<rparr>))"
      "sock_out sr' = [vns_frame (arp_frame eth1 [2, 0, 0, 0, 0, 7] [2, 0, 0, 0, 0, 7] 0x0700000A arp_op_reply) [101, 49]]"
    using arp_request_served [OF e _ who_has_fields(1) _ f(1)] f lab_facts who_has_fields by (auto simp: plain_name_def)
  have st: "router_step ?sr sr'" using r(1) by (rule router_step.command)
  then show "\<exists>sr' m. router_step ?sr sr' \<and> sock_out sr' = [m] \<and>
      m = vns_frame (arp_frame eth1 [2, 0, 0, 0, 0, 7] [2, 0, 0, 0, 0, 7] 0x0700000A arp_op_reply) [101, 49] \<and>
      routing_table sr' = routing_table lab_router \<and> length (entries (cache sr')) = 100"
    using safe r(2) by blast
next
  let ?sr = "sr_init lab_router"
  note safe = router_safe [OF router_reachable.start [of lab_router]]
  let ?ifs = "[([101, 50], [1, 2, 3, 4, 5, 6], 9)] :: (cstr \<times> byte list \<times> u32) list"
  let ?e = "\<lparr>inp = [Chunk (vns_message VNSHWINFO (hw_body ?ifs))], files = \<lambda>_. None, writable = \<lambda>_. False\<rparr>"
  have ifs: "\<forall>(n, a, ip) \<in> set ?ifs. length a = 6" "108 * length ?ifs \<le> 9992" by simp_all
  have n: "length (hw_body ?ifs) \<le> 9992" using length_hw_body [OF ifs(1)] ifs(2) by simp
  have e: "stream (inp ?e) = vns_message VNSHWINFO (hw_body ?ifs) @ []" by simp
  let ?sr1 = "snd (malloc ?sr (8 + length (hw_body ?ifs)))"
  obtain s' where s': "sr_read_from_server_expect ?sr ?e 0 =
      Some (dispatch ?sr1 (?e\<lparr>inp := s'\<rparr>) VNSHWINFO (read_message VNSHWINFO (hw_body ?ifs)) (8 + length (hw_body ?ifs)))"
    using read_command [OF e n, of ?sr 0] by (auto simp: Let_def accepts_def)
  obtain sr' where sr': "sr_handle_hwinfo ?sr1 (read_message VNSHWINFO (hw_body ?ifs)) = Inr (3 * length ?ifs, sr')"
      "interfaces sr' = interfaces ?sr1 @ [(strncpy 32 [101, 50], [1, 2, 3, 4, 5, 6], 9)]"
    using handle_hwinfo [OF ifs] by fastforce
  have "router_step ?sr sr'"
    using s' sr'(1) by (intro router_step.command) (simp add: sr_read_from_server_def dispatch_def vns_type_defs)
  moreover have "interfaces sr' = interfaces lab_router @ [([101, 50], [1, 2, 3, 4, 5, 6], 9)]"
    using sr'(2) by (simp add: malloc_def interfaces_def sr_init_def strncpy_def c_string_def)
  moreover from this have "if_list sr' \<noteq> if_list ?sr" by (auto simp: interfaces_def sr_init_def)
  ultimately show "\<exists>sr'. router_step ?sr sr' \<and> interfaces sr' = interfaces lab_router @ [([101, 50], [1, 2, 3, 4, 5, 6], 9)] \<and>
      sock_out sr' = sock_out ?sr \<and> routing_table sr' = routing_table lab_router"
    using safe [of sr'] by auto
qed

end
