(* ===== verification/Router_Console.thy ===== *)
theory Router_Console
  imports Vns_Comm
begin

text \<open>
  What the router writes to its terminal and reads from its command line: the printing functions of
  \<open>router/sr_utils.c\<close>, \<open>sr_if.c\<close>, \<open>sr_rt.c\<close> and \<open>sr_arpcache.c\<close> as functions to text, and the options of \<open>sr_main.c\<close>.
\<close>

section \<open>Text\<close>

definition field_line :: "string \<Rightarrow> int \<Rightarrow> byte list" where
  \<comment> \<open>\<open>"\tname: %d\n"\<close>\<close>
  "field_line name i = 9 # asc name @ asc '': '' @ int_text i @ [10]"

definition label :: "string \<Rightarrow> byte list" where
  "label name = 9 # asc name @ asc '': ''"

definition upper :: "byte \<Rightarrow> byte" where
  "upper c = (if 97 \<le> c \<and> c \<le> 122 then c - 32 else c)"

definition hex2 :: "byte \<Rightarrow> byte list" where
  \<comment> \<open>\<open>%02x\<close>\<close>
  "hex2 b = pad_left 2 48 (number_text 16 (unat b))"

section \<open>Addresses and headers: \<open>sr_utils.c\<close>\<close>

definition print_addr_eth :: "byte list \<Rightarrow> nat \<Rightarrow> byte list res" where
  \<comment> \<open>the six bytes at an offset of a buffer, in capitals\<close>
  "print_addr_eth buf i =
     rbind (rd buf i 6) (\<lambda>a. Inr (tl (concat (map (\<lambda>b. 58 # map upper (hex2 b)) a)) @ [10]))"

definition print_addr_ip :: "u32 \<Rightarrow> byte list" where
  \<comment> \<open>\<open>inet_ntop\<close> does not fail\<close>
  "print_addr_ip address = dotted address @ [10]"

definition print_addr_ip_int :: "u32 \<Rightarrow> byte list" where
  "print_addr_ip_int ip =
     int_text (sint (drop_bit 24 ip)) @ 46 # int_text (sint (drop_bit 24 (push_bit 8 ip))) @ 46 #
     int_text (sint (drop_bit 24 (push_bit 16 ip))) @ 46 # int_text (sint (drop_bit 24 (push_bit 24 ip))) @ [10]"

definition print_hdr_eth :: "byte list \<Rightarrow> byte list res" where
  "print_hdr_eth buf = cat
     [Inr (text_line ''ETHERNET header:''),
      Inr (label ''destination''), print_addr_eth buf 0,
      Inr (label ''source''), print_addr_eth buf 6,
      rbind (ld16 buf 12) (\<lambda>t. Inr (field_line ''type'' (uint (ntohs t))))]"

definition IP_RF :: u16 where "IP_RF = 0x8000"
definition IP_DF :: u16 where "IP_DF = 0x4000"
definition IP_MF :: u16 where "IP_MF = 0x2000"
definition IP_OFFMASK :: u16 where "IP_OFFMASK = 0x1fff"

definition fragment_line :: "u16 \<Rightarrow> byte list" where
  "fragment_line off =
     (if off AND IP_DF \<noteq> 0 then 9 # text_line ''fragment flag: DF''
      else if off AND IP_MF \<noteq> 0 then 9 # text_line ''fragment flag: MF''
      else if off AND IP_RF \<noteq> 0 then 9 # text_line ''fragment flag: R''
      else [])"

definition print_hdr_ip :: "byte list \<Rightarrow> byte list res" where
  "print_hdr_ip buf = cat
     [Inr (text_line ''IP header:''),
      rbind (ld8 buf 0) (\<lambda>b. Inr (field_line ''version'' (uint (v_of b)))),
      rbind (ld8 buf 0) (\<lambda>b. Inr (field_line ''header length'' (uint (hl_of b)))),
      rbind (ld8 buf 1) (\<lambda>b. Inr (field_line ''type of service'' (uint b))),
      rbind (ld16 buf 2) (\<lambda>w. Inr (field_line ''length'' (uint (ntohs w)))),
      rbind (ld16 buf 4) (\<lambda>w. Inr (field_line ''id'' (uint (ntohs w)))),
      rbind (ld16 buf 6) (\<lambda>w. Inr (fragment_line (ntohs w))),
      rbind (ld16 buf 6) (\<lambda>w. Inr (field_line ''fragment offset'' (uint (ntohs w AND IP_OFFMASK)))),
      rbind (ld8 buf 8) (\<lambda>b. Inr (field_line ''TTL'' (uint b))),
      rbind (ld8 buf 9) (\<lambda>b. Inr (field_line ''protocol'' (uint b))),
      rbind (ld16 buf 10) (\<lambda>w. Inr (field_line ''checksum'' (uint w))),
      Inr (label ''source''), rbind (ld32 buf 12) (\<lambda>w. Inr (print_addr_ip_int (ntohl w))),
      Inr (label ''destination''), rbind (ld32 buf 16) (\<lambda>w. Inr (print_addr_ip_int (ntohl w)))]"

definition print_hdr_icmp :: "byte list \<Rightarrow> byte list res" where
  "print_hdr_icmp buf = cat
     [Inr (text_line ''ICMP header:''),
      rbind (ld8 buf 0) (\<lambda>b. Inr (field_line ''type'' (uint b))),
      rbind (ld8 buf 1) (\<lambda>b. Inr (field_line ''code'' (uint b))),
      rbind (ld16 buf 2) (\<lambda>w. Inr (field_line ''checksum'' (uint w)))]"

definition print_hdr_arp :: "byte list \<Rightarrow> byte list res" where
  "print_hdr_arp buf = cat
     [Inr (text_line ''ARP header''),
      rbind (ld16 buf 0) (\<lambda>w. Inr (field_line ''hardware type'' (uint (ntohs w)))),
      rbind (ld16 buf 2) (\<lambda>w. Inr (field_line ''protocol type'' (uint (ntohs w)))),
      rbind (ld8 buf 4) (\<lambda>b. Inr (field_line ''hardware address length'' (uint b))),
      rbind (ld8 buf 5) (\<lambda>b. Inr (field_line ''protocol address length'' (uint b))),
      rbind (ld16 buf 6) (\<lambda>w. Inr (field_line ''opcode'' (uint (ntohs w)))),
      Inr (label ''sender hardware address''), print_addr_eth buf 8,
      Inr (label ''sender ip address''), rbind (ld32 buf 14) (\<lambda>w. Inr (print_addr_ip_int (ntohl w))),
      Inr (label ''target hardware address''), print_addr_eth buf 18,
      Inr (label ''target ip address''), rbind (ld32 buf 24) (\<lambda>w. Inr (print_addr_ip_int (ntohl w)))]"

abbreviation (input) icmp_sz :: nat where "icmp_sz \<equiv> 4"

definition print_hdrs :: "byte list \<Rightarrow> nat \<Rightarrow> byte list res" where
  "print_hdrs buf len =
     (if len < eth_sz then Inr (text_line ''Failed to print ETHERNET header, insufficient length'')
      else
        rbind (ethertype buf) (\<lambda>ethtype.
        rbind (print_hdr_eth buf) (\<lambda>eth.
        if ethtype = ethertype_ip then
          if len < eth_sz + ip_sz then Inr (eth @ text_line ''Failed to print IP header, insufficient length'')
          else
            rbind (print_hdr_ip (drop eth_sz buf)) (\<lambda>ip.
            rbind (ip_protocol (drop eth_sz buf)) (\<lambda>ip_proto.
            if ip_proto = ip_protocol_icmp then
              if len < eth_sz + ip_sz + icmp_sz
              then Inr (eth @ ip @ text_line ''Failed to print ICMP header, insufficient length'')
              else rbind (print_hdr_icmp (drop (eth_sz + ip_sz) buf)) (\<lambda>icmp. Inr (eth @ ip @ icmp))
            else Inr (eth @ ip)))
        else if ethtype = ethertype_arp then
          if len < eth_sz + arp_sz then Inr (eth @ text_line ''Failed to print ARP header, insufficient length'')
          else rbind (print_hdr_arp (drop eth_sz buf)) (\<lambda>arp. Inr (eth @ arp))
        else Inr (eth @ asc ''Unrecognized Ethernet Type: '' @ int_text (uint ethtype) @ [10]))))"

section \<open>Tables: \<open>sr_if.c\<close>, \<open>sr_rt.c\<close>, \<open>sr_arpcache.c\<close>\<close>

definition DebugMAC :: "byte list \<Rightarrow> byte list res" where
  "DebugMAC x = rbind (rd x 0 6) (\<lambda>a. Inr (tl (concat (map (\<lambda>b. 58 # hex2 b) a))))"

definition sr_print_if :: "sr_if \<Rightarrow> byte list res" where
  "sr_print_if iface = cat
     [Inr (if_name iface @ 9 # asc ''HWaddr''), DebugMAC (if_addr iface), Inr [10],
      Inr (9 # asc ''inet addr '' @ dotted (if_ip iface) @ [10])]"

definition sr_print_if_list :: "sr_instance \<Rightarrow> byte list res" where
  "sr_print_if_list sr =
     (if if_list sr = [] then Inr (text_line '' Interface list empty '') else cat (map sr_print_if (if_list sr)))"

definition sr_print_routing_entry :: "sr_rt \<Rightarrow> byte list" where
  "sr_print_routing_entry e =
     dotted (rt_dest e) @ [9, 9] @ dotted (rt_gw e) @ [9] @ dotted (rt_mask e) @ [9] @ rt_interface e @ [10]"

definition sr_print_routing_table :: "sr_instance \<Rightarrow> byte list" where
  "sr_print_routing_table sr =
     (if routing_table sr = [] then text_line '' *warning* Routing table empty ''
      else asc ''Destination'' @ 9 # asc ''Gateway'' @ 9 # 9 # asc ''Mask'' @ 9 # text_line ''Iface'' @
        concat (map sr_print_routing_entry (routing_table sr)))"

definition arp_entry_line :: "(int \<Rightarrow> cstr) \<Rightarrow> sr_arpentry \<Rightarrow> byte list res" where
  "arp_entry_line ctime e =
     rbind (rd (ae_mac e) 0 6) (\<lambda>mac.
     Inr (concat (map (\<lambda>b. number_text 16 (unat b)) mac) @ asc ''   '' @
       pad_left 8 48 (number_text 16 (unat (ntohl (ae_ip e)))) @ asc ''   '' @
       take 24 (ctime (ae_added e)) @ asc ''   '' @ (if ae_valid e then asc ''1'' else asc ''0'') @ [10]))"

definition sr_arpcache_dump :: "(int \<Rightarrow> cstr) \<Rightarrow> sr_arpcache \<Rightarrow> byte list res" where
  \<comment> \<open>\<open>ctime\<close> is the C library's text of a time\<close>
  "sr_arpcache_dump ctime c = cat
     ([Inr (10 # text_line ''MAC            IP         ADDED                      VALID''),
       Inr (text_line ''-----------------------------------------------------------'')] @
      map (arp_entry_line ctime) (entries c) @ [Inr [10]])"

section \<open>Options: \<open>sr_main.c\<close>\<close>

record router_options =
  ro_host :: cstr
  ro_user :: "cstr option"
  ro_server :: cstr
  ro_rtable :: cstr
  ro_template :: "cstr option"
  ro_port :: u32
  ro_topo :: u32
  ro_logfile :: "cstr option"

definition router_defaults :: router_options where
  "router_defaults = \<lparr>ro_host = asc ''vrhost'', ro_user = None, ro_server = asc ''localhost'', ro_rtable = asc ''rtable'',
     ro_template = None, ro_port = 8888, ro_topo = 0, ro_logfile = None\<rparr>"

fun read_options :: "(char \<times> cstr) list \<Rightarrow> router_options \<Rightarrow> router_options option" where
  \<comment> \<open>the results of \<open>getopt\<close>; nothing after \<open>-h\<close>, which exits; other characters are ignored\<close>
  "read_options [] r = Some r"
| "read_options ((c, optarg) # rest) r =
     (if c = CHR ''h'' then None
      else read_options rest
        (if c = CHR ''p'' then r\<lparr>ro_port := word_of_int (atoi optarg)\<rparr>
         else if c = CHR ''t'' then r\<lparr>ro_topo := word_of_int (atoi optarg)\<rparr>
         else if c = CHR ''v'' then r\<lparr>ro_host := optarg\<rparr>
         else if c = CHR ''u'' then r\<lparr>ro_user := Some optarg\<rparr>
         else if c = CHR ''s'' then r\<lparr>ro_server := optarg\<rparr>
         else if c = CHR ''l'' then r\<lparr>ro_logfile := Some optarg\<rparr>
         else if c = CHR ''r'' then r\<lparr>ro_rtable := optarg\<rparr>
         else if c = CHR ''T'' then r\<lparr>ro_template := Some optarg\<rparr>
         else r))"

definition router_main ::
  "(cstr \<Rightarrow> u32 option) \<Rightarrow> cstr option \<Rightarrow> (cstr \<Rightarrow> bool) \<Rightarrow> bool \<Rightarrow> (cstr \<Rightarrow> u16 \<Rightarrow> bool) \<Rightarrow> (cstr \<Rightarrow> bool) \<Rightarrow>
     (char \<times> cstr) list \<Rightarrow> sr_instance \<Rightarrow> vns \<Rightarrow> (int \<times> sr_instance \<times> vns) res option" where
  \<comment> \<open>which names resolve, whether a socket opens, which servers accept, which log files open\<close>
  "router_main inet_aton pw resolves opens connects log_opens args sr e =
     (case read_options args router_defaults of None \<Rightarrow> Some (Inr (0, sr, e))
      | Some r \<Rightarrow> main inet_aton pw (resolves (ro_server r)) opens (connects (ro_server r) (ucast (ro_port r)))
          \<lparr>o_host = ro_host r, o_user = ro_user r, o_rtable = ro_rtable r, o_template = ro_template r,
           o_topo = ro_topo r, o_logfile = map_option log_opens (ro_logfile r)\<rparr> sr e)"

section \<open>What is printed\<close>

lemma drop_bits_octets:
  "drop_bit 24 (mk32 a b c d) = ucast a" "drop_bit 24 (push_bit 8 (mk32 a b c d)) = ucast b"
  "drop_bit 24 (push_bit 16 (mk32 a b c d)) = ucast c" "drop_bit 24 (push_bit 24 (mk32 a b c d)) = ucast d"
  unfolding mk32_def
  by (rule bit_word_eqI; auto simp: bit_simps dest: bit_byte_less)+

lemma print_addr_ip_int_dotted: "print_addr_ip_int (ntohl w) = dotted w @ [10]"
proof -
  have s: "sint (ucast (b :: byte) :: u32) = int (unat b)" for b
  proof -
    have "(ucast b :: u32) = word_of_nat (unat b)" by (simp add: word_of_nat_eq_iff unat_ucast_byte)
    moreover have "signed_take_bit 31 (int (unat b)) = int (unat b)"
      using unat_byte_less [of b] by (intro signed_take_bit_int_eq_self) (simp_all del: unat_byte_less of_nat_unat)
    ultimately show ?thesis by (simp add: signed_of_nat del: of_nat_unat)
  qed
  show ?thesis
    by (simp add: print_addr_ip_int_def htonl_def drop_bits_octets s dotted_def int_text_def del: of_nat_unat)
qed

lemma cat_ok: "\<forall>t \<in> set ts. \<exists>a. t = Inr a \<Longrightarrow> \<exists>a. cat ts = Inr a"
  by (induction ts) auto

lemma headers_printed:
  "14 \<le> length p \<Longrightarrow> print_hdr_eth (p @ q) = print_hdr_eth p \<and> (\<exists>t. print_hdr_eth p = Inr t)"
  "20 \<le> length p \<Longrightarrow> print_hdr_ip (p @ q) = print_hdr_ip p \<and> (\<exists>t. print_hdr_ip p = Inr t)"
  "4 \<le> length p \<Longrightarrow> print_hdr_icmp (p @ q) = print_hdr_icmp p \<and> (\<exists>t. print_hdr_icmp p = Inr t)"
  "28 \<le> length p \<Longrightarrow> print_hdr_arp (p @ q) = print_hdr_arp p \<and> (\<exists>t. print_hdr_arp p = Inr t)"
  by (simp add: print_hdr_eth_def print_addr_eth_def access_ok)
    (cases "p = []"; simp add: print_hdr_ip_def print_hdr_icmp_def print_hdr_arp_def print_addr_eth_def access_ok)+

text \<open>
  Printing headers is safe: \<open>print_hdrs\<close> reads only bytes inside the length it is given, whatever the frame, short frames
  and unknown types included; what it prints does not depend on what lies behind.
\<close>

theorem print_hdrs_inside:
  "\<exists>text. \<forall>behind. print_hdrs (p @ behind) (length p) = Inr text"
proof (cases "length p < 14")
  case False
  then have len: "14 \<le> length p" by simp
  let ?ty = "ntohs (get16 p 12)"
  obtain eth where eth: "\<And>q. print_hdr_eth (p @ q) = Inr eth" using headers_printed(1) [OF len] by metis
  have ty: "ethertype (p @ q) = Inr ?ty" for q using len by (simp add: ethertype_def access_ok)
  have d: "drop 14 (p @ q) = drop 14 p @ q" for q using len by simp
  have arp: "\<exists>t. \<forall>q. print_hdr_arp (drop 14 (p @ q)) = Inr t" if "42 \<le> length p"
    unfolding d using headers_printed(4) [of "drop 14 p"] that by auto
  have ip: "\<exists>t b. \<forall>q. print_hdr_ip (drop 14 (p @ q)) = Inr t \<and> ip_protocol (drop 14 (p @ q)) = Inr b" if "34 \<le> length p"
  proof -
    have "ip_protocol (drop 14 (p @ q)) = Inr (get8 p 23)" for q
      using that by (simp add: ip_protocol_def access_ok)
    then show ?thesis unfolding d using headers_printed(2) [of "drop 14 p"] that by auto
  qed
  have icmp: "\<exists>t. \<forall>q. print_hdr_icmp (drop 34 (p @ q)) = Inr t" if "38 \<le> length p"
  proof -
    have "drop 34 (p @ q) = drop 34 p @ q" for q using that by simp
    then show ?thesis using headers_printed(3) [of "drop 34 p"] that by auto
  qed
  consider "?ty = ethertype_ip" "length p < 34" | "?ty = ethertype_ip" "34 \<le> length p" "length p < 38"
    | "?ty = ethertype_ip" "38 \<le> length p" | "?ty \<noteq> ethertype_ip" "?ty = ethertype_arp" "length p < 42"
    | "?ty \<noteq> ethertype_ip" "?ty = ethertype_arp" "42 \<le> length p" | "?ty \<noteq> ethertype_ip" "?ty \<noteq> ethertype_arp" by linarith
  then show ?thesis
  proof cases
    case 2
    then obtain t b where t: "\<And>q. print_hdr_ip (drop 14 (p @ q)) = Inr t" "\<And>q. ip_protocol (drop 14 (p @ q)) = Inr b"
      using ip by blast
    then show ?thesis using 2 len by (cases "b = ip_protocol_icmp") (simp_all add: print_hdrs_def ty eth del: drop_append)
  next
    case 3
    then obtain t b where t: "\<And>q. print_hdr_ip (drop 14 (p @ q)) = Inr t" "\<And>q. ip_protocol (drop 14 (p @ q)) = Inr b"
      using ip [OF order_trans [of 34 38]] by auto
    obtain i where "\<And>q. print_hdr_icmp (drop 34 (p @ q)) = Inr i" using icmp 3 by blast
    then show ?thesis using t 3 len by (cases "b = ip_protocol_icmp") (simp_all add: print_hdrs_def ty eth del: drop_append)
  next
    case 5
    then obtain t where "\<And>q. print_hdr_arp (drop 14 (p @ q)) = Inr t" using arp by blast
    then show ?thesis using 5 len by (simp add: print_hdrs_def ty eth del: drop_append)
  qed (use len in \<open>simp_all add: print_hdrs_def ty eth\<close>)
qed (simp add: print_hdrs_def)

section \<open>The routing table, printed and read back\<close>

lemma first_word:
  assumes "w \<noteq> []" "\<forall>c \<in> set w. \<not> is_space c" "rest \<noteq> []" "is_space (hd rest)"
  shows "next_word (w @ rest) = (w, rest)"
proof -
  obtain r rs where r: "rest = r # rs" using assms(3) by (cases rest) auto
  have "dropWhile is_space (w @ rest) = w @ rest" using assms(1,2) by (cases w) auto
  then show ?thesis
    using assms(2,4) r by (simp add: next_word_def)
qed

lemma skip_space: "is_space c \<Longrightarrow> next_word (c # s) = next_word s"
  by (simp add: next_word_def)

definition printable :: "sr_rt \<Rightarrow> bool" where
  \<comment> \<open>the name of the interface is one word\<close>
  "printable e \<longleftrightarrow> rt_interface e \<noteq> [] \<and> length (rt_interface e) < 32 \<and>
     (\<forall>c \<in> set (rt_interface e). \<not> is_space c \<and> c \<noteq> 0)"

lemma entry_words:
  assumes "printable e" "length bufs = 4"
  shows "sscanf_words bufs (sr_print_routing_entry e) =
    Inr [Some (dotted (rt_dest e)), Some (dotted (rt_gw e)), Some (dotted (rt_mask e)), Some (rt_interface e)]"
proof -
  obtain a b c d where bufs: "bufs = [a, b, c, d]"
    using assms(2) by (auto simp: length_Suc_conv numeral_eq_Suc)
  have s: "is_space 9" "is_space 10" by (simp_all add: is_space_def)
  have w: "next_word (dotted w @ 9 # rest) = (dotted w, 9 # rest)" for w rest
    using dotted_chars(1) s by (intro first_word) auto
  have i: "next_word (rt_interface e @ [10]) = (rt_interface e, [10])"
    using assms(1) s by (intro first_word) (auto simp: printable_def)
  have l: "\<not> 32 \<le> length (dotted w)" for w using dotted_length [of w] by simp
  have li: "rt_interface e \<noteq> []" "\<not> 32 \<le> length (rt_interface e)" using assms(1) by (simp_all add: printable_def)
  show ?thesis
    by (simp add: bufs sr_print_routing_entry_def w skip_space s i l li)
qed

lemma entry_line:
  assumes "printable e"
  shows "10 \<notin> set (butlast (sr_print_routing_entry e))" "0 \<notin> set (sr_print_routing_entry e)"
    "length (sr_print_routing_entry e) < BUFSIZ"
proof -
  have d: "10 \<notin> set (dotted w)" "0 \<notin> set (dotted w)" for w
    using dotted_chars(1) [of 10 w] dotted_chars(2) [of 0 w] by (auto simp: is_space_def)
  have i: "10 \<notin> set (rt_interface e)" "0 \<notin> set (rt_interface e)" "length (rt_interface e) < 32"
    using assms by (auto simp: printable_def is_space_def)
  show "10 \<notin> set (butlast (sr_print_routing_entry e))" "0 \<notin> set (sr_print_routing_entry e)"
    using d i by (simp_all add: sr_print_routing_entry_def butlast_append)
  show "length (sr_print_routing_entry e) < BUFSIZ"
    using dotted_length [of "rt_dest e"] dotted_length [of "rt_gw e"] dotted_length [of "rt_mask e"] i(3)
    by (simp add: sr_print_routing_entry_def BUFSIZ_def)
qed

lemma file_line:
  assumes "10 \<notin> set (butlast l)" "l \<noteq> []" "last l = 10" "length l < n"
  shows "file_lines n (l @ rest) = l # file_lines n rest"
proof -
  obtain k where l: "l = k @ [10]" "10 \<notin> set k" using assms(1-3) by (metis append_butlast_last_id)
  obtain m where "n = Suc (length l + m)" using assms(4) less_imp_Suc_add by blast
  then have t: "take (n - 1) (l @ rest) = k @ 10 # take (n - 1 - length l) rest" using l(1) by simp
  have "fgets n (l @ rest) = (l, rest)"
    unfolding fgets_def Let_def t using until_separator(1) [OF l(2)] l(1) by simp
  then show ?thesis using assms(2,4) by (subst file_lines.simps) (auto simp: l(1))
qed

lemma table_lines:
  "\<forall>e \<in> set es. printable e \<Longrightarrow>
    file_lines BUFSIZ (concat (map sr_print_routing_entry es)) = map sr_print_routing_entry es"
proof (induction es)
  case (Cons e es)
  have "sr_print_routing_entry e \<noteq> []" "last (sr_print_routing_entry e) = 10"
    by (simp_all add: sr_print_routing_entry_def)
  then show ?case using Cons entry_line [of e] by (simp add: file_line)
qed (simp add: file_lines.simps)

lemma load_printed:
  assumes "\<And>w. inet_aton (dotted w) = Some w" "\<forall>e \<in> set es. printable e" "length bufs = 4"
  shows "load_lines inet_aton sr cleared bufs (map sr_print_routing_entry es) =
    Inr (0, if es = [] then sr else sr\<lparr>routing_table := (if cleared then routing_table sr else []) @ es\<rparr>)"
  using assms(2,3)
proof (induction es arbitrary: sr cleared bufs)
  case (Cons e es)
  have c: "c_string (sr_print_routing_entry e) = sr_print_routing_entry e"
    using entry_line(2) [of e] Cons.prems(1) by (simp add: c_string_def until_separator(3))
  have n: "strncpy sr_IFACE_NAMELEN (rt_interface e) = rt_interface e"
    using Cons.prems(1) by (auto simp: strncpy_def c_string_def sr_IFACE_NAMELEN_def printable_def
      takeWhile_eq_all_conv [THEN iffD2])
  have e: "\<lparr>rt_dest = rt_dest e, rt_gw = rt_gw e, rt_mask = rt_mask e, rt_interface = rt_interface e\<rparr> = e" by simp
  show ?case
    using Cons by (simp add: c entry_words buffer_def assms(1) sr_add_rt_entry_def n e Let_def)
qed simp

text \<open>
  C16: the printed routing table can be loaded again.  A file with the lines the router prints for the entries of a
  table whose interface names are single words gives, when it is loaded at start-up, exactly these entries in
  the same order, whatever table was there before; the address parser only has to invert the dotted form.
\<close>

theorem printed_table_loads:
  assumes "\<And>w. inet_aton (dotted w) = Some w" "\<forall>r \<in> set es. printable r" "es \<noteq> []"
    and "files e name = Some (concat (map sr_print_routing_entry es))"
  shows "sr_load_rt_wrap inet_aton sr e name = Inr (Some (sr\<lparr>routing_table := es\<rparr>))"
  using load_printed [OF assms(1,2), of "[None, None, None, None]" sr False] assms(3,4) table_lines [OF assms(2)]
  by (simp add: sr_load_rt_wrap_def sr_load_rt_def)

theorem printed_table_loads_witness:
  fixes r :: sr_rt and e :: vns
  defines "r \<equiv> \<lparr>rt_dest = 0x0002A8C0, rt_gw = 0x0100000A, rt_mask = 0x00FFFFFF, rt_interface = asc ''eth1''\<rparr>"
    and "e \<equiv> \<lparr>inp = [], files = (\<lambda>_. Some (sr_print_routing_entry r)), writable = \<lambda>_. False\<rparr>"
  shows "\<forall>sr. sr_load_rt_wrap dotted_value sr e [114] = Inr (Some (sr\<lparr>routing_table := [r]\<rparr>))"
proof -
  have "printable r" by (simp add: printable_def r_def asc_def is_space_def)
  then show ?thesis using printed_table_loads [of dotted_value "[r]" e "[114]"] dotted_round by (simp add: e_def)
qed

end
