(* ===== verification/Conn.thy ===== *)
theory Conn
  imports Checksum
begin

text \<open>
  The connection side of \<open>ctcp_sys_internal.c\<close> as \<open>ctcp.c\<close> sees it: reading input
  (\<open>conn_input\<close>), handing over segments (\<open>conn_send\<close>), writing output through the queue of chunks
  (\<open>conn_output\<close>, \<open>conn_bufspace\<close>, \<open>conn_drain\<close>) and scheduling removal (\<open>conn_remove\<close>).  The
  operating system answers through scripts: \<open>reads\<close> and \<open>writes\<close> are the results of the successive
  \<open>read\<close> and \<open>write\<close> calls on non-blocking descriptors (an exhausted script answers \<open>EAGAIN\<close>).
\<close>

named_theorems conn_simps \<open>what the connection operations return\<close>

section \<open>State\<close>

datatype read_result = Got "byte list" | Again | Failed
  \<comment> \<open>\<open>Got []\<close> is end of file\<close>

datatype write_result = Wrote nat | Blocked | Broken

record chunk =
  ck_buf :: "byte list"
  ck_used :: nat

record conn =
  conn_ptr :: nat
  ip_addr :: u32
  conn_port :: int
  init_seqno :: u32
  their_init_seqno :: u32
  conn_seqno :: u32
  next_seqno :: u32
  conn_ackno :: u32
  read_eof :: bool
  wrote_eof :: bool
  wrote_err :: bool
  delete_me :: bool
  out_queue :: "chunk list"

text \<open>The process: its options, the clock in milliseconds, the scripts, and what it has written.\<close>

record sys =
  is_server :: bool
  run_program :: bool
  unix_socket :: bool
  eof_char :: bool
  my_ip :: u32
  my_port :: int
  recv_window :: u16
  clock :: int
  reads :: "read_result list"
  writes :: "write_result list"
  stdout :: "byte list"
  poll_out :: bool
  segments_out :: "byte list list"
  junk_pad :: "nat \<Rightarrow> u16"
  seg_count :: nat

definition MAX_BUF_SPACE :: nat where "MAX_BUF_SPACE = 8192"
definition MAX_SEG_DATA_SIZE :: nat where "MAX_SEG_DATA_SIZE = 1440"

definition sys_read :: "sys \<Rightarrow> nat \<Rightarrow> read_result \<times> sys" where
  \<comment> \<open>one \<open>read\<close> of at most \<open>n\<close> bytes; what does not fit stays for the next call\<close>
  "sys_read s n =
     (case reads s of [] \<Rightarrow> (Again, s)
      | Got bs # rs \<Rightarrow>
          if length bs \<le> n then (Got bs, s\<lparr>reads := rs\<rparr>)
          else (Got (take n bs), s\<lparr>reads := Got (drop n bs) # rs\<rparr>)
      | r # rs \<Rightarrow> (r, s\<lparr>reads := rs\<rparr>))"

definition sys_write :: "sys \<Rightarrow> byte list \<Rightarrow> write_result \<times> sys" where
  \<comment> \<open>one \<open>write\<close>, which accepts a prefix\<close>
  "sys_write s bs =
     (case writes s of [] \<Rightarrow> (Blocked, s)
      | Wrote n # ws \<Rightarrow> let k = min n (length bs)
                       in (Wrote k, s\<lparr>writes := ws, stdout := stdout s @ take k bs\<rparr>)
      | r # ws \<Rightarrow> (r, s\<lparr>writes := ws\<rparr>))"

section \<open>Input\<close>

definition add_network_line_ending ::
  "bool \<Rightarrow> byte list \<Rightarrow> nat \<Rightarrow> (bool \<times> byte list) res" where
  \<comment> \<open>turns a final newline into CR LF and terminates the string, at offsets \<open>len - 1\<close>, \<open>len\<close>, \<open>len + 1\<close>\<close>
  "add_network_line_ending webserver buf len =
     (if \<not> webserver then Inr (False, buf)
      else rbind (ld8 buf (len - 1)) (\<lambda>c.
        if c \<noteq> 10 then Inr (False, buf)
        else rbind (st8 buf (len - 1) 13) (\<lambda>buf.
             rbind (st8 buf len 10) (\<lambda>buf.
             rbind (st8 buf (len + 1) 0) (\<lambda>buf. Inr (True, buf))))))"

datatype input_status = Bytes_read int | Would_block | Read_error
  \<comment> \<open>the value of \<open>r\<close> and \<open>errno\<close> after the reads of \<open>conn_input\<close>\<close>

definition read_into ::
  "sys \<Rightarrow> byte list \<Rightarrow> nat \<Rightarrow> nat \<Rightarrow> (input_status \<times> byte list \<times> sys) res" where
  \<comment> \<open>\<open>read (fd, buf + i, n)\<close>\<close>
  "read_into s buf i n =
     (case sys_read s n of
        (Got bs, s) \<Rightarrow> rbind (wr buf i bs) (\<lambda>buf. Inr (Bytes_read (int (length bs)), buf, s))
      | (Again, s) \<Rightarrow> Inr (Would_block, buf, s)
      | (Failed, s) \<Rightarrow> Inr (Read_error, buf, s))"

definition conn_input ::
  "conn \<Rightarrow> sys \<Rightarrow> byte list \<Rightarrow> nat \<Rightarrow> (int \<times> byte list \<times> conn \<times> sys) res" where
  "conn_input c s buf len =
     (if delete_me c then Inl AssertFailed
      else if read_eof c then Inr (-1, buf, c, s)
      else
        rbind (if run_program s \<or> unix_socket s then read_into s buf 0 len
               else
                 rbind (read_into s buf 0 (len - 1)) (\<lambda>(r, buf, s).
                 case r of
                   Bytes_read n \<Rightarrow>
                     if n > 0 then
                       rbind (add_network_line_ending (\<not> unix_socket s) buf (nat n)) (\<lambda>(added, buf).
                       if added then Inr (Bytes_read (n + 1), buf, s)
                       else rbind (read_into s buf (nat n) 1) (\<lambda>(r1, buf, s).
                         case r1 of
                           Bytes_read k \<Rightarrow> Inr (Bytes_read (n + k), buf, s)
                         | _ \<Rightarrow> Inr (Bytes_read (n - 1), buf, s)))
                     else Inr (r, buf, s)
                 | _ \<Rightarrow> Inr (r, buf, s))) (\<lambda>(r, buf, s).
        case r of
          Would_block \<Rightarrow> Inr (0, buf, c, s)
        | Read_error \<Rightarrow> Inr (-1, buf, c\<lparr>read_eof := True\<rparr>, s)
        | Bytes_read n \<Rightarrow>
            if n = 0 then Inr (-1, buf, c\<lparr>read_eof := True\<rparr>, s)
            else rbind (ld8 buf 0) (\<lambda>b.
              if eof_char s \<and> b = 0x1a then Inr (-1, buf, c\<lparr>read_eof := True\<rparr>, s)
              else Inr (n, buf, c, s))))"

section \<open>Segments handed to the network\<close>

definition conn_send :: "conn \<Rightarrow> sys \<Rightarrow> byte list \<Rightarrow> nat \<Rightarrow> sys res" where
  \<comment> \<open>the copy that \<open>conn_send\<close> makes; what the network does with it is in the theory of the datagrams\<close>
  "conn_send c s segment len =
     (if delete_me c then Inl AssertFailed
      else rbind (rd segment 0 len) (\<lambda>copy. Inr (s\<lparr>segments_out := segments_out s @ [copy]\<rparr>)))"

definition conn_remove :: "conn \<Rightarrow> conn" where
  "conn_remove c = c\<lparr>delete_me := True\<rparr>"

section \<open>Output\<close>

definition unwritten :: "chunk \<Rightarrow> byte list" where
  "unwritten k = drop (ck_used k) (ck_buf k)"

fun used_space :: "chunk list \<Rightarrow> nat" where
  "used_space [] = 0"
| "used_space (k # ks) = (length (ck_buf k) - ck_used k) + used_space ks"

definition conn_bufspace :: "conn \<Rightarrow> nat" where
  "conn_bufspace c =
     (let used = used_space (out_queue c) in if used > MAX_BUF_SPACE then 0 else MAX_BUF_SPACE - used)"

definition conn_output :: "conn \<Rightarrow> sys \<Rightarrow> byte list \<Rightarrow> nat \<Rightarrow> (int \<times> conn \<times> sys) res" where
  "conn_output c s buf len =
     (if delete_me c then Inl AssertFailed
      else if wrote_eof c then Inr (0, c, s)
      else if len = 0 then Inr (0, c\<lparr>wrote_eof := True\<rparr>, s)
      else if wrote_err c then Inr (-1, c, s)
      else if conn_bufspace c = 0 then Inr (0, c, s)
      else rbind (rd buf 0 len) (\<lambda>data.
        let (failed, left, s) =
              (if out_queue c = [] then
                 (case sys_write s data of
                    (Wrote w, s) \<Rightarrow> (False, drop w data, s)
                  | (Blocked, s) \<Rightarrow> (False, data, s)
                  | (Broken, s) \<Rightarrow> (True, data, s))
               else (False, data, s))
        in if failed then Inr (-1, c\<lparr>wrote_err := True\<rparr>, s)
           else
             let c = (if left = [] then c
                      else c\<lparr>out_queue := out_queue c @ [\<lparr>ck_buf = left, ck_used = 0\<rparr>]\<rparr>);
                 s = (if out_queue c = [] then s else s\<lparr>poll_out := True\<rparr>)
             in Inr (int len, c, s)))"

text \<open>
  The loop of \<open>conn_drain\<close>: writes chunks until one does not complete.  The result says whether
  anything was written; \<open>ctcp_output\<close> is then called.
\<close>

fun drain_loop :: "chunk list \<Rightarrow> bool \<Rightarrow> sys \<Rightarrow> chunk list \<times> bool \<times> bool \<times> sys" where
  \<comment> \<open>the rest of the queue, the error flag, \<open>outputted\<close>\<close>
  "drain_loop [] outputted s = ([], False, outputted, s)"
| "drain_loop (k # ks) outputted s =
     (case sys_write s (unwritten k) of
        (Wrote w, s) \<Rightarrow>
          let k = k\<lparr>ck_used := ck_used k + w\<rparr> in
          if ck_used k < length (ck_buf k) then (k # ks, False, True, s\<lparr>poll_out := True\<rparr>)
          else drain_loop ks True s
      | (Blocked, s) \<Rightarrow> (k # ks, False, outputted, s)
      | (Broken, s) \<Rightarrow> (k # ks, True, outputted, s))"

definition conn_drain :: "conn \<Rightarrow> sys \<Rightarrow> bool \<times> conn \<times> sys" where
  "conn_drain c s =
     (let s = s\<lparr>poll_out := False\<rparr> in
      if wrote_err c then (False, c, s)
      else
        let (q, err, outputted, s) = drain_loop (out_queue c) False s;
            c = c\<lparr>out_queue := q, wrote_err := err\<rparr>;
            c = (if wrote_eof c \<and> \<not> wrote_err c \<and> out_queue c = [] then c\<lparr>wrote_err := True\<rparr> else c)
        in (outputted \<and> \<not> delete_me c, c, s))"

section \<open>The output queue is a byte stream\<close>

definition delivered :: "conn \<Rightarrow> sys \<Rightarrow> byte list" where
  \<comment> \<open>what was written, followed by what waits in the queue\<close>
  "delivered c s = stdout s @ concat (map unwritten (out_queue c))"

lemma sys_write_stdout:
  "sys_write s bs = (Wrote w, s') \<Longrightarrow> w \<le> length bs \<and> stdout s' = stdout s @ take w bs"
  "sys_write s bs = (Blocked, s') \<Longrightarrow> stdout s' = stdout s"
  "sys_write s bs = (Broken, s') \<Longrightarrow> stdout s' = stdout s"
  by (auto simp: sys_write_def Let_def split: list.splits write_result.splits)

lemma used_space_append: "used_space (xs @ ys) = used_space xs + used_space ys"
  by (induction xs) auto

lemma used_space_length: "used_space q = length (concat (map unwritten q))"
  by (induction q) (auto simp: unwritten_def)

lemma unwritten_after: "unwritten (k\<lparr>ck_used := ck_used k + w\<rparr>) = drop w (unwritten k)"
  by (simp add: unwritten_def add.commute)

lemma drain_loop_stream:
  "drain_loop q out s = (q', err, out', s') \<Longrightarrow>
    stdout s' @ concat (map unwritten q') = stdout s @ concat (map unwritten q)"
proof (induction q arbitrary: out s)
  case (Cons k ks)
  obtain r s1 where r: "sys_write s (unwritten k) = (r, s1)" by fastforce
  show ?case
  proof (cases r)
    case (Wrote w)
    with r have w: "w \<le> length (unwritten k)" "stdout s1 = stdout s @ take w (unwritten k)"
      using sys_write_stdout by auto
    show ?thesis
    proof (cases "ck_used k + w < length (ck_buf k)")
      case True
      with Cons.prems r Wrote w show ?thesis by (auto simp: Let_def unwritten_after)
    next
      case False
      then have "length (unwritten k) \<le> w" by (simp add: unwritten_def)
      with False Cons r Wrote w show ?thesis by (fastforce simp: Let_def)
    qed
  qed (use Cons.prems r sys_write_stdout in auto)
qed simp

lemma conn_output_stream:
  assumes "\<not> delete_me c" "\<not> wrote_eof c" "\<not> wrote_err c" "0 < len" "len \<le> length buf"
    "len \<le> conn_bufspace c"
  shows "\<exists>r c' s'. conn_output c s buf len = Inr (r, c', s') \<and>
      (r = int len \<and> delivered c' s' = delivered c s @ take len buf \<or>
       r = -1 \<and> wrote_err c' \<and> delivered c' s' = delivered c s) \<and>
      used_space (out_queue c') \<le> MAX_BUF_SPACE"
proof -
  let ?d = "take len buf"
  have rd: "rd buf 0 len = Inr ?d" using assms(5) by (simp add: rd_def slice_def)
  have len: "length ?d = len" "?d \<noteq> []" using assms(4,5) by auto
  have space: "used_space (out_queue c) + len \<le> MAX_BUF_SPACE"
    using assms(4,6) by (simp add: conn_bufspace_def Let_def split: if_splits)
  show ?thesis
  proof (cases "out_queue c = []")
    case False
    then show ?thesis
      using assms rd len space
      by (simp add: conn_output_def delivered_def unwritten_def used_space_append)
  next
    case True
    obtain r s1 where w: "sys_write s ?d = (r, s1)" by fastforce
    show ?thesis
    proof (cases r)
      case (Wrote k)
      with w have "k \<le> len" "stdout s1 = stdout s @ take k ?d"
        using sys_write_stdout(1) len by fastforce+
      then have "stdout s1 @ drop k ?d = stdout s @ ?d" by (metis append.assoc append_take_drop_id)
      then show ?thesis
        using assms rd len space True w Wrote
        by (auto simp: conn_output_def delivered_def unwritten_def Let_def)
    qed (use assms rd len space True w sys_write_stdout(2,3) in
        \<open>auto simp: conn_output_def delivered_def unwritten_def Let_def\<close>)
  qed
qed

lemma conn_drain_stream:
  assumes "conn_drain c s = (out, c', s')" "\<not> wrote_err c"
  shows "delivered c' s' = delivered c s"
proof -
  obtain q err o1 s1 where l: "drain_loop (out_queue c) False (s\<lparr>poll_out := False\<rparr>) = (q, err, o1, s1)"
    by (metis prod_cases4)
  have "out_queue c' = q \<and> s' = s1" using assms l by (auto simp: conn_drain_def Let_def split: if_splits)
  then show ?thesis using drain_loop_stream [OF l] by (simp add: delivered_def)
qed

text \<open>
  The output of a connection is a first-in-first-out byte stream: \<open>conn_output\<close> either appends
  exactly the first \<open>len\<close> bytes of its buffer to what has been written and queued, and returns \<open>len\<close>,
  or appends nothing and reports an error; \<open>conn_drain\<close> moves bytes from the queue to the
  descriptor without loss, duplication or reordering; and a caller that writes no more than
  \<open>conn_bufspace\<close> never makes the queue exceed its limit.
\<close>

theorem conn_output_is_fifo:
  assumes "\<not> delete_me c" "\<not> wrote_eof c" "\<not> wrote_err c" "0 < len" "len \<le> length buf"
    "len \<le> conn_bufspace c"
  shows "(\<exists>r c' s'. conn_output c s buf len = Inr (r, c', s') \<and>
      (r = int len \<and> delivered c' s' = delivered c s @ take len buf \<or>
       r = -1 \<and> wrote_err c' \<and> delivered c' s' = delivered c s) \<and>
      used_space (out_queue c') \<le> MAX_BUF_SPACE) \<and>
    (\<forall>out c' s'. conn_drain c s = (out, c', s') \<longrightarrow> delivered c' s' = delivered c s)"
  using conn_output_stream [OF assms] conn_drain_stream assms(3) by blast

definition example_conn :: conn where
  "example_conn = \<lparr>conn_ptr = 0, ip_addr = 0, conn_port = 9, init_seqno = 100, their_init_seqno = 200, conn_seqno = 0,
     next_seqno = 101, conn_ackno = 201, read_eof = False, wrote_eof = False, wrote_err = False,
     delete_me = False, out_queue = []\<rparr>"

definition example_sys :: sys where
  "example_sys = \<lparr>is_server = True, run_program = False, unix_socket = True, eof_char = False,
     my_ip = 0, my_port = 8, recv_window = 1440, clock = 1000, reads = [], writes = [Wrote 2], stdout = [],
     poll_out = False, segments_out = [], junk_pad = (\<lambda>_. 0), seg_count = 0\<rparr>"

lemma conn_output_is_fifo_witness:
  "\<exists>r c' s'. conn_output example_conn example_sys [1, 2, 3] 3 = Inr (r, c', s') \<and>
     (r = 3 \<and> delivered c' s' = [1, 2, 3] \<or> r = -1 \<and> wrote_err c')"
  using conn_output_is_fifo [of example_conn 3 "[1, 2, 3]" example_sys]
  by (fastforce simp: example_conn_def example_sys_def conn_bufspace_def MAX_BUF_SPACE_def delivered_def)

end
