(* ===== verification/Ctcp.thy ===== *)
theory Ctcp
  imports Conn Linked_List
begin

text \<open>
  The cTCP protocol of \<open>ctcp.c\<close>: one \<open>ctcp_state\<close> per connection with its send and receive
  windows, and the six entry points.  A segment is the struct with its network-order fields, the two padding
  bytes of its layout and its data; the two linked lists of segments are HOL lists (the theory of the
  list library shows that its operations implement append, insertion behind a node and removal), and a
  segment carries its address, which \<open>ll_find\<close> compares.  C's \<open>int\<close> fields are integers, converted at
  their width where the code compares them with unsigned values.
\<close>

section \<open>Segments\<close>

record ctcp_segment =
  sg_ptr :: nat
  sg_seqno :: u32
  sg_ackno :: u32
  sg_len :: u16
  sg_pad :: u16
  sg_flags :: u32
  sg_window :: u16
  sg_cksum :: u16
  sg_data :: "byte list"

definition SEG_HEADER_SIZE :: nat where "SEG_HEADER_SIZE = 20"

definition seg_bytes :: "ctcp_segment \<Rightarrow> byte list" where
  \<comment> \<open>the image of the struct\<close>
  "seg_bytes g = bytes32 (sg_seqno g) @ bytes32 (sg_ackno g) @ bytes16 (sg_len g) @ bytes16 (sg_pad g) @
     bytes32 (sg_flags g) @ bytes16 (sg_window g) @ bytes16 (sg_cksum g) @ sg_data g"

definition TH_FIN :: u32 where "TH_FIN = 0x01"
definition TH_SYN :: u32 where "TH_SYN = 0x02"
definition TH_RST :: u32 where "TH_RST = 0x04"
definition TH_ACK :: u32 where "TH_ACK = 0x10"

datatype seg_mode = SEND_DATA | SEND_FIN | SEND_ACK | SEND_FIN_ACK

definition data_len :: "ctcp_segment \<Rightarrow> int" where
  \<comment> \<open>\<open>ntohs (segment->len) - SEG_HEADER_SIZE\<close>, stored in an \<open>int\<close>\<close>
  "data_len g = int (unat (ntohs (sg_len g))) - int SEG_HEADER_SIZE"

section \<open>State\<close>

record send_window =
  sw_segments :: "ctcp_segment list"
  sw_max_size :: int
  sw_size :: int
  recv_win_size :: int
  sw_seqno :: int
  sw_timer :: int
  retrans_counter :: int

record recv_window_t =
  rw_segments :: "ctcp_segment list"
  rw_max_size :: int
  rw_size :: int
  rw_ackno :: int

record ctcp_state =
  st_conn :: conn
  st_sw :: send_window
  st_rw :: recv_window_t
  send_buf :: "byte list"
  send_buf_len :: int
  timeout_standard :: int
  timer_teardown :: int

record ctcp_config =
  cfg_recv_window :: u16
  cfg_send_window :: u16
  cfg_timer :: int
  cfg_rt_timeout :: int

type_synonym tcp = "ctcp_state \<times> sys"

definition ctcp_init :: "sys \<Rightarrow> conn option \<Rightarrow> ctcp_config \<Rightarrow> ctcp_state list \<Rightarrow> ctcp_state list option" where
  \<comment> \<open>the new \<open>state_list\<close>, or null without a connection; the send buffer is fresh memory\<close>
  "ctcp_init s conn cfg states =
     (case conn of None \<Rightarrow> None
      | Some c \<Rightarrow> Some
          (\<lparr>st_conn = c,
            st_sw = \<lparr>sw_segments = [], sw_max_size = int (unat (cfg_send_window cfg)), sw_size = 0,
                     recv_win_size = int MAX_SEG_DATA_SIZE, sw_seqno = 1, sw_timer = -1,
                     retrans_counter = 0\<rparr>,
            st_rw = \<lparr>rw_segments = [], rw_max_size = int (unat (cfg_recv_window cfg)), rw_size = 0,
                     rw_ackno = 1\<rparr>,
            send_buf = map (\<lambda>i. lo16 (junk_pad s (seg_count s + i))) [0..<MAX_SEG_DATA_SIZE],
            send_buf_len = 0, timeout_standard = cfg_rt_timeout cfg, timer_teardown = -1\<rparr> # states))"

section \<open>Sending: \<open>ctcp_makeseg\<close>, \<open>ctcp_send\<close>, \<open>ctcp_retrans\<close>\<close>

definition seg_cksum :: "ctcp_segment \<Rightarrow> u16 \<Rightarrow> u16 res" where
  "seg_cksum g len = ctcp_cksum (seg_bytes g) len"

definition upd_sw :: "(send_window \<Rightarrow> send_window) \<Rightarrow> ctcp_state \<Rightarrow> ctcp_state" where
  "upd_sw f st = st\<lparr>st_sw := f (st_sw st)\<rparr>"

definition upd_rw :: "(recv_window_t \<Rightarrow> recv_window_t) \<Rightarrow> ctcp_state \<Rightarrow> ctcp_state" where
  "upd_rw f st = st\<lparr>st_rw := f (st_rw st)\<rparr>"

text \<open>The loop of \<open>ctcp_send\<close> over the window: only segments whose checksum field is 0 go out.\<close>

fun send_loop :: "conn \<Rightarrow> int \<Rightarrow> ctcp_segment list \<Rightarrow> sys \<Rightarrow> (ctcp_segment list \<times> sys) res" where
  "send_loop c ackno [] s = Inr ([], s)"
| "send_loop c ackno (g # gs) s =
     (if sg_cksum g = htons 0 then
        let g = g\<lparr>sg_ackno := htonl (word_of_int ackno)\<rparr> in
        rbind (seg_cksum g (ntohs (sg_len g))) (\<lambda>k.
        let g = g\<lparr>sg_cksum := k\<rparr> in
        rbind (conn_send c s (seg_bytes g) (unat (ntohs (sg_len g)))) (\<lambda>s.
        rbind (send_loop c ackno gs s) (\<lambda>(gs, s). Inr (g # gs, s))))
      else rbind (send_loop c ackno gs s) (\<lambda>(gs, s). Inr (g # gs, s)))"

definition ctcp_send :: "tcp \<Rightarrow> tcp res" where
  "ctcp_send t =
     (let (st, s) = t; segs = sw_segments (st_sw st);
          st = (if segs = [] then st
                else upd_sw (\<lambda>w. w\<lparr>sw_timer := clock s, retrans_counter := 0\<rparr>) st)
      in rbind (send_loop (st_conn st) (rw_ackno (st_rw st)) segs s) (\<lambda>(segs, s).
         Inr (upd_sw (\<lambda>w. w\<lparr>sw_segments := segs\<rparr>) st, s)))"

definition new_segment :: "tcp \<Rightarrow> ctcp_segment \<times> sys" where
  \<comment> \<open>the fields every mode sets; flags and data follow, the padding is whatever \<open>malloc\<close> returned\<close>
  "new_segment t =
     (let (st, s) = t; segment_length = int SEG_HEADER_SIZE + send_buf_len st in
      (\<lparr>sg_ptr = seg_count s, sg_seqno = htonl (word_of_int (sw_seqno (st_sw st))),
        sg_ackno = htonl (word_of_int (rw_ackno (st_rw st))),
        sg_len = htons (word_of_int segment_length), sg_pad = junk_pad s (seg_count s), sg_flags = 0,
        sg_window = htons (word_of_int (sw_max_size (st_sw st) - sw_size (st_sw st))),
        sg_cksum = htons 0, sg_data = []\<rparr>,
       s\<lparr>seg_count := Suc (seg_count s)\<rparr>))"

definition ctcp_makeseg :: "tcp \<Rightarrow> seg_mode \<Rightarrow> tcp res" where
  "ctcp_makeseg t mode =
     (let (st, s) = t; data_length = send_buf_len st; (g, s) = new_segment t in
      case mode of
        SEND_DATA \<Rightarrow>
          rbind (rd (send_buf st) 0 (nat data_length)) (\<lambda>d.
          let g = g\<lparr>sg_flags := TH_ACK, sg_data := d\<rparr>;
              st = upd_sw (\<lambda>w. w\<lparr>sw_segments := sw_segments w @ [g], sw_size := sw_size w + data_length,
                                 sw_seqno := sw_seqno w + data_length\<rparr>) st
          in ctcp_send (st, s))
      | SEND_ACK \<Rightarrow>
          let g = g\<lparr>sg_flags := TH_ACK\<rparr> in
          rbind (seg_cksum g (word_of_int (int SEG_HEADER_SIZE + data_length))) (\<lambda>k.
          let g = g\<lparr>sg_cksum := k\<rparr> in
          rbind (conn_send (st_conn st) s (seg_bytes g) (nat (int SEG_HEADER_SIZE + data_length))) (\<lambda>s.
          Inr (st, s)))
      | SEND_FIN \<Rightarrow>
          let g = g\<lparr>sg_flags := TH_FIN\<rparr>;
              st = upd_sw (\<lambda>w. w\<lparr>sw_segments := sw_segments w @ [g]\<rparr>) st
          in ctcp_send (st, s)
      | SEND_FIN_ACK \<Rightarrow>
          let g = g\<lparr>sg_flags := htonl 0x11\<rparr> in
          rbind (seg_cksum g (word_of_int (int SEG_HEADER_SIZE + data_length))) (\<lambda>k.
          let g = g\<lparr>sg_cksum := k\<rparr> in
          rbind (conn_send (st_conn st) s (seg_bytes g) (nat (int SEG_HEADER_SIZE + data_length))) (\<lambda>s.
          Inr (st, s))))"

definition ctcp_retrans :: "tcp \<Rightarrow> tcp res" where
  "ctcp_retrans t =
     (let (st, s) = t in
      case sw_segments (st_sw st) of
        [] \<Rightarrow> Inr (st, s)
      | g # gs \<Rightarrow>
          let g = g\<lparr>sg_ackno := htonl (word_of_int (rw_ackno (st_rw st)))\<rparr> in
          rbind (seg_cksum g (ntohs (sg_len g))) (\<lambda>k.
          let g = g\<lparr>sg_cksum := k\<rparr>;
              st = upd_sw (\<lambda>w. w\<lparr>sw_segments := g # gs, sw_timer := clock s\<rparr>) st
          in rbind (conn_send (st_conn st) s (seg_bytes g) (unat (ntohs (sg_len g)))) (\<lambda>s.
             Inr (st, s))))"

section \<open>Input: \<open>ctcp_read\<close>\<close>

definition read_size :: "ctcp_state \<Rightarrow> int" where
  \<comment> \<open>the buffer size \<open>ctcp_read\<close> computes\<close>
  "read_size st =
     (let remaining_space = sw_max_size (st_sw st) - sw_size (st_sw st);
          remaining_space = (if remaining_space > recv_win_size (st_sw st)
                             then recv_win_size (st_sw st) else remaining_space)
      in if remaining_space \<ge> int MAX_SEG_DATA_SIZE then int MAX_SEG_DATA_SIZE else remaining_space)"

definition ctcp_read :: "tcp \<Rightarrow> tcp res" where
  "ctcp_read t =
     (let (st, s) = t; buffer_size = read_size st in
      if buffer_size \<le> 0 then Inr t
      else
        rbind (conn_input (st_conn st) s (send_buf st) (nat buffer_size)) (\<lambda>(r, buf, c, s).
        let st = st\<lparr>st_conn := c, send_buf := buf, send_buf_len := r\<rparr> in
        if send_buf_len st \<ge> 0 then
          rbind (ctcp_makeseg (st, s) SEND_DATA) (\<lambda>(st, s).
          rbind (st8 (send_buf st) 0 0) (\<lambda>buf.
          Inr (st\<lparr>send_buf := buf, send_buf_len := 0\<rparr>, s)))
        else ctcp_makeseg (st\<lparr>send_buf_len := 0\<rparr>, s) SEND_FIN))"

section \<open>Output: \<open>ctcp_output\<close>\<close>

fun output_loop :: "ctcp_segment list \<Rightarrow> tcp \<Rightarrow> (ctcp_segment list \<times> tcp) res" where
  \<comment> \<open>delivers and unlinks segments from the front while they lie below \<open>ackno\<close>\<close>
  "output_loop [] t = Inr ([], t)"
| "output_loop (g # gs) (st, s) =
     (if ntohl (sg_seqno g) \<ge> word_of_int (rw_ackno (st_rw st)) then Inr (g # gs, st, s)
      else
        let output_available = word_of_nat (conn_bufspace (st_conn st)) :: u64;
            data_available = word_of_int (data_len g) :: u64;
            output_size = (if output_available < data_available then output_available else data_available)
        in rbind (conn_output (st_conn st) s (sg_data g) (unat output_size)) (\<lambda>(_, c, s).
           let st = upd_rw (\<lambda>w. w\<lparr>rw_size := rw_size w - data_len g\<rparr>) (st\<lparr>st_conn := c\<rparr>)
           in output_loop gs (st, s)))"

definition ctcp_output :: "tcp \<Rightarrow> tcp res" where
  "ctcp_output t =
     rbind (output_loop (rw_segments (st_rw (fst t))) t) (\<lambda>(segs, st, s).
     Inr (upd_rw (\<lambda>w. w\<lparr>rw_segments := segs\<rparr>) st, s))"

section \<open>Reception: \<open>ctcp_receive\<close>\<close>

definition checksum :: "ctcp_segment \<Rightarrow> (bool \<times> ctcp_segment) res" where
  \<comment> \<open>clears the field in the segment and compares; called with \<open>ntohs (segment->len)\<close>\<close>
  "checksum g =
     (let recved = sg_cksum g; g = g\<lparr>sg_cksum := htons 0\<rparr> in
      rbind (seg_cksum g (ntohs (sg_len g))) (\<lambda>expected. Inr (recved = expected, g)))"

definition no_payload :: "u64 \<Rightarrow> bool" where
  "no_payload len \<longleftrightarrow> len - word_of_nat SEG_HEADER_SIZE = 0"

definition receive_fin :: "tcp \<Rightarrow> ctcp_segment \<Rightarrow> u64 \<Rightarrow> tcp res" where
  \<comment> \<open>step 3\<close>
  "receive_fin t g len =
     (if sg_flags g AND TH_FIN \<noteq> 0 \<and> no_payload len then
        rbind (ctcp_makeseg t SEND_FIN_ACK) (\<lambda>t.
        if timer_teardown (fst t) = -1 then ctcp_makeseg t SEND_FIN else Inr t)
      else Inr t)"

definition is_fin_ack :: "ctcp_segment \<Rightarrow> u64 \<Rightarrow> bool" where
  \<comment> \<open>the condition of step 4\<close>
  "is_fin_ack g len \<longleftrightarrow> sg_flags g = TH_ACK AND TH_FIN \<and> no_payload len"

definition fits :: "u64 \<Rightarrow> ctcp_state \<Rightarrow> bool" where
  \<comment> \<open>\<open>len - SEG_HEADER_SIZE <= max_size - size\<close>, an unsigned comparison\<close>
  "fits len st \<longleftrightarrow> len - word_of_nat SEG_HEADER_SIZE \<le>
     word_of_int (rw_max_size (st_rw st) - rw_size (st_rw st))"

fun advance_ackno :: "int \<Rightarrow> ctcp_segment list \<Rightarrow> int" where
  \<comment> \<open>the loop over the nodes behind the new one; the field is compared without \<open>ntohl\<close>\<close>
  "advance_ackno ackno [] = ackno"
| "advance_ackno ackno (g # gs) =
     (if word_of_int ackno \<noteq> sg_seqno g then ackno
      else advance_ackno (sint (sg_seqno g)) gs)"

fun insert_future :: "ctcp_segment \<Rightarrow> ctcp_segment list \<Rightarrow> ctcp_segment list \<times> bool" where
  \<comment> \<open>the loop \<open>while (node->next != NULL)\<close> from the first node on; the flag is \<open>in_the_back\<close>\<close>
  "insert_future g [] = ([], False)"
| "insert_future g [n] = ([n], False)"
| "insert_future g (n # m # ms) =
     (if ntohl (sg_seqno g) < sg_ackno m then (n # g # m # ms, True)
      else (case insert_future g (m # ms) of (l, b) \<Rightarrow> (n # l, b)))"

definition receive_expected :: "tcp \<Rightarrow> ctcp_segment \<Rightarrow> tcp res" where
  \<comment> \<open>the segment that starts at \<open>ackno\<close>\<close>
  "receive_expected t g =
     (let (st, s) = t;
          st = upd_rw (\<lambda>w. w\<lparr>rw_segments := rw_segments w @ [g], rw_size := rw_size w + data_len g,
                             rw_ackno := rw_ackno w + data_len g\<rparr>) st
      in case dropWhile (\<lambda>x. sg_ptr x \<noteq> sg_ptr g) (rw_segments (st_rw st)) of
           [] \<Rightarrow> Inl NullDeref
         | _ # rest \<Rightarrow>
             let st = upd_rw (\<lambda>w. w\<lparr>rw_ackno := advance_ackno (rw_ackno w) rest\<rparr>) st
             in rbind (ctcp_makeseg (st, s) SEND_ACK) ctcp_output)"

definition receive_future :: "tcp \<Rightarrow> ctcp_segment \<Rightarrow> tcp res" where
  \<comment> \<open>a segment beyond \<open>ackno\<close>; with an empty receive window the traversal starts at a null node\<close>
  "receive_future t g =
     (let (st, s) = t in
      case rw_segments (st_rw st) of
        [] \<Rightarrow> Inl NullDeref
      | segs \<Rightarrow>
          let (l, in_the_back) = insert_future g segs;
              l = (if in_the_back then l @ [g] else l)
          in Inr (upd_rw (\<lambda>w. w\<lparr>rw_segments := l, rw_size := rw_size w + data_len g\<rparr>) st, s))"

definition receive_data :: "tcp \<Rightarrow> ctcp_segment \<Rightarrow> u64 \<Rightarrow> tcp res" where
  \<comment> \<open>step 5\<close>
  "receive_data t g len =
     rbind (if ntohl (sg_seqno g) < word_of_int (rw_ackno (st_rw (fst t)))
            then ctcp_makeseg t SEND_ACK else Inr t) (\<lambda>t.
     rbind (if ntohl (sg_seqno g) = word_of_int (rw_ackno (st_rw (fst t))) \<and> fits len (fst t)
            then receive_expected t g else Inr t) (\<lambda>t.
     if ntohl (sg_seqno g) > word_of_int (rw_ackno (st_rw (fst t))) \<and> fits len (fst t)
     then receive_future t g else Inr t))"

definition acked :: "int \<Rightarrow> ctcp_segment \<Rightarrow> bool" where
  \<comment> \<open>the test in the loop of step 6, in \<open>z0t\<close>\<close>
  "acked received g \<longleftrightarrow>
     (word_of_int (data_len g) + ucast (ntohl (sg_seqno g)) :: u64) \<le> word_of_int received"

fun ack_loop :: "int \<Rightarrow> ctcp_segment list \<Rightarrow> int \<Rightarrow> ctcp_segment list \<times> int" where
  "ack_loop received [] z0 = ([], z0)"
| "ack_loop received (g # gs) z0 =
     (if acked received g then ack_loop received gs (z0 - data_len g)
      else (case ack_loop received gs z0 of (l, z) \<Rightarrow> (g # l, z)))"

definition receive_ack :: "tcp \<Rightarrow> ctcp_segment \<Rightarrow> tcp res" where
  \<comment> \<open>step 6\<close>
  "receive_ack t g =
     (let (st, s) = t in
      case sw_segments (st_sw st) of
        [] \<Rightarrow> Inr t
      | e # es \<Rightarrow>
          let received_ackno = sint (ntohl (sg_ackno g));
              expected_ackno = sint (word_of_int (data_len e) + ntohl (sg_seqno e) :: u32)
          in if received_ackno \<ge> expected_ackno then
               let (segs, z) = ack_loop received_ackno (e # es) (sw_size (st_sw st)) in
               ctcp_send (upd_sw (\<lambda>w. w\<lparr>sw_segments := segs, sw_size := z, sw_timer := -1,
                                        retrans_counter := 0\<rparr>) st, s)
             else Inr t)"

definition ctcp_receive :: "tcp \<Rightarrow> ctcp_segment \<Rightarrow> u64 \<Rightarrow> tcp res" where
  "ctcp_receive t g len =
     rbind (checksum g) (\<lambda>(good, g).
     if \<not> good then Inr t
     else
       let (st, s) = t;
           st = upd_sw (\<lambda>w. w\<lparr>recv_win_size := int (unat (ntohs (sg_window g)))\<rparr>) st in
       rbind (receive_fin (st, s) g len) (\<lambda>(st, s).
       let force_ack = is_fin_ack g len;
           st = (if force_ack then st\<lparr>timer_teardown := clock s\<rparr> else st) in
       if \<not> no_payload len then receive_data (st, s) g len
       else if sg_flags g AND TH_ACK \<noteq> 0 \<or> force_ack then receive_ack (st, s) g
       else Inr (st, s)))"

section \<open>Timers and teardown\<close>

record tcp_host =
  states :: "ctcp_state list"
  removed :: "conn list"
  process :: sys
  exited :: bool

definition ctcp_destroy :: "nat \<Rightarrow> tcp_host \<Rightarrow> tcp_host" where
  \<comment> \<open>unlinks the state at a position of \<open>state_list\<close> and schedules its connection for removal;
     \<open>end_client\<close> ends the process of a client\<close>
  "ctcp_destroy i h =
     h\<lparr>states := take i (states h) @ drop (Suc i) (states h),
       removed := removed h @ [conn_remove (st_conn (states h ! i))],
       exited := exited h \<or> \<not> is_server (process h)\<rparr>"

definition timer_check :: "tcp \<Rightarrow> (bool \<times> tcp) res" where
  \<comment> \<open>the body of the loop of \<open>ctcp_timer\<close>; the flag asks for \<open>ctcp_destroy (state_list)\<close> and the return\<close>
  "timer_check t =
     (let (st, s) = t in
      if timer_teardown st \<noteq> -1 \<and> clock s - timer_teardown st > 2 * timeout_standard st then Inr (True, t)
      else if sw_timer (st_sw st) \<noteq> -1 \<and> clock s - sw_timer (st_sw st) > timeout_standard st then
        if retrans_counter (st_sw st) \<ge> 5 then Inr (True, t)
        else rbind (ctcp_retrans (upd_sw (\<lambda>w. w\<lparr>retrans_counter := retrans_counter w + 1,
                                                sw_timer := clock s\<rparr>) st, s)) (\<lambda>t. Inr (False, t))
      else Inr (False, t))"

fun timer_loop :: "ctcp_state list \<Rightarrow> sys \<Rightarrow> (bool \<times> ctcp_state list \<times> sys) res" where
  "timer_loop [] s = Inr (False, [], s)"
| "timer_loop (st # sts) s =
     rbind (timer_check (st, s)) (\<lambda>(destroy, st, s).
     if destroy then Inr (True, st # sts, s)
     else rbind (timer_loop sts s) (\<lambda>(destroy, sts, s). Inr (destroy, st # sts, s)))"

definition ctcp_timer :: "tcp_host \<Rightarrow> tcp_host res" where
  "ctcp_timer h =
     rbind (timer_loop (states h) (process h)) (\<lambda>(destroy, sts, s).
     let h = h\<lparr>states := sts, process := s\<rparr>
     in Inr (if destroy then ctcp_destroy 0 h else h))"

end
