(* ===== verification/Ctcp_Segments.thy ===== *)
theory Ctcp_Segments
  imports Ctcp
begin

text \<open>
  Segments on the wire: when a checksum verifies, what sending, acknowledging and retransmitting put on the
  wire, and how a receiver takes it.
\<close>

named_theorems segment_simps \<open>length, checksum field and checksum of segments\<close>

section \<open>Images and checksums\<close>

lemma length_seg_bytes [simp, segment_simps]: "length (seg_bytes g) = 20 + length (sg_data g)"
  by (simp add: seg_bytes_def)

lemma seg_bytes_cksum [segment_simps]:
  fixes g :: ctcp_segment and k :: u16
  shows "seg_bytes (g\<lparr>sg_cksum := k\<rparr>) = put (seg_bytes g) 18 (bytes16 k)"
  by (subst put_append) (simp_all add: seg_bytes_def)

lemma get16_seg_bytes [segment_simps]: "get16 (seg_bytes g) 18 = sg_cksum g"
proof -
  have "get16 (put (seg_bytes g) 18 (bytes16 (sg_cksum g))) 18 = sg_cksum g"
    by (rule get_put_same) simp
  moreover have "put (seg_bytes g) 18 (bytes16 (sg_cksum g)) = seg_bytes g"
    using seg_bytes_cksum [of "sg_cksum g" g] by simp
  ultimately show ?thesis by simp
qed

definition seg_ok :: "ctcp_segment \<Rightarrow> bool" where
  \<comment> \<open>the length field agrees with the memory of the segment\<close>
  "seg_ok g \<longleftrightarrow> unat (ntohs (sg_len g)) = 20 + length (sg_data g)"

definition verifies :: "ctcp_segment \<Rightarrow> bool" where
  \<comment> \<open>what the receiver tests\<close>
  "verifies g \<longleftrightarrow> sg_cksum g = cksum (seg_bytes (g\<lparr>sg_cksum := 0\<rparr>))"

lemma seg_ok_upd [simp]:
  "seg_ok (g\<lparr>sg_cksum := k\<rparr>) = seg_ok g" "seg_ok (g\<lparr>sg_ackno := a\<rparr>) = seg_ok g"
  by (simp_all add: seg_ok_def)

lemma htons_zero [simp]: "htons 0 = 0"
  by (simp add: htons_def mk16_def lo16_def hi16_def)

lemma seg_ok_length: "seg_ok g \<Longrightarrow> length (seg_bytes g) = unat (ntohs (sg_len g))"
  by (simp add: seg_ok_def)

lemma seg_ok_bound: "seg_ok g \<Longrightarrow> length (seg_bytes g) \<le> 131072"
  using unat_u16_less [of "ntohs (sg_len g)"] by (simp only: seg_ok_length)

lemma seg_cksum_ok [segment_simps]:
  "seg_ok g \<Longrightarrow> seg_cksum g (ntohs (sg_len g)) = Inr (cksum (seg_bytes g))"
  by (simp add: seg_cksum_def ctcp_cksum_def rd_def slice_def seg_ok_def)

lemma checksum_ok [segment_simps]:
  "seg_ok g \<Longrightarrow> checksum g = Inr (verifies g, g\<lparr>sg_cksum := 0\<rparr>)"
  using seg_cksum_ok [of "g\<lparr>sg_cksum := 0\<rparr>"] by (simp add: checksum_def verifies_def Let_def)

lemma conn_send_ok [segment_simps]:
  "\<not> delete_me c \<Longrightarrow> seg_ok g \<Longrightarrow> conn_send c s (seg_bytes g) (unat (ntohs (sg_len g))) =
    Inr (s\<lparr>segments_out := segments_out s @ [seg_bytes g]\<rparr>)"
  by (simp add: conn_send_def rd_def slice_def seg_ok_def)

lemma cksum_field_zero: "sg_cksum g = 0 \<Longrightarrow> g\<lparr>sg_cksum := 0\<rparr> = g"
  by (cases g) simp

lemma verifies_sealed:
  "sg_cksum g = 0 \<Longrightarrow> verifies (g\<lparr>sg_cksum := cksum (seg_bytes g)\<rparr>)"
  by (simp add: verifies_def cksum_field_zero)

lemma sealed_image:
  assumes "seg_ok g" "sg_cksum g = 0"
  shows "cksum (seg_bytes (g\<lparr>sg_cksum := cksum (seg_bytes g)\<rparr>)) = 0xffff"
  unfolding seg_bytes_cksum
  using assms seg_ok_bound by (intro cksum_of_summed) (auto simp: get16_seg_bytes)

lemma verifies_image:
  assumes "seg_ok g" "verifies g"
  shows "cksum (seg_bytes g) = 0xffff"
proof -
  let ?z = "g\<lparr>sg_cksum := 0\<rparr>"
  have "g = ?z\<lparr>sg_cksum := cksum (seg_bytes ?z)\<rparr>" using assms(2) by (simp add: verifies_def)
  then show ?thesis using sealed_image [of ?z] assms(1) by simp
qed

section \<open>Sending the window\<close>

definition seal :: "int \<Rightarrow> ctcp_segment \<Rightarrow> ctcp_segment" where
  \<comment> \<open>a segment as \<open>ctcp_send\<close> leaves it\<close>
  "seal ackno g = (if sg_cksum g = 0
     then let g = g\<lparr>sg_ackno := htonl (word_of_int ackno)\<rparr> in g\<lparr>sg_cksum := cksum (seg_bytes g)\<rparr>
     else g)"

lemma seal_fields [simp]:
  "sg_seqno (seal a g) = sg_seqno g" "sg_len (seal a g) = sg_len g" "sg_data (seal a g) = sg_data g"
  "sg_flags (seal a g) = sg_flags g" "sg_window (seal a g) = sg_window g" "sg_pad (seal a g) = sg_pad g"
  "seg_ok (seal a g) = seg_ok g" "data_len (seal a g) = data_len g"
  by (simp_all add: seal_def Let_def data_len_def)

lemma seal_nonzero: "seg_ok g \<Longrightarrow> sg_cksum (seal a g) \<noteq> 0"
  using cksum_nonzero by (simp add: seal_def Let_def)

lemma seal_idem: "seg_ok g \<Longrightarrow> seal b (seal a g) = seal a g"
  using seal_nonzero [of g a] by (simp add: seal_def [of b])

lemma verifies_seal: "sg_cksum g = 0 \<Longrightarrow> verifies (seal a g)"
  using verifies_sealed [of "g\<lparr>sg_ackno := htonl (word_of_int a)\<rparr>"] by (simp add: seal_def Let_def)

lemma seal_new: "sg_cksum g = 0 \<Longrightarrow>
    seal a g = g\<lparr>sg_ackno := htonl (word_of_int a), sg_cksum := sg_cksum (seal a g)\<rparr>"
  by (simp add: seal_def Let_def)

lemma seal_sent: "sg_cksum g \<noteq> 0 \<Longrightarrow> seal a g = g"
  by (simp add: seal_def)

lemma send_loop_ok:
  "\<not> delete_me c \<Longrightarrow> \<forall>g \<in> set gs. seg_ok g \<Longrightarrow>
    send_loop c a gs s = Inr (map (seal a) gs,
      s\<lparr>segments_out := segments_out s @ map (seg_bytes \<circ> seal a) (filter (\<lambda>g. sg_cksum g = 0) gs)\<rparr>)"
proof (induction gs arbitrary: s)
  case (Cons g gs)
  let ?g = "g\<lparr>sg_ackno := htonl (word_of_int a)\<rparr>"
  have ok: "seg_ok ?g" "seg_ok (?g\<lparr>sg_cksum := cksum (seg_bytes ?g)\<rparr>)" using Cons.prems by simp_all
  show ?case
    using Cons seg_cksum_ok [OF ok(1)] conn_send_ok [OF Cons.prems(1) ok(2)]
    by (auto simp: seal_def Let_def)
qed simp

definition restart_timer :: "int \<Rightarrow> send_window \<Rightarrow> send_window" where
  "restart_timer t w = (if sw_segments w = [] then w else w\<lparr>sw_timer := t, retrans_counter := 0\<rparr>)"

lemma ctcp_send_ok:
  assumes "\<not> delete_me (st_conn st)" "\<forall>g \<in> set (sw_segments (st_sw st)). seg_ok g"
  shows "ctcp_send (st, s) = Inr
    (upd_sw (\<lambda>w. (restart_timer (clock s) w)\<lparr>sw_segments := map (seal (rw_ackno (st_rw st))) (sw_segments w)\<rparr>) st,
     s\<lparr>segments_out := segments_out s @ map (seg_bytes \<circ> seal (rw_ackno (st_rw st)))
       (filter (\<lambda>g. sg_cksum g = 0) (sw_segments (st_sw st)))\<rparr>)"
  using send_loop_ok [OF assms]
  by (simp add: ctcp_send_def Let_def upd_sw_def restart_timer_def)

text \<open>
  \<open>ctcp_send\<close> transmits every queued segment that was never sent exactly once, in queue order,
  with the current acknowledgement number and a checksum that verifies, and no other segment; it never
  leaves the checksum field of a sent segment 0, the value that marks unsent ones, so a second call
  transmits nothing.  The retransmission timer restarts exactly when the window is not empty.
\<close>

theorem ctcp_send_once:
  assumes "\<not> delete_me (st_conn st)" "\<forall>g \<in> set (sw_segments (st_sw st)). seg_ok g"
  shows "\<exists>st' s'. ctcp_send (st, s) = Inr (st', s') \<and>
    (let new = filter (\<lambda>g. sg_cksum g = 0) (sw_segments (st_sw st)) in
      \<exists>out. segments_out s' = segments_out s @ map seg_bytes out \<and>
        list_all2 (\<lambda>g g'. g' = g\<lparr>sg_ackno := htonl (word_of_int (rw_ackno (st_rw st))),
                                 sg_cksum := sg_cksum g'\<rparr> \<and> verifies g' \<and> sg_cksum g' \<noteq> 0) new out) \<and>
    (\<exists>st''. ctcp_send (st', s') = Inr (st'', s')) \<and>
    sw_timer (st_sw st') = (if sw_segments (st_sw st) = [] then sw_timer (st_sw st) else clock s)"
proof -
  let ?a = "rw_ackno (st_rw st)"
  let ?new = "filter (\<lambda>g. sg_cksum g = 0) (sw_segments (st_sw st))"
  let ?st = "upd_sw (\<lambda>w. (restart_timer (clock s) w)\<lparr>sw_segments := map (seal ?a) (sw_segments w)\<rparr>) st"
  let ?s = "s\<lparr>segments_out := segments_out s @ map (seg_bytes \<circ> seal ?a) ?new\<rparr>"
  have run: "ctcp_send (st, s) = Inr (?st, ?s)" using ctcp_send_ok [OF assms] .
  have new: "list_all2 (\<lambda>g g'. g' = g\<lparr>sg_ackno := htonl (word_of_int ?a), sg_cksum := sg_cksum g'\<rparr> \<and>
      verifies g' \<and> sg_cksum g' \<noteq> 0) ?new (map (seal ?a) ?new)"
    using assms(2) seal_nonzero verifies_seal seal_new
    by (force simp: list_all2_map2 intro!: list.rel_refl_strong)
  have c: "\<not> delete_me (st_conn ?st)" "\<forall>g \<in> set (sw_segments (st_sw ?st)). seg_ok g"
    "rw_ackno (st_rw ?st) = ?a"
    using assms by (auto simp: upd_sw_def)
  have none: "filter (\<lambda>g. sg_cksum g = 0) (sw_segments (st_sw ?st)) = []"
    using assms(2) seal_nonzero by (auto simp: upd_sw_def filter_empty_conv)
  have again: "\<exists>st''. ctcp_send (?st, ?s) = Inr (st'', ?s)"
    using ctcp_send_ok [OF c(1,2), of ?s] unfolding none by simp
  have out: "\<exists>out. segments_out ?s = segments_out s @ map seg_bytes out \<and>
      list_all2 (\<lambda>g g'. g' = g\<lparr>sg_ackno := htonl (word_of_int ?a), sg_cksum := sg_cksum g'\<rparr> \<and>
        verifies g' \<and> sg_cksum g' \<noteq> 0) ?new out"
    using new by (intro exI [of _ "map (seal ?a) ?new"]) simp
  have timer: "sw_timer (st_sw ?st) = (if sw_segments (st_sw st) = [] then sw_timer (st_sw st) else clock s)"
    by (simp add: upd_sw_def restart_timer_def)
  show ?thesis
    unfolding Let_def by (intro exI [of _ ?st] exI [of _ ?s] conjI run out again timer)
qed

definition example_state :: ctcp_state where
  \<comment> \<open>a connection with one queued segment, carrying two bytes\<close>
  "example_state = \<lparr>st_conn = example_conn,
     st_sw = \<lparr>sw_segments = [\<lparr>sg_ptr = 0, sg_seqno = htonl 1, sg_ackno = htonl 1, sg_len = htons 22,
                              sg_pad = 0, sg_flags = TH_ACK, sg_window = htons 1440, sg_cksum = 0,
                              sg_data = [104, 105]\<rparr>],
              sw_max_size = 1440, sw_size = 2, recv_win_size = 1440, sw_seqno = 3, sw_timer = -1,
              retrans_counter = 0\<rparr>,
     st_rw = \<lparr>rw_segments = [], rw_max_size = 1440, rw_size = 0, rw_ackno = 1\<rparr>,
     send_buf = replicate 1440 0, send_buf_len = 0, timeout_standard = 200, timer_teardown = -1\<rparr>"

lemma ctcp_send_once_witness:
  "\<exists>st' s'. ctcp_send (example_state, example_sys) = Inr (st', s') \<and>
     (\<exists>st''. ctcp_send (st', s') = Inr (st'', s')) \<and> sw_timer (st_sw st') = 1000"
  using ctcp_send_once [of example_state example_sys]
  by (fastforce simp: example_state_def example_conn_def example_sys_def seg_ok_def)

end
