(* ===== verification/Ctcp_Window.thy ===== *)
theory Ctcp_Window
  imports Ctcp_Segments
begin

text \<open>
  The sliding window of a connection across all its events.  Each operation keeps the invariant
  \<open>tcp_inv\<close>: the queued segments are well formed and marked as sent, \<open>size\<close> counts their data and
  stays within \<open>max_size\<close>, and nothing waits in the receive window between two events.
\<close>

named_theorems tcp_simps \<open>results of the cTCP operations in a state that satisfies the invariant\<close>

section \<open>The invariant\<close>

definition sent_ok :: "ctcp_segment \<Rightarrow> bool" where
  "sent_ok g \<longleftrightarrow> seg_ok g \<and> sg_cksum g \<noteq> 0"

definition in_flight :: "ctcp_segment list \<Rightarrow> int" where
  "in_flight gs = sum_list (map data_len gs)"

definition window_ok :: "send_window \<Rightarrow> bool" where
  "window_ok w \<longleftrightarrow> (\<forall>g \<in> set (sw_segments w). sent_ok g) \<and> sw_size w = in_flight (sw_segments w) \<and>
     sw_size w \<le> sw_max_size w"

definition quiet :: "ctcp_state \<Rightarrow> bool" where
  \<comment> \<open>between two events: the send buffer is empty and nothing waits in the receive window\<close>
  "quiet st \<longleftrightarrow> \<not> delete_me (st_conn st) \<and> send_buf_len st = 0 \<and> length (send_buf st) = MAX_SEG_DATA_SIZE \<and>
     rw_segments (st_rw st) = [] \<and> rw_size (st_rw st) = 0"

definition tcp_inv :: "ctcp_state \<Rightarrow> bool" where
  "tcp_inv st \<longleftrightarrow> window_ok (st_sw st) \<and> quiet st"

definition only_sw :: "ctcp_state \<Rightarrow> ctcp_state \<Rightarrow> bool" where
  \<comment> \<open>nothing but the send window differs, and its configured size not either\<close>
  "only_sw st st' \<longleftrightarrow> st' = st\<lparr>st_sw := st_sw st'\<rparr> \<and> sw_max_size (st_sw st') = sw_max_size (st_sw st)"

lemma data_len_ok: "seg_ok g \<Longrightarrow> data_len g = int (length (sg_data g))"
  by (simp add: data_len_def seg_ok_def SEG_HEADER_SIZE_def)

lemma data_len_upd [simp]:
  "data_len (g\<lparr>sg_cksum := k\<rparr>) = data_len g" "data_len (g\<lparr>sg_ackno := a\<rparr>) = data_len g"
  "data_len (g\<lparr>sg_flags := f\<rparr>) = data_len g" "data_len (g\<lparr>sg_data := d\<rparr>) = data_len g"
  by (simp_all add: data_len_def)

lemma in_flight_simps [simp]:
  "in_flight [] = 0" "in_flight (g # gs) = data_len g + in_flight gs"
  "in_flight (gs @ hs) = in_flight gs + in_flight hs"
  by (simp_all add: in_flight_def)

lemma in_flight_nonneg: "\<forall>g \<in> set gs. seg_ok g \<Longrightarrow> 0 \<le> in_flight gs"
  by (induction gs) (auto simp: data_len_ok)

lemma in_flight_filter_le:
  "\<forall>g \<in> set gs. seg_ok g \<Longrightarrow> in_flight (filter P gs) \<le> in_flight gs"
  by (induction gs) (auto simp: data_len_ok)

lemma only_sw_refl [simp]: "only_sw st st"
  by (simp add: only_sw_def)

lemma only_sw_upd: "sw_max_size (f (st_sw st)) = sw_max_size (st_sw st) \<Longrightarrow> only_sw st (upd_sw f st)"
  by (simp add: only_sw_def upd_sw_def)

lemma only_sw_trans: "only_sw st st' \<Longrightarrow> only_sw st' st'' \<Longrightarrow> only_sw st st''"
  unfolding only_sw_def by (cases st; cases st'; cases st'') simp

lemma only_sw_fields:
  assumes "only_sw st st'"
  shows "st_conn st' = st_conn st" "st_rw st' = st_rw st" "send_buf st' = send_buf st"
    "send_buf_len st' = send_buf_len st" "timeout_standard st' = timeout_standard st"
    "timer_teardown st' = timer_teardown st" "sw_max_size (st_sw st') = sw_max_size (st_sw st)"
  using assms unfolding only_sw_def by (cases st; cases st'; simp)+

lemma only_sw_quiet: "only_sw st st' \<Longrightarrow> quiet st' = quiet st"
  by (simp add: quiet_def only_sw_fields)

section \<open>Segments built by \<open>ctcp_makeseg\<close>\<close>

definition bare :: "ctcp_state \<Rightarrow> sys \<Rightarrow> u32 \<Rightarrow> byte list \<Rightarrow> ctcp_segment" where
  "bare st s flags d = (fst (new_segment (st, s)))\<lparr>sg_flags := flags, sg_data := d\<rparr>"

definition reply :: "ctcp_state \<Rightarrow> sys \<Rightarrow> u32 \<Rightarrow> ctcp_segment" where
  \<comment> \<open>a segment without data that is sent at once\<close>
  "reply st s flags = (bare st s flags [])\<lparr>sg_cksum := cksum (seg_bytes (bare st s flags []))\<rparr>"

lemma new_segment_split:
  "new_segment (st, s) = ((bare st s 0 []), s\<lparr>seg_count := Suc (seg_count s)\<rparr>)"
  by (simp add: new_segment_def bare_def)

lemma bare_fields [simp]:
  "sg_seqno (bare st s f d) = htonl (word_of_int (sw_seqno (st_sw st)))"
  "sg_ackno (bare st s f d) = htonl (word_of_int (rw_ackno (st_rw st)))"
  "sg_len (bare st s f d) = htons (word_of_int (int SEG_HEADER_SIZE + send_buf_len st))"
  "sg_flags (bare st s f d) = f" "sg_data (bare st s f d) = d" "sg_cksum (bare st s f d) = 0"
  "sg_window (bare st s f d) = htons (word_of_int (sw_max_size (st_sw st) - sw_size (st_sw st)))"
  "(bare st s 0 [])\<lparr>sg_flags := f\<rparr> = bare st s f []"
  "(bare st s 0 [])\<lparr>sg_flags := f, sg_data := d\<rparr> = bare st s f d"
  "(bare st s f [])\<lparr>sg_data := d\<rparr> = bare st s f d"
  by (simp_all add: bare_def new_segment_def)

lemma bare_ok:
  "send_buf_len st = int (length d) \<Longrightarrow> length d \<le> MAX_SEG_DATA_SIZE \<Longrightarrow> seg_ok (bare st s f d)"
proof -
  assume d: "send_buf_len st = int (length d)" "length d \<le> MAX_SEG_DATA_SIZE"
  have "word_of_int (20 + int (length d)) = (word_of_nat (20 + length d) :: u16)"
    by (metis of_int_of_nat_eq of_nat_add of_nat_numeral)
  moreover have "unat (word_of_nat (20 + length d) :: u16) = 20 + length d"
    using d(2) by (simp only: unat_of_nat) (simp add: MAX_SEG_DATA_SIZE_def)
  ultimately show ?thesis using d(1) by (simp add: seg_ok_def SEG_HEADER_SIZE_def)
qed

lemma reply_ok: "send_buf_len st = 0 \<Longrightarrow> seg_ok (reply st s f)"
  using bare_ok [of st "[]" s f] by (simp add: reply_def)

lemma reply_verifies: "verifies (reply st s f)"
  unfolding reply_def by (rule verifies_sealed) simp

lemma reply_fields [simp]:
  "sg_seqno (reply st s f) = htonl (word_of_int (sw_seqno (st_sw st)))"
  "sg_ackno (reply st s f) = htonl (word_of_int (rw_ackno (st_rw st)))"
  "sg_flags (reply st s f) = f" "sg_data (reply st s f) = []"
  by (simp_all add: reply_def)

definition send_out :: "ctcp_segment \<Rightarrow> sys \<Rightarrow> sys" where
  "send_out g s = s\<lparr>seg_count := Suc (seg_count s), segments_out := segments_out s @ [seg_bytes g]\<rparr>"

lemma send_out_fields [simp]:
  "clock (send_out g s) = clock s" "segments_out (send_out g s) = segments_out s @ [seg_bytes g]"
  "stdout (send_out g s) = stdout s" "writes (send_out g s) = writes s" "reads (send_out g s) = reads s"
  "is_server (send_out g s) = is_server s" "unix_socket (send_out g s) = unix_socket s"
  by (simp_all add: send_out_def)

lemma makeseg_reply [tcp_simps]:
  assumes "\<not> delete_me (st_conn st)" "send_buf_len st = 0"
  shows "ctcp_makeseg (st, s) SEND_ACK = Inr (st, send_out (reply st s TH_ACK) s)"
    and "ctcp_makeseg (st, s) SEND_FIN_ACK = Inr (st, send_out (reply st s (htonl 0x11)) s)"
proof -
  have len: "sg_len (bare st s f []) = htons (word_of_int 20)" for f
    using assms(2) by (simp add: SEG_HEADER_SIZE_def)
  have ok: "seg_ok (bare st s f [])" for f using bare_ok [of st "[]"] assms(2) by simp
  have n: "unat (word_of_int 20 :: u16) = 20" by simp
  have c: "seg_cksum (bare st s f []) (word_of_int 20) = Inr (cksum (seg_bytes (bare st s f [])))" for f
    using seg_cksum_ok [OF ok [of f]] unfolding len by simp
  have o: "conn_send (st_conn st) x (seg_bytes (reply st s f)) 20 =
      Inr (x\<lparr>segments_out := segments_out x @ [seg_bytes (reply st s f)]\<rparr>)" for f x
    using conn_send_ok [OF assms(1) reply_ok [OF assms(2), of s f], of x] len [of f]
    by (simp add: reply_def)
  show "ctcp_makeseg (st, s) SEND_ACK = Inr (st, send_out (reply st s TH_ACK) s)"
    using c [of TH_ACK] o [of _ TH_ACK] assms(2)
    by (simp add: ctcp_makeseg_def new_segment_split Let_def SEG_HEADER_SIZE_def send_out_def reply_def)
  show "ctcp_makeseg (st, s) SEND_FIN_ACK = Inr (st, send_out (reply st s (htonl 0x11)) s)"
    using c [of "htonl 0x11"] o [of _ "htonl 0x11"] assms(2)
    by (simp add: ctcp_makeseg_def new_segment_split Let_def SEG_HEADER_SIZE_def send_out_def reply_def)
qed

text \<open>Queueing one segment behind a window of sent ones transmits that segment.\<close>

definition enqueue :: "int \<Rightarrow> int \<Rightarrow> ctcp_segment \<Rightarrow> send_window \<Rightarrow> send_window" where
  "enqueue now a g w = w\<lparr>sw_segments := sw_segments w @ [seal a g], sw_size := sw_size w + data_len g,
     sw_seqno := sw_seqno w + data_len g, sw_timer := now, retrans_counter := 0\<rparr>"

lemma map_seal_sent: "\<forall>g \<in> set gs. sent_ok g \<Longrightarrow> map (seal a) gs = gs"
  by (induction gs) (auto simp: sent_ok_def seal_sent)

lemma filter_unsent: "\<forall>g \<in> set gs. sent_ok g \<Longrightarrow> filter (\<lambda>g. sg_cksum g = 0) gs = []"
  by (auto simp: filter_empty_conv sent_ok_def)

lemma ctcp_send_snoc:
  assumes "\<not> delete_me (st_conn st)" "\<forall>g \<in> set gs. sent_ok g" "seg_ok g" "sg_cksum g = 0"
    "sw_segments (st_sw st) = gs @ [g]"
  shows "ctcp_send (st, s) = Inr
    (upd_sw (\<lambda>w. w\<lparr>sw_segments := gs @ [seal (rw_ackno (st_rw st)) g], sw_timer := clock s,
       retrans_counter := 0\<rparr>) st,
     s\<lparr>segments_out := segments_out s @ [seg_bytes (seal (rw_ackno (st_rw st)) g)]\<rparr>)"
proof -
  have ok: "\<forall>g \<in> set (sw_segments (st_sw st)). seg_ok g" using assms by (auto simp: sent_ok_def)
  show ?thesis
    using assms(4,5) map_seal_sent [OF assms(2)] filter_unsent [OF assms(2)]
    by (simp add: ctcp_send_ok [OF assms(1) ok] upd_sw_def restart_timer_def)
qed

lemma makeseg_data [tcp_simps]:
  fixes st :: ctcp_state and s :: sys
  assumes "\<not> delete_me (st_conn st)" "\<forall>g \<in> set (sw_segments (st_sw st)). sent_ok g"
    "send_buf_len st = int n" "n \<le> MAX_SEG_DATA_SIZE" "length (send_buf st) = MAX_SEG_DATA_SIZE"
  defines "g \<equiv> bare st s TH_ACK (take n (send_buf st))"
  shows "ctcp_makeseg (st, s) SEND_DATA = Inr
    (upd_sw (enqueue (clock s) (rw_ackno (st_rw st)) g) st, send_out (seal (rw_ackno (st_rw st)) g) s)"
proof -
  have ok: "seg_ok g" unfolding g_def using assms(3,4,5) by (intro bare_ok) auto
  have len: "data_len g = int n"
    using ok assms(3,4,5) by (simp add: data_len_ok) (simp add: g_def)
  let ?st = "upd_sw (\<lambda>w. w\<lparr>sw_segments := sw_segments w @ [g], sw_size := sw_size w + int n,
    sw_seqno := sw_seqno w + int n\<rparr>) st"
  have "ctcp_send (?st, s\<lparr>seg_count := Suc (seg_count s)\<rparr>) = Inr
    (upd_sw (enqueue (clock s) (rw_ackno (st_rw st)) g) st, send_out (seal (rw_ackno (st_rw st)) g) s)"
    using assms(1,2) ok len by (subst ctcp_send_snoc) (auto simp: g_def upd_sw_def enqueue_def send_out_def)
  moreover have "rd (send_buf st) 0 n = Inr (take n (send_buf st))"
    using assms(4,5) by (simp add: rd_def slice_def)
  ultimately show ?thesis
    using assms(3) by (simp add: ctcp_makeseg_def new_segment_split Let_def g_def)
qed

lemma makeseg_fin [tcp_simps]:
  fixes st :: ctcp_state and s :: sys
  assumes "\<not> delete_me (st_conn st)" "\<forall>g \<in> set (sw_segments (st_sw st)). sent_ok g" "send_buf_len st = 0"
  defines "g \<equiv> bare st s TH_FIN []"
  shows "ctcp_makeseg (st, s) SEND_FIN = Inr
    (upd_sw (enqueue (clock s) (rw_ackno (st_rw st)) g) st, send_out (seal (rw_ackno (st_rw st)) g) s)"
proof -
  have ok: "seg_ok g" unfolding g_def using assms(3) by (intro bare_ok) auto
  have len: "data_len g = 0" using ok by (simp add: data_len_ok) (simp add: g_def)
  let ?st = "upd_sw (\<lambda>w. w\<lparr>sw_segments := sw_segments w @ [g]\<rparr>) st"
  have "ctcp_send (?st, s\<lparr>seg_count := Suc (seg_count s)\<rparr>) = Inr
    (upd_sw (enqueue (clock s) (rw_ackno (st_rw st)) g) st, send_out (seal (rw_ackno (st_rw st)) g) s)"
    using assms(1,2) ok len by (subst ctcp_send_snoc) (auto simp: g_def upd_sw_def enqueue_def send_out_def)
  then show ?thesis by (simp add: ctcp_makeseg_def new_segment_split Let_def g_def)
qed

lemma enqueue_ok:
  "window_ok w \<Longrightarrow> seg_ok g \<Longrightarrow> sw_size w + data_len g \<le> sw_max_size w \<Longrightarrow> window_ok (enqueue now a g w)"
  using seal_nonzero by (auto simp: window_ok_def enqueue_def sent_ok_def)

lemma enqueue_max [simp]: "sw_max_size (enqueue now a g w) = sw_max_size w"
  by (simp add: enqueue_def)

lemma upd_sw_fields [simp]:
  "st_sw (upd_sw f st) = f (st_sw st)" "st_rw (upd_sw f st) = st_rw st" "st_conn (upd_sw f st) = st_conn st"
  "send_buf (upd_sw f st) = send_buf st" "send_buf_len (upd_sw f st) = send_buf_len st"
  "timer_teardown (upd_sw f st) = timer_teardown st" "timeout_standard (upd_sw f st) = timeout_standard st"
  by (simp_all add: upd_sw_def)

lemma upd_rw_fields [simp]:
  "st_sw (upd_rw h st) = st_sw st" "st_rw (upd_rw h st) = h (st_rw st)" "st_conn (upd_rw h st) = st_conn st"
  "send_buf (upd_rw h st) = send_buf st" "send_buf_len (upd_rw h st) = send_buf_len st"
  "timer_teardown (upd_rw h st) = timer_teardown st" "timeout_standard (upd_rw h st) = timeout_standard st"
  by (simp_all add: upd_rw_def)

lemma tcp_invD:
  assumes "tcp_inv st"
  shows "\<not> delete_me (st_conn st)" "\<forall>g \<in> set (sw_segments (st_sw st)). sent_ok g" "send_buf_len st = 0"
    "length (send_buf st) = MAX_SEG_DATA_SIZE" "rw_segments (st_rw st) = []" "rw_size (st_rw st) = 0"
    "sw_size (st_sw st) = in_flight (sw_segments (st_sw st))" "sw_size (st_sw st) \<le> sw_max_size (st_sw st)"
  using assms by (auto simp: tcp_inv_def window_ok_def quiet_def)

definition queued :: "nat \<Rightarrow> ctcp_state \<Rightarrow> ctcp_state \<Rightarrow> bool" where
  \<comment> \<open>at most one new segment, of at most \<open>n\<close> bytes, stands at the end of the send window\<close>
  "queued n st st' \<longleftrightarrow> st_sw st' = st_sw st \<or>
     (\<exists>now a g. st_sw st' = enqueue now a g (st_sw st) \<and> seg_ok g \<and> data_len g \<le> int n \<and>
        ntohl (sg_seqno g) = word_of_int (sw_seqno (st_sw st)))"

lemma queued_enqueue:
  "st_sw st' = enqueue now a g (st_sw st) \<Longrightarrow> seg_ok g \<Longrightarrow> data_len g \<le> int n \<Longrightarrow>
    ntohl (sg_seqno g) = word_of_int (sw_seqno (st_sw st)) \<Longrightarrow> queued n st st'"
  unfolding queued_def by blast

lemma makeseg_fin_inv:
  assumes "tcp_inv st"
  shows "\<exists>st' s'. ctcp_makeseg (st, s) SEND_FIN = Inr (st', s') \<and> tcp_inv st' \<and> only_sw st st' \<and> queued 0 st st'"
proof -
  let ?g = "bare st s TH_FIN []"
  have ok: "seg_ok ?g" using tcp_invD(3) [OF assms] by (intro bare_ok) auto
  have len: "data_len ?g = 0" using ok by (simp add: data_len_ok)
  have "window_ok (enqueue (clock s) (rw_ackno (st_rw st)) ?g (st_sw st))"
    using assms ok len by (intro enqueue_ok) (auto simp: tcp_inv_def window_ok_def)
  then show ?thesis
    using makeseg_fin [of st s] tcp_invD [OF assms] assms
      ok len
    by (auto simp: tcp_inv_def quiet_def intro!: only_sw_upd queued_enqueue)
qed

section \<open>Reading\<close>

lemma sys_read_bound: "sys_read s n = (Got bs, s') \<Longrightarrow> length bs \<le> n"
  by (auto simp: sys_read_def split: list.splits read_result.splits if_splits)

lemma read_into_cases:
  assumes "i + n \<le> length buf"
  shows "\<exists>r buf' s'. read_into s buf i n = Inr (r, buf', s') \<and> length buf' = length buf \<and>
    (r = Would_block \<or> r = Read_error \<or> (\<exists>k \<le> n. r = Bytes_read (int k)))"
proof -
  obtain r s' where r: "sys_read s n = (r, s')" by fastforce
  show ?thesis
  proof (cases r)
    case (Got bs)
    then have "length bs \<le> n" using r sys_read_bound by simp
    then show ?thesis using assms r Got by (simp add: read_into_def wr_def)
  qed (simp_all add: read_into_def r)
qed

definition line_overruns :: "conn \<Rightarrow> sys \<Rightarrow> byte list \<Rightarrow> nat \<Rightarrow> bool" where
  \<comment> \<open>in the line-ending mode, the read fills the whole buffer but its last byte and ends in a newline\<close>
  "line_overruns c s buf n \<longleftrightarrow> \<not> run_program s \<and> \<not> unix_socket s \<and> \<not> read_eof c \<and> n = length buf \<and>
     (case sys_read s (n - 1) of (Got bs, _) \<Rightarrow> bs \<noteq> [] \<and> length bs = n - 1 \<and> last bs = 10 | _ \<Rightarrow> False)"

lemma put_last:
  assumes "bs \<noteq> []" "length bs \<le> length buf"
  shows "ld8 (put buf 0 bs) (length bs - 1) = Inr (last bs)"
proof -
  have "length bs - 1 < length buf" using assms by (cases bs) auto
  then show ?thesis using assms by (simp add: ld8_def get8_def nth_put last_conv_nth)
qed

lemma line_ending_input:
  assumes "\<not> run_program s" "\<not> unix_socket s" "0 < n" "n \<le> length buf"
  defines "run \<equiv> rbind (read_into s buf 0 (n - 1)) (\<lambda>(r, buf, s).
     case r of
       Bytes_read n \<Rightarrow>
         if n > 0 then
           rbind (add_network_line_ending (\<not> unix_socket s) buf (nat n)) (\<lambda>(added, buf).
           if added then Inr (Bytes_read (n + 1), buf, s)
           else rbind (read_into s buf (nat n) 1) (\<lambda>(r1, buf, s).
             case r1 of
               Bytes_read k \<Rightarrow> Inr (Bytes_read (n + k), buf, s)
             | _ \<Rightarrow> Inr (Bytes_read (n - 1), buf, s)))
         else Inr (r, buf, s)
     | _ \<Rightarrow> Inr (r, buf, s))"
  shows "if n = length buf \<and>
       (case sys_read s (n - 1) of (Got bs, _) \<Rightarrow> bs \<noteq> [] \<and> length bs = n - 1 \<and> last bs = 10 | _ \<Rightarrow> False)
     then run = Inl OutOfBounds
     else \<exists>r buf' s'. run = Inr (r, buf', s') \<and> length buf' = length buf \<and>
       (r = Would_block \<or> r = Read_error \<or> (\<exists>k \<le> n. r = Bytes_read (int k)))"
proof -
  obtain a s1 where a: "sys_read s (n - 1) = (a, s1)" by fastforce
  show ?thesis
  proof (cases a)
    case (Got bs)
    let ?k = "length bs" and ?b = "put buf 0 bs"
    have k: "?k \<le> n - 1" using sys_read_bound a Got by blast
    have u: "\<not> unix_socket s1" "\<not> run_program s1"
      using a Got assms(1,2) by (auto simp: sys_read_def split: list.splits read_result.splits if_splits)
    have r: "read_into s buf 0 (n - 1) = Inr (Bytes_read (int ?k), ?b, s1)"
      using a Got k assms(4) by (simp add: read_into_def wr_def)
    show ?thesis
    proof (cases "bs = []")
      case True
      then show ?thesis using r a Got by (auto simp: run_def)
    next
      case False
      have last: "ld8 ?b (?k - 1) = Inr (last bs)" using put_last [OF False] k assms(4) by simp
      have room: "0 < ?k" "?k < length buf" using False k assms(3,4) by auto
      show ?thesis
      proof (cases "last bs = 10")
        case True
        let ?c = "put (put (put ?b (?k - 1) [13]) ?k [10]) (?k + 1) [0]"
        have "add_network_line_ending True ?b ?k = (if ?k + 1 < length buf then Inr (True, ?c) else Inl OutOfBounds)"
          using last True room by (simp add: add_network_line_ending_def st8_def wr_def)
        then have run: "run = (if ?k + 1 < length buf then Inr (Bytes_read (int ?k + 1), ?c, s1) else Inl OutOfBounds)"
          using r u room(1) by (simp add: run_def)
        have more: "?k + 1 < length buf \<longleftrightarrow> \<not> (n = length buf \<and> ?k = n - 1)" using k room assms(3,4) by arith
        have "length ?c = length buf" "?k + 1 \<le> n" using k assms(3) by simp_all
        then show ?thesis using run more a Got True False by (auto intro!: exI [of _ "Suc ?k"])
      next
        case no: False
        have add: "add_network_line_ending True ?b ?k = Inr (False, ?b)"
          using last no by (simp add: add_network_line_ending_def)
        obtain r1 b2 s2 where one: "read_into s1 ?b ?k 1 = Inr (r1, b2, s2)" "length b2 = length buf"
            "r1 = Would_block \<or> r1 = Read_error \<or> (\<exists>j \<le> 1. r1 = Bytes_read (int j))"
          using read_into_cases [of ?k 1 ?b s1] room by auto
        have run: "run = (case r1 of Bytes_read j \<Rightarrow> Inr (Bytes_read (int ?k + j), b2, s2)
            | _ \<Rightarrow> Inr (Bytes_read (int ?k - 1), b2, s2))"
          using r add one(1) room u by (cases r1) (simp_all add: run_def)
        have pred: "int ?k - 1 = int (?k - 1)" using room(1) by linarith
        have "\<exists>m \<le> n. run = Inr (Bytes_read (int m), b2, s2)"
          using one(3)
        proof (elim disjE exE conjE)
          fix j :: nat assume "j \<le> 1" "r1 = Bytes_read (int j)"
          then show ?thesis using run k assms(3) by (intro exI [of _ "?k + j"]) auto
        qed (use run [unfolded pred] k in \<open>intro exI [of _ "?k - 1"]; simp\<close>)+
        then show ?thesis using a Got no one(2) by auto
      qed
    qed
  qed (use a in \<open>auto simp: run_def read_into_def\<close>)
qed

lemma conn_input_cases:
  assumes "\<not> delete_me c" "0 < n" "n \<le> length buf"
  shows "if line_overruns c s buf n then conn_input c s buf n = Inl OutOfBounds
    else \<exists>r buf' c' s'. conn_input c s buf n = Inr (r, buf', c', s') \<and> -1 \<le> r \<and> r \<le> int n \<and>
      length buf' = length buf \<and> (c' = c \<or> c' = c\<lparr>read_eof := True\<rparr>)"
proof (cases "read_eof c")
  case True
  then show ?thesis using assms by (simp add: conn_input_def line_overruns_def)
next
  case False
  let ?run = "if run_program s \<or> unix_socket s then read_into s buf 0 n
               else
                 rbind (read_into s buf 0 (n - 1)) (\<lambda>(r, buf, s).
                 case r of
                   Bytes_read n \<Rightarrow>
                     if n > 0 then
                       rbind (add_network_line_ending (\<not> unix_socket s) buf (nat n)) (\<lambda>(added, buf).
                       if added then Inr (Bytes_read (n + 1), buf, s)
                       else rbind (read_into s buf (nat n) 1) (\<lambda>(r1, buf, s).
                         case r1 of
                           Bytes_read k \<Rightarrow> Inr (Bytes_read (n + k), buf, s)
                         | _ \<Rightarrow> Inr (Bytes_read (n - 1), buf, s)))
                     else Inr (r, buf, s)
                 | _ \<Rightarrow> Inr (r, buf, s))"
  have run: "if line_overruns c s buf n then ?run = Inl OutOfBounds
    else \<exists>r buf' s'. ?run = Inr (r, buf', s') \<and> length buf' = length buf \<and>
      (r = Would_block \<or> r = Read_error \<or> (\<exists>k \<le> n. r = Bytes_read (int k)))"
  proof (cases "run_program s \<or> unix_socket s")
    case True
    then show ?thesis using read_into_cases [of 0 n buf s] assms(3) by (auto simp: line_overruns_def)
  next
    case no: False
    then have l: "line_overruns c s buf n = (n = length buf \<and>
        (case sys_read s (n - 1) of (Got bs, _) \<Rightarrow> bs \<noteq> [] \<and> length bs = n - 1 \<and> last bs = 10 | _ \<Rightarrow> False))"
      using False no by (simp only: line_overruns_def de_Morgan_disj simp_thms)
    show ?thesis unfolding l if_not_P [OF no] using no assms(2,3) by (intro line_ending_input) simp_all
  qed
  have input: "conn_input c s buf n = rbind ?run (\<lambda>(r, buf, s).
        case r of
          Would_block \<Rightarrow> Inr (0, buf, c, s)
        | Read_error \<Rightarrow> Inr (-1, buf, c\<lparr>read_eof := True\<rparr>, s)
        | Bytes_read n \<Rightarrow>
            if n = 0 then Inr (-1, buf, c\<lparr>read_eof := True\<rparr>, s)
            else rbind (ld8 buf 0) (\<lambda>b.
              if eof_char s \<and> b = 0x1a then Inr (-1, buf, c\<lparr>read_eof := True\<rparr>, s)
              else Inr (n, buf, c, s)))"
    using assms(1) False by (simp only: conn_input_def if_False)
  show ?thesis
  proof (cases "line_overruns c s buf n")
    case True
    then have "?run = Inl OutOfBounds" using run by (simp only: if_True)
    then show ?thesis unfolding input using True by (simp only: rbind_simps if_True)
  next
    case ok: False
    then obtain r buf' s' where r: "?run = Inr (r, buf', s')" "length buf' = length buf"
        "r = Would_block \<or> r = Read_error \<or> (\<exists>k \<le> n. r = Bytes_read (int k))"
      using run by (simp only: if_False) blast
    have "0 < length buf'" "buf' \<noteq> []" using r(2) assms(2,3) by auto
    then show ?thesis unfolding input r(1) using ok r(2,3) by (auto simp: ld8_def)
  qed
qed

lemma conn_input_ok:
  assumes "\<not> delete_me c" "run_program s \<or> unix_socket s" "0 < n" "n \<le> length buf"
  shows "\<exists>r buf' c' s'. conn_input c s buf n = Inr (r, buf', c', s') \<and> -1 \<le> r \<and> r \<le> int n \<and>
    length buf' = length buf \<and> (c' = c \<or> c' = c\<lparr>read_eof := True\<rparr>)"
proof -
  have "\<not> line_overruns c s buf n" using assms(2) by (auto simp: line_overruns_def)
  then show ?thesis using conn_input_cases [OF assms(1,3,4), of s] by simp
qed

lemma read_size_bound:
  "read_size st \<le> sw_max_size (st_sw st) - sw_size (st_sw st)" "read_size st \<le> recv_win_size (st_sw st)"
  "read_size st \<le> int MAX_SEG_DATA_SIZE"
  by (auto simp: read_size_def Let_def)

lemma ctcp_read_step:
  assumes inv: "tcp_inv st" and pos: "0 < read_size st"
    and input: "conn_input (st_conn st) s (send_buf st) (nat (read_size st)) = Inr (int n, buf, c, s')"
    and n: "int n \<le> read_size st" and buf: "length buf = MAX_SEG_DATA_SIZE"
    and c: "c = st_conn st \<or> c = (st_conn st)\<lparr>read_eof := True\<rparr>"
  defines "st1 \<equiv> st\<lparr>st_conn := c, send_buf := buf, send_buf_len := int n\<rparr>"
  defines "g \<equiv> bare st1 s' TH_ACK (take n buf)"
  shows "ctcp_read (st, s) = Inr
    ((upd_sw (enqueue (clock s') (rw_ackno (st_rw st)) g) st1)\<lparr>send_buf := put buf 0 [0], send_buf_len := 0\<rparr>,
     send_out (seal (rw_ackno (st_rw st)) g) s')"
proof -
  note D = tcp_invD [OF inv]
  have k: "n \<le> MAX_SEG_DATA_SIZE" using n read_size_bound(3) [of st] by linarith
  have del: "\<not> delete_me (st_conn st1)" using c D(1) by (auto simp: st1_def)
  have m: "ctcp_makeseg (st1, s') SEND_DATA = Inr
    (upd_sw (enqueue (clock s') (rw_ackno (st_rw st)) g) st1, send_out (seal (rw_ackno (st_rw st)) g) s')"
    using makeseg_data [of st1 n s', OF del] D(2) k buf by (simp add: st1_def g_def)
  have "Suc 0 \<le> length buf" using buf by (simp add: MAX_SEG_DATA_SIZE_def)
  then show ?thesis
    using pos input m by (simp add: ctcp_read_def Let_def st1_def st8_def wr_def)
qed

definition read_overruns :: "ctcp_state \<Rightarrow> sys \<Rightarrow> bool" where
  \<comment> \<open>there is room for a full segment, and the line that is read fills it and ends in a newline\<close>
  "read_overruns st s \<longleftrightarrow> line_overruns (st_conn st) s (send_buf st) (nat (read_size st))"

lemma ctcp_read_overruns:
  assumes "tcp_inv st" "read_overruns st s"
  shows "ctcp_read (st, s) = Inl OutOfBounds"
proof -
  note D = tcp_invD [OF assms(1)]
  have n: "nat (read_size st) = MAX_SEG_DATA_SIZE"
    using assms(2) D(4) by (simp add: read_overruns_def line_overruns_def)
  then have "0 < read_size st" by (simp add: MAX_SEG_DATA_SIZE_def)
  moreover have "conn_input (st_conn st) s (send_buf st) (nat (read_size st)) = Inl OutOfBounds"
    using conn_input_cases [OF D(1), of "nat (read_size st)" "send_buf st" s] assms(2) D(4) n
    by (simp add: read_overruns_def MAX_SEG_DATA_SIZE_def)
  ultimately show ?thesis by (simp add: ctcp_read_def Let_def)
qed

lemma ctcp_read_inv:
  assumes inv: "tcp_inv st" and line: "\<not> read_overruns st s"
  shows "\<exists>st' s'. ctcp_read (st, s) = Inr (st', s') \<and> tcp_inv st' \<and> st_rw st' = st_rw st \<and>
    queued MAX_SEG_DATA_SIZE st st'"
proof (cases "read_size st \<le> 0")
  case True
  then show ?thesis using inv by (simp add: ctcp_read_def Let_def queued_def)
next
  case False
  note D = tcp_invD [OF inv]
  let ?n = "nat (read_size st)"
  have bound: "0 < ?n" "?n \<le> length (send_buf st)"
    using False D(4) read_size_bound(3) [of st] by auto
  obtain r buf c s' where i: "conn_input (st_conn st) s (send_buf st) ?n = Inr (r, buf, c, s')"
      "-1 \<le> r" "r \<le> int ?n" "length buf = length (send_buf st)"
      "c = st_conn st \<or> c = (st_conn st)\<lparr>read_eof := True\<rparr>"
    using conn_input_cases [OF D(1) bound, of s] line by (auto simp: read_overruns_def)
  have del: "\<not> delete_me c" using i(5) D(1) by auto
  show ?thesis
  proof (cases "0 \<le> r")
    case True
    then obtain n where n: "r = int n" using zero_le_imp_eq_int by blast
    let ?st = "st\<lparr>st_conn := c, send_buf := buf, send_buf_len := int n\<rparr>"
    let ?g = "bare ?st s' TH_ACK (take n buf)"
    have k: "n \<le> MAX_SEG_DATA_SIZE" "int n \<le> read_size st"
      using n i(3) False read_size_bound(3) [of st] by linarith+
    have g: "seg_ok ?g" "data_len ?g = int n"
      using k i(4) D(4) bare_ok [of ?st "take n buf" s' TH_ACK] by (auto simp: data_len_ok)
    have "window_ok (enqueue (clock s') (rw_ackno (st_rw st)) ?g (st_sw st))"
      using inv g k(2) read_size_bound(1) [of st] by (intro enqueue_ok) (auto simp: tcp_inv_def)
    moreover have "length buf = MAX_SEG_DATA_SIZE" using i(4) D(4) by simp
    moreover have "ntohl (sg_seqno ?g) = word_of_int (sw_seqno (st_sw st))" by simp
    ultimately show ?thesis
      using ctcp_read_step [OF inv _ i(1) [unfolded n] k(2) _ i(5)] False inv del g k(1)
      by (fastforce simp: tcp_inv_def quiet_def intro: queued_enqueue)
  next
    case neg: False
    let ?st = "st\<lparr>st_conn := c, send_buf := buf, send_buf_len := 0\<rparr>"
    have "tcp_inv ?st" using inv del i(4) by (simp add: tcp_inv_def quiet_def)
    then obtain st' s'' where m: "ctcp_makeseg (?st, s') SEND_FIN = Inr (st', s'')" "tcp_inv st'" "only_sw ?st st'"
        "queued 0 ?st st'"
      using makeseg_fin_inv by blast
    show ?thesis
      using i(1) False neg m(1,2,4) only_sw_fields(2) [OF m(3)] by (auto simp: ctcp_read_def Let_def queued_def)
  qed
qed

section \<open>Acknowledgements\<close>

lemma ack_loop_filter:
  "ack_loop r gs z = (filter (\<lambda>g. \<not> acked r g) gs, z - in_flight (filter (acked r) gs))"
  by (induction r gs z rule: ack_loop.induct) auto

lemma in_flight_partition: "in_flight gs = in_flight (filter P gs) + in_flight (filter (\<lambda>g. \<not> P g) gs)"
  by (induction gs) auto

definition expected_ackno :: "ctcp_segment \<Rightarrow> int" where
  "expected_ackno e = sint (word_of_int (data_len e) + ntohl (sg_seqno e) :: u32)"

definition slide :: "int \<Rightarrow> send_window \<Rightarrow> send_window" where
  \<comment> \<open>the window after an acknowledgement\<close>
  "slide r w = w\<lparr>sw_segments := filter (\<lambda>g. \<not> acked r g) (sw_segments w),
     sw_size := in_flight (filter (\<lambda>g. \<not> acked r g) (sw_segments w)), sw_timer := -1, retrans_counter := 0\<rparr>"

lemma slide_ok: "window_ok w \<Longrightarrow> window_ok (slide r w)"
proof -
  assume w: "window_ok w"
  then have "\<forall>g \<in> set (sw_segments w). seg_ok g" by (simp add: window_ok_def sent_ok_def)
  from in_flight_filter_le [OF this, of "\<lambda>g. \<not> acked r g"] show ?thesis
    using w by (simp add: window_ok_def slide_def)
qed

lemma receive_ack_ok [tcp_simps]:
  fixes st :: ctcp_state and s :: sys and g :: ctcp_segment
  assumes "tcp_inv st"
  defines "r \<equiv> sint (ntohl (sg_ackno g))"
  shows "receive_ack (st, s) g = Inr
    (case sw_segments (st_sw st) of [] \<Rightarrow> st
     | e # es \<Rightarrow> if r \<ge> expected_ackno e
                 then upd_sw (\<lambda>w. restart_timer (clock s) (slide r w)) st else st, s)"
proof (cases "sw_segments (st_sw st)")
  case (Cons e es)
  note D = tcp_invD [OF assms(1)]
  let ?st = "upd_sw (slide r) st"
  have ok: "\<forall>g \<in> set (sw_segments (st_sw ?st)). sent_ok g" using D(2) by (simp add: slide_def)
  then have "\<forall>g \<in> set (sw_segments (st_sw ?st)). seg_ok g" by (simp add: sent_ok_def)
  then have send: "ctcp_send (?st, s) = Inr (upd_sw (\<lambda>w. restart_timer (clock s) (slide r w)) st, s)"
    using ctcp_send_ok [of ?st s] D(1) map_seal_sent [OF ok] filter_unsent [OF ok]
    by (simp add: upd_sw_def restart_timer_def)
  have size: "sw_size (st_sw st) - in_flight (filter (acked r) (e # es)) =
      in_flight (filter (\<lambda>g. \<not> acked r g) (e # es))"
    using D(7) in_flight_partition [of "e # es" "acked r"] Cons by simp
  have window: "(st_sw st)\<lparr>sw_segments := filter (\<lambda>g. \<not> acked r g) (e # es),
      sw_size := in_flight (filter (\<lambda>g. \<not> acked r g) (e # es)), sw_timer := -1, retrans_counter := 0\<rparr> =
      slide r (st_sw st)"
    using Cons by (simp add: slide_def)
  show ?thesis
    using send Cons
    by (simp only: receive_ack_def Let_def prod.case list.case ack_loop_filter size window
          r_def [symmetric] expected_ackno_def [symmetric] upd_sw_def if_distrib [of Inr] if_distribR split: if_split)
       (simp add: upd_sw_def window [symmetric])
qed (simp add: receive_ack_def)

lemma restart_timer_ok: "window_ok w \<Longrightarrow> window_ok (restart_timer t w)"
  by (auto simp: window_ok_def restart_timer_def)

lemma receive_ack_inv:
  assumes "tcp_inv st"
  shows "\<exists>st'. receive_ack (st, s) g = Inr (st', s) \<and> tcp_inv st' \<and> only_sw st st'"
proof -
  have "tcp_inv (upd_sw (\<lambda>w. restart_timer (clock s) (slide r w)) st)" for r
    using assms slide_ok restart_timer_ok by (simp add: tcp_inv_def quiet_def)
  moreover have "only_sw st (upd_sw (\<lambda>w. restart_timer (clock s) (slide r w)) st)" for r
    by (intro only_sw_upd) (simp add: restart_timer_def slide_def)
  ultimately show ?thesis using assms receive_ack_ok [OF assms] by (simp split: list.split)
qed

section \<open>Received data\<close>

lemma seg_ok_data: "seg_ok g \<Longrightarrow> length (sg_data g) < 65536"
  using unat_u16_less [of "ntohs (sg_len g)"] unfolding seg_ok_def by linarith

lemma no_payload_iff: "seg_ok g \<Longrightarrow> no_payload (word_of_nat (length (seg_bytes g))) \<longleftrightarrow> sg_data g = []"
proof -
  assume ok: "seg_ok g"
  have n: "length (sg_data g) < 65536" by (rule seg_ok_data [OF ok])
  have "(word_of_nat (length (seg_bytes g)) - word_of_nat SEG_HEADER_SIZE :: u64) = word_of_nat (length (sg_data g))"
    by (simp add: SEG_HEADER_SIZE_def)
  moreover have "(word_of_nat (length (sg_data g)) :: u64) = 0 \<longleftrightarrow> length (sg_data g) = 0"
    using n by (simp only: word_unat_eq_iff unat_of_nat) (simp add: take_bit_nat_eq_self_iff)
  ultimately show ?thesis by (simp add: no_payload_def)
qed

lemma conn_bufspace_le: "conn_bufspace c \<le> 8192"
  by (simp add: conn_bufspace_def MAX_BUF_SPACE_def Let_def)

lemma output_size:
  assumes "seg_ok g"
  shows "unat (if (word_of_nat (conn_bufspace c) :: u64) < word_of_int (data_len g)
               then word_of_nat (conn_bufspace c) else word_of_int (data_len g) :: u64) =
         min (conn_bufspace c) (length (sg_data g))"
proof -
  have n: "length (sg_data g) < 65536" by (rule seg_ok_data [OF assms])
  have a: "unat (word_of_nat (length (sg_data g)) :: u64) = length (sg_data g)"
    using n by (simp only: unat_of_nat) (simp add: take_bit_nat_eq_self_iff)
  have b: "unat (word_of_nat (conn_bufspace c) :: u64) = conn_bufspace c"
    using conn_bufspace_le [of c] by (simp only: unat_of_nat) (simp add: take_bit_nat_eq_self_iff)
  have "(word_of_int (data_len g) :: u64) = word_of_nat (length (sg_data g))"
    using data_len_ok [OF assms] by simp
  then show ?thesis using a b by (simp add: word_less_nat_alt min_def)
qed

lemma conn_output_total:
  assumes "\<not> delete_me c" "n \<le> length buf"
  shows "\<exists>r c' s'. conn_output c s buf n = Inr (r, c', s') \<and> \<not> delete_me c'"
  using assms by (auto simp: conn_output_def rd_def Let_def split: write_result.splits prod.splits)

lemma ackno_advances:
  assumes "0 \<le> a" "0 < n" "a + n < 2 ^ 31"
  shows "(word_of_int a :: u32) < word_of_int (a + n)"
  using assms by (simp add: word_less_def uint_word_of_int take_bit_int_eq_self_iff del: of_int_add)

text \<open>The segment that is expected next: acknowledged, then written to the application.\<close>

definition advance :: "ctcp_segment \<Rightarrow> ctcp_state \<Rightarrow> ctcp_state" where
  "advance g st = upd_rw (\<lambda>w. w\<lparr>rw_ackno := rw_ackno w + data_len g\<rparr>) st"

lemma advance_inv [simp]: "tcp_inv (advance g st) = tcp_inv st"
  by (simp add: tcp_inv_def quiet_def advance_def)

lemma receive_expected_ok [tcp_simps]:
  fixes st :: ctcp_state and s :: sys and g :: ctcp_segment
  assumes inv: "tcp_inv st" and ok: "seg_ok g" and data: "sg_data g \<noteq> []"
    and seq: "ntohl (sg_seqno g) = word_of_int (rw_ackno (st_rw st))"
    and range: "0 \<le> rw_ackno (st_rw st)" "rw_ackno (st_rw st) + data_len g < 2 ^ 31"
  defines "st1 \<equiv> advance g st"
  shows "receive_expected (st, s) g =
    rbind (conn_output (st_conn st) (send_out (reply st1 s TH_ACK) s) (sg_data g)
             (min (conn_bufspace (st_conn st)) (length (sg_data g))))
      (\<lambda>(_, c, s). Inr (st1\<lparr>st_conn := c\<rparr>, s))"
proof -
  note D = tcp_invD [OF inv]
  let ?st = "upd_rw (\<lambda>w. w\<lparr>rw_segments := [g], rw_size := data_len g,
    rw_ackno := rw_ackno w + data_len g\<rparr>) st"
  have reply: "reply ?st s TH_ACK = reply st1 s TH_ACK"
    by (simp add: reply_def bare_def new_segment_def st1_def advance_def Let_def)
  have seg: "ctcp_makeseg (?st, s) SEND_ACK = Inr (?st, send_out (reply st1 s TH_ACK) s)"
    using makeseg_reply(1) [of ?st s] D(1,3) reply by simp
  have "0 < data_len g" using data ok by (simp add: data_len_ok)
  then have less: "\<not> ntohl (sg_seqno g) \<ge> word_of_int (rw_ackno (st_rw ?st))"
    using ackno_advances [OF range(1) _ range(2)] by (simp add: seq)
  have start: "receive_expected (st, s) g = rbind (ctcp_makeseg (?st, s) SEND_ACK) ctcp_output"
    using D(5,6) by (simp add: receive_expected_def upd_rw_def Let_def)
  obtain r c s' where o: "conn_output (st_conn st) (send_out (reply st1 s TH_ACK) s) (sg_data g)
      (min (conn_bufspace (st_conn st)) (length (sg_data g))) = Inr (r, c, s')"
    using conn_output_total [OF D(1), of _ "sg_data g"] by (metis min.cobounded2)
  have fin: "upd_rw (\<lambda>w. w\<lparr>rw_segments := []\<rparr>)
      (upd_rw (\<lambda>w. w\<lparr>rw_size := rw_size w - data_len g\<rparr>) (?st\<lparr>st_conn := c\<rparr>)) = st1\<lparr>st_conn := c\<rparr>"
    using D(5,6) by (cases st; cases "st_rw st") (simp add: st1_def advance_def upd_rw_def)
  have "ctcp_output (?st, send_out (reply st1 s TH_ACK) s) = Inr (st1\<lparr>st_conn := c\<rparr>, s')"
    using less o output_size [OF ok, of "st_conn st"] fin
    by (simp add: ctcp_output_def Let_def del: of_int_add)
  then show ?thesis using start seg o by simp
qed

text \<open>Without a receive window to search, a segment beyond \<open>ackno\<close> is the end of the process.\<close>

lemma receive_data_ok [tcp_simps]:
  fixes st :: ctcp_state and s :: sys and g :: ctcp_segment
  assumes inv: "tcp_inv st" and ok: "seg_ok g" and data: "sg_data g \<noteq> []"
    and range: "0 \<le> rw_ackno (st_rw st)" "rw_ackno (st_rw st) + data_len g < 2 ^ 31"
  defines "ackno \<equiv> word_of_int (rw_ackno (st_rw st)) :: u32"
  shows "receive_data (st, s) g len =
    (if ntohl (sg_seqno g) < ackno then Inr (st, send_out (reply st s TH_ACK) s)
     else if \<not> fits len st then Inr (st, s)
     else if ntohl (sg_seqno g) = ackno then receive_expected (st, s) g
     else Inl NullDeref)"
proof -
  note D = tcp_invD [OF inv]
  have "0 < data_len g" using data ok by (simp add: data_len_ok)
  then have adv: "\<not> ackno > word_of_int (rw_ackno (st_rw st) + data_len g)"
    using ackno_advances [OF range(1) _ range(2)] unfolding ackno_def by (simp add: less_imp_le not_less)
  have "ctcp_makeseg (st, s) SEND_ACK = Inr (st, send_out (reply st s TH_ACK) s)"
    using makeseg_reply(1) D(1,3) by simp
  moreover have "receive_future (st, s) g = Inl NullDeref" using D(5) by (simp add: receive_future_def)
  moreover have "rbind (receive_expected (st, s) g) (\<lambda>t.
      if ntohl (sg_seqno g) > word_of_int (rw_ackno (st_rw (fst t))) \<and> fits len (fst t)
      then receive_future t g else Inr t) = receive_expected (st, s) g"
    if "ntohl (sg_seqno g) = ackno"
    using receive_expected_ok [OF inv ok data that [unfolded ackno_def] range] adv that
    by (auto simp: rbind_def advance_def split: sum.splits simp del: of_int_add)
  ultimately show ?thesis
    by (auto simp: receive_data_def ackno_def [symmetric])
qed

end
