(* ===== verification/Ctcp_Invariant.thy ===== *)
theory Ctcp_Invariant
  imports Ctcp_Window
begin

text \<open>
  The events of a connection as a step relation, and what holds in every reachable state: flow control,
  the send window as a contiguous piece of the byte stream, and an empty receive window.
\<close>

section \<open>The window as a piece of the stream\<close>

fun contiguous :: "int \<Rightarrow> ctcp_segment list \<Rightarrow> int \<Rightarrow> bool" where
  \<comment> \<open>the segments follow one another from sequence number \<open>a\<close> up to \<open>b\<close>\<close>
  "contiguous a [] b \<longleftrightarrow> a = b"
| "contiguous a (g # gs) b \<longleftrightarrow> ntohl (sg_seqno g) = word_of_int a \<and> contiguous (a + data_len g) gs b"

lemma contiguous_append:
  "contiguous a (gs @ hs) b \<longleftrightarrow> contiguous a gs (a + in_flight gs) \<and> contiguous (a + in_flight gs) hs b"
  by (induction gs arbitrary: a) (auto simp: add.assoc)

lemma contiguous_end: "contiguous a gs b \<Longrightarrow> b = a + in_flight gs"
  by (induction gs arbitrary: a) fastforce+

lemma acked_iff:
  assumes "ntohl (sg_seqno g) = word_of_int a" "0 \<le> a" "a + data_len g < 2 ^ 31" "0 \<le> r" "r < 2 ^ 31" "seg_ok g"
  shows "acked r g \<longleftrightarrow> a + data_len g \<le> r"
proof -
  have n: "0 \<le> data_len g" using assms(6) by (simp add: data_len_ok)
  have "ucast (word_of_int a :: u32) = (word_of_int a :: u64)"
    using assms(2,3) n
    by (intro word_uint_eqI) (simp add: unsigned_ucast_eq uint_word_of_int take_bit_int_eq_self_iff)
  then have "(word_of_int (data_len g) + ucast (ntohl (sg_seqno g)) :: u64) = word_of_int (a + data_len g)"
    by (simp add: assms(1) add.commute)
  moreover have "uint (word_of_int (a + data_len g) :: u64) = a + data_len g"
    using assms(2,3) n by (simp only: uint_word_of_int take_bit_int_eq_self_iff) simp
  moreover have "uint (word_of_int r :: u64) = r"
    using assms(4,5) by (simp only: uint_word_of_int take_bit_int_eq_self_iff) simp
  ultimately show ?thesis by (simp add: acked_def word_le_def add.commute)
qed

lemma chain_bounds:
  assumes "contiguous a (g # gs) b" "b < 2 ^ 31" "\<forall>g \<in> set (g # gs). seg_ok g"
  shows "0 \<le> data_len g" "a + data_len g < 2 ^ 31" "contiguous (a + data_len g) gs b"
    "\<forall>g \<in> set gs. seg_ok g"
proof -
  have "0 \<le> in_flight gs" using assms(3) by (intro in_flight_nonneg) simp
  moreover have "b = a + data_len g + in_flight gs" using contiguous_end [OF assms(1)] by simp
  ultimately show "a + data_len g < 2 ^ 31" using assms(2) by linarith
qed (use assms in \<open>auto simp: data_len_ok\<close>)

lemma none_acked:
  assumes "contiguous a gs b" "0 \<le> a" "0 \<le> r" "r < a" "r < 2 ^ 31" "b < 2 ^ 31" "\<forall>g \<in> set gs. seg_ok g"
  shows "filter (\<lambda>g. \<not> acked r g) gs = gs"
  using assms
proof (induction gs arbitrary: a)
  case (Cons g gs)
  note B = chain_bounds [OF Cons.prems(1,6,7)]
  have "\<not> acked r g" using acked_iff [of g a r] Cons.prems B by simp
  then show ?case using Cons.IH [OF B(3)] Cons.prems B by simp
qed simp

lemma ack_suffix:
  assumes "contiguous a gs b" "0 \<le> a" "0 \<le> r" "r < 2 ^ 31" "b < 2 ^ 31" "\<forall>g \<in> set gs. seg_ok g"
  shows "\<exists>k a'. filter (\<lambda>g. \<not> acked r g) gs = drop k gs \<and> contiguous a' (drop k gs) b \<and> a \<le> a' \<and>
    (a \<le> r \<longrightarrow> a' \<le> r) \<and> (\<forall>g. drop k gs \<noteq> [] \<and> g = hd (drop k gs) \<longrightarrow> r < a' + data_len g)"
  using assms
proof (induction gs arbitrary: a)
  case (Cons g gs)
  note B = chain_bounds [OF Cons.prems(1,5,6)]
  have ack: "acked r g \<longleftrightarrow> a + data_len g \<le> r" using Cons.prems B by (intro acked_iff) auto
  show ?case
  proof (cases "acked r g")
    case True
    from Cons.IH [OF B(3) _ Cons.prems(3,4,5) B(4)] Cons.prems(2) B(1) obtain k a' where
      "filter (\<lambda>g. \<not> acked r g) gs = drop k gs" "contiguous a' (drop k gs) b" "a + data_len g \<le> a'"
      "a + data_len g \<le> r \<longrightarrow> a' \<le> r"
      "\<forall>g. drop k gs \<noteq> [] \<and> g = hd (drop k gs) \<longrightarrow> r < a' + data_len g"
      by auto
    then show ?thesis using True ack B(1) by (intro exI [of _ "Suc k"] exI [of _ a']) auto
  next
    case False
    have "filter (\<lambda>g. \<not> acked r g) gs = gs"
      using none_acked [OF B(3) _ Cons.prems(3) _ Cons.prems(4,5) B(4)] Cons.prems(2) B(1) False ack by simp
    then show ?thesis
      using False ack Cons.prems(1) by (intro exI [of _ 0] exI [of _ a]) auto
  qed
qed auto

section \<open>Events\<close>

text \<open>
  The events of the main loop as they concern one connection: input can be read (in every mode, line endings included),
  a segment arrives, the timer runs, the output queue drains.  A received segment has passed \<open>recv_filter\<close> and
  \<open>convert_to_ctcp\<close>, so its length field is the length of its memory; sequence numbers stay below
  \<open>2 ^ 31\<close>, where the signed fields of the state would overflow.
\<close>

inductive tcp_step :: "tcp \<Rightarrow> tcp \<Rightarrow> bool" where
  read: "sw_seqno (st_sw st) < 2 ^ 31 - 1440 \<Longrightarrow> ctcp_read (st, s) = Inr t \<Longrightarrow> tcp_step (st, s) t"
| receive: "seg_ok g \<Longrightarrow> rw_ackno (st_rw st) + data_len g < 2 ^ 31 \<Longrightarrow>
    ctcp_receive (st, s) g (word_of_nat (length (seg_bytes g))) = Inr t \<Longrightarrow> tcp_step (st, s) t"
| timer: "timer_check (st, s) = Inr (False, t) \<Longrightarrow> tcp_step (st, s) t"
| drain: "conn_drain (st_conn st) s = (outputted, c, s') \<Longrightarrow> tcp_step (st, s) (st\<lparr>st_conn := c\<rparr>, s')"
| deliver: "ctcp_output (st, s) = Inr t \<Longrightarrow> tcp_step (st, s) t"
| environment: "tcp_step (st, s) (st, s')"

inductive tcp_reachable :: "tcp \<Rightarrow> bool" where
  init: "ctcp_init s (Some c) cfg [] = Some [st] \<Longrightarrow> \<not> delete_me c \<Longrightarrow> tcp_reachable (st, s)"
| step: "tcp_reachable t \<Longrightarrow> tcp_step t t' \<Longrightarrow> tcp_reachable t'"

definition stream_ok :: "ctcp_state \<Rightarrow> bool" where
  "stream_ok st \<longleftrightarrow> 0 < sw_seqno (st_sw st) - sw_size (st_sw st) \<and> sw_seqno (st_sw st) < 2 ^ 31 \<and>
     contiguous (sw_seqno (st_sw st) - sw_size (st_sw st)) (sw_segments (st_sw st)) (sw_seqno (st_sw st)) \<and>
     1 \<le> rw_ackno (st_rw st)"

definition conn_inv :: "tcp \<Rightarrow> bool" where
  "conn_inv t \<longleftrightarrow> tcp_inv (fst t) \<and> stream_ok (fst t)"

lemma enqueue_stream:
  assumes "stream_ok st" "sw_size (st_sw st) = in_flight (sw_segments (st_sw st))"
    "ntohl (sg_seqno g) = word_of_int (sw_seqno (st_sw st))" "0 \<le> data_len g"
    "sw_seqno (st_sw st) + data_len g < 2 ^ 31"
  shows "stream_ok (upd_sw (enqueue now a g) st)"
  using assms by (simp add: stream_ok_def enqueue_def contiguous_append)

lemma slide_stream:
  assumes "stream_ok st" "tcp_inv st" "0 \<le> r" "r < 2 ^ 31"
  shows "stream_ok (upd_sw (\<lambda>w. restart_timer t (slide r w)) st)"
proof -
  have ok: "\<forall>g \<in> set (sw_segments (st_sw st)). seg_ok g" using tcp_invD(2) [OF assms(2)] by (simp add: sent_ok_def)
  obtain k a' where k: "filter (\<lambda>g. \<not> acked r g) (sw_segments (st_sw st)) = drop k (sw_segments (st_sw st))"
    "contiguous a' (drop k (sw_segments (st_sw st))) (sw_seqno (st_sw st))"
    "sw_seqno (st_sw st) - sw_size (st_sw st) \<le> a'"
    using ack_suffix [OF _ _ assms(3,4) _ ok, of "sw_seqno (st_sw st) - sw_size (st_sw st)" "sw_seqno (st_sw st)"]
      assms(1) unfolding stream_ok_def by force
  then show ?thesis
    using assms(1) contiguous_end [OF k(2)] by (auto simp: stream_ok_def slide_def restart_timer_def)
qed

section \<open>Every event keeps the invariant\<close>

lemma queued_stream:
  assumes "stream_ok st" "tcp_inv st" "queued n st st'" "st_rw st' = st_rw st"
    "sw_seqno (st_sw st) + int n < 2 ^ 31"
  shows "stream_ok st'"
proof (cases "st_sw st' = st_sw st")
  case False
  then obtain now a g where g: "st_sw st' = enqueue now a g (st_sw st)" "seg_ok g" "data_len g \<le> int n"
      "ntohl (sg_seqno g) = word_of_int (sw_seqno (st_sw st))"
    using assms(3) unfolding queued_def by blast
  then have "stream_ok (upd_sw (enqueue now a g) st)"
    using assms tcp_invD(7) by (intro enqueue_stream) (auto simp: data_len_ok)
  then show ?thesis using g(1) assms(4) by (simp add: stream_ok_def)
qed (use assms in \<open>simp add: stream_ok_def\<close>)

lemma read_inv:
  assumes "conn_inv (st, s)" "\<not> read_overruns st s" "sw_seqno (st_sw st) < 2 ^ 31 - 1440"
  shows "\<exists>t. ctcp_read (st, s) = Inr t \<and> conn_inv t"
proof -
  have "tcp_inv st" using assms(1) by (simp add: conn_inv_def)
  then obtain st' s' where "ctcp_read (st, s) = Inr (st', s')" "tcp_inv st'" "st_rw st' = st_rw st"
      "queued MAX_SEG_DATA_SIZE st st'"
    using ctcp_read_inv [OF _ assms(2)] by blast
  then show ?thesis
    using queued_stream [of st MAX_SEG_DATA_SIZE st'] assms by (simp add: conn_inv_def MAX_SEG_DATA_SIZE_def)
qed

lemma read_defined:
  "conn_inv (st, s) \<Longrightarrow> ctcp_read (st, s) = Inr t \<Longrightarrow> \<not> read_overruns st s"
  using ctcp_read_overruns by (auto simp: conn_inv_def)

lemma no_line_ending: "run_program s \<or> unix_socket s \<Longrightarrow> \<not> read_overruns st s"
  by (auto simp: read_overruns_def line_overruns_def)

lemma receive_fin_inv:
  assumes "conn_inv (st, s)"
  shows "\<exists>st' s'. receive_fin (st, s) g len = Inr (st', s') \<and> conn_inv (st', s') \<and> only_sw st st'"
proof -
  have inv: "tcp_inv st" using assms by (simp add: conn_inv_def)
  note D = tcp_invD [OF inv]
  obtain st' s' where fin: "ctcp_makeseg (st, send_out (reply st s (htonl 0x11)) s) SEND_FIN = Inr (st', s')"
      "tcp_inv st'" "only_sw st st'" "queued 0 st st'"
    using makeseg_fin_inv [OF inv] by blast
  have "conn_inv (st', s')"
    using queued_stream [of st 0 st'] fin assms only_sw_fields(2) [OF fin(3)]
    by (simp add: conn_inv_def stream_ok_def)
  then show ?thesis
    using makeseg_reply(2) [OF D(1,3)] fin assms by (simp add: receive_fin_def conn_inv_def)
qed

lemma expected_ackno_eq:
  assumes "ntohl (sg_seqno e) = word_of_int a" "0 \<le> a" "seg_ok e" "a + data_len e < 2 ^ 31"
  shows "expected_ackno e = a + data_len e"
proof -
  have "0 \<le> data_len e" using assms(3) by (simp add: data_len_ok)
  then have "sint (word_of_int (a + data_len e) :: u32) = a + data_len e"
    using assms(2,4) by (simp only: sint_sbintrunc') (simp add: signed_take_bit_int_eq_self_iff)
  then show ?thesis using assms(1) by (simp add: expected_ackno_def add.commute)
qed

lemma sint_u32_less: "sint (x :: u32) < 2 ^ 31"
  using sint_lt [of x] by simp

lemma window_head:
  assumes "conn_inv (st, s)" "sw_segments (st_sw st) = e # es"
  shows "expected_ackno e = sw_seqno (st_sw st) - sw_size (st_sw st) + data_len e" "0 \<le> data_len e"
    "0 < sw_seqno (st_sw st) - sw_size (st_sw st)"
proof -
  have inv: "tcp_inv st" "stream_ok st" using assms(1) by (auto simp: conn_inv_def)
  let ?a = "sw_seqno (st_sw st) - sw_size (st_sw st)"
  have c: "contiguous ?a (e # es) (sw_seqno (st_sw st))" "sw_seqno (st_sw st) < 2 ^ 31" "0 < ?a"
    using inv(2) assms(2) by (auto simp: stream_ok_def)
  have ok: "\<forall>g \<in> set (e # es). seg_ok g" using tcp_invD(2) [OF inv(1)] assms(2) by (simp add: sent_ok_def)
  note B = chain_bounds [OF c(1,2) ok]
  show "expected_ackno e = ?a + data_len e"
    using expected_ackno_eq [of e ?a] c B ok by simp
  show "0 \<le> data_len e" "0 < ?a" by (fact B c)+
qed

lemma ack_inv:
  assumes "conn_inv (st, s)"
  shows "\<exists>st'. receive_ack (st, s) g = Inr (st', s) \<and> conn_inv (st', s)"
proof (cases "sw_segments (st_sw st)")
  case Nil
  then show ?thesis using assms by (simp add: receive_ack_def)
next
  case (Cons e es)
  have inv: "tcp_inv st" "stream_ok st" using assms by (auto simp: conn_inv_def)
  let ?r = "sint (ntohl (sg_ackno g))"
  have "conn_inv (upd_sw (\<lambda>w. restart_timer (clock s) (slide ?r w)) st, s)" if "expected_ackno e \<le> ?r"
    using slide_stream [OF inv(2,1)] window_head [OF assms Cons] that slide_ok restart_timer_ok inv(1)
      sint_u32_less [of "ntohl (sg_ackno g)"]
    by (auto simp: conn_inv_def tcp_inv_def quiet_def)
  then show ?thesis using receive_ack_ok [OF inv(1)] Cons assms by simp
qed

lemma conn_inv_upd:
  "conn_inv (upd_sw (\<lambda>w. w\<lparr>recv_win_size := n\<rparr>) st, s) = conn_inv (st, s)"
  "conn_inv (st\<lparr>timer_teardown := t\<rparr>, s) = conn_inv (st, s)"
  by (simp_all add: conn_inv_def tcp_inv_def stream_ok_def window_ok_def quiet_def)

lemma expected_inv:
  assumes "conn_inv (st, s)" "seg_ok g" "sg_data g \<noteq> []"
    "ntohl (sg_seqno g) = word_of_int (rw_ackno (st_rw st))" "rw_ackno (st_rw st) + data_len g < 2 ^ 31"
  shows "\<exists>t. receive_expected (st, s) g = Inr t \<and> conn_inv t"
proof -
  have inv: "tcp_inv st" "stream_ok st" "0 \<le> rw_ackno (st_rw st)"
    using assms(1) by (auto simp: conn_inv_def stream_ok_def)
  obtain r c s' where o: "conn_output (st_conn st) (send_out (reply (advance g st) s TH_ACK) s) (sg_data g)
      (min (conn_bufspace (st_conn st)) (length (sg_data g))) = Inr (r, c, s')" "\<not> delete_me c"
    using conn_output_total [OF tcp_invD(1) [OF inv(1)], of _ "sg_data g"] by (metis min.cobounded2)
  have "conn_inv ((advance g st)\<lparr>st_conn := c\<rparr>, s')"
    using inv o(2) assms(2) by (auto simp: conn_inv_def tcp_inv_def quiet_def stream_ok_def advance_def data_len_ok)
  then show ?thesis
    using receive_expected_ok [OF inv(1) assms(2,3,4) inv(3) assms(5)] o(1) by simp
qed

lemma data_inv:
  assumes "conn_inv (st, s)" "seg_ok g" "sg_data g \<noteq> []" "rw_ackno (st_rw st) + data_len g < 2 ^ 31"
  shows "(\<exists>t. receive_data (st, s) g len = Inr t \<and> conn_inv t) \<or>
    receive_data (st, s) g len = Inl NullDeref \<and> word_of_int (rw_ackno (st_rw st)) < ntohl (sg_seqno g) \<and> fits len st"
proof -
  have inv: "tcp_inv st" "0 \<le> rw_ackno (st_rw st)" using assms(1) by (auto simp: conn_inv_def stream_ok_def)
  have "conn_inv (st, send_out (reply st s TH_ACK) s)" using assms(1) by (simp add: conn_inv_def)
  then show ?thesis
    using receive_data_ok [OF inv(1) assms(2,3) inv(2) assms(4)] expected_inv [OF assms(1,2,3) _ assms(4)] assms(1)
    by (auto simp: not_less_iff_gr_or_eq)
qed

lemma control_inv:
  assumes "conn_inv (st, s)"
  shows "\<exists>t. rbind (receive_fin (st, s) g len) (\<lambda>(st, s).
    let force_ack = is_fin_ack g len;
        st = (if force_ack then st\<lparr>timer_teardown := clock s\<rparr> else st)
    in if sg_flags g AND TH_ACK \<noteq> 0 \<or> force_ack then receive_ack (st, s) g else Inr (st, s)) = Inr t \<and> conn_inv t"
proof -
  obtain st1 s1 where fin: "receive_fin (st, s) g len = Inr (st1, s1)" "conn_inv (st1, s1)"
    using receive_fin_inv [OF assms] by blast
  let ?st = "if is_fin_ack g len then st1\<lparr>timer_teardown := clock s1\<rparr> else st1"
  have c: "conn_inv (?st, s1)" using fin(2) conn_inv_upd(2) by simp
  then obtain st2 where "receive_ack (?st, s1) g = Inr (st2, s1)" "conn_inv (st2, s1)"
    using ack_inv by blast
  then show ?thesis using fin(1) c by (auto simp: Let_def)
qed

definition set_peer_window :: "ctcp_segment \<Rightarrow> ctcp_state \<Rightarrow> ctcp_state" where
  "set_peer_window g st = upd_sw (\<lambda>w. w\<lparr>recv_win_size := int (unat (ntohs (sg_window g)))\<rparr>) st"

lemma set_peer_window_fields [simp]:
  "st_rw (set_peer_window g st) = st_rw st" "st_conn (set_peer_window g st) = st_conn st"
  "sw_segments (st_sw (set_peer_window g st)) = sw_segments (st_sw st)"
  "sw_seqno (st_sw (set_peer_window g st)) = sw_seqno (st_sw st)"
  "sw_size (st_sw (set_peer_window g st)) = sw_size (st_sw st)"
  "send_buf_len (set_peer_window g st) = send_buf_len st"
  "conn_inv (set_peer_window g st, s) = conn_inv (st, s)"
  "fits len (set_peer_window g st) = fits len st"
  using conn_inv_upd(1) by (simp_all add: set_peer_window_def fits_def)

lemma receive_payload:
  assumes "seg_ok g" "verifies g" "sg_data g \<noteq> []"
  defines "len \<equiv> word_of_nat (length (seg_bytes g)) :: u64"
  shows "ctcp_receive (st, s) g len = receive_data (set_peer_window g st, s) (g\<lparr>sg_cksum := 0\<rparr>) len"
  using assms no_payload_iff [OF assms(1)]
  by (simp add: ctcp_receive_def checksum_ok receive_fin_def is_fin_ack_def Let_def set_peer_window_def)

lemma receive_control:
  assumes "seg_ok g" "verifies g" "sg_data g = []"
  defines "len \<equiv> word_of_nat (length (seg_bytes g)) :: u64"
  shows "ctcp_receive (st, s) g len =
    rbind (receive_fin (set_peer_window g st, s) (g\<lparr>sg_cksum := 0\<rparr>) len) (\<lambda>(st, s).
      let force_ack = is_fin_ack (g\<lparr>sg_cksum := 0\<rparr>) len;
          st = (if force_ack then st\<lparr>timer_teardown := clock s\<rparr> else st)
      in if sg_flags (g\<lparr>sg_cksum := 0\<rparr>) AND TH_ACK \<noteq> 0 \<or> force_ack
         then receive_ack (st, s) (g\<lparr>sg_cksum := 0\<rparr>) else Inr (st, s))"
  using assms no_payload_iff [OF assms(1)]
  by (simp add: ctcp_receive_def checksum_ok Let_def set_peer_window_def)

lemma receive_corrupted:
  "seg_ok g \<Longrightarrow> \<not> verifies g \<Longrightarrow> ctcp_receive t g len = Inr t"
  by (simp add: ctcp_receive_def checksum_ok)

lemma receive_inv:
  assumes inv: "conn_inv (st, s)" and ok: "seg_ok g" and range: "rw_ackno (st_rw st) + data_len g < 2 ^ 31"
  defines "len \<equiv> word_of_nat (length (seg_bytes g)) :: u64"
  shows "(\<exists>t. ctcp_receive (st, s) g len = Inr t \<and> conn_inv t) \<or>
    ctcp_receive (st, s) g len = Inl NullDeref \<and> verifies g \<and> sg_data g \<noteq> [] \<and>
    word_of_int (rw_ackno (st_rw st)) < ntohl (sg_seqno g) \<and> fits len st"
proof -
  have c: "conn_inv (set_peer_window g st, s)" using inv by simp
  consider "\<not> verifies g" | "verifies g" "sg_data g = []" | "verifies g" "sg_data g \<noteq> []" by blast
  then show ?thesis
  proof cases
    case 1
    then show ?thesis using inv receive_corrupted [OF ok] by simp
  next
    case 2
    have "\<exists>t. ctcp_receive (st, s) g len = Inr t \<and> conn_inv t"
      using control_inv [OF c, of "g\<lparr>sg_cksum := 0\<rparr>" len] receive_control [OF ok 2] unfolding len_def by metis
    then show ?thesis by blast
  next
    case 3
    then show ?thesis
      using data_inv [OF c, of "g\<lparr>sg_cksum := 0\<rparr>" len] receive_payload [OF ok 3, of st s] ok range
      by (simp add: len_def)
  qed
qed

lemma receive_future_faults:
  assumes inv: "conn_inv (st, s)" and ok: "seg_ok g" and range: "rw_ackno (st_rw st) + data_len g < 2 ^ 31"
    and v: "verifies g" and data: "sg_data g \<noteq> []"
    and ahead: "word_of_int (rw_ackno (st_rw st)) < ntohl (sg_seqno g)"
    and fits: "fits (word_of_nat (length (seg_bytes g))) st"
  shows "ctcp_receive (st, s) g (word_of_nat (length (seg_bytes g))) = Inl NullDeref"
proof -
  have c: "tcp_inv (set_peer_window g st)" "0 \<le> rw_ackno (st_rw st)"
    using inv set_peer_window_fields(7) [of g st s] unfolding conn_inv_def stream_ok_def by auto
  show ?thesis
    using receive_data_ok [OF c(1), of "g\<lparr>sg_cksum := 0\<rparr>"] receive_payload [OF ok v data, of st s]
      ok data c(2) range ahead fits
    by (auto simp: not_less_iff_gr_or_eq)
qed

section \<open>Timers and output\<close>

lemma retrans_ok [tcp_simps]:
  assumes "\<not> delete_me (st_conn st)" "sw_segments (st_sw st) = g # gs" "seg_ok g"
  defines "g1 \<equiv> g\<lparr>sg_ackno := htonl (word_of_int (rw_ackno (st_rw st)))\<rparr>"
  defines "g2 \<equiv> g1\<lparr>sg_cksum := cksum (seg_bytes g1)\<rparr>"
  shows "ctcp_retrans (st, s) = Inr (upd_sw (\<lambda>w. w\<lparr>sw_segments := g2 # gs, sw_timer := clock s\<rparr>) st,
    s\<lparr>segments_out := segments_out s @ [seg_bytes g2]\<rparr>)"
proof -
  have ok: "seg_ok g1" "seg_ok g2" using assms(3) by (simp_all add: g1_def g2_def)
  have "sg_len g2 = sg_len g1" "sg_len g1 = sg_len g" by (simp_all add: g1_def g2_def)
  then show ?thesis
    using seg_cksum_ok [OF ok(1)] conn_send_ok [OF assms(1) ok(2)] assms(2)
    by (simp add: ctcp_retrans_def Let_def flip: g1_def g2_def)
qed

lemma retrans_inv:
  assumes "conn_inv (st, s)"
  shows "\<exists>t. ctcp_retrans (upd_sw (\<lambda>w. w\<lparr>retrans_counter := n, sw_timer := now\<rparr>) st, s) = Inr t \<and> conn_inv t"
proof (cases "sw_segments (st_sw st)")
  case Nil
  then show ?thesis
    using assms by (simp add: ctcp_retrans_def conn_inv_def tcp_inv_def window_ok_def quiet_def stream_ok_def)
next
  case (Cons g gs)
  note D = tcp_invD [of st]
  let ?st = "upd_sw (\<lambda>w. w\<lparr>retrans_counter := n, sw_timer := now\<rparr>) st"
  have g: "\<not> delete_me (st_conn ?st)" "sw_segments (st_sw ?st) = g # gs" "seg_ok g"
    using assms D(1,2) Cons by (auto simp: conn_inv_def sent_ok_def)
  show ?thesis
    using retrans_ok [OF g, of s] assms Cons cksum_nonzero
    by (auto simp: conn_inv_def tcp_inv_def window_ok_def quiet_def stream_ok_def sent_ok_def)
qed

lemma timer_inv:
  assumes "conn_inv (st, s)"
  shows "\<exists>destroy t. timer_check (st, s) = Inr (destroy, t) \<and> conn_inv t"
proof -
  have eq: "upd_sw (\<lambda>w. w\<lparr>retrans_counter := retrans_counter w + 1, sw_timer := clock s\<rparr>) st =
      upd_sw (\<lambda>w. w\<lparr>retrans_counter := retrans_counter (st_sw st) + 1, sw_timer := clock s\<rparr>) st"
    by (simp add: upd_sw_def)
  show ?thesis
    unfolding timer_check_def Let_def prod.case eq
    using assms retrans_inv [OF assms, of "clock s" "retrans_counter (st_sw st) + 1"] by auto
qed

lemma output_quiet: "conn_inv (st, s) \<Longrightarrow> ctcp_output (st, s) = Inr (st, s)"
  by (cases st; cases "st_rw st") (auto simp: ctcp_output_def conn_inv_def tcp_inv_def quiet_def upd_rw_def)

lemma drain_inv:
  assumes "conn_inv (st, s)" "conn_drain (st_conn st) s = (out, c, s')"
  shows "conn_inv (st\<lparr>st_conn := c\<rparr>, s')"
proof -
  have "delete_me c = delete_me (st_conn st)"
    using assms(2) by (auto simp: conn_drain_def Let_def split: if_splits prod.splits)
  then show ?thesis using assms(1) by (simp add: conn_inv_def tcp_inv_def quiet_def stream_ok_def)
qed

lemma tcp_init_inv:
  assumes "ctcp_init s (Some c) cfg [] = Some [st]" "\<not> delete_me c"
  shows "conn_inv (st, s)"
  using assms
  by (auto simp: ctcp_init_def conn_inv_def tcp_inv_def window_ok_def quiet_def stream_ok_def)

lemma step_inv: "tcp_step t t' \<Longrightarrow> conn_inv t \<Longrightarrow> conn_inv t'"
proof (induction rule: tcp_step.induct)
  case (read st s t)
  then show ?case using read_inv [of st s] read_defined [of st s t] by auto
next
  case (receive g st s t)
  then show ?case using receive_inv [of st s g] by auto
next
  case (timer st s t)
  then show ?case using timer_inv [of st s] by auto
next
  case (drain st s outputted c s')
  then show ?case using drain_inv by blast
next
  case (deliver st s t)
  then show ?case using output_quiet by auto
next
  case (environment st s s')
  then show ?case by (simp add: conn_inv_def)
qed

lemma reachable_inv: "tcp_reachable t \<Longrightarrow> conn_inv t"
  by (induction rule: tcp_reachable.induct) (auto intro: tcp_init_inv step_inv)

inductive_cases tcp_stepE: "tcp_step (st, s) t"

end
