(* ===== verification/Ctcp_Properties.thy ===== *)
theory Ctcp_Properties
  imports Ctcp_Invariant
begin

text \<open>
  What a cTCP connection promises: flow control and safety of its events, in-order delivery, the
  treatment of corrupted, repeated and early segments, cumulative acknowledgement, and the transfer of data
  from one host to the other.
\<close>

section \<open>Flow control and safety\<close>

text \<open>
  C21: in every state a connection can reach, the bytes in flight are exactly the data of the queued
  segments, at most the configured send window, and a contiguous piece of the byte stream that ends at
  the next sequence number; every queued segment has been transmitted; and the receive window is empty
  between two events.
\<close>

theorem tcp_flow_control:
  assumes "tcp_reachable (st, s)"
  shows "sw_size (st_sw st) = (\<Sum>g\<leftarrow>sw_segments (st_sw st). int (length (sg_data g))) \<and>
    sw_size (st_sw st) \<le> sw_max_size (st_sw st) \<and>
    contiguous (sw_seqno (st_sw st) - sw_size (st_sw st)) (sw_segments (st_sw st)) (sw_seqno (st_sw st)) \<and>
    (\<forall>g \<in> set (sw_segments (st_sw st)). sg_cksum g \<noteq> 0) \<and>
    rw_segments (st_rw st) = [] \<and> rw_size (st_rw st) = 0"
proof -
  have inv: "tcp_inv st" "stream_ok st" using reachable_inv [OF assms] by (auto simp: conn_inv_def)
  note D = tcp_invD [OF inv(1)]
  have "in_flight gs = (\<Sum>g\<leftarrow>gs. int (length (sg_data g)))" if "\<forall>g \<in> set gs. sent_ok g" for gs
    using that by (induction gs) (auto simp: sent_ok_def data_len_ok)
  then show ?thesis using D inv(2) by (auto simp: sent_ok_def stream_ok_def)
qed

definition example_config :: ctcp_config where
  "example_config = \<lparr>cfg_recv_window = 1440, cfg_send_window = 1440, cfg_timer = 40, cfg_rt_timeout = 200\<rparr>"

definition fresh_state :: ctcp_state where
  "fresh_state = hd (the (ctcp_init example_sys (Some example_conn) example_config []))"

lemma fresh_reachable: "tcp_reachable (fresh_state, example_sys)"
  by (rule tcp_reachable.init [where c = example_conn and cfg = example_config])
     (simp_all add: fresh_state_def ctcp_init_def example_conn_def)

definition overlong_line :: "ctcp_state \<Rightarrow> sys \<Rightarrow> bool" where
  \<comment> \<open>line endings are converted, a full segment can be sent, and the next read gets 1439 bytes that end in a newline\<close>
  "overlong_line st s \<longleftrightarrow> \<not> run_program s \<and> \<not> unix_socket s \<and> \<not> read_eof (st_conn st) \<and> read_size st = 1440 \<and>
     (\<exists>bs s'. sys_read s 1439 = (Got bs, s') \<and> length bs = 1439 \<and> last bs = 10)"

lemma overlong_line_iff: "tcp_inv st \<Longrightarrow> read_overruns st s = overlong_line st s"
proof -
  assume "tcp_inv st"
  then have "length (send_buf st) = 1440" using tcp_invD(4) by (simp add: MAX_SEG_DATA_SIZE_def)
  moreover have "nat (read_size st) = 1440 \<longleftrightarrow> read_size st = 1440" by auto
  ultimately show ?thesis
    by (cases "sys_read s 1439"; cases "fst (sys_read s 1439)")
      (auto simp: read_overruns_def line_overruns_def overlong_line_def)
qed

definition early :: "ctcp_state \<Rightarrow> ctcp_segment \<Rightarrow> bool" where
  \<comment> \<open>a valid data segment that fits the receive window and starts beyond the acknowledgement number\<close>
  "early st g \<longleftrightarrow> verifies g \<and> sg_data g \<noteq> [] \<and> word_of_int (rw_ackno (st_rw st)) < ntohl (sg_seqno g) \<and>
     fits (word_of_nat (length (seg_bytes g))) st"

text \<open>
  C22: when the events of a connection end the process.  In every reachable state, as long as sequence numbers stay below
  \<open>2 ^ 31\<close>: the timer and the delivery of output always run to completion.  Reading does, unless line endings are
  converted and a line of 1439 bytes with its newline is read into the buffer of 1440, which writes behind it; then it
  always faults.  A received segment (with a length field that agrees with its memory) ends the process exactly when its
  checksum verifies, it carries data that fits the receive window, and it lies beyond the acknowledgement number, because
  the search for its place starts from the null first node of an empty list.
\<close>

theorem tcp_events_safe:
  assumes "tcp_reachable (st, s)" "sw_seqno (st_sw st) < 2 ^ 31 - 1440"
    "seg_ok g" "rw_ackno (st_rw st) + data_len g < 2 ^ 31"
  shows "(case ctcp_read (st, s) of
       Inl e \<Rightarrow> e = OutOfBounds \<and> overlong_line st s | Inr t \<Rightarrow> \<not> overlong_line st s) \<and>
    (\<exists>d t. timer_check (st, s) = Inr (d, t)) \<and> (\<exists>t. ctcp_output (st, s) = Inr t) \<and>
    (case ctcp_receive (st, s) g (word_of_nat (length (seg_bytes g))) of
       Inl e \<Rightarrow> e = NullDeref \<and> early st g | Inr t \<Rightarrow> \<not> early st g)"
proof -
  have inv: "conn_inv (st, s)" using reachable_inv [OF assms(1)] .
  have "ctcp_receive (st, s) g (word_of_nat (length (seg_bytes g))) = Inl NullDeref" if "early st g"
    using receive_future_faults [OF inv assms(3,4)] that unfolding early_def by blast
  moreover have "(\<exists>t. ctcp_receive (st, s) g (word_of_nat (length (seg_bytes g))) = Inr t) \<or>
      ctcp_receive (st, s) g (word_of_nat (length (seg_bytes g))) = Inl NullDeref \<and> early st g"
    using receive_inv [OF inv assms(3,4)] unfolding early_def by blast
  ultimately have "case ctcp_receive (st, s) g (word_of_nat (length (seg_bytes g))) of
       Inl e \<Rightarrow> e = NullDeref \<and> early st g | Inr t \<Rightarrow> \<not> early st g"
    by (auto split: sum.split)
  moreover have "case ctcp_read (st, s) of Inl e \<Rightarrow> e = OutOfBounds \<and> overlong_line st s | Inr t \<Rightarrow> \<not> overlong_line st s"
  proof (cases "overlong_line st s")
    case True
    then show ?thesis using ctcp_read_overruns [of st s] inv overlong_line_iff [of st s] by (simp add: conn_inv_def)
  next
    case False
    then show ?thesis using read_inv [OF inv _ assms(2)] inv overlong_line_iff [of st s] by (auto simp: conn_inv_def)
  qed
  ultimately show ?thesis using timer_inv [OF inv] output_quiet [OF inv] by blast
qed

definition example_data :: ctcp_segment where
  \<comment> \<open>a valid segment that carries two bytes at sequence number 1\<close>
  "example_data = seal 1 \<lparr>sg_ptr = 7, sg_seqno = htonl 1, sg_ackno = 0, sg_len = htons 22,
     sg_pad = 0, sg_flags = TH_ACK, sg_window = htons 1440, sg_cksum = 0, sg_data = [104, 105]\<rparr>"

lemma example_data_simps [simp]:
  "seg_ok example_data" "verifies example_data" "sg_data example_data = [104, 105]"
  "data_len example_data = 2" "ntohl (sg_seqno example_data) = 1"
proof -
  show "seg_ok example_data" by (simp add: example_data_def) (simp add: seg_ok_def)
  then show "data_len example_data = 2" by (simp add: data_len_ok) (simp add: example_data_def)
qed (simp_all add: example_data_def verifies_seal)

lemma fresh_fields [simp]:
  "rw_ackno (st_rw fresh_state) = 1" "sw_seqno (st_sw fresh_state) = 1" "st_conn fresh_state = example_conn"
  "rw_max_size (st_rw fresh_state) = 1440" "sw_max_size (st_sw fresh_state) = 1440"
  by (simp_all add: fresh_state_def ctcp_init_def example_config_def)

lemma fresh_room: "read_size fresh_state = 1440"
  by (simp add: read_size_def fresh_state_def ctcp_init_def example_config_def MAX_SEG_DATA_SIZE_def)

lemma tcp_events_safe_witness:
  "(\<exists>t. ctcp_read (fresh_state, example_sys) = Inr t) \<and>
   ctcp_read (fresh_state, example_sys\<lparr>unix_socket := False, reads := [Got (replicate 1438 97 @ [10])]\<rparr>) = Inl OutOfBounds \<and>
   (\<exists>t. ctcp_receive (fresh_state, example_sys) example_data
          (word_of_nat (length (seg_bytes example_data))) = Inr t)"
proof -
  let ?s = "example_sys\<lparr>unix_socket := False, reads := [Got (replicate 1438 97 @ [10])]\<rparr>"
  have long: "overlong_line fresh_state ?s"
    using fresh_room by (simp add: overlong_line_def example_sys_def sys_read_def example_conn_def)
  have short: "\<not> overlong_line fresh_state example_sys" by (simp add: overlong_line_def example_sys_def)
  have "tcp_reachable (fresh_state, ?s)" by (rule tcp_reachable.step [OF fresh_reachable tcp_step.environment])
  then show ?thesis
    using tcp_events_safe [OF fresh_reachable, of example_data] tcp_events_safe [of fresh_state ?s example_data] long short
    by (auto simp: early_def split: sum.splits)
qed

section \<open>Received data\<close>

lemma fits_iff:
  assumes "tcp_inv st" "seg_ok g" "0 \<le> rw_max_size (st_rw st)" "rw_max_size (st_rw st) < 2 ^ 31"
  shows "fits (word_of_nat (length (seg_bytes g))) st \<longleftrightarrow> int (length (sg_data g)) \<le> rw_max_size (st_rw st)"
proof -
  have "(word_of_nat (length (seg_bytes g)) - word_of_nat SEG_HEADER_SIZE :: u64) = word_of_nat (length (sg_data g))"
    by (simp add: SEG_HEADER_SIZE_def)
  moreover have "uint (word_of_nat (length (sg_data g)) :: u64) = int (length (sg_data g))"
    using seg_ok_data [OF assms(2)]
    by (simp only: unsigned_of_nat) (simp add: take_bit_nat_eq_self_iff take_bit_int_eq_self_iff)
  moreover have "uint (word_of_int (rw_max_size (st_rw st)) :: u64) = rw_max_size (st_rw st)"
    using assms(3,4) by (simp only: uint_word_of_int take_bit_int_eq_self_iff) simp
  ultimately show ?thesis
    using tcp_invD(6) [OF assms(1)] by (simp add: fits_def word_le_def)
qed

lemma sys_write_segments: "sys_write s bs = (r, s') \<Longrightarrow> segments_out s' = segments_out s"
  by (auto simp: sys_write_def Let_def split: list.splits write_result.splits)

lemma conn_output_segments:
  assumes "conn_output c s buf n = Inr (r, c', s')"
  shows "segments_out s' = segments_out s"
proof -
  obtain w s1 where w: "sys_write s (take n buf) = (w, s1)" by fastforce
  then have "segments_out s1 = segments_out s" by (rule sys_write_segments)
  then show ?thesis
    using assms w by (cases w) (auto simp: conn_output_def rd_def slice_def Let_def split: if_splits)
qed

definition can_write :: "conn \<Rightarrow> nat \<Rightarrow> bool" where
  "can_write c n \<longleftrightarrow> \<not> wrote_eof c \<and> \<not> wrote_err c \<and> n \<le> conn_bufspace c"

definition expected :: "ctcp_state \<Rightarrow> ctcp_segment \<Rightarrow> bool" where
  \<comment> \<open>a valid data segment that starts at the acknowledgement number and fits the receive window\<close>
  "expected st g \<longleftrightarrow> seg_ok g \<and> verifies g \<and> sg_data g \<noteq> [] \<and>
     ntohl (sg_seqno g) = word_of_int (rw_ackno (st_rw st)) \<and>
     rw_ackno (st_rw st) + int (length (sg_data g)) < 2 ^ 31 \<and>
     int (length (sg_data g)) \<le> rw_max_size (st_rw st) \<and> rw_max_size (st_rw st) < 2 ^ 31"

definition ack_for :: "int \<Rightarrow> ctcp_segment \<Rightarrow> bool" where
  \<comment> \<open>a valid acknowledgement of everything below \<open>a\<close>\<close>
  "ack_for a k \<longleftrightarrow> seg_ok k \<and> verifies k \<and> sg_data k = [] \<and> sg_flags k = TH_ACK \<and> ntohl (sg_ackno k) = word_of_int a"

lemma ack_for_reply: "send_buf_len st = 0 \<Longrightarrow> ack_for (rw_ackno (st_rw st)) (reply st s TH_ACK)"
  by (simp add: ack_for_def reply_ok reply_verifies)

lemma deliver_expected:
  assumes inv: "conn_inv (st, s)" and exp: "expected st g" and out: "can_write (st_conn st) (length (sg_data g))"
  defines "a \<equiv> rw_ackno (st_rw st) + int (length (sg_data g))"
  shows "\<exists>st' s' k. ctcp_receive (st, s) g (word_of_nat (length (seg_bytes g))) = Inr (st', s') \<and>
    rw_ackno (st_rw st') = a \<and> segments_out s' = segments_out s @ [seg_bytes k] \<and> ack_for a k \<and>
    (delivered (st_conn st') s' = delivered (st_conn st) s @ sg_data g \<or> wrote_err (st_conn st')) \<and>
    conn_inv (st', s')"
proof -
  let ?st = "set_peer_window g st" and ?g = "g\<lparr>sg_cksum := 0\<rparr>"
  have c: "conn_inv (?st, s)" using inv by simp
  then have t: "tcp_inv ?st" "tcp_inv st" "0 \<le> rw_ackno (st_rw st)"
    using inv unfolding conn_inv_def stream_ok_def by auto
  have g: "seg_ok g" "verifies g" "sg_data g \<noteq> []" "ntohl (sg_seqno g) = word_of_int (rw_ackno (st_rw st))"
    "rw_ackno (st_rw st) + data_len g < 2 ^ 31" "int (length (sg_data g)) \<le> rw_max_size (st_rw st)"
    "rw_max_size (st_rw st) < 2 ^ 31"
    using exp by (auto simp: expected_def data_len_ok)
  have fit: "fits (word_of_nat (length (seg_bytes g))) ?st"
    using fits_iff [OF t(2) g(1) _ g(7)] g(6) by simp
  let ?st1 = "advance ?g ?st" and ?n = "length (sg_data g)"
  let ?k = "reply ?st1 s TH_ACK"
  have ack: "rw_ackno (st_rw ?st1) = a" using g(1) by (simp add: advance_def a_def data_len_ok)
  have k: "ack_for a ?k" using ack_for_reply [of ?st1 s] ack tcp_invD(3) [OF t(2)] by (simp add: advance_def)
  have del: "\<not> delete_me (st_conn st)" using tcp_invD(1) [OF t(2)] .
  obtain r c' s' where o: "conn_output (st_conn st) (send_out ?k s) (sg_data g) ?n = Inr (r, c', s')"
      "r = int ?n \<and> delivered c' s' = delivered (st_conn st) (send_out ?k s) @ take ?n (sg_data g) \<or>
       r = -1 \<and> wrote_err c' \<and> delivered c' s' = delivered (st_conn st) (send_out ?k s)"
    using conn_output_stream [OF del, of ?n "sg_data g" "send_out ?k s"] out g(3) unfolding can_write_def by auto
  have "min (conn_bufspace (st_conn st)) ?n = ?n" using out by (simp add: can_write_def)
  then have "receive_expected (?st, s) ?g = Inr (?st1\<lparr>st_conn := c'\<rparr>, s')"
    using receive_expected_ok [OF t(1), of ?g s] g t(3) o(1) by simp
  moreover have "receive_data (?st, s) ?g (word_of_nat (length (seg_bytes g))) = receive_expected (?st, s) ?g"
    using receive_data_ok [OF t(1), of ?g] g t(3) fit by simp
  ultimately have run: "ctcp_receive (st, s) g (word_of_nat (length (seg_bytes g))) = Inr (?st1\<lparr>st_conn := c'\<rparr>, s')"
    using receive_payload [OF g(1,2,3)] by simp
  moreover have "conn_inv (?st1\<lparr>st_conn := c'\<rparr>, s')" using receive_inv [OF inv g(1,5)] run by simp
  ultimately show ?thesis
    using ack k o conn_output_segments [OF o(1)] by (auto simp: delivered_def)
qed

text \<open>
  In-order delivery: a valid segment with the expected sequence number is taken completely; its bytes are appended
  to the output stream of the connection (unless the write itself fails), the acknowledgement number
  moves past them, and exactly one segment is sent, a valid acknowledgement of the new number.
\<close>

theorem tcp_in_order_delivery:
  assumes "tcp_reachable (st, s)" "expected st g" "can_write (st_conn st) (length (sg_data g))"
  shows "\<exists>st' s' k. ctcp_receive (st, s) g (word_of_nat (length (seg_bytes g))) = Inr (st', s') \<and>
    rw_ackno (st_rw st') = rw_ackno (st_rw st) + int (length (sg_data g)) \<and>
    segments_out s' = segments_out s @ [seg_bytes k] \<and> ack_for (rw_ackno (st_rw st')) k \<and>
    (delivered (st_conn st') s' = delivered (st_conn st) s @ sg_data g \<or> wrote_err (st_conn st'))"
  using deliver_expected [OF reachable_inv [OF assms(1)] assms(2,3)] by auto

lemma example_expected: "expected fresh_state example_data" "can_write example_conn 2"
  by (simp_all add: expected_def can_write_def example_conn_def conn_bufspace_def MAX_BUF_SPACE_def)

lemma tcp_in_order_delivery_witness:
  "\<exists>st' s'. ctcp_receive (fresh_state, example_sys) example_data (word_of_nat (length (seg_bytes example_data))) =
     Inr (st', s') \<and> rw_ackno (st_rw st') = 3 \<and>
     (delivered (st_conn st') s' = [104, 105] \<or> wrote_err (st_conn st'))"
proof -
  have "can_write (st_conn fresh_state) (length (sg_data example_data))"
    using example_expected(2) by (simp add: numeral_2_eq_2)
  moreover have "delivered example_conn example_sys = []"
    by (simp add: delivered_def example_conn_def example_sys_def)
  ultimately show ?thesis
    using tcp_in_order_delivery [OF fresh_reachable example_expected(1)] by fastforce
qed

text \<open>
  Segments that must not be delivered are not: a segment whose checksum does not verify changes nothing; a valid
  data segment below the acknowledgement number only updates the peer's window and is answered with one
  acknowledgement of the current number.
\<close>

theorem tcp_no_second_delivery:
  assumes "tcp_reachable (st, s)" "seg_ok g" "rw_ackno (st_rw st) + data_len g < 2 ^ 31"
  shows "(\<not> verifies g \<longrightarrow> ctcp_receive (st, s) g (word_of_nat (length (seg_bytes g))) = Inr (st, s)) \<and>
    (verifies g \<and> sg_data g \<noteq> [] \<and> ntohl (sg_seqno g) < word_of_int (rw_ackno (st_rw st)) \<longrightarrow>
      (\<exists>st' s' k. ctcp_receive (st, s) g (word_of_nat (length (seg_bytes g))) = Inr (st', s') \<and>
        st' = st\<lparr>st_sw := (st_sw st)\<lparr>recv_win_size := int (unat (ntohs (sg_window g)))\<rparr>\<rparr> \<and>
        segments_out s' = segments_out s @ [seg_bytes k] \<and> ack_for (rw_ackno (st_rw st)) k \<and>
        stdout s' = stdout s))"
proof (intro conjI impI)
  assume "\<not> verifies g"
  then show "ctcp_receive (st, s) g (word_of_nat (length (seg_bytes g))) = Inr (st, s)"
    using receive_corrupted [OF assms(2)] by simp
next
  assume g: "verifies g \<and> sg_data g \<noteq> [] \<and> ntohl (sg_seqno g) < word_of_int (rw_ackno (st_rw st))"
  let ?st = "set_peer_window g st"
  have inv: "conn_inv (st, s)" using reachable_inv [OF assms(1)] .
  then have c: "conn_inv (?st, s)" by simp
  then have t: "tcp_inv ?st" "0 \<le> rw_ackno (st_rw ?st)" by (auto simp: conn_inv_def stream_ok_def)
  have "ctcp_receive (st, s) g (word_of_nat (length (seg_bytes g))) = Inr (?st, send_out (reply ?st s TH_ACK) s)"
    using receive_payload [OF assms(2), of st s] receive_data_ok [OF t(1), of "g\<lparr>sg_cksum := 0\<rparr>"] g t(2) assms(2,3)
    by simp
  then show "\<exists>st' s' k. ctcp_receive (st, s) g (word_of_nat (length (seg_bytes g))) = Inr (st', s') \<and>
        st' = st\<lparr>st_sw := (st_sw st)\<lparr>recv_win_size := int (unat (ntohs (sg_window g)))\<rparr>\<rparr> \<and>
        segments_out s' = segments_out s @ [seg_bytes k] \<and> ack_for (rw_ackno (st_rw st)) k \<and>
        stdout s' = stdout s"
    using ack_for_reply [of ?st s] tcp_invD(3) [OF t(1)] by (auto simp: set_peer_window_def upd_sw_def)
qed

lemma tcp_no_second_delivery_witness:
  "ctcp_receive (fresh_state, example_sys) (example_data\<lparr>sg_cksum := 0\<rparr>)
     (word_of_nat (length (seg_bytes (example_data\<lparr>sg_cksum := 0\<rparr>)))) = Inr (fresh_state, example_sys)"
proof -
  have "\<not> verifies (example_data\<lparr>sg_cksum := 0\<rparr>)"
    using cksum_nonzero [of "seg_bytes (example_data\<lparr>sg_cksum := 0\<rparr>)"] by (simp add: verifies_def)
  then show ?thesis
    using tcp_no_second_delivery [OF fresh_reachable, of "example_data\<lparr>sg_cksum := 0\<rparr>"] by simp
qed

section \<open>Acknowledgements\<close>

definition base :: "ctcp_state \<Rightarrow> int" where
  \<comment> \<open>the lowest sequence number in flight\<close>
  "base st = sw_seqno (st_sw st) - sw_size (st_sw st)"

lemma sint_word_of_int_small: "0 \<le> r \<Longrightarrow> r < 2 ^ 31 \<Longrightarrow> sint (word_of_int r :: u32) = r"
  by (simp only: sint_sbintrunc') (simp add: signed_take_bit_int_eq_self_iff)

lemma receive_ack_only:
  assumes "ack_for r k"
  shows "ctcp_receive (st, s) k (word_of_nat (length (seg_bytes k))) =
    receive_ack (set_peer_window k st, s) (k\<lparr>sg_cksum := 0\<rparr>)"
  using assms receive_control [of k st s]
  by (simp add: ack_for_def receive_fin_def is_fin_ack_def TH_ACK_def TH_FIN_def Let_def)

lemma ack_effect:
  assumes inv: "conn_inv (st, s)" and k: "ack_for r k" and r: "0 \<le> r" "r < 2 ^ 31"
  defines "segs \<equiv> sw_segments (st_sw st)"
  shows "\<exists>st' n. ctcp_receive (st, s) k (word_of_nat (length (seg_bytes k))) = Inr (st', s) \<and>
    sw_segments (st_sw st') = drop n segs \<and> sw_seqno (st_sw st') = sw_seqno (st_sw st) \<and>
    (if segs \<noteq> [] \<and> base st + data_len (hd segs) \<le> r
     then base st \<le> base st' \<and> base st' \<le> r \<and>
          (drop n segs \<noteq> [] \<longrightarrow> r < base st' + data_len (hd (drop n segs))) \<and>
          sw_timer (st_sw st') = (if drop n segs = [] then -1 else clock s)
     else st' = set_peer_window k st \<and> n = 0)"
proof -
  let ?st = "set_peer_window k st" and ?k = "k\<lparr>sg_cksum := 0\<rparr>"
  have c: "conn_inv (?st, s)" using inv by simp
  have t: "tcp_inv ?st" "tcp_inv st" "stream_ok st" using inv c unfolding conn_inv_def by auto
  have rk: "sint (ntohl (sg_ackno ?k)) = r" using k r sint_word_of_int_small by (simp add: ack_for_def)
  have run: "ctcp_receive (st, s) k (word_of_nat (length (seg_bytes k))) = Inr
    (case segs of [] \<Rightarrow> ?st
     | e # es \<Rightarrow> if r \<ge> expected_ackno e then upd_sw (\<lambda>w. restart_timer (clock s) (slide r w)) ?st else ?st, s)"
    using receive_ack_only [OF k, of st s] receive_ack_ok [OF t(1), of s ?k] unfolding rk by (simp add: segs_def)
  show ?thesis
  proof (cases "segs \<noteq> [] \<and> base st + data_len (hd segs) \<le> r")
    case True
    then obtain e es where e: "segs = e # es" by (cases segs) auto
    have ex: "expected_ackno e = base st + data_len e" "0 \<le> data_len e" "0 < base st"
      using window_head [OF inv, of e es] e by (auto simp: segs_def base_def)
    have ok: "\<forall>g \<in> set segs. seg_ok g" using tcp_invD(2) [OF t(2)] by (simp add: sent_ok_def segs_def)
    have chain: "contiguous (base st) segs (sw_seqno (st_sw st))" "sw_seqno (st_sw st) < 2 ^ 31"
      using t(3) by (auto simp: stream_ok_def base_def segs_def)
    obtain n a' where n: "filter (\<lambda>g. \<not> acked r g) segs = drop n segs"
        "contiguous a' (drop n segs) (sw_seqno (st_sw st))" "base st \<le> a'" "base st \<le> r \<longrightarrow> a' \<le> r"
        "\<forall>g. drop n segs \<noteq> [] \<and> g = hd (drop n segs) \<longrightarrow> r < a' + data_len g"
      using ack_suffix [OF chain(1) _ r chain(2) ok] ex(3) by fastforce
    have "a' = sw_seqno (st_sw st) - in_flight (drop n segs)" using contiguous_end [OF n(2)] by simp
    then show ?thesis
      using run True e ex n by (auto simp: slide_def restart_timer_def base_def segs_def [symmetric])
  next
    case False
    have "segs = e # es \<Longrightarrow> expected_ackno e = base st + data_len e" for e es
      using window_head(1) [OF inv] by (simp add: segs_def base_def)
    then have "(case segs of [] \<Rightarrow> ?st | e # es \<Rightarrow>
        if r \<ge> expected_ackno e then upd_sw (\<lambda>w. restart_timer (clock s) (slide r w)) ?st else ?st) = ?st"
      using False by (auto split: list.split)
    then show ?thesis
      unfolding if_not_P [OF False] using run by (intro exI [of _ ?st] exI [of _ 0]) (simp add: segs_def)
  qed
qed

text \<open>An acknowledgement of everything sent empties the window.\<close>

lemma ack_all:
  assumes inv: "conn_inv (st, s)" and one: "sw_segments (st_sw st) = [g]" and k: "ack_for (sw_seqno (st_sw st)) k"
    and r: "0 \<le> sw_seqno (st_sw st)" "sw_seqno (st_sw st) < 2 ^ 31"
  shows "\<exists>st'. ctcp_receive (st, s) k (word_of_nat (length (seg_bytes k))) = Inr (st', s) \<and>
    sw_segments (st_sw st') = [] \<and> sw_seqno (st_sw st') = sw_seqno (st_sw st)"
proof -
  have t: "tcp_inv st" using inv by (simp add: conn_inv_def)
  have size: "base st + data_len g = sw_seqno (st_sw st)"
    using tcp_invD(7) [OF t] one by (simp add: base_def)
  obtain st' n where e: "ctcp_receive (st, s) k (word_of_nat (length (seg_bytes k))) = Inr (st', s)"
      "sw_segments (st_sw st') = drop n [g]" "sw_seqno (st_sw st') = sw_seqno (st_sw st)"
      "base st \<le> base st'" "drop n [g] \<noteq> [] \<longrightarrow> sw_seqno (st_sw st) < base st' + data_len (hd (drop n [g]))"
    using ack_effect [OF inv k r] size one by auto
  have "conn_inv (set_peer_window k st, s)" using inv by simp
  from ack_inv [OF this, of "k\<lparr>sg_cksum := 0\<rparr>"] have "conn_inv (st', s)"
    using receive_ack_only [OF k, of st s] e(1) by auto
  then have "tcp_inv st'" by (simp add: conn_inv_def)
  then have "base st' = sw_seqno (st_sw st) - in_flight (drop n [g])"
    using tcp_invD(7) e(2,3) by (simp add: base_def)
  then have "drop n [g] = []" using e(5) by (cases n) auto
  then show ?thesis using e by auto
qed

text \<open>
  Acknowledgements are cumulative: one that covers the first segment in flight removes exactly a
  prefix of the window, so that the lowest sequence number still in flight rises to at most the acknowledged one and
  the first remaining segment is not fully covered; the timer then runs exactly when segments remain.  Any other
  acknowledgement only updates the peer's window.  In neither case is anything sent.
\<close>

theorem tcp_cumulative_ack:
  assumes "tcp_reachable (st, s)" "ack_for r k" "0 \<le> r" "r < 2 ^ 31"
  shows "\<exists>st' n. ctcp_receive (st, s) k (word_of_nat (length (seg_bytes k))) = Inr (st', s) \<and>
    sw_segments (st_sw st') = drop n (sw_segments (st_sw st)) \<and> sw_seqno (st_sw st') = sw_seqno (st_sw st) \<and>
    (if sw_segments (st_sw st) \<noteq> [] \<and> base st + data_len (hd (sw_segments (st_sw st))) \<le> r
     then base st \<le> base st' \<and> base st' \<le> r \<and>
          (drop n (sw_segments (st_sw st)) \<noteq> [] \<longrightarrow>
             r < base st' + data_len (hd (drop n (sw_segments (st_sw st))))) \<and>
          sw_timer (st_sw st') = (if drop n (sw_segments (st_sw st)) = [] then -1 else clock s)
     else st' = set_peer_window k st \<and> n = 0)"
  by (rule ack_effect [OF reachable_inv [OF assms(1)] assms(2-4)])

lemma tcp_cumulative_ack_witness:
  "\<exists>st'. ctcp_receive (fresh_state, example_sys) (reply fresh_state example_sys TH_ACK)
     (word_of_nat (length (seg_bytes (reply fresh_state example_sys TH_ACK)))) = Inr (st', example_sys) \<and>
     sw_segments (st_sw st') = []"
proof -
  have "send_buf_len fresh_state = 0" "sw_segments (st_sw fresh_state) = []"
    by (simp_all add: fresh_state_def ctcp_init_def)
  then have "ack_for 1 (reply fresh_state example_sys TH_ACK)"
    using ack_for_reply [of fresh_state example_sys] by simp
  from tcp_cumulative_ack [OF fresh_reachable this] show ?thesis
    using \<open>sw_segments (st_sw fresh_state) = []\<close> by auto
qed

section \<open>From one host to the other\<close>

definition faithful :: "ctcp_segment \<Rightarrow> ctcp_segment \<Rightarrow> bool" where
  \<comment> \<open>what the network must preserve: every field but address, padding and checksum, and whether it verifies\<close>
  "faithful g g' \<longleftrightarrow> sg_seqno g' = sg_seqno g \<and> sg_ackno g' = sg_ackno g \<and> sg_len g' = sg_len g \<and>
     sg_flags g' = sg_flags g \<and> sg_window g' = sg_window g \<and> sg_data g' = sg_data g \<and> verifies g' = verifies g"

lemma faithful_refl [simp]: "faithful g g"
  by (simp add: faithful_def)

lemma faithfulD:
  assumes "faithful g g'"
  shows "seg_ok g' = seg_ok g" "verifies g' = verifies g" "sg_data g' = sg_data g" "sg_seqno g' = sg_seqno g"
    "sg_flags g' = sg_flags g" "sg_ackno g' = sg_ackno g" "data_len g' = data_len g"
  using assms by (auto simp: faithful_def seg_ok_def data_len_def)

definition input_ready :: "sys \<Rightarrow> int \<Rightarrow> byte list \<Rightarrow> bool" where
  \<comment> \<open>the next read returns exactly these bytes\<close>
  "input_ready s n d \<longleftrightarrow> (run_program s \<or> unix_socket s) \<and> d \<noteq> [] \<and> int (length d) \<le> n \<and>
     (\<exists>rs. reads s = Got d # rs) \<and> \<not> (eof_char s \<and> hd d = 0x1a)"

lemma conn_input_ready:
  assumes "input_ready s n d" "\<not> delete_me c" "\<not> read_eof c" "nat n \<le> length buf"
  shows "conn_input c s buf (nat n) = Inr (int (length d), put buf 0 d, c, s\<lparr>reads := tl (reads s)\<rparr>)"
proof -
  obtain rs where s: "reads s = Got d # rs" using assms(1) unfolding input_ready_def by blast
  have d: "length d \<le> nat n" "d \<noteq> []" "run_program s \<or> unix_socket s" "\<not> (eof_char s \<and> hd d = 0x1a)"
    using assms(1) unfolding input_ready_def by auto
  have r: "read_into s buf 0 (nat n) = Inr (Bytes_read (int (length d)), put buf 0 d, s\<lparr>reads := rs\<rparr>)"
    using s d(1) assms(4) by (simp add: read_into_def sys_read_def wr_def)
  have h: "ld8 (put buf 0 d) 0 = Inr (hd d)"
    using d(1,2) assms(4) by (auto simp: ld8_def get8_def nth_put hd_conv_nth)
  show ?thesis using assms(2,3) d s r h by (auto simp: conn_input_def)
qed

lemma read_effect:
  assumes inv: "conn_inv (st, s)" and ready: "input_ready s (read_size st) d" and eof: "\<not> read_eof (st_conn st)"
    and range: "sw_seqno (st_sw st) < 2 ^ 31 - 1440"
  shows "\<exists>st' s' g. ctcp_read (st, s) = Inr (st', s') \<and> conn_inv (st', s') \<and>
    segments_out s' = segments_out s @ [seg_bytes g] \<and> seg_ok g \<and> verifies g \<and> sg_data g = d \<and>
    ntohl (sg_seqno g) = word_of_int (sw_seqno (st_sw st)) \<and>
    sw_segments (st_sw st') = sw_segments (st_sw st) @ [g] \<and>
    sw_seqno (st_sw st') = sw_seqno (st_sw st) + int (length d) \<and> st_rw st' = st_rw st"
proof -
  have t: "tcp_inv st" using inv by (simp add: conn_inv_def)
  note D = tcp_invD [OF t]
  let ?n = "length d" and ?buf = "put (send_buf st) 0 d" and ?s = "s\<lparr>reads := tl (reads s)\<rparr>"
  have n: "0 < ?n" "int ?n \<le> read_size st" using ready by (auto simp: input_ready_def)
  have k: "?n \<le> MAX_SEG_DATA_SIZE" "nat (read_size st) \<le> length (send_buf st)"
    using n(2) read_size_bound(3) [of st] D(4) by linarith+
  have input: "conn_input (st_conn st) s (send_buf st) (nat (read_size st)) = Inr (int ?n, ?buf, st_conn st, ?s)"
    using conn_input_ready [OF ready D(1) eof k(2)] .
  let ?st = "st\<lparr>st_conn := st_conn st, send_buf := ?buf, send_buf_len := int ?n\<rparr>"
  let ?g = "bare ?st ?s TH_ACK (take ?n ?buf)"
  have take: "take ?n ?buf = d" using k(1) D(4) by (simp add: put_append)
  have ok: "seg_ok ?g" using k(1) take by (intro bare_ok) auto
  let ?st2 = "(upd_sw (enqueue (clock ?s) (rw_ackno (st_rw st)) ?g) ?st)\<lparr>send_buf := put ?buf 0 [0], send_buf_len := 0\<rparr>"
  let ?s2 = "send_out (seal (rw_ackno (st_rw st)) ?g) ?s"
  have "0 < read_size st" "length ?buf = MAX_SEG_DATA_SIZE" using n D(4) by (linarith, simp)
  then have run: "ctcp_read (st, s) = Inr (?st2, ?s2)"
    using ctcp_read_step [OF t _ input n(2)] by simp
  moreover have "\<exists>t. ctcp_read (st, s) = Inr t \<and> conn_inv t"
    using read_inv [OF inv no_line_ending range] ready by (simp add: input_ready_def)
  ultimately show ?thesis
    using ok verifies_seal [of ?g "rw_ackno (st_rw st)"] take
    by (intro exI [of _ ?st2] exI [of _ ?s2] exI [of _ "seal (rw_ackno (st_rw st)) ?g"])
       (auto simp: enqueue_def data_len_ok)
qed

lemma tcp_flow_control_witness:
  "\<exists>st s. ctcp_read (fresh_state, example_sys\<lparr>reads := [Got [104, 105]]\<rparr>) = Inr (st, s) \<and> sw_size (st_sw st) = 2 \<and>
     sw_max_size (st_sw st) \<ge> 2 \<and> contiguous 1 (sw_segments (st_sw st)) 3 \<and> rw_size (st_rw st) = 0"
proof -
  let ?p = "example_sys\<lparr>reads := [Got [104, 105]]\<rparr>"
  have a: "tcp_reachable (fresh_state, ?p)" by (rule tcp_reachable.step [OF fresh_reachable tcp_step.environment])
  have ready: "input_ready ?p (read_size fresh_state) [104, 105]" "\<not> read_eof (st_conn fresh_state)"
    "sw_segments (st_sw fresh_state) = []" "sw_seqno (st_sw fresh_state) < 2 ^ 31 - 1440"
    using fresh_room by (simp_all add: input_ready_def example_sys_def example_conn_def)
      (simp add: fresh_state_def ctcp_init_def)
  obtain st s g where r: "ctcp_read (fresh_state, ?p) = Inr (st, s)" "sg_data g = [104, 105]"
      "sw_segments (st_sw st) = [g]" "sw_seqno (st_sw st) = 3"
    using read_effect [OF reachable_inv [OF a] ready(1,2,4)] ready(3) by auto
  have "tcp_reachable (st, s)" using tcp_reachable.step [OF a tcp_step.read [OF ready(4) r(1)]] .
  from tcp_flow_control [OF this] show ?thesis using r by auto
qed

text \<open>
  C19: data travels from one host to the other: when the sender reads bytes from its input with an
  otherwise empty window, it transmits one segment; the receiver that expects this sequence number and
  receives a faithful copy appends exactly those bytes to its output (unless the write fails) and transmits one
  acknowledgement; and a faithful copy of that acknowledgement empties the sender's window, with the next
  sequence number equal to the receiver's new acknowledgement number.
\<close>

theorem tcp_transfer:
  assumes a: "tcp_reachable (sa, pa)" "sw_segments (st_sw sa) = []" "input_ready pa (read_size sa) d"
      "\<not> read_eof (st_conn sa)" "sw_seqno (st_sw sa) < 2 ^ 31 - 1440"
    and b: "tcp_reachable (sb, pb)" "rw_ackno (st_rw sb) = sw_seqno (st_sw sa)"
      "int (length d) \<le> rw_max_size (st_rw sb)" "rw_max_size (st_rw sb) < 2 ^ 31"
      "can_write (st_conn sb) (length d)"
  shows "\<exists>sa' pa' g. ctcp_read (sa, pa) = Inr (sa', pa') \<and> segments_out pa' = segments_out pa @ [seg_bytes g] \<and>
    (\<forall>g'. faithful g g' \<longrightarrow>
      (\<exists>sb' pb' k. ctcp_receive (sb, pb) g' (word_of_nat (length (seg_bytes g'))) = Inr (sb', pb') \<and>
        (delivered (st_conn sb') pb' = delivered (st_conn sb) pb @ d \<or> wrote_err (st_conn sb')) \<and>
        segments_out pb' = segments_out pb @ [seg_bytes k] \<and>
        (\<forall>k'. faithful k k' \<longrightarrow>
          (\<exists>sa''. ctcp_receive (sa', pa') k' (word_of_nat (length (seg_bytes k'))) = Inr (sa'', pa') \<and>
             sw_segments (st_sw sa'') = [] \<and> sw_seqno (st_sw sa'') = rw_ackno (st_rw sb')))))"
proof -
  have inv: "conn_inv (sa, pa)" "conn_inv (sb, pb)" using reachable_inv a(1) b(1) by auto
  obtain sa' pa' g where read: "ctcp_read (sa, pa) = Inr (sa', pa')" "conn_inv (sa', pa')"
      "segments_out pa' = segments_out pa @ [seg_bytes g]" "seg_ok g" "verifies g" "sg_data g = d"
      "ntohl (sg_seqno g) = word_of_int (sw_seqno (st_sw sa))" "sw_segments (st_sw sa') = [g]"
      "sw_seqno (st_sw sa') = sw_seqno (st_sw sa) + int (length d)"
    using read_effect [OF inv(1) a(3,4,5)] a(2) by auto
  have d: "d \<noteq> []" "int (length d) \<le> 1440"
    using a(3) read_size_bound(3) [of sa] by (auto simp: input_ready_def MAX_SEG_DATA_SIZE_def)
  have r: "0 \<le> sw_seqno (st_sw sa')" "sw_seqno (st_sw sa') < 2 ^ 31"
    using a(2,5) d(2) read(9) inv(1) tcp_invD(7) [of sa] by (auto simp: conn_inv_def stream_ok_def)
  have ack: "\<exists>sa''. ctcp_receive (sa', pa') k (word_of_nat (length (seg_bytes k))) = Inr (sa'', pa') \<and>
      sw_segments (st_sw sa'') = [] \<and> sw_seqno (st_sw sa'') = sw_seqno (st_sw sa')"
    if k: "ack_for (sw_seqno (st_sw sa')) k" for k
    using ack_all [OF read(2,8) k r] .
  have copy: "\<exists>sb' pb' k. ctcp_receive (sb, pb) g' (word_of_nat (length (seg_bytes g'))) = Inr (sb', pb') \<and>
        (delivered (st_conn sb') pb' = delivered (st_conn sb) pb @ d \<or> wrote_err (st_conn sb')) \<and>
        segments_out pb' = segments_out pb @ [seg_bytes k] \<and>
        (\<forall>k'. faithful k k' \<longrightarrow>
          (\<exists>sa''. ctcp_receive (sa', pa') k' (word_of_nat (length (seg_bytes k'))) = Inr (sa'', pa') \<and>
             sw_segments (st_sw sa'') = [] \<and> sw_seqno (st_sw sa'') = rw_ackno (st_rw sb')))"
    if same: "faithful g g'" for g'
  proof -
    note im = faithfulD [OF same]
    have "expected sb g'"
      using read d a(5) b(2,3,4) im by (simp add: expected_def)
    then obtain sb' pb' k where rcv: "ctcp_receive (sb, pb) g' (word_of_nat (length (seg_bytes g'))) = Inr (sb', pb')"
        "rw_ackno (st_rw sb') = sw_seqno (st_sw sa')" "segments_out pb' = segments_out pb @ [seg_bytes k]"
        "ack_for (sw_seqno (st_sw sa')) k"
        "delivered (st_conn sb') pb' = delivered (st_conn sb) pb @ d \<or> wrote_err (st_conn sb')"
      using deliver_expected [OF inv(2)] b(2,5) read(6,9) im(3) by metis
    have "\<exists>sa''. ctcp_receive (sa', pa') k' (word_of_nat (length (seg_bytes k'))) = Inr (sa'', pa') \<and>
        sw_segments (st_sw sa'') = [] \<and> sw_seqno (st_sw sa'') = rw_ackno (st_rw sb')"
      if "faithful k k'" for k'
      using ack [of k'] rcv(2,4) faithfulD [OF that] by (simp add: ack_for_def)
    then show ?thesis using rcv by blast
  qed
  then show ?thesis using read(1,3) by blast
qed

lemma tcp_transfer_witness:
  "\<exists>sa' pa' g. ctcp_read (fresh_state, example_sys\<lparr>reads := [Got [104, 105]]\<rparr>) = Inr (sa', pa') \<and>
     segments_out pa' = [seg_bytes g] \<and>
     (\<exists>sb' pb'. ctcp_receive (fresh_state, example_sys) g (word_of_nat (length (seg_bytes g))) = Inr (sb', pb') \<and>
        (delivered (st_conn sb') pb' = [104, 105] \<or> wrote_err (st_conn sb')))"
proof -
  let ?p = "example_sys\<lparr>reads := [Got [104, 105]]\<rparr>"
  have a: "tcp_reachable (fresh_state, ?p)"
    by (rule tcp_reachable.step [OF fresh_reachable tcp_step.environment])
  have r: "input_ready ?p (read_size fresh_state) [104, 105]" "sw_segments (st_sw fresh_state) = []"
    "\<not> read_eof (st_conn fresh_state)"
    by (simp_all add: input_ready_def read_size_def fresh_state_def ctcp_init_def example_config_def
        example_sys_def example_conn_def MAX_SEG_DATA_SIZE_def)
  have out: "can_write (st_conn fresh_state) (length [104, 105 :: byte])"
    using example_expected(2) by (simp add: numeral_2_eq_2)
  have e: "delivered example_conn example_sys = []" "segments_out ?p = []"
    by (simp_all add: delivered_def example_conn_def example_sys_def)
  have c: "sw_seqno (st_sw fresh_state) < 2 ^ 31 - 1440" "rw_ackno (st_rw fresh_state) = sw_seqno (st_sw fresh_state)"
    "int (length [104, 105 :: byte]) \<le> rw_max_size (st_rw fresh_state)" "rw_max_size (st_rw fresh_state) < 2 ^ 31"
    by simp_all
  obtain sa' pa' g where t: "ctcp_read (fresh_state, ?p) = Inr (sa', pa')" "segments_out pa' = segments_out ?p @ [seg_bytes g]"
    and f: "\<And>g'. faithful g g' \<Longrightarrow>
      \<exists>sb' pb'. ctcp_receive (fresh_state, example_sys) g' (word_of_nat (length (seg_bytes g'))) = Inr (sb', pb') \<and>
        (delivered (st_conn sb') pb' = delivered (st_conn fresh_state) example_sys @ [104, 105] \<or> wrote_err (st_conn sb'))"
    using tcp_transfer [OF a r(2,1,3) c(1) fresh_reachable c(2,3,4) out] by meson
  show ?thesis using t f [of g] e by auto
qed

section \<open>Retransmission\<close>

text \<open>
  What the retransmission timer puts on the wire: the timeout of the first segment in flight sends one copy of it with
  the current acknowledgement number, but the checksum is computed over an image whose checksum field still holds
  the old one.  So the copy of a valid segment with an unchanged acknowledgement number carries the checksum
  0xffff and does not verify (unless 0xffff was its checksum anyway), and the receiver ignores it.  (The
  hypothesis \<open>conn_inv\<close> holds in every reachable state.)
\<close>

theorem tcp_retransmission_rejected:
  assumes "conn_inv (st, s)" "sw_segments (st_sw st) = g # gs" "verifies g" "sg_cksum g \<noteq> 0xffff"
    "sg_ackno g = htonl (word_of_int (rw_ackno (st_rw st)))"
    "sw_timer (st_sw st) \<noteq> -1" "clock s - sw_timer (st_sw st) > timeout_standard st"
    "retrans_counter (st_sw st) < 5" "timer_teardown st = -1"
  shows "\<exists>st' s' g'. timer_check (st, s) = Inr (False, st', s') \<and>
    segments_out s' = segments_out s @ [seg_bytes g'] \<and> g' = g\<lparr>sg_cksum := 0xffff\<rparr> \<and>
    retrans_counter (st_sw st') = retrans_counter (st_sw st) + 1 \<and> sw_timer (st_sw st') = clock s \<and>
    (\<forall>peer. ctcp_receive peer g' (word_of_nat (length (seg_bytes g'))) = Inr peer)"
proof -
  have inv: "tcp_inv st" using assms(1) by (simp add: conn_inv_def)
  have g: "seg_ok g" using tcp_invD(2) [OF inv] assms(2) by (simp add: sent_ok_def)
  let ?g = "g\<lparr>sg_cksum := 0xffff\<rparr>"
  let ?st = "upd_sw (\<lambda>w. w\<lparr>retrans_counter := retrans_counter w + 1, sw_timer := clock s\<rparr>) st"
  have same: "g\<lparr>sg_ackno := htonl (word_of_int (rw_ackno (st_rw st)))\<rparr> = g" using assms(5) by (cases g) simp
  have ck: "cksum (seg_bytes g) = 0xffff" by (rule verifies_image [OF g assms(3)])
  have "\<not> verifies ?g" using assms(3,4) by (simp add: verifies_def)
  then have ignored: "ctcp_receive peer ?g (word_of_nat (length (seg_bytes ?g))) = Inr peer" for peer
    using receive_corrupted [of ?g] g by simp
  have "ctcp_retrans (?st, s) = Inr (upd_sw (\<lambda>w. w\<lparr>sw_segments := ?g # gs, sw_timer := clock s\<rparr>) ?st,
      s\<lparr>segments_out := segments_out s @ [seg_bytes ?g]\<rparr>)"
    using retrans_ok [of ?st g gs s] tcp_invD(1) [OF inv] assms(2) g same ck by simp
  then have "timer_check (st, s) = Inr (False, upd_sw (\<lambda>w. w\<lparr>sw_segments := ?g # gs, sw_timer := clock s\<rparr>) ?st,
      s\<lparr>segments_out := segments_out s @ [seg_bytes ?g]\<rparr>)"
    using assms(6-9) by (simp add: timer_check_def)
  then show ?thesis using ignored by (intro exI conjI) auto
qed

definition waiting_state :: ctcp_state where
  \<comment> \<open>two bytes are in flight since time 0\<close>
  "waiting_state = upd_sw (\<lambda>w. w\<lparr>sw_segments := [example_data], sw_size := 2, sw_seqno := 3, sw_timer := 0\<rparr>) fresh_state"

lemma waiting_inv: "conn_inv (waiting_state, example_sys)"
proof -
  have "sg_cksum example_data \<noteq> 0" by (simp add: example_data_def seal_def Let_def)
  moreover have "send_buf_len fresh_state = 0" "length (send_buf fresh_state) = MAX_SEG_DATA_SIZE"
    "rw_segments (st_rw fresh_state) = []" "rw_size (st_rw fresh_state) = 0" "\<not> delete_me example_conn"
    by (simp_all add: fresh_state_def ctcp_init_def example_conn_def)
  ultimately show ?thesis
    by (simp add: conn_inv_def tcp_inv_def window_ok_def quiet_def stream_ok_def waiting_state_def sent_ok_def)
qed

lemma tcp_retransmission_rejected_witness:
  "\<exists>st' s' g'. timer_check (waiting_state, example_sys) = Inr (False, st', s') \<and>
    segments_out s' = segments_out example_sys @ [seg_bytes g'] \<and>
    ctcp_receive (fresh_state, example_sys) g' (word_of_nat (length (seg_bytes g'))) = Inr (fresh_state, example_sys)"
proof -
  have "sg_cksum example_data \<noteq> 0xffff" unfolding example_data_def by code_simp
  moreover have "sg_ackno example_data = htonl (word_of_int (rw_ackno (st_rw waiting_state)))"
    by (simp add: example_data_def seal_def Let_def waiting_state_def)
  moreover have "sw_segments (st_sw waiting_state) = [example_data]" "sw_timer (st_sw waiting_state) = 0"
    "clock example_sys = 1000" "timeout_standard waiting_state = 200" "retrans_counter (st_sw waiting_state) = 0"
    "timer_teardown waiting_state = -1"
    by (simp_all add: waiting_state_def fresh_state_def ctcp_init_def example_sys_def example_config_def)
  ultimately show ?thesis
    using tcp_retransmission_rejected [OF waiting_inv, of example_data "[]"] by fastforce
qed

end
