(* ===== verification/Ctcp_Wire.thy ===== *)
theory Ctcp_Wire
  imports Ctcp_Properties Access
begin

text \<open>
  The packets of \<open>ctcp_sys_internal.c\<close> and \<open>ctcp_sys_internal.h\<close>: building IP datagrams with a TCP
  header, their checksums, the translation of a cTCP segment to a datagram and back, and the filter
  for received packets.  A datagram is a byte list: the IP header at offset 0, the TCP header at 20, the
  payload at 40.
\<close>

section \<open>Datagrams\<close>

definition IP_HDR_SIZE :: nat where "IP_HDR_SIZE = 20"
definition TCP_HDR_SIZE :: nat where "TCP_HDR_SIZE = 20"
definition FULL_HDR_SIZE :: nat where "FULL_HDR_SIZE = 40"
definition MAX_PACKET_SIZE :: nat where "MAX_PACKET_SIZE = 1440 + 20 + 20"
definition DEFAULT_TTL :: byte where "DEFAULT_TTL = 64"
definition IP_ID :: u16 where "IP_ID = 144"
definition IPPROTO_TCP :: byte where "IPPROTO_TCP = 6"

definition cksum_tcp :: "byte list \<Rightarrow> u16 \<Rightarrow> u16 res" where
  \<comment> \<open>the pseudo-header is addresses, zero, protocol and length, followed by the TCP segment\<close>
  "cksum_tcp packet len =
     rbind (ld32 packet 12) (\<lambda>saddr.
     rbind (ld32 packet 16) (\<lambda>daddr.
     rbind (rd packet IP_HDR_SIZE (TCP_HDR_SIZE + unat len)) (\<lambda>tcp.
     let phdr = bytes32 saddr @ bytes32 daddr @ [0, IPPROTO_TCP] @ bytes16 (htons (20 + len)) @ tcp
     in ctcp_cksum phdr (len + 32))))"

definition create_datagram :: "u32 \<Rightarrow> u32 \<Rightarrow> u16 \<Rightarrow> byte list res" where
  "create_datagram src_ip dst_ip len =
     (let total_len = 20 + len; d = replicate (unat total_len) 0 in
      rbind (st8 d 0 0x45) (\<lambda>d.
      rbind (st8 d 1 0) (\<lambda>d.
      rbind (st16 d 2 (htons total_len)) (\<lambda>d.
      rbind (st16 d 4 (htons IP_ID)) (\<lambda>d.
      rbind (st16 d 6 0) (\<lambda>d.
      rbind (st8 d 8 DEFAULT_TTL) (\<lambda>d.
      rbind (st8 d 9 IPPROTO_TCP) (\<lambda>d.
      rbind (st16 d 10 0) (\<lambda>d.
      rbind (st32 d 12 src_ip) (\<lambda>d.
      rbind (st32 d 16 dst_ip) (\<lambda>d.
      rbind (ctcp_cksum d 20) (\<lambda>k. st16 d 10 k))))))))))))"

definition flipbit :: "byte list \<Rightarrow> nat \<Rightarrow> byte list res" where
  "flipbit segment k =
     rbind (ld8 segment (k div 8)) (\<lambda>b. st8 segment (k div 8) (b XOR push_bit (k mod 8) 1))"

text \<open>Byte 32 holds the data offset in its upper half, byte 33 the flags.\<close>

definition create_tcp_rst :: "sys \<Rightarrow> u32 \<Rightarrow> u16 \<Rightarrow> u16 \<Rightarrow> u32 \<Rightarrow> byte list res" where
  "create_tcp_rst s ip_dst port_src port_dst seqno =
     rbind (create_datagram (my_ip s) ip_dst 20) (\<lambda>d.
     rbind (st16 d 20 port_src) (\<lambda>d.
     rbind (st16 d 22 port_dst) (\<lambda>d.
     rbind (st32 d 24 seqno) (\<lambda>d.
     rbind (st32 d 28 0) (\<lambda>d.
     rbind (st8 d 32 0x50) (\<lambda>d.
     rbind (st8 d 33 (ucast TH_RST)) (\<lambda>d.
     rbind (st16 d 34 0) (\<lambda>d.
     rbind (cksum_tcp d 0) (\<lambda>k. st16 d 36 k)))))))))"

definition create_tcp_seg ::
  "sys \<Rightarrow> conn \<Rightarrow> byte \<Rightarrow> byte list option \<Rightarrow> u16 \<Rightarrow> (byte list \<times> conn) res" where
  "create_tcp_seg s dst flags data len =
     rbind (create_datagram (my_ip s) (ip_addr dst) (20 + len)) (\<lambda>d.
     rbind (case data of
              Some bs \<Rightarrow> if len > 0 then rbind (rd bs 0 (unat len)) (\<lambda>bs. wr d FULL_HDR_SIZE bs) else Inr d
            | None \<Rightarrow> Inr d) (\<lambda>d.
     let window = (if flags AND ucast TH_RST = 0 then htons (recv_window s) else 0) in
     rbind (st16 d 20 (htons (word_of_int (my_port s)))) (\<lambda>d.
     rbind (st16 d 22 (htons (word_of_int (conn_port dst)))) (\<lambda>d.
     rbind (st32 d 24 (htonl (next_seqno dst))) (\<lambda>d.
     rbind (st32 d 28 (htonl (conn_ackno dst))) (\<lambda>d.
     rbind (st8 d 32 0x50) (\<lambda>d.
     rbind (st8 d 33 flags) (\<lambda>d.
     rbind (st16 d 34 window) (\<lambda>d.
     rbind (st16 d 36 0) (\<lambda>d.
     rbind (cksum_tcp d len) (\<lambda>k.
     rbind (st16 d 36 k) (\<lambda>d.
     Inr (d, dst\<lparr>conn_seqno := next_seqno dst, next_seqno := next_seqno dst + ucast len\<rparr>)))))))))))))"

section \<open>Segments to datagrams and back\<close>

definition wire_flags :: "sys \<Rightarrow> u32 \<Rightarrow> byte" where
  \<comment> \<open>the 32-bit flags of a segment in the 8-bit field of the TCP header\<close>
  "wire_flags s flags =
     (if \<not> run_program s \<and> \<not> unix_socket s then ucast flags OR ucast TH_ACK else ucast flags)"

definition convert_to_datagram :: "sys \<Rightarrow> conn \<Rightarrow> ctcp_segment \<Rightarrow> int \<Rightarrow> byte list res" where
  "convert_to_datagram s dst g len =
     (let tcp_pkt_len = word_of_int (len - 20 + 20) :: u16; data_len = word_of_int (len - 20) :: u16 in
      rbind (create_datagram (my_ip s) (ip_addr dst) tcp_pkt_len) (\<lambda>d.
      rbind (if data_len > 0 then rbind (rd (sg_data g) 0 (unat data_len)) (\<lambda>bs. wr d FULL_HDR_SIZE bs)
             else Inr d) (\<lambda>d.
      rbind (st16 d 20 (htons (word_of_int (my_port s)))) (\<lambda>d.
      rbind (st16 d 22 (htons (word_of_int (conn_port dst)))) (\<lambda>d.
      rbind (st32 d 24 (htonl (ntohl (sg_seqno g) + init_seqno dst))) (\<lambda>d.
      rbind (st32 d 28 (htonl (ntohl (sg_ackno g) + their_init_seqno dst))) (\<lambda>d.
      rbind (st8 d 32 0x50) (\<lambda>d.
      rbind (st8 d 33 (wire_flags s (sg_flags g))) (\<lambda>d.
      rbind (st16 d 34 (sg_window g)) (\<lambda>d.
      rbind (st16 d 36 0) (\<lambda>d.
      rbind (seg_cksum (g\<lparr>sg_cksum := 0\<rparr>) (word_of_int len)) (\<lambda>correct_sum.
      rbind (cksum_tcp d data_len) (\<lambda>k.
      st16 d 36 (k + (correct_sum - sg_cksum g)))))))))))))))"

definition convert_to_ctcp :: "nat \<Rightarrow> conn \<Rightarrow> byte list \<Rightarrow> ctcp_segment res" where
  \<comment> \<open>\<open>buf\<close> is the receive buffer, \<open>p\<close> the address of the new segment\<close>
  "convert_to_ctcp p src buf =
     rbind (ld16 buf 2) (\<lambda>tot_len.
     let data_len = ntohs tot_len - 40; len = data_len + 20 in
     rbind (ld32 buf 24) (\<lambda>th_seq.
     rbind (ld32 buf 28) (\<lambda>th_ack.
     rbind (ld8 buf 33) (\<lambda>th_flags.
     rbind (ld16 buf 34) (\<lambda>th_win.
     rbind (if len < 20 then Inl OutOfBounds
            else if data_len > 0 then rd buf FULL_HDR_SIZE (unat data_len) else Inr []) (\<lambda>payload.
     let g = \<lparr>sg_ptr = p, sg_seqno = htonl (ntohl th_seq - their_init_seqno src),
              sg_ackno = htonl (ntohl th_ack - init_seqno src), sg_len = htons len, sg_pad = 0,
              sg_flags = ucast th_flags, sg_window = th_win, sg_cksum = 0, sg_data = payload\<rparr> in
     rbind (seg_cksum g len) (\<lambda>k.
     rbind (ld16 buf 36) (\<lambda>sum.
     rbind (st16 buf 36 0) (\<lambda>buf.
     rbind (cksum_tcp buf data_len) (\<lambda>correct_sum.
     Inr (g\<lparr>sg_cksum := k + (correct_sum - sum)\<rparr>)))))))))))"

section \<open>The filter\<close>

datatype filtered = Ignored | Reset | Packet nat "conn option"
  \<comment> \<open>\<open>Reset\<close>: the process exits; \<open>Packet\<close>: the length and the connection found\<close>

definition from_peer :: "sys \<Rightarrow> byte list \<Rightarrow> conn \<Rightarrow> bool" where
  \<comment> \<open>the condition in the loop of \<open>recv_filter\<close>\<close>
  "from_peer s buf c \<longleftrightarrow>
     conn_port c = int (unat (ntohs (get16 buf 20))) \<and> (unix_socket s \<or> ip_addr c = get32 buf 12) \<and>
     their_init_seqno c \<le> ntohl (get32 buf 24) \<and> init_seqno c \<le> ntohl (get32 buf 28)"

definition recv_filter :: "sys \<Rightarrow> conn list \<Rightarrow> byte list \<Rightarrow> filtered" where
  \<comment> \<open>the bytes are what \<open>recv\<close> stored\<close>
  "recv_filter s conns buf =
     (if length buf < FULL_HDR_SIZE then Ignored
      else if get16 buf 22 \<noteq> htons (word_of_int (my_port s)) then Ignored
      else if get8 buf 33 AND ucast TH_RST \<noteq> 0 then Reset
      else if get8 buf 33 AND ucast TH_SYN \<noteq> 0 then Packet (length buf) None
      else (case find (from_peer s buf) conns of
              Some c \<Rightarrow> Packet (length buf) (Some c)
            | None \<Rightarrow> Ignored))"

section \<open>What the builders produce\<close>

definition pseudo :: "byte list \<Rightarrow> nat \<Rightarrow> byte list" where
  "pseudo d n = bytes32 (get32 d 12) @ bytes32 (get32 d 16) @ [0, 6] @ bytes16 (htons (word_of_nat (20 + n))) @
     slice d 20 (20 + n)"

lemma unat_small16: "n < 65536 \<Longrightarrow> unat (word_of_nat n :: u16) = n"
  by (simp only: unat_of_nat) (simp add: take_bit_nat_eq_self_iff)

lemma ctcp_cksum_ok [access_ok]: "unat n = length p \<Longrightarrow> ctcp_cksum p n = Inr (cksum p)"
  by (simp add: ctcp_cksum_def rd_def slice_def)

lemma cksum_tcp_ok [access_ok]:
  assumes "40 + n \<le> length d" "n \<le> 65000"
  shows "cksum_tcp d (word_of_nat n) = Inr (cksum (pseudo d n))"
proof -
  have "unat (word_of_nat (n + 32) :: u16) = n + 32" "unat (word_of_nat n :: u16) = n"
    using assms(2) by (intro unat_small16; simp)+
  then show ?thesis
    using assms
    by (simp add: cksum_tcp_def access_ok IP_HDR_SIZE_def TCP_HDR_SIZE_def IPPROTO_TCP_def pseudo_def add.commute)
qed

lemma create_datagram_ok:
  assumes "n \<le> 65000"
  shows "\<exists>d. create_datagram src dst (word_of_nat n) = Inr d \<and> length d = 20 + n \<and>
    get16 d 2 = htons (word_of_nat (20 + n)) \<and> get8 d 9 = 6 \<and> get32 d 12 = src \<and> get32 d 16 = dst \<and>
    cksum (slice d 0 20) = 0xffff"
proof -
  have n: "unat (20 + word_of_nat n :: u16) = 20 + n"
    using unat_small16 [of "20 + n"] assms by simp
  let ?d = "put (put (put (put (put (put (put (put (put (put (replicate (20 + n) 0) 0 [0x45]) 1 [0])
    2 (bytes16 (htons (word_of_nat (20 + n))))) 4 (bytes16 (htons IP_ID))) 6 (bytes16 0)) 8 [DEFAULT_TTL])
    9 [IPPROTO_TCP]) 10 (bytes16 0)) 12 (bytes32 src)) 16 (bytes32 dst)"
  let ?e = "put ?d 10 (bytes16 (cksum (slice ?d 0 20)))"
  have z: "get16 ?d 10 = 0" by (simp add: field_simps)
  have "cksum (slice ?e 0 20) = 0xffff" using z by (intro cksum_field) simp_all
  then show ?thesis
    using n by (intro exI [of _ ?e]) (simp add: create_datagram_def Let_def ctcp_cksum_def access_ok field_simps IPPROTO_TCP_def)
qed

lemma pseudo_cong:
  "get32 d 12 = get32 e 12 \<Longrightarrow> get32 d 16 = get32 e 16 \<Longrightarrow> slice d 20 (20 + n) = slice e 20 (20 + n) \<Longrightarrow>
    pseudo d n = pseudo e n"
  by (simp add: pseudo_def)

definition zero_sum :: "byte list \<Rightarrow> byte list" where
  \<comment> \<open>the datagram with the TCP checksum cleared\<close>
  "zero_sum d = put d 36 (bytes16 0)"

definition right_cksum :: "ctcp_segment \<Rightarrow> u16" where
  "right_cksum g = cksum (seg_bytes (g\<lparr>sg_cksum := 0\<rparr>))"

lemma verifies_right: "verifies g \<longleftrightarrow> sg_cksum g = right_cksum g"
  by (simp add: verifies_def right_cksum_def)

lemma convert_to_datagram_ok:
  assumes "seg_ok g" "length (sg_data g) \<le> 60000"
  defines "n \<equiv> length (sg_data g)"
  shows "\<exists>d. convert_to_datagram s dst g (int (20 + n)) = Inr d \<and> length d = 40 + n \<and>
    get16 d 2 = htons (word_of_nat (40 + n)) \<and> get32 d 12 = my_ip s \<and> get32 d 16 = ip_addr dst \<and>
    get16 d 20 = htons (word_of_int (my_port s)) \<and> get16 d 22 = htons (word_of_int (conn_port dst)) \<and>
    get32 d 24 = htonl (ntohl (sg_seqno g) + init_seqno dst) \<and>
    get32 d 28 = htonl (ntohl (sg_ackno g) + their_init_seqno dst) \<and>
    get8 d 33 = wire_flags s (sg_flags g) \<and> get16 d 34 = sg_window g \<and> slice d 40 n = sg_data g \<and>
    get16 d 36 = cksum (pseudo (zero_sum d) n) + (right_cksum g - sg_cksum g)"
proof -
  obtain d0 where d0: "create_datagram (my_ip s) (ip_addr dst) (word_of_nat (20 + n)) = Inr d0"
      "length d0 = 40 + n" "get16 d0 2 = htons (word_of_nat (40 + n))" "get32 d0 12 = my_ip s"
      "get32 d0 16 = ip_addr dst"
    using create_datagram_ok [of "20 + n" "my_ip s" "ip_addr dst"] assms by auto
  let ?d = "put (put (put (put (put (put (put (put (put d0 40 (sg_data g)) 20 (bytes16 (htons (word_of_int (my_port s)))))
    22 (bytes16 (htons (word_of_int (conn_port dst))))) 24 (bytes32 (htonl (ntohl (sg_seqno g) + init_seqno dst))))
    28 (bytes32 (htonl (ntohl (sg_ackno g) + their_init_seqno dst)))) 32 [0x50]) 33 [wire_flags s (sg_flags g)])
    34 (bytes16 (sg_window g))) 36 (bytes16 0)"
  let ?e = "put ?d 36 (bytes16 (cksum (pseudo ?d n) + (right_cksum g - sg_cksum g)))"
  have len: "unat (word_of_nat n :: u16) = n" "unat (word_of_nat (20 + n) :: u16) = 20 + n"
    using assms by (intro unat_small16; simp)+
  have "length (seg_bytes g) = unat (ntohs (sg_len g))" by (rule seg_ok_length [OF assms(1)])
  then have "ntohs (sg_len g) = word_of_nat (20 + n)"
    using len(2) by (simp add: word_unat_eq_iff n_def)
  then have right: "seg_cksum (g\<lparr>sg_cksum := 0\<rparr>) (word_of_nat (20 + n)) = Inr (right_cksum g)"
    using seg_cksum_ok [of "g\<lparr>sg_cksum := 0\<rparr>"] assms(1) by (simp add: right_cksum_def)
  have w: "(word_of_int (int (20 + n) - 20 + 20) :: u16) = word_of_nat (20 + n)"
    "(word_of_int (int (20 + n) - 20) :: u16) = word_of_nat n"
    "(word_of_int (int (20 + n)) :: u16) = word_of_nat (20 + n)"
    by simp_all
  have data: "rbind (if (word_of_nat n :: u16) > 0 then rbind (rd (sg_data g) 0 n) (\<lambda>bs. wr d0 40 bs) else Inr d0) f =
      f (put d0 40 (sg_data g))" for f :: "byte list \<Rightarrow> byte list res"
  proof (cases "n = 0")
    case True
    then have "sg_data g = []" by (simp add: n_def)
    then show ?thesis using True by simp
  next
    case False
    then have "(word_of_nat n :: u16) \<noteq> 0" using len(1) by (metis unat_0)
    then have "(word_of_nat n :: u16) > 0" by (simp only: word_neq_0_conv)
    then show ?thesis using d0(2) by (simp add: access_ok n_def slice_def)
  qed
  have n: "n \<le> 60000" using assms(2) by (simp add: n_def)
  have run: "convert_to_datagram s dst g (int (20 + n)) = Inr ?e"
    unfolding convert_to_datagram_def Let_def w len d0(1) rbind_simps FULL_HDR_SIZE_def data right
    using d0(2) n by (simp add: access_ok)
  have zero: "zero_sum ?e = ?d" unfolding zero_sum_def by (simp add: put_put_same)
  have port: "get16 ?e 36 = cksum (pseudo ?d n) + (right_cksum g - sg_cksum g)"
    using d0(2) by (simp add: field_simps)
  show ?thesis
    using run d0 zero port
    by (intro exI [of _ ?e] conjI) (simp_all add: field_simps n_def)
qed

definition received_segment :: "nat \<Rightarrow> conn \<Rightarrow> byte list \<Rightarrow> nat \<Rightarrow> ctcp_segment" where
  \<comment> \<open>the segment with \<open>n\<close> bytes of data read from a datagram, its checksum still 0\<close>
  "received_segment p src buf n = \<lparr>sg_ptr = p, sg_seqno = htonl (ntohl (get32 buf 24) - their_init_seqno src),
    sg_ackno = htonl (ntohl (get32 buf 28) - init_seqno src), sg_len = htons (word_of_nat (20 + n)), sg_pad = 0,
    sg_flags = ucast (get8 buf 33), sg_window = get16 buf 34, sg_cksum = 0, sg_data = slice buf 40 n\<rparr>"

lemma convert_to_ctcp_ok:
  fixes p :: nat and src :: conn
  assumes "40 + n \<le> length buf" "n \<le> 60000" "get16 buf 2 = htons (word_of_nat (40 + n))"
  defines "g \<equiv> received_segment p src buf n"
  shows "convert_to_ctcp p src buf =
    Inr (g\<lparr>sg_cksum := right_cksum g + (cksum (pseudo (zero_sum buf) n) - get16 buf 36)\<rparr>)"
proof -
  have len: "unat (word_of_nat n :: u16) = n" "unat (word_of_nat (20 + n) :: u16) = 20 + n"
    using assms(2) by (intro unat_small16; simp)+
  have w: "(word_of_nat (40 + n) - 40 :: u16) = word_of_nat n" "(word_of_nat n + 20 :: u16) = word_of_nat (20 + n)"
    by simp_all
  have enough: "\<not> (word_of_nat (20 + n) :: u16) < 20"
    using len(2) by (simp add: word_less_nat_alt del: of_nat_add)
  have data: "(if (word_of_nat n :: u16) > 0 then rd buf 40 n else Inr []) = Inr (slice buf 40 n)"
  proof (cases "n = 0")
    case False
    then have "(word_of_nat n :: u16) \<noteq> 0" using len(1) by (metis unat_0)
    then have "(word_of_nat n :: u16) > 0" by (simp only: word_neq_0_conv)
    then show ?thesis using assms(1) by (simp add: access_ok)
  qed (simp add: slice_def)
  have ok: "seg_ok g" using len(2) assms(1) by (simp add: g_def received_segment_def seg_ok_def)
  have zero: "g\<lparr>sg_cksum := 0\<rparr> = g" by (simp add: g_def received_segment_def)
  have k: "seg_cksum g (word_of_nat (20 + n)) = Inr (right_cksum g)"
    using seg_cksum_ok [OF ok] zero by (simp add: right_cksum_def g_def received_segment_def del: of_nat_add)
  have lds: "ld16 buf 2 = Inr (htons (word_of_nat (40 + n)))" "ld32 buf 24 = Inr (get32 buf 24)"
    "ld32 buf 28 = Inr (get32 buf 28)" "ld8 buf 33 = Inr (get8 buf 33)" "ld16 buf 34 = Inr (get16 buf 34)"
    "ld16 buf 36 = Inr (get16 buf 36)" "st16 buf 36 0 = Inr (zero_sum buf)"
    using assms(1,3) by (simp_all add: access_ok zero_sum_def)
  have tcp: "cksum_tcp (zero_sum buf) (word_of_nat n) = Inr (cksum (pseudo (zero_sum buf) n))"
    using assms(1,2) by (intro cksum_tcp_ok) (simp_all add: zero_sum_def)
  show ?thesis
    unfolding convert_to_ctcp_def lds rbind_simps Let_def htons_htons w FULL_HDR_SIZE_def len if_not_P [OF enough]
      data received_segment_def [symmetric] g_def [symmetric] k tcp ..
qed

section \<open>The round trip\<close>

definition peers :: "conn \<Rightarrow> conn \<Rightarrow> bool" where
  \<comment> \<open>the two ends agree on the initial sequence numbers\<close>
  "peers dst src \<longleftrightarrow> their_init_seqno src = init_seqno dst \<and> init_seqno src = their_init_seqno dst"

lemma len_field: "seg_ok g \<Longrightarrow> sg_len g = htons (word_of_nat (20 + length (sg_data g)))"
proof -
  assume ok: "seg_ok g"
  then have "unat (ntohs (sg_len g)) = unat (word_of_nat (20 + length (sg_data g)) :: u16)"
    using unat_small16 [of "20 + length (sg_data g)"] unat_u16_less [of "ntohs (sg_len g)"] by (simp add: seg_ok_def)
  then show ?thesis by (metis htons_htons word_unat_eq_iff)
qed

lemma convert_roundtrip:
  assumes "seg_ok g" "length (sg_data g) \<le> 60000" "peers dst src"
  defines "n \<equiv> length (sg_data g)"
  shows "\<exists>d g'. convert_to_datagram s dst g (int (20 + n)) = Inr d \<and> length d = 40 + n \<and>
    (\<forall>rest. convert_to_ctcp p src (d @ rest) = Inr g') \<and>
    sg_seqno g' = sg_seqno g \<and> sg_ackno g' = sg_ackno g \<and> sg_len g' = sg_len g \<and> sg_window g' = sg_window g \<and>
    sg_data g' = sg_data g \<and> sg_flags g' = ucast (wire_flags s (sg_flags g)) \<and> verifies g' = verifies g"
proof -
  obtain d where d: "convert_to_datagram s dst g (int (20 + n)) = Inr d" "length d = 40 + n"
      "get16 d 2 = htons (word_of_nat (40 + n))"
      "get32 d 24 = htonl (ntohl (sg_seqno g) + init_seqno dst)"
      "get32 d 28 = htonl (ntohl (sg_ackno g) + their_init_seqno dst)"
      "get8 d 33 = wire_flags s (sg_flags g)" "get16 d 34 = sg_window g" "slice d 40 n = sg_data g"
      "get16 d 36 = cksum (pseudo (zero_sum d) n) + (right_cksum g - sg_cksum g)"
    using convert_to_datagram_ok [OF assms(1,2), of s dst] unfolding n_def by blast
  define h where "h = received_segment p src d n"
  define g' where "g' = h\<lparr>sg_cksum := right_cksum h + (sg_cksum g - right_cksum g)\<rparr>"
  have conv: "convert_to_ctcp p src (d @ rest) = Inr g'" for rest
  proof -
    have "zero_sum (d @ rest) = zero_sum d @ rest"
      using d(2) by (simp add: zero_sum_def put_append)
    then have "pseudo (zero_sum (d @ rest)) n = pseudo (zero_sum d) n"
      using d(2) by (intro pseudo_cong) (simp_all add: zero_sum_def)
    moreover have "received_segment p src (d @ rest) n = h"
      using d(2) by (simp add: received_segment_def h_def)
    ultimately show ?thesis
      using convert_to_ctcp_ok [of n "d @ rest" p src] d assms(2) by (simp add: g'_def n_def)
  qed
  have right: "right_cksum g' = right_cksum h" by (simp add: right_cksum_def g'_def)
  then have "sg_cksum g' - right_cksum g' = sg_cksum g - right_cksum g" by (simp add: g'_def)
  then have "verifies g' = verifies g"
    unfolding verifies_right by (metis diff_self eq_iff_diff_eq_0)
  moreover have "sg_len g = htons (word_of_nat (20 + n))"
    using len_field [OF assms(1)] by (simp add: n_def)
  ultimately show ?thesis
    using d conv assms(3) unfolding peers_def
    by (intro exI [of _ d] exI [of _ g']) (simp add: g'_def h_def received_segment_def)
qed

text \<open>
  C38: a segment survives the network: translating it to a datagram and the datagram back, at two ends that agree on the
  initial sequence numbers, gives a segment with the same sequence and acknowledgement numbers, length, window and
  data, with the flags that fit the 8-bit field (and ACK added on the Internet), and with a checksum that verifies
  exactly if the original's did, although it is computed over a different header.  Bytes behind the datagram
  in the receive buffer do not matter.
\<close>

theorem datagram_roundtrip:
  assumes "seg_ok g" "length (sg_data g) \<le> 60000" "peers dst src"
  shows "\<exists>d g'. convert_to_datagram s dst g (int (20 + length (sg_data g))) = Inr d \<and>
    length d = 40 + length (sg_data g) \<and> (\<forall>rest. convert_to_ctcp p src (d @ rest) = Inr g') \<and>
    sg_seqno g' = sg_seqno g \<and> sg_ackno g' = sg_ackno g \<and> sg_len g' = sg_len g \<and> sg_window g' = sg_window g \<and>
    sg_data g' = sg_data g \<and> sg_flags g' = ucast (wire_flags s (sg_flags g)) \<and> verifies g' = verifies g"
  by (rule convert_roundtrip [OF assms])

lemma datagram_roundtrip_witness:
  "\<exists>d g'. convert_to_datagram example_sys example_conn example_data 22 = Inr d \<and>
    convert_to_ctcp 5 (example_conn\<lparr>init_seqno := 200, their_init_seqno := 100\<rparr>) d = Inr g' \<and>
    sg_data g' = [104, 105] \<and> verifies g'"
proof -
  have "peers example_conn (example_conn\<lparr>init_seqno := 200, their_init_seqno := 100\<rparr>)"
    by (simp add: peers_def example_conn_def)
  from datagram_roundtrip [OF _ _ this, of example_data example_sys 5] obtain d g' where
    g: "convert_to_datagram example_sys example_conn example_data (int (20 + length (sg_data example_data))) = Inr d"
      "\<forall>rest. convert_to_ctcp 5 (example_conn\<lparr>init_seqno := 200, their_init_seqno := 100\<rparr>) (d @ rest) = Inr g'"
      "sg_data g' = sg_data example_data" "verifies g' = verifies example_data"
    by auto
  show ?thesis using g(1,3,4) spec [OF g(2), of "[]"] by simp
qed

end
