(* ===== verification/Ctcp_Network.thy ===== *)
theory Ctcp_Network
  imports Ctcp_Wire "HOL-Library.Signed_Division"
begin

text \<open>
  The unreliable network that \<open>conn_send\<close> simulates.  Behind the copy of the segment (theory of the
  connections) it draws random numbers to drop, duplicate, delay and corrupt the copy; duplicates and
  delays run in forked processes, each with its own copy of the generator.  The result lists every
  datagram that any of these processes sends, with the seconds it slept before.
\<close>

section \<open>The generator and the options\<close>

record unreliable =
  test_debug_on :: bool
  tester_did_unreliable :: bool
  opt_drop :: int
  opt_corrupt :: int
  opt_delay :: int
  opt_duplicate :: int
  rand_stream :: "nat \<Rightarrow> nat"
  rand_pos :: nat

definition SALT :: nat where "SALT = 0x14400"

definition rand :: "unreliable \<Rightarrow> nat \<times> unreliable" where
  \<comment> \<open>\<open>rand ()\<close> of the process, a number below \<open>2 ^ 31\<close>\<close>
  "rand u = (rand_stream u (rand_pos u) mod 2 ^ 31, u\<lparr>rand_pos := Suc (rand_pos u)\<rparr>)"

definition rand_percent :: "unreliable \<Rightarrow> nat \<Rightarrow> int \<times> unreliable" where
  "rand_percent u level =
     (let (r, u) = rand u in (sint (word_of_nat (r + level * SALT) :: u32) smod 100, u))"

definition chance :: "unreliable \<Rightarrow> nat \<Rightarrow> int \<Rightarrow> bool \<times> unreliable" where
  \<comment> \<open>the conditions of drop, duplication and delay, with \<open>tester_did_unreliable\<close> set when they hold\<close>
  "chance u level opt =
     (let (hit, u) = (if test_debug_on u then (\<not> tester_did_unreliable u \<and> opt \<noteq> 0, u)
                      else let (p, u) = rand_percent u level in (p < opt, u))
      in (hit, if hit then u\<lparr>tester_did_unreliable := True\<rparr> else u))"

section \<open>\<open>conn_send\<close>\<close>

definition seg_of_bytes :: "nat \<Rightarrow> byte list \<Rightarrow> ctcp_segment" where
  \<comment> \<open>the struct overlaid on its image\<close>
  "seg_of_bytes p b = \<lparr>sg_ptr = p, sg_seqno = get32 b 0, sg_ackno = get32 b 4, sg_len = get16 b 8,
     sg_pad = get16 b 10, sg_flags = get32 b 12, sg_window = get16 b 16, sg_cksum = get16 b 18,
     sg_data = drop 20 b\<rparr>"

definition send_tail ::
  "unreliable \<Rightarrow> nat \<Rightarrow> sys \<Rightarrow> conn \<Rightarrow> byte list \<Rightarrow> (byte list \<times> unreliable) res" where
  \<comment> \<open>corruption, conversion and sending, in whichever process gets there\<close>
  "send_tail u level s dst copy =
     (let (p, u) = rand_percent u level;
          do_corrupt = p < opt_corrupt u;
          data_length = word_of_nat (length copy) - 20 + 4 :: u16;
          (r, u) = rand u;
          rand_bit = word_of_int (int r mod (int (unat data_length) * 8 - 1) + 16 * 8) :: u16;
          hit = (if test_debug_on u then \<not> tester_did_unreliable u \<and> opt_corrupt u \<noteq> 0 else do_corrupt);
          u = (if hit then u\<lparr>tester_did_unreliable := True\<rparr> else u) in
      rbind (if hit then flipbit copy (unat rand_bit) else Inr copy) (\<lambda>copy.
      rbind (convert_to_datagram s dst (seg_of_bytes 0 copy) (int (length copy))) (\<lambda>pkt.
      Inr (pkt, u))))"

definition forward ::
  "unreliable \<Rightarrow> nat \<Rightarrow> sys \<Rightarrow> conn \<Rightarrow> byte list \<Rightarrow> ((nat \<times> byte list) list \<times> bool \<times> unreliable) res" where
  \<comment> \<open>delay and what follows, at a fork level; the flag says that this process returned before sending\<close>
  "forward u level s dst copy =
     (let (delay, u) = chance u level (opt_delay u) in
      if delay then
        let (r, child) = rand u in
        rbind (send_tail child (Suc level) s dst copy) (\<lambda>(pkt, _). Inr ([(r mod 5, pkt)], True, u))
      else rbind (send_tail u level s dst copy) (\<lambda>(pkt, u). Inr ([(0, pkt)], False, u)))"

definition conn_transmit ::
  "unreliable \<Rightarrow> sys \<Rightarrow> conn \<Rightarrow> byte list \<Rightarrow> ((nat \<times> byte list) list \<times> bool \<times> unreliable) res" where
  \<comment> \<open>\<open>conn_send\<close> behind the copy; the flag says that the duplicate process was not ended by \<open>exit\<close>\<close>
  "conn_transmit u s dst copy =
     (let (drp, u) = chance u 0 (opt_drop u) in
      if drp then Inr ([], False, u)
      else
        let (dup, u) = chance u 0 (opt_duplicate u) in
        rbind (forward u 0 s dst copy) (\<lambda>(out, _, u0).
        if dup then rbind (forward u 1 s dst copy) (\<lambda>(out1, returned, _). Inr (out @ out1, returned, u0))
        else Inr (out, False, u0)))"

section \<open>Corruption\<close>

lemma put_one: "i < length p \<Longrightarrow> put p i [x] = p[i := x]"
  by (rule nth_equalityI) (auto simp: nth_put nth_list_update)

lemma seg_of_seg_bytes: "seg_of_bytes p (seg_bytes g) = g\<lparr>sg_ptr := p\<rparr>"
proof -
  have a: "get32 (seg_bytes g) 0 = sg_seqno g" "get16 (seg_bytes g) 8 = sg_len g" "get32 (seg_bytes g) 4 = sg_ackno g"
    "get16 (seg_bytes g) 10 = sg_pad g" "get32 (seg_bytes g) 12 = sg_flags g" "get16 (seg_bytes g) 16 = sg_window g"
    "get16 (seg_bytes g) 18 = sg_cksum g" "drop 20 (seg_bytes g) = sg_data g"
    unfolding seg_bytes_def get32_def get16_def by (simp_all add: bytes32_def bytes16_def)
  show ?thesis unfolding seg_of_bytes_def a by (cases g) simp
qed

lemma slice_list:
  "i + 2 \<le> length p \<Longrightarrow> slice p i 2 = [p ! i, p ! (i + 1)]"
  "i + 4 \<le> length p \<Longrightarrow> slice p i 4 = [p ! i, p ! (i + 1), p ! (i + 2), p ! (i + 3)]"
  by (rule nth_equalityI; auto simp: numeral_eq_Suc less_Suc_eq)+

lemma bytes_get:
  "i + 2 \<le> length p \<Longrightarrow> bytes16 (get16 p i) = slice p i 2"
  "i + 4 \<le> length p \<Longrightarrow> bytes32 (get32 p i) = slice p i 4"
  by (simp_all only: slice_list) (simp_all add: bytes16_def get16_def bytes32_def get32_def)

lemma slice_drop: "slice p i n @ drop (i + n) p = drop i p"
  by (simp add: slice_def) (metis add.commute append_take_drop_id drop_drop)

lemma verifies_ptr [simp]: "verifies (g\<lparr>sg_ptr := p\<rparr>) = verifies g"
  by (simp add: verifies_def seg_bytes_def)

lemma seg_bytes_of_bytes:
  assumes "20 \<le> length b"
  shows "seg_bytes (seg_of_bytes p b) = b"
proof -
  have g: "bytes32 (get32 b 0) = slice b 0 4" "bytes32 (get32 b 4) = slice b 4 4" "bytes16 (get16 b 8) = slice b 8 2"
    "bytes16 (get16 b 10) = slice b 10 2" "bytes32 (get32 b 12) = slice b 12 4" "bytes16 (get16 b 16) = slice b 16 2"
    "bytes16 (get16 b 18) = slice b 18 2"
    using assms by (simp_all add: bytes_get)
  show ?thesis
    using slice_drop [of b 0 4] slice_drop [of b 4 4] slice_drop [of b 8 2] slice_drop [of b 10 2]
      slice_drop [of b 12 4] slice_drop [of b 16 2] slice_drop [of b 18 2]
    by (simp add: seg_bytes_def seg_of_bytes_def g)
qed

lemma verifies_image_bytes:
  assumes "20 \<le> length b"
  shows "verifies (seg_of_bytes p b) \<longleftrightarrow> get16 b 18 = cksum (put b 18 (bytes16 0))"
  unfolding verifies_def seg_bytes_cksum seg_bytes_of_bytes [OF assms] by (simp add: seg_of_bytes_def)

text \<open>A single flipped bit behind the flags: the segment no longer verifies, its numbers and length stand.\<close>

lemma flipped_not_verifies:
  assumes ok: "20 \<le> length b" "length b \<le> 65535" and v: "verifies (seg_of_bytes p b)"
    and k: "16 \<le> k" "k < length b" "j < 8"
  shows "\<not> verifies (seg_of_bytes p (b[k := (b ! k) XOR push_bit j 1]))"
proof -
  let ?x = "(b ! k) XOR push_bit j 1" and ?z = "put b 18 (bytes16 0)"
  let ?b = "b[k := ?x]"
  have lb: "20 \<le> length ?b" using ok by simp
  have "bit (?x XOR b ! k) j" using k(3) by (simp add: bit_simps)
  then have neq: "?x \<noteq> b ! k" by (metis bit_0_eq bot_apply bot_bool_def xor_self_eq)
  show ?thesis
  proof (cases "k = 18 \<or> k = 19")
    case True
    have "put ?b 18 (bytes16 0) = ?z"
      using True by (intro nth_equalityI) (auto simp: nth_put nth_list_update bytes16_def)
    moreover have "get16 ?b 18 \<noteq> get16 b 18"
    proof
      assume "get16 ?b 18 = get16 b 18"
      then have "hi16 (get16 ?b 18) = hi16 (get16 b 18)" "lo16 (get16 ?b 18) = lo16 (get16 b 18)" by simp_all
      then show False using True neq k(2) by (auto simp: get16_def nth_list_update)
    qed
    ultimately show ?thesis
      using v unfolding verifies_image_bytes [OF lb] verifies_image_bytes [OF ok(1)] by simp
  next
    case False
    have zk: "?z ! k = b ! k" using False k by (auto simp: nth_put)
    have "put ?b 18 (bytes16 0) = ?z[k := (?z ! k) XOR push_bit j 1]"
      using False k zk by (intro nth_equalityI) (auto simp: nth_put nth_list_update)
    moreover have "get16 ?b 18 = get16 b 18" using False by (auto simp: get16_def)
    moreover have "cksum (?z[k := (?z ! k) XOR push_bit j 1]) \<noteq> cksum ?z"
      using ok k by (intro cksum_bit_flip) auto
    ultimately show ?thesis
      using v unfolding verifies_image_bytes [OF lb] verifies_image_bytes [OF ok(1)] by simp
  qed
qed

section \<open>What the network delivers\<close>

definition arrives :: "sys \<Rightarrow> ctcp_segment \<Rightarrow> ctcp_segment \<Rightarrow> bool" where
  \<comment> \<open>the segment as it was sent, except for address, padding, checksum value and the width of the flags\<close>
  "arrives s g g' \<longleftrightarrow> verifies g' \<and> sg_seqno g' = sg_seqno g \<and> sg_ackno g' = sg_ackno g \<and> sg_len g' = sg_len g \<and>
     sg_window g' = sg_window g \<and> sg_data g' = sg_data g \<and> sg_flags g' = ucast (wire_flags s (sg_flags g))"

definition intact_or_rejected :: "sys \<Rightarrow> conn \<Rightarrow> nat \<Rightarrow> ctcp_segment \<Rightarrow> byte list \<Rightarrow> bool" where
  \<comment> \<open>what a peer makes of a datagram: the segment that was sent, or one that does not verify\<close>
  "intact_or_rejected s src p g d \<longleftrightarrow>
     (\<exists>g'. convert_to_ctcp p src d = Inr g' \<and> seg_ok g' \<and> (arrives s g g' \<or> \<not> verifies g'))"

lemma convert_intact:
  assumes "seg_ok g" "length (sg_data g) \<le> 1440" "peers dst src"
  shows "\<exists>d g'. convert_to_datagram s dst g (int (20 + length (sg_data g))) = Inr d \<and>
    convert_to_ctcp p src d = Inr g' \<and> seg_ok g' \<and> verifies g' = verifies g \<and> (verifies g \<longrightarrow> arrives s g g')"
proof -
  obtain d g' where d: "convert_to_datagram s dst g (int (20 + length (sg_data g))) = Inr d"
      "\<forall>rest. convert_to_ctcp p src (d @ rest) = Inr g'" "sg_seqno g' = sg_seqno g" "sg_ackno g' = sg_ackno g"
      "sg_len g' = sg_len g" "sg_window g' = sg_window g" "sg_data g' = sg_data g"
      "sg_flags g' = ucast (wire_flags s (sg_flags g))" "verifies g' = verifies g"
    using convert_roundtrip [OF assms(1) _ assms(3), of s p] assms(2) by auto
  then show ?thesis
    using spec [OF d(2), of "[]"] assms(1) by (intro exI [of _ d] exI [of _ g']) (simp add: arrives_def seg_ok_def)
qed

lemma flip_position:
  assumes "n \<le> 1440"
  shows "\<exists>k j. unat (word_of_int (int r mod (int (unat (word_of_nat (20 + n) - 20 + 4 :: u16)) * 8 - 1) + 16 * 8) :: u16)
    = 8 * k + j \<and> j < 8 \<and> 16 \<le> k \<and> k < 20 + n"
proof -
  have "unat (word_of_nat (n + 4) :: u16) = n + 4" using assms by (intro unat_small16) simp
  then have m: "int (unat (word_of_nat (20 + n) - 20 + 4 :: u16)) * 8 - 1 = int (8 * n + 31)" by (simp add: add.commute)
  define q where "q = r mod (8 * n + 31) + 128"
  have less: "r mod (8 * n + 31) < 8 * n + 31" by (rule mod_less_divisor) simp
  have q: "128 \<le> q" "q < 8 * n + 159"
  proof -
    show "128 \<le> q" by (simp add: q_def)
    show "q < 8 * n + 159" unfolding q_def using less by linarith
  qed
  have "int r mod int (8 * n + 31) + 16 * 8 = int q" by (simp add: q_def of_nat_mod)
  moreover have "unat (word_of_nat q :: u16) = q" using q assms by (intro unat_small16) simp
  ultimately have "unat (word_of_int (int r mod int (8 * n + 31) + 16 * 8) :: u16) = q"
    by (simp only: of_int_of_nat_eq)
  moreover have "q = 8 * (q div 8) + q mod 8" "q mod 8 < 8" "16 \<le> q div 8" "q div 8 < 20 + n"
    using q by (simp_all add: less_mult_imp_div_less)
  ultimately show ?thesis unfolding m by blast
qed

lemma flipbit_ok:
  "k < length b \<Longrightarrow> j < 8 \<Longrightarrow> flipbit b (8 * k + j) = Inr (b[k := (b ! k) XOR push_bit j 1])"
  by (simp add: flipbit_def access_ok get8_def put_one)

lemma seg_ok_image: "20 \<le> length b \<Longrightarrow> seg_ok (seg_of_bytes p b) \<longleftrightarrow> unat (ntohs (get16 b 8)) = length b"
  by (auto simp: seg_ok_def seg_of_bytes_def)

lemma send_tail_ok:
  assumes ok: "seg_ok g" "verifies g" "length (sg_data g) \<le> 1440" and peers: "peers dst src"
  shows "\<exists>d u'. send_tail u level s dst (seg_bytes g) = Inr (d, u') \<and> intact_or_rejected s src p g d"
proof -
  let ?b = "seg_bytes g" and ?n = "length (sg_data g)"
  have len: "length ?b = 20 + ?n" by simp
  define x where "x = rand_percent u level"
  define y where "y = rand (snd x)"
  let ?hit = "if test_debug_on (snd y) then \<not> tester_did_unreliable (snd y) \<and> opt_corrupt (snd y) \<noteq> 0
    else fst x < opt_corrupt (snd x)"
  obtain k j where kj: "unat (word_of_int (int (fst y) mod (int (unat (word_of_nat (20 + ?n) - 20 + 4 :: u16)) * 8 - 1)
      + 16 * 8) :: u16) = 8 * k + j" "j < 8" "16 \<le> k" "k < 20 + ?n"
    using flip_position [OF ok(3)] by blast
  let ?f = "?b[k := (?b ! k) XOR push_bit j 1]"
  let ?c = "if ?hit then ?f else ?b"
  have copy: "(if ?hit then flipbit ?b (8 * k + j) else Inr ?b) = Inr ?c"
    using kj flipbit_ok [of k ?b j] by simp
  have c: "seg_ok (seg_of_bytes 0 ?c)" "length (sg_data (seg_of_bytes 0 ?c)) = ?n" "length ?c = 20 + ?n"
  proof -
    have "get16 ?f 8 = get16 ?b 8" using kj(3) by (simp add: get16_def)
    moreover have "unat (ntohs (get16 ?b 8)) = 20 + ?n"
      using ok(1) seg_of_seg_bytes [of 0 g] by (auto simp: seg_of_bytes_def seg_ok_def dest!: arg_cong [where f = sg_len])
    ultimately show "seg_ok (seg_of_bytes 0 ?c)" by (simp add: seg_ok_image)
  qed (simp_all add: seg_of_bytes_def)
  obtain d g' where d: "convert_to_datagram s dst (seg_of_bytes 0 ?c) (int (20 + ?n)) = Inr d"
      "convert_to_ctcp p src d = Inr g'" "seg_ok g'" "verifies g' = verifies (seg_of_bytes 0 ?c)"
      "verifies (seg_of_bytes 0 ?c) \<longrightarrow> arrives s (seg_of_bytes 0 ?c) g'"
    using convert_intact [OF c(1) _ peers, of s p] c(2) ok(3) by auto
  have v: "verifies (seg_of_bytes 0 ?b)"
    using ok(2) by (simp add: seg_of_seg_bytes)
  have "arrives s g g' \<or> \<not> verifies g'"
  proof (cases ?hit)
    case True
    have "\<not> verifies (seg_of_bytes 0 ?f)"
      using v kj ok(3) by (intro flipped_not_verifies) auto
    then show ?thesis using d(4) True by simp
  next
    case False
    then show ?thesis using d(5) v by (simp add: arrives_def seg_of_seg_bytes)
  qed
  then have "intact_or_rejected s src p g d" using d(2,3) by (auto simp: intact_or_rejected_def)
  have "send_tail u level s dst ?b = rbind (if ?hit then flipbit ?b (8 * k + j) else Inr ?b) (\<lambda>copy.
      rbind (convert_to_datagram s dst (seg_of_bytes 0 copy) (int (length copy))) (\<lambda>pkt.
      Inr (pkt, if ?hit then (snd y)\<lparr>tester_did_unreliable := True\<rparr> else snd y)))"
    by (simp only: send_tail_def split_beta Let_def x_def [symmetric] y_def [symmetric] len kj(1))
  then have sent: "\<exists>u'. send_tail u level s dst ?b = Inr (d, u')"
    unfolding copy rbind_simps c(3) d(1) by blast
  with sent \<open>intact_or_rejected s src p g d\<close> show ?thesis by blast
qed

lemma forward_ok:
  assumes "seg_ok g" "verifies g" "length (sg_data g) \<le> 1440" "peers dst src"
  shows "\<exists>t d returned u'. forward u level s dst (seg_bytes g) = Inr ([(t, d)], returned, u') \<and> t < 5 \<and>
    intact_or_rejected s src p g d"
proof (cases "chance u level (opt_delay u)")
  case (Pair delay u1)
  obtain r child where r: "rand u1 = (r, child)" by fastforce
  obtain d u2 where "send_tail child (Suc level) s dst (seg_bytes g) = Inr (d, u2)" "intact_or_rejected s src p g d"
    using send_tail_ok [OF assms] by blast
  moreover obtain e u3 where "send_tail u1 level s dst (seg_bytes g) = Inr (e, u3)" "intact_or_rejected s src p g e"
    using send_tail_ok [OF assms] by blast
  ultimately show ?thesis using Pair r by (cases delay) (auto simp: forward_def)
qed

text \<open>
  C39: the simulated network loses, doubles, delays and damages segments, and nothing else: whatever the options and the
  random numbers, sending a valid segment does not fail, puts at most two datagrams on the wire, each after
  less than five seconds, and the peer turns every one of them into the segment that was sent or into one
  whose checksum does not verify, because a single flipped bit behind the flags never goes unnoticed.
\<close>

theorem network_damage_detected:
  assumes "seg_ok g" "verifies g" "length (sg_data g) \<le> 1440" "peers dst src"
  shows "\<exists>out survivor u'. conn_transmit u s dst (seg_bytes g) = Inr (out, survivor, u') \<and> length out \<le> 2 \<and>
    (\<forall>(t, d) \<in> set out. t < 5 \<and> intact_or_rejected s src p g d)"
proof -
  obtain drp u1 where a: "chance u 0 (opt_drop u) = (drp, u1)" by fastforce
  obtain dup u2 where b: "chance u1 0 (opt_duplicate u1) = (dup, u2)" by fastforce
  obtain t d r0 u3 where c: "forward u2 0 s dst (seg_bytes g) = Inr ([(t, d)], r0, u3)" "t < 5"
      "intact_or_rejected s src p g d"
    using forward_ok [OF assms] by blast
  obtain t1 d1 r1 u4 where e: "forward u2 1 s dst (seg_bytes g) = Inr ([(t1, d1)], r1, u4)" "t1 < 5"
      "intact_or_rejected s src p g d1"
    using forward_ok [OF assms] by blast
  show ?thesis
    using a b c e by (cases drp; cases dup) (auto simp: conn_transmit_def)
qed

definition lossy :: unreliable where
  \<comment> \<open>every segment is duplicated and damaged\<close>
  "lossy = \<lparr>test_debug_on = False, tester_did_unreliable = False, opt_drop = 0, opt_corrupt = 100, opt_delay = 0,
     opt_duplicate = 100, rand_stream = (\<lambda>n. 7 * n), rand_pos = 0\<rparr>"

lemma network_damage_detected_witness:
  "\<exists>out survivor u'. conn_transmit lossy example_sys example_conn (seg_bytes example_data) = Inr (out, survivor, u') \<and>
     length out \<le> 2"
proof -
  have "peers example_conn (example_conn\<lparr>init_seqno := 200, their_init_seqno := 100\<rparr>)"
    by (simp add: peers_def example_conn_def)
  from network_damage_detected [OF _ _ _ this, of example_data lossy example_sys 5] show ?thesis
    by (auto simp: example_data_simps)
qed

lemma rand_nonneg: "\<not> sint (word_of_nat (rand_stream u n mod 2 ^ 31) :: u32) smod 100 < 0"
proof -
  define r where "r = rand_stream u n mod 2 ^ 31"
  have "r < 2 ^ 31" unfolding r_def by (rule mod_less_divisor) simp
  then have "int r < 2 ^ 31" by simp
  then have "sint (word_of_int (int r) :: u32) = int r" by (intro sint_word_of_int_small) simp_all
  then show ?thesis unfolding r_def [symmetric] using smod_int_compares(2) [of "int r" 100] by simp
qed

lemma convert_ptr: "convert_to_datagram s dst (g\<lparr>sg_ptr := p\<rparr>) len = convert_to_datagram s dst g len"
  by (simp add: convert_to_datagram_def seg_cksum_def seg_bytes_def cong: if_cong)

text \<open>
  With all options off, sending a valid segment puts exactly its translation on the wire, at once, and the peer
  gets the segment that was sent.
\<close>

theorem reliable_send:
  assumes "seg_ok g" "verifies g" "length (sg_data g) \<le> 1440" "peers dst src" "\<not> test_debug_on u"
    "opt_drop u = 0" "opt_corrupt u = 0" "opt_delay u = 0" "opt_duplicate u = 0"
  shows "\<exists>d g' u'. conn_transmit u s dst (seg_bytes g) = Inr ([(0, d)], False, u') \<and>
    convert_to_datagram s dst g (int (20 + length (sg_data g))) = Inr d \<and>
    convert_to_ctcp p src d = Inr g' \<and> arrives s g g'"
proof -
  obtain d g' where d: "convert_to_datagram s dst g (int (20 + length (sg_data g))) = Inr d"
      "convert_to_ctcp p src d = Inr g'" "arrives s g g'"
    using convert_intact [OF assms(1,3,4), of s p] assms(2) by blast
  let ?v = "u\<lparr>rand_pos := Suc (Suc (Suc (rand_pos u)))\<rparr>"
  have never: "chance w 0 0 = (False, w\<lparr>rand_pos := Suc (rand_pos w)\<rparr>)" if "\<not> test_debug_on w" for w
    using that rand_nonneg [of w] by (simp add: chance_def rand_percent_def rand_def Let_def)
  have same: "convert_to_datagram s dst (seg_of_bytes 0 (seg_bytes g)) len = convert_to_datagram s dst g len" for len
    by (simp add: seg_of_seg_bytes convert_ptr)
  have "\<exists>u'. send_tail ?v 0 s dst (seg_bytes g) = Inr (d, u')"
    using assms(5,7) rand_nonneg [of ?v] d(1) same [of "int (20 + length (sg_data g))"]
    by (simp add: send_tail_def rand_percent_def rand_def Let_def)
  then show ?thesis
    using assms(5-9) never d by (auto simp: conn_transmit_def forward_def)
qed

lemma reliable_send_witness:
  "\<exists>d g' u'. conn_transmit (lossy\<lparr>opt_corrupt := 0, opt_duplicate := 0\<rparr>) example_sys example_conn
     (seg_bytes example_data) = Inr ([(0, d)], False, u') \<and>
     convert_to_ctcp 5 (example_conn\<lparr>init_seqno := 200, their_init_seqno := 100\<rparr>) d = Inr g' \<and>
     arrives example_sys example_data g'"
proof -
  have "peers example_conn (example_conn\<lparr>init_seqno := 200, their_init_seqno := 100\<rparr>)"
    by (simp add: peers_def example_conn_def)
  from reliable_send [OF _ _ _ this, of example_data "lossy\<lparr>opt_corrupt := 0, opt_duplicate := 0\<rparr>" example_sys 5]
  show ?thesis by (auto simp: lossy_def)
qed

end
