(* ===== verification/Conn_Table.thy ===== *)
theory Conn_Table
  imports Prelude
begin

text \<open>
  The list of connections of \<open>tcp/ctcp_sys_internal.c\<close> as it is in memory: \<open>conn_t\<close> nodes at addresses, each with a
  pointer to its successor and a pointer to the field that points to it.  \<open>conn_add\<close> stores the
  address of its local variable in the new head; that field is dead when the function has returned.
\<close>

section \<open>The heap\<close>

datatype link = Null_link | Next_of nat | Dead_local
  \<comment> \<open>what \<open>prev\<close> points to: nothing, the \<open>next\<close> field of a node, a local of a call that is over\<close>

record node =
  nd_next :: "nat option"
  nd_prev :: link

record conn_table =
  head_ptr :: "nat option"
  nodes :: "nat \<Rightarrow> node option"

definition conn_add :: "nat \<Rightarrow> conn_table \<Rightarrow> conn_table" where
  "conn_add p t =
     (let conn_list = head_ptr t;
          t = (if Some p \<noteq> conn_list then
                 let t = t\<lparr>nodes := (nodes t)(p := Some \<lparr>nd_next = conn_list, nd_prev = Dead_local\<rparr>)\<rparr>
                 in case conn_list of None \<Rightarrow> t
                    | Some q \<Rightarrow> t\<lparr>nodes := (nodes t)(q := map_option (nd_prev_update (\<lambda>_. Next_of p)) (nodes t q))\<rparr>
               else t)
      in t\<lparr>head_ptr := Some p\<rparr>)"

definition set_prev :: "nat option \<Rightarrow> link \<Rightarrow> conn_table \<Rightarrow> conn_table res" where
  \<comment> \<open>\<open>if (next) next->prev = prev\<close>\<close>
  "set_prev n l t =
     (case n of None \<Rightarrow> Inr t
      | Some q \<Rightarrow> (case nodes t q of None \<Rightarrow> Inl UseAfterFree
          | Some nd \<Rightarrow> Inr (t\<lparr>nodes := (nodes t)(q := Some (nd\<lparr>nd_prev := l\<rparr>))\<rparr>)))"

definition set_next :: "link \<Rightarrow> nat option \<Rightarrow> conn_table \<Rightarrow> conn_table res" where
  \<comment> \<open>\<open>if (prev) *prev = next\<close>\<close>
  "set_next l n t =
     (case l of Null_link \<Rightarrow> Inr t
      | Dead_local \<Rightarrow> Inl UseAfterFree
      | Next_of q \<Rightarrow> (case nodes t q of None \<Rightarrow> Inl UseAfterFree
          | Some nd \<Rightarrow> Inr (t\<lparr>nodes := (nodes t)(q := Some (nd\<lparr>nd_next := n\<rparr>))\<rparr>)))"

definition conn_free :: "nat \<Rightarrow> conn_table \<Rightarrow> conn_table res" where
  \<comment> \<open>the chunks of the output queue are released with the connection\<close>
  "conn_free p t =
     (case nodes t p of None \<Rightarrow> Inl UseAfterFree
      | Some nd \<Rightarrow>
          rbind (set_prev (nd_next nd) (nd_prev nd) t) (\<lambda>t.
          rbind (set_next (nd_prev nd) (nd_next nd) t) (\<lambda>t.
          let t = (if Some p = head_ptr t then t\<lparr>head_ptr := None\<rparr> else t)
          in Inr (t\<lparr>nodes := (nodes t)(p := None)\<rparr>))))"

partial_function (option) free_loop ::
  "(nat \<Rightarrow> bool) \<Rightarrow> nat option \<Rightarrow> conn_table \<Rightarrow> conn_table res option" where
  \<comment> \<open>the first argument says which connections have \<open>delete_me\<close> set\<close>
  "free_loop del conn t =
     (case conn of None \<Rightarrow> Some (Inr t)
      | Some p \<Rightarrow>
          (case nodes t p of None \<Rightarrow> Some (Inl UseAfterFree)
           | Some nd \<Rightarrow>
               if del p then
                 (case conn_free p t of Inl e \<Rightarrow> Some (Inl e) | Inr t \<Rightarrow> free_loop del (nd_next nd) t)
               else free_loop del (nd_next nd) t))"

definition delete_all_connections :: "(nat \<Rightarrow> bool) \<Rightarrow> conn_table \<Rightarrow> conn_table res option" where
  "delete_all_connections del t = free_loop del (head_ptr t) t"

section \<open>Lists in the heap\<close>

fun segm :: "(nat \<Rightarrow> node option) \<Rightarrow> link \<Rightarrow> nat option \<Rightarrow> nat list \<Rightarrow> link \<Rightarrow> nat option \<Rightarrow> bool" where
  \<comment> \<open>the nodes between two positions, each given by what points to it and what it points to\<close>
  "segm ns l h [] l' h' \<longleftrightarrow> l = l' \<and> h = h'"
| "segm ns l h (p # ps) l' h' \<longleftrightarrow>
     h = Some p \<and> (\<exists>n. ns p = Some \<lparr>nd_next = n, nd_prev = l\<rparr> \<and> segm ns (Next_of p) n ps l' h')"

lemma segm_append:
  "segm ns l h (xs @ ys) l' h' \<longleftrightarrow> (\<exists>m k. segm ns l h xs m k \<and> segm ns m k ys l' h')"
  by (induction xs arbitrary: l h) auto

lemma segm_frame [simp]: "p \<notin> set xs \<Longrightarrow> segm (ns(p := x)) l h xs l' h' = segm ns l h xs l' h'"
  by (induction xs arbitrary: l h) auto

lemma segm_snoc:
  "segm ns l h (xs @ [q]) l' h' \<longleftrightarrow>
    l' = Next_of q \<and> (\<exists>m. segm ns l h xs m (Some q) \<and> ns q = Some \<lparr>nd_next = h', nd_prev = m\<rparr>)"
  by (auto simp: segm_append)

definition conns_are :: "conn_table \<Rightarrow> nat list \<Rightarrow> bool" where
  \<comment> \<open>the connections of a server, newest first\<close>
  "conns_are t ps \<longleftrightarrow> distinct ps \<and> (\<exists>l. segm (nodes t) Dead_local (head_ptr t) ps l None)"

lemma conn_add_list:
  assumes "conns_are t ps" "p \<notin> set ps"
  shows "conns_are (conn_add p t) (p # ps)"
proof (cases ps)
  case Nil
  then show ?thesis using assms by (simp add: conns_are_def conn_add_def)
next
  case (Cons q qs)
  then show ?thesis using assms by (auto simp: conns_are_def conn_add_def Let_def)
qed

lemma conn_free_inner:
  assumes s: "segm (nodes t) Dead_local (head_ptr t) (xs @ [q]) l (Some p)" "segm (nodes t) l (Some p) (p # ps) l' None"
    and d: "distinct ((xs @ [q]) @ p # ps)"
  shows "\<exists>t' n m. conn_free p t = Inr t' \<and> nodes t p = Some \<lparr>nd_next = n, nd_prev = l\<rparr> \<and>
    segm (nodes t') Dead_local (head_ptr t') (xs @ [q]) l n \<and> segm (nodes t') l n ps m None"
proof -
  from s(1) obtain m where q: "l = Next_of q" "segm (nodes t) Dead_local (head_ptr t) xs m (Some q)"
      "nodes t q = Some \<lparr>nd_next = Some p, nd_prev = m\<rparr>"
    by (auto simp: segm_snoc)
  from s(2) obtain n where p: "nodes t p = Some \<lparr>nd_next = n, nd_prev = l\<rparr>" "segm (nodes t) (Next_of p) n ps l' None"
    by auto
  have h: "head_ptr t \<noteq> Some p" using q(2) d by (cases xs) auto
  show ?thesis
  proof (cases ps)
    case Nil
    then show ?thesis using p q h d
      by (auto simp: conn_free_def set_prev_def set_next_def segm_snoc Let_def)
  next
    case (Cons r rs)
    then obtain k where r: "n = Some r" "nodes t r = Some \<lparr>nd_next = k, nd_prev = Next_of p\<rparr>"
        "segm (nodes t) (Next_of r) k rs l' None"
      using p(2) by auto
    then show ?thesis using p q h d Cons
      by (auto simp: conn_free_def set_prev_def set_next_def segm_snoc Let_def)
  qed
qed

lemma free_loop_inner:
  "segm (nodes t) Dead_local (head_ptr t) (xs @ [q]) l h \<Longrightarrow> segm (nodes t) l h ps l' None \<Longrightarrow>
    distinct ((xs @ [q]) @ ps) \<Longrightarrow>
    \<exists>t'. free_loop del h t = Some (Inr t') \<and> conns_are t' ((xs @ [q]) @ filter (\<lambda>p. \<not> del p) ps)"
proof (induction ps arbitrary: xs q l h t l')
  case Nil
  then show ?case by (auto simp: free_loop.simps [of del None t] conns_are_def)
next
  case (Cons p ps)
  then have h: "h = Some p" by simp
  show ?case
  proof (cases "del p")
    case True
    obtain t' n m where t': "conn_free p t = Inr t'" "nodes t p = Some \<lparr>nd_next = n, nd_prev = l\<rparr>"
        "segm (nodes t') Dead_local (head_ptr t') (xs @ [q]) l n" "segm (nodes t') l n ps m None"
      using conn_free_inner [of t xs q l p ps l'] Cons.prems h by blast
    then obtain t2 where "free_loop del n t' = Some (Inr t2)" "conns_are t2 ((xs @ [q]) @ filter (\<lambda>p. \<not> del p) ps)"
      using Cons.IH [OF t'(3,4)] Cons.prems(3) by auto
    then show ?thesis using t' h True by (simp add: free_loop.simps [of del "Some p" t])
  next
    case False
    obtain n where n: "nodes t p = Some \<lparr>nd_next = n, nd_prev = l\<rparr>" "segm (nodes t) (Next_of p) n ps l' None"
      using Cons.prems(2) by auto
    have "segm (nodes t) Dead_local (head_ptr t) ((xs @ [q]) @ [p]) (Next_of p) n"
      using Cons.prems(1) n(1) h by (subst segm_append) auto
    then obtain t2 where "free_loop del n t = Some (Inr t2)"
        "conns_are t2 (((xs @ [q]) @ [p]) @ filter (\<lambda>p. \<not> del p) ps)"
      using Cons.IH [of t "xs @ [q]" p "Next_of p" n l'] n(2) Cons.prems(3) by auto
    then show ?thesis using n h False by (simp add: free_loop.simps [of del "Some p" t])
  qed
qed

text \<open>
  C30: the list of connections of a server.  A new connection becomes the head; removing the connections that are
  marked keeps the others in their order, whatever their number, as long as the newest connection is not
  among them.  If it is, its removal writes through a pointer to a local variable of a call of \<open>conn_add\<close> that
  has returned.
\<close>

theorem connection_list:
  assumes "conns_are t (p # ps)"
  shows "(\<forall>q. q \<notin> set (p # ps) \<longrightarrow> conns_are (conn_add q t) (q # p # ps)) \<and>
    (\<not> del p \<longrightarrow> (\<exists>t'. delete_all_connections del t = Some (Inr t') \<and> conns_are t' (filter (\<lambda>q. \<not> del q) (p # ps)))) \<and>
    (del p \<longrightarrow> delete_all_connections del t = Some (Inl UseAfterFree))"
proof -
  obtain n l where n: "head_ptr t = Some p" "nodes t p = Some \<lparr>nd_next = n, nd_prev = Dead_local\<rparr>"
      "segm (nodes t) (Next_of p) n ps l None" "distinct (p # ps)"
    using assms by (auto simp: conns_are_def)
  have 1: "\<forall>q. q \<notin> set (p # ps) \<longrightarrow> conns_are (conn_add q t) (q # p # ps)"
    using conn_add_list assms by blast
  have 2: "\<exists>t'. delete_all_connections del t = Some (Inr t') \<and> conns_are t' (filter (\<lambda>q. \<not> del q) (p # ps))"
    if "\<not> del p"
    using free_loop_inner [of t "[]" p "Next_of p" n ps l del] n that
    by (simp add: delete_all_connections_def free_loop.simps [of del "Some p" t])
  have 3: "delete_all_connections del t = Some (Inl UseAfterFree)" if "del p"
  proof -
    have "set_prev n Dead_local t = Inr t' \<Longrightarrow> set_next Dead_local n t' = Inl UseAfterFree" for t'
      by (simp add: set_next_def)
    moreover have "\<exists>t'. set_prev n Dead_local t = Inr t'"
      using n(3) by (cases ps) (auto simp: set_prev_def)
    ultimately have "conn_free p t = Inl UseAfterFree" using n(2) by (auto simp: conn_free_def)
    then show ?thesis using n(1,2) that by (simp add: delete_all_connections_def free_loop.simps [of del "Some p" t])
  qed
  show ?thesis using 1 2 3 by blast
qed

theorem connection_list_witness:
  fixes t :: conn_table
  defines "t \<equiv> conn_add 3 (conn_add 2 (conn_add 1 \<lparr>head_ptr = None, nodes = \<lambda>_. None\<rparr>))"
  shows "conns_are (conn_add 4 t) [4, 3, 2, 1] \<and>
    (\<exists>t'. delete_all_connections (\<lambda>p. p = 2) t = Some (Inr t') \<and> conns_are t' [3, 1]) \<and>
    delete_all_connections (\<lambda>p. p = 3) t = Some (Inl UseAfterFree)"
proof -
  have "conns_are \<lparr>head_ptr = None, nodes = \<lambda>_. None\<rparr> []" by (simp add: conns_are_def)
  then have "conns_are t [3, 2, 1]" unfolding t_def by (intro conn_add_list) simp_all
  from connection_list [OF this, of "\<lambda>p. p = 2"] connection_list [OF this, of "\<lambda>p. p = 3"]
  show ?thesis by simp
qed

end
