(* ===== verification/Ctcp_Host.thy ===== *)
theory Ctcp_Host
  imports Ctcp_Network Conn_Table
begin

text \<open>
  A host of \<open>tcp/ctcp_sys_internal.c\<close>: setting up connections, the TCP handshake of client and server, the receiving
  branch of the main loop and its timeouts.  A host keeps the protocol states, the addresses of its
  connections newest first (the theory of the connection table shows what the pointer code does to them), and the
  control segments it has sent.  A connection object is the one of its protocol state.
\<close>

section \<open>Connections\<close>

definition zero_conn :: "nat \<Rightarrow> conn" where
  \<comment> \<open>\<open>calloc (sizeof (conn_t), 1)\<close>\<close>
  "zero_conn p = \<lparr>conn_ptr = p, ip_addr = 0, conn_port = 0, init_seqno = 0, their_init_seqno = 0, conn_seqno = 0,
     next_seqno = 0, conn_ackno = 0, read_eof = False, wrote_eof = False, wrote_err = False,
     delete_me = False, out_queue = []\<rparr>"

definition conn_setup :: "conn \<Rightarrow> nat \<Rightarrow> u32 \<Rightarrow> int \<Rightarrow> conn" where
  \<comment> \<open>the number is what \<open>rand\<close> returns; the socket address is determined by address and port\<close>
  "conn_setup c r ip port =
     c\<lparr>ip_addr := ip, conn_port := port, init_seqno := word_of_nat r, conn_seqno := 0,
       next_seqno := word_of_nat r, conn_ackno := 0\<rparr>"

definition need_timer_in :: "int \<Rightarrow> int \<Rightarrow> int \<Rightarrow> int \<Rightarrow> int \<Rightarrow> int" where
  \<comment> \<open>last timeout and current time in seconds and nanoseconds, and the interval in milliseconds\<close>
  "need_timer_in last_sec last_nsec sec nsec interval =
     (let elapsed = sec - last_sec in
      if elapsed > interval sdiv 1000 then 0
      else
        let elapsed = elapsed * 1000 + (nsec - last_nsec) sdiv 1000000 in
        if elapsed \<ge> interval then 0 else interval - elapsed)"

section \<open>The handshake of the client\<close>

definition send_tcp_conn_seg :: "sys \<Rightarrow> bool \<Rightarrow> conn \<Rightarrow> u32 \<Rightarrow> (int \<times> byte list list \<times> conn) res" where
  \<comment> \<open>the second argument says whether \<open>sendto\<close> succeeds\<close>
  "send_tcp_conn_seg s sendto dst flags =
     rbind (create_tcp_seg s dst (ucast flags) None 0) (\<lambda>(tcp_pkt, dst).
     Inr (if sendto then (0, [tcp_pkt], dst) else (-1, [], dst)))"

datatype outcome = Exited | Unconnected | Connected

definition tcp_handshake ::
  "sys \<Rightarrow> bool \<Rightarrow> ctcp_config \<Rightarrow> conn \<Rightarrow> byte list option \<Rightarrow>
     (outcome \<times> byte list list \<times> ctcp_config \<times> conn) res" where
  \<comment> \<open>the last argument is what \<open>recv\<close> stores, nothing after the timeout; the result has the segments sent\<close>
  "tcp_handshake s sendto cfg sconn answer =
     (if is_server s then Inl AssertFailed
      else
        rbind (send_tcp_conn_seg s sendto sconn TH_SYN) (\<lambda>(r, out, sconn).
        if r \<noteq> 0 then Inr (Exited, out, cfg, sconn)
        else case answer of None \<Rightarrow> Inr (Unconnected, out, cfg, sconn)
        | Some pkt \<Rightarrow>
            let buf = take MAX_PACKET_SIZE pkt in
            (case recv_filter s [sconn] buf of
               Ignored \<Rightarrow> Inr (Unconnected, out, cfg, sconn)
             | Reset \<Rightarrow> Inr (Exited, out, cfg, sconn)
             | Packet _ _ \<Rightarrow>
                 rbind (ld16 buf 34) (\<lambda>window.
                 let cfg = cfg\<lparr>cfg_send_window := ntohs window\<rparr> in
                 rbind (ld8 buf 33) (\<lambda>th_flags.
                 rbind (ld32 buf 24) (\<lambda>th_seq.
                 rbind (ld32 buf 28) (\<lambda>th_ack.
                 if th_flags AND ucast TH_SYN = 0 then
                   let init = ntohl th_ack - 1 in
                   Inr (Connected, out, cfg, sconn\<lparr>init_seqno := init, their_init_seqno := ntohl th_seq - 1,
                     next_seqno := init + 1, conn_ackno := ntohl th_seq\<rparr>)
                 else
                   let sconn = sconn\<lparr>next_seqno := next_seqno sconn + 1, their_init_seqno := ntohl th_seq,
                                     conn_ackno := ntohl th_seq + 1\<rparr>
                   in rbind (send_tcp_conn_seg s sendto sconn TH_ACK) (\<lambda>(_, ack, sconn).
                      Inr (Connected, out @ ack, cfg, sconn)))))))))"

section \<open>The host\<close>

record host =
  h_tcp :: tcp_host
  h_conns :: "nat list"
  h_cfg :: ctcp_config
  h_net :: unreliable
  next_ptr :: nat
  num_connected :: int
  new_connection :: u16
  last_timeout :: "int \<times> int"
  control_out :: "byte list list"
  poll_fds :: "nat \<Rightarrow> int option"
    \<comment> \<open>the place in \<open>events\<close> of the program of a connection\<close>

definition NUM_POLL :: int where "NUM_POLL = 3"
definition MAX_NUM_CLIENTS :: int where "MAX_NUM_CLIENTS = 10"

definition get_connections :: "host \<Rightarrow> conn list" where
  \<comment> \<open>the connection objects in the order of the list\<close>
  "get_connections h =
     List.map_filter (\<lambda>p. find (\<lambda>c. conn_ptr c = p) (map st_conn (states (h_tcp h)) @ removed (h_tcp h))) (h_conns h)"

definition tcp_new_connection :: "host \<Rightarrow> byte list \<Rightarrow> (conn option \<times> host) res" where
  "tcp_new_connection h pkt =
     (let t = h_tcp h; s = process t in
      if \<not> is_server s then Inl AssertFailed
      else if num_connected h \<ge> MAX_NUM_CLIENTS then Inr (None, h)
      else
        let h = h\<lparr>num_connected := num_connected h + 1\<rparr> in
        rbind (ld32 pkt 12) (\<lambda>saddr.
        rbind (ld16 pkt 20) (\<lambda>th_sport.
        rbind (ld32 pkt 24) (\<lambda>th_seq.
        rbind (ld16 pkt 34) (\<lambda>window.
        let (r, net) = rand (h_net h);
            p = next_ptr h;
            conn = conn_setup (zero_conn p) r (ntohl saddr) (int (unat (ntohs th_sport)));
            conn = conn\<lparr>their_init_seqno := ntohl th_seq, conn_ackno := ntohl th_seq + 1\<rparr>
        in rbind (send_tcp_conn_seg s True conn (TH_SYN OR TH_ACK)) (\<lambda>(_, synack, conn).
           let cfg = (h_cfg h)\<lparr>cfg_send_window := ntohs window\<rparr>;
               h = h\<lparr>h_net := net, next_ptr := Suc p, h_conns := p # h_conns h, h_cfg := cfg,
                     control_out := control_out h @ synack\<rparr>
           in case ctcp_init s (Some conn) cfg (states t) of
                None \<Rightarrow> Inr (Some conn, h)
              | Some sts \<Rightarrow> Inr (Some conn, h\<lparr>h_tcp := t\<lparr>states := sts\<rparr>\<rparr>)))))))"

fun at_state :: "nat \<Rightarrow> (tcp \<Rightarrow> tcp res) \<Rightarrow> ctcp_state list \<Rightarrow> sys \<Rightarrow> (ctcp_state list \<times> sys) res" where
  \<comment> \<open>an operation on \<open>conn->state\<close>\<close>
  "at_state p f [] s = Inl UseAfterFree"
| "at_state p f (st # sts) s =
     (if conn_ptr (st_conn st) = p then rbind (f (st, s)) (\<lambda>(st, s). Inr (st # sts, s))
      else rbind (at_state p f sts s) (\<lambda>(sts, s). Inr (st # sts, s)))"

definition execute_program :: "nat \<Rightarrow> host \<Rightarrow> host res" where
  \<comment> \<open>in the parent after \<open>fork\<close>: the program's output is polled at the next place of \<open>events\<close>\<close>
  "execute_program p h =
     (if \<not> is_server (process (h_tcp h)) then Inl AssertFailed
      else
        let id = NUM_POLL + num_connected h - 1 in
        if id < 0 \<or> NUM_POLL + MAX_NUM_CLIENTS \<le> id then Inl OutOfBounds
        else Inr (h\<lparr>poll_fds := (poll_fds h)(p := Some id)\<rparr>))"

definition receive_packet :: "host \<Rightarrow> byte list \<Rightarrow> host res" where
  \<comment> \<open>what \<open>do_loop\<close> does with a packet of its socket\<close>
  "receive_packet h pkt =
     (let t = h_tcp h; s = process t; buf = take MAX_PACKET_SIZE pkt in
      case recv_filter s (get_connections h) buf of
        Ignored \<Rightarrow> Inr h
      | Reset \<Rightarrow> Inr (h\<lparr>h_tcp := t\<lparr>exited := True\<rparr>\<rparr>)
      | Packet len (Some conn) \<Rightarrow>
          rbind (convert_to_ctcp (next_ptr h) conn (buf @ replicate (MAX_PACKET_SIZE - length buf) 0)) (\<lambda>segment.
          let h = h\<lparr>next_ptr := Suc (next_ptr h)\<rparr> in
          if get16 buf 20 = new_connection h \<and> sg_flags segment AND TH_ACK \<noteq> 0 \<and>
             ntohl (sg_seqno segment) = 1 \<and> ntohl (sg_ackno segment) = 1
          then Inr (h\<lparr>new_connection := 0\<rparr>)
          else
            rbind (at_state (conn_ptr conn) (\<lambda>t. ctcp_receive t segment (word_of_nat (len - 40 + 20))) (states t) s)
              (\<lambda>(sts, s). Inr (h\<lparr>h_tcp := t\<lparr>states := sts, process := s\<rparr>\<rparr>)))
      | Packet len None \<Rightarrow>
          if get8 buf 33 AND ucast TH_SYN = 0 then Inr h
          else
            rbind (tcp_new_connection h buf) (\<lambda>(conn, h).
            rbind (case conn of None \<Rightarrow> Inr h
                   | Some c \<Rightarrow> if run_program s then execute_program (conn_ptr c) h else Inr h) (\<lambda>h.
            Inr (h\<lparr>new_connection := get16 buf 20\<rparr>))))"

section \<open>The main loop\<close>

text \<open>What \<open>poll\<close> reports in one iteration, with the packet the socket holds and the time in seconds and nanoseconds.\<close>

record polled =
  in_ready :: bool
  out_ready :: bool
  programs_ready :: "nat list"
  packet_in :: "byte list option"
  time_now :: "int \<times> int"

definition at_conn :: "nat \<Rightarrow> (tcp \<Rightarrow> tcp res) \<Rightarrow> host \<Rightarrow> host res" where
  "at_conn p f h =
     rbind (at_state p f (states (h_tcp h)) (process (h_tcp h))) (\<lambda>(sts, s).
     Inr (h\<lparr>h_tcp := (h_tcp h)\<lparr>states := sts, process := s\<rparr>\<rparr>))"

definition drain_conn :: "tcp \<Rightarrow> tcp res" where
  \<comment> \<open>\<open>conn_drain (conn)\<close> with the call of \<open>ctcp_output\<close> at its end\<close>
  "drain_conn t =
     (let (st, s) = t; (outputted, c, s) = conn_drain (st_conn st) s; st = st\<lparr>st_conn := c\<rparr>
      in if outputted then ctcp_output (st, s) else Inr (st, s))"

fun each_conn :: "(tcp \<Rightarrow> tcp res) \<Rightarrow> nat list \<Rightarrow> host \<Rightarrow> host res" where
  "each_conn f [] h = Inr h"
| "each_conn f (p # ps) h = rbind (at_conn p f h) (each_conn f ps)"

fun read_programs :: "nat list \<Rightarrow> nat list \<Rightarrow> host \<Rightarrow> host res" where
  \<comment> \<open>the walk over the connections for programs that have written something\<close>
  "read_programs ready [] h = Inr h"
| "read_programs ready (p # ps) h =
     (case poll_fds h p of None \<Rightarrow> Inl NullDeref
      | Some _ \<Rightarrow> rbind (if p \<in> set ready then at_conn p ctcp_read h else Inr h) (read_programs ready ps))"

definition delete_connections :: "host \<Rightarrow> host res" where
  \<comment> \<open>\<open>delete_all_connections\<close> over the addresses: on a server the newest cannot be removed\<close>
  "delete_connections h =
     (let del = (\<lambda>p. p \<in> conn_ptr ` set (removed (h_tcp h))) in
      case h_conns h of
        p # ps \<Rightarrow> if is_server (process (h_tcp h)) \<and> del p then Inl UseAfterFree
                 else Inr (h\<lparr>h_conns := filter (\<lambda>p. \<not> del p) (p # ps)\<rparr>)
      | [] \<Rightarrow> Inr h)"

definition do_iteration :: "host \<Rightarrow> polled \<Rightarrow> host res" where
  \<comment> \<open>one round of \<open>do_loop\<close>; after \<open>exit\<close> nothing happens\<close>
  "do_iteration h ev =
     (let (sec, nsec) = time_now ev;
          t = h_tcp h;
          s = (process t)\<lparr>clock := sec * 1000 + nsec sdiv 1000000\<rparr>;
          h = h\<lparr>h_tcp := t\<lparr>process := s\<rparr>\<rparr>
      in
      if exited t then Inr h
      else
        rbind (if \<not> run_program s \<and> in_ready ev then
                 (case h_conns h of [] \<Rightarrow> Inr h | p # _ \<Rightarrow> at_conn p ctcp_read h)
               else Inr h) (\<lambda>h.
        rbind (if out_ready ev then each_conn drain_conn (h_conns h) h else Inr h) (\<lambda>h.
        rbind (if run_program s then read_programs (programs_ready ev) (h_conns h) h else Inr h) (\<lambda>h.
        rbind (case packet_in ev of None \<Rightarrow> Inr h | Some pkt \<Rightarrow> receive_packet h pkt) (\<lambda>h.
        if exited (h_tcp h) then Inr h
        else
          rbind (if need_timer_in (fst (last_timeout h)) (snd (last_timeout h)) sec nsec (cfg_timer (h_cfg h)) = 0
                 then rbind (ctcp_timer (h_tcp h)) (\<lambda>t. Inr (h\<lparr>h_tcp := t, last_timeout := (sec, nsec)\<rparr>))
                 else Inr h) delete_connections)))))"

fun do_loop :: "host \<Rightarrow> polled list \<Rightarrow> host res" where
  \<comment> \<open>the rounds for successive results of \<open>poll\<close>\<close>
  "do_loop h [] = Inr h"
| "do_loop h (ev # evs) = rbind (do_iteration h ev) (\<lambda>h. do_loop h evs)"

section \<open>Control segments\<close>

definition control_segment :: "sys \<Rightarrow> conn \<Rightarrow> byte \<Rightarrow> byte list \<Rightarrow> bool" where
  \<comment> \<open>the fields of a segment without data from a host to its peer\<close>
  "control_segment s dst flags d \<longleftrightarrow> length d = 40 \<and> get16 d 2 = htons 40 \<and> get32 d 12 = my_ip s \<and>
     get16 d 20 = htons (word_of_int (my_port s)) \<and> get16 d 22 = htons (word_of_int (conn_port dst)) \<and>
     get32 d 24 = htonl (next_seqno dst) \<and> get32 d 28 = htonl (conn_ackno dst) \<and> get8 d 33 = flags \<and>
     get16 d 34 = htons (recv_window s)"

lemma create_control_segment:
  assumes "flags AND ucast TH_RST = (0 :: byte)"
  shows "\<exists>d. create_tcp_seg s dst flags None 0 = Inr (d, dst\<lparr>conn_seqno := next_seqno dst\<rparr>) \<and>
    control_segment s dst flags d"
proof -
  obtain d0 where d0: "create_datagram (my_ip s) (ip_addr dst) 20 = Inr d0"
      "length d0 = 40" "get16 d0 2 = htons (word_of_nat 40)" "get32 d0 12 = my_ip s" "get32 d0 16 = ip_addr dst"
    using create_datagram_ok [of 20 "my_ip s" "ip_addr dst"] by auto
  let ?d = "put (put (put (put (put (put (put (put d0 20 (bytes16 (htons (word_of_int (my_port s)))))
    22 (bytes16 (htons (word_of_int (conn_port dst))))) 24 (bytes32 (htonl (next_seqno dst))))
    28 (bytes32 (htonl (conn_ackno dst)))) 32 [0x50]) 33 [flags]) 34 (bytes16 (htons (recv_window s)))) 36 (bytes16 0)"
  let ?e = "put ?d 36 (bytes16 (cksum (pseudo ?d 0)))"
  have k: "cksum_tcp ?d 0 = Inr (cksum (pseudo ?d 0))"
    using cksum_tcp_ok [of 0 ?d] d0(2) by simp
  show ?thesis
    using d0 assms
    by (intro exI [of _ ?e])
      (simp add: create_tcp_seg_def Let_def access_ok k control_segment_def field_simps)
qed

lemma send_control:
  assumes "ucast flags AND ucast TH_RST = (0 :: byte)"
  shows "\<exists>d. send_tcp_conn_seg s True dst flags = Inr (0, [d], dst\<lparr>conn_seqno := next_seqno dst\<rparr>) \<and>
    control_segment s dst (ucast flags) d"
  using create_control_segment [OF assms, of s dst] by (auto simp: send_tcp_conn_seg_def)

section \<open>The three steps of the handshake\<close>

lemma flag_bits:
  "(ucast TH_SYN :: byte) AND ucast TH_RST = 0" "(ucast TH_SYN :: byte) AND ucast TH_SYN \<noteq> 0"
  "(ucast (TH_SYN OR TH_ACK) :: byte) AND ucast TH_RST = 0" "(ucast (TH_SYN OR TH_ACK) :: byte) AND ucast TH_SYN \<noteq> 0"
  "(ucast TH_ACK :: byte) AND ucast TH_RST = 0" "(ucast TH_ACK :: byte) AND ucast TH_SYN = 0"
  "(ucast (ucast TH_ACK :: byte) :: u32) AND TH_ACK \<noteq> 0"
  unfolding TH_SYN_def TH_ACK_def TH_RST_def by code_simp+

lemma filter_syn:
  assumes "length d = 40" "get16 d 22 = htons (word_of_int (my_port s))" "get8 d 33 = f"
    "f AND ucast TH_RST = 0" "f AND ucast TH_SYN \<noteq> 0"
  shows "recv_filter s cs d = Packet 40 None"
  using assms by (simp add: recv_filter_def FULL_HDR_SIZE_def)

definition peer_conn :: "host \<Rightarrow> sys \<Rightarrow> u32 \<Rightarrow> conn" where
  \<comment> \<open>the connection a server sets up for a client that starts at a sequence number\<close>
  "peer_conn h cs seqno =
     (conn_setup (zero_conn (next_ptr h)) (fst (rand (h_net h))) (ntohl (my_ip cs))
        (int (unat (word_of_int (my_port cs) :: u16))))
     \<lparr>their_init_seqno := seqno, conn_ackno := seqno + 1, conn_seqno := word_of_nat (fst (rand (h_net h)))\<rparr>"

lemma take_all_packet: "length d = 40 \<Longrightarrow> take MAX_PACKET_SIZE d = d"
  by (simp add: MAX_PACKET_SIZE_def)

lemma syn_received:
  assumes syn: "control_segment cs c (ucast TH_SYN) syn" and port: "conn_port c = my_port (process (h_tcp h))"
    and "is_server (process (h_tcp h))" "num_connected h < MAX_NUM_CLIENTS" "0 \<le> num_connected h"
  shows "\<exists>h' synack st. receive_packet h syn = Inr h' \<and> control_out h' = control_out h @ [synack] \<and>
    control_segment (process (h_tcp h)) (peer_conn h cs (next_seqno c)) (ucast (TH_SYN OR TH_ACK)) synack \<and>
    process (h_tcp h') = process (h_tcp h) \<and> states (h_tcp h') = st # states (h_tcp h) \<and>
    st_conn st = peer_conn h cs (next_seqno c) \<and> h_conns h' = next_ptr h # h_conns h \<and>
    new_connection h' = get16 syn 20 \<and> exited (h_tcp h') = exited (h_tcp h) \<and>
    last_timeout h' = last_timeout h \<and> cfg_timer (h_cfg h') = cfg_timer (h_cfg h) \<and>
    num_connected h' = num_connected h + 1 \<and> next_ptr h' = Suc (next_ptr h) \<and>
    poll_fds h' = (if run_program (process (h_tcp h)) then (poll_fds h)(next_ptr h := Some (3 + num_connected h))
      else poll_fds h)"
proof -
  let ?s = "process (h_tcp h)" and ?sc = "peer_conn h cs (next_seqno c)"
  obtain r net where r: "rand (h_net h) = (r, net)" by (cases "rand (h_net h)")
  let ?c = "(conn_setup (zero_conn (next_ptr h)) r (ntohl (my_ip cs)) (int (unat (word_of_int (my_port cs) :: u16))))
     \<lparr>their_init_seqno := next_seqno c, conn_ackno := next_seqno c + 1\<rparr>"
  have l: "length syn = 40" using syn by (simp add: control_segment_def)
  have flt: "recv_filter ?s (get_connections h) syn = Packet 40 None"
    using syn port flag_bits by (intro filter_syn [of _ _ "ucast TH_SYN"]) (simp_all add: control_segment_def)
  obtain synack where a: "send_tcp_conn_seg ?s True ?c (TH_SYN OR TH_ACK) = Inr (0, [synack], ?sc)"
      "control_segment ?s ?c (ucast (TH_SYN OR TH_ACK)) synack"
    using send_control [of "TH_SYN OR TH_ACK" ?s ?c] flag_bits(3)
    by (auto simp: peer_conn_def conn_setup_def zero_conn_def r)
  have b: "control_segment ?s ?sc (ucast (TH_SYN OR TH_ACK)) synack"
    using a(2) by (simp add: control_segment_def peer_conn_def conn_setup_def zero_conn_def r)
  have f: "ld32 syn 12 = Inr (my_ip cs)" "ld16 syn 20 = Inr (htons (word_of_int (my_port cs)))"
      "ld32 syn 24 = Inr (htonl (next_seqno c))" "ld16 syn 34 = Inr (htons (recv_window cs))"
      "get8 syn 33 AND ucast TH_SYN \<noteq> 0"
    using syn flag_bits(2) by (simp_all add: control_segment_def access_ok)
  have "conn_ptr ?sc = next_ptr h" by (simp add: peer_conn_def conn_setup_def zero_conn_def)
  then show ?thesis
    using assms(3-5) l f(5)
    by (simp add: receive_packet_def Let_def take_all_packet flt tcp_new_connection_def f r a(1) b ctcp_init_def
        execute_program_def NUM_POLL_def MAX_NUM_CLIENTS_def del: of_nat_unat)
qed

lemma synack_received:
  assumes a: "control_segment s sc (ucast (TH_SYN OR TH_ACK)) synack" and port: "conn_port sc = int (unat (word_of_int (my_port cs) :: u16))"
    and "\<not> is_server cs"
  shows "\<exists>syn ack c'. tcp_handshake cs True cfg c (Some synack) =
      Inr (Connected, [syn, ack], cfg\<lparr>cfg_send_window := recv_window s\<rparr>, c') \<and>
    control_segment cs c (ucast TH_SYN) syn \<and> control_segment cs c' (ucast TH_ACK) ack \<and>
    c' = c\<lparr>conn_seqno := next_seqno c + 1, next_seqno := next_seqno c + 1, their_init_seqno := next_seqno sc,
           conn_ackno := next_seqno sc + 1\<rparr>"
proof -
  obtain syn where syn: "send_tcp_conn_seg cs True c TH_SYN = Inr (0, [syn], c\<lparr>conn_seqno := next_seqno c\<rparr>)"
      "control_segment cs c (ucast TH_SYN) syn"
    using send_control [OF flag_bits(1), of cs c] by blast
  let ?c = "c\<lparr>conn_seqno := next_seqno c, next_seqno := next_seqno c + 1, their_init_seqno := next_seqno sc,
    conn_ackno := next_seqno sc + 1\<rparr>"
  let ?c' = "?c\<lparr>conn_seqno := next_seqno c + 1\<rparr>"
  obtain ack where ack: "send_tcp_conn_seg cs True ?c TH_ACK = Inr (0, [ack], ?c')" "control_segment cs ?c (ucast TH_ACK) ack"
    using send_control [OF flag_bits(5), of cs ?c] by auto
  have l: "length synack = 40" using a by (simp add: control_segment_def)
  have flt: "recv_filter cs conns synack = Packet 40 None" for conns
    using a port flag_bits by (intro filter_syn [of _ _ "ucast (TH_SYN OR TH_ACK)"]) (simp_all add: control_segment_def)
  have f: "ld16 synack 34 = Inr (htons (recv_window s))" "ld8 synack 33 = Inr (ucast (TH_SYN OR TH_ACK))"
      "ld32 synack 24 = Inr (htonl (next_seqno sc))" "ld32 synack 28 = Inr (htonl (conn_ackno sc))"
    using a by (simp_all add: control_segment_def access_ok)
  have "tcp_handshake cs True cfg c (Some synack) =
      Inr (Connected, [syn, ack], cfg\<lparr>cfg_send_window := recv_window s\<rparr>, ?c')"
    using assms(3) ack(1) flag_bits(4)
    by (simp add: tcp_handshake_def syn(1) Let_def take_all_packet l flt f)
  moreover have "control_segment cs ?c' (ucast TH_ACK) ack"
    using ack(2) by (simp add: control_segment_def)
  ultimately show ?thesis using syn(2) by (intro exI [of _ syn] exI [of _ ack] exI [of _ ?c']) simp
qed

lemma filter_from_peer:
  assumes "40 \<le> length d" "get16 d 22 = htons (word_of_int (my_port s))" "get8 d 33 AND ucast TH_RST = 0"
    "get8 d 33 AND ucast TH_SYN = 0" "from_peer s d c"
  shows "recv_filter s (c # cs) d = Packet (length d) (Some c)"
  using assms by (simp add: recv_filter_def FULL_HDR_SIZE_def)

lemma newest_connection:
  assumes "h_conns h = p # ps" "states (h_tcp h) = st # sts" "conn_ptr (st_conn st) = p"
  shows "\<exists>cs. get_connections h = st_conn st # cs"
  using assms by (simp add: get_connections_def List.map_filter_simps)

lemma no_wrap_le: "unat a + unat b < 2 ^ 32 \<Longrightarrow> b \<le> a + (b :: u32)"
  by (simp add: word_le_nat_alt unat_word_ariths)

lemma ack_swallowed:
  assumes ack: "control_segment cs c' (ucast TH_ACK) ack" and port: "conn_port c' = my_port s"
    and h: "process (h_tcp h) = s" "unix_socket s" "h_conns h = p # ps" "states (h_tcp h) = st # sts"
      "conn_ptr (st_conn st) = p" "conn_port (st_conn st) = int (unat (word_of_int (my_port cs) :: u16))"
      "new_connection h = htons (word_of_int (my_port cs))"
    and num: "next_seqno c' = their_init_seqno (st_conn st) + 1" "conn_ackno c' = init_seqno (st_conn st) + 1"
      "unat (their_init_seqno (st_conn st)) < 2 ^ 31" "unat (init_seqno (st_conn st)) < 2 ^ 31"
  shows "receive_packet h ack = Inr (h\<lparr>new_connection := 0, next_ptr := Suc (next_ptr h)\<rparr>)"
proof -
  let ?sc = "st_conn st" and ?n = "MAX_PACKET_SIZE - 40"
  note a = ack [unfolded control_segment_def]
  have le: "their_init_seqno ?sc \<le> their_init_seqno ?sc + 1" "init_seqno ?sc \<le> init_seqno ?sc + 1"
    using no_wrap_le [of 1 "their_init_seqno ?sc"] no_wrap_le [of 1 "init_seqno ?sc"] num(3,4)
    by (simp_all add: add.commute [of _ 1])
  obtain cs' where conns: "get_connections h = ?sc # cs'" using newest_connection [OF h(3-5)] by blast
  have flt: "recv_filter s (get_connections h) ack = Packet 40 (Some ?sc)"
    unfolding conns using a port h(2,6) num(1,2) le flag_bits(5,6)
    by (subst filter_from_peer) (simp_all add: from_peer_def)
  define g where "g = received_segment (next_ptr h) ?sc (ack @ replicate ?n 0) 0"
  obtain k where conv: "convert_to_ctcp (next_ptr h) ?sc (ack @ replicate ?n 0) = Inr (g\<lparr>sg_cksum := k\<rparr>)"
    using convert_to_ctcp_ok [of 0 "ack @ replicate ?n 0" "next_ptr h" ?sc] a unfolding g_def by auto
  have g: "ntohl (sg_seqno g) = 1" "ntohl (sg_ackno g) = 1" "sg_flags g AND TH_ACK \<noteq> 0"
    using a num(1,2) flag_bits(7) by (simp_all add: g_def received_segment_def)
  show ?thesis
    using a h(1,7) g by (simp add: receive_packet_def Let_def take_all_packet flt conv)
qed

text \<open>What travels from the client is recognised by the server as belonging to the new connection.\<close>

lemma data_recognised:
  assumes g: "seg_ok g" "length (sg_data g) \<le> 1440" "wire_flags cs (sg_flags g) AND ucast TH_RST = 0"
      "wire_flags cs (sg_flags g) AND ucast TH_SYN = 0"
    and wrap: "unat (ntohl (sg_seqno g)) + unat (init_seqno c') < 2 ^ 32"
      "unat (ntohl (sg_ackno g)) + unat (their_init_seqno c') < 2 ^ 32"
    and c: "conn_port c' = my_port s" "peers c' (st_conn st)" "unix_socket s"
      "conn_port (st_conn st) = int (unat (word_of_int (my_port cs) :: u16))"
  shows "\<exists>d g'. convert_to_datagram cs c' g (int (20 + length (sg_data g))) = Inr d \<and>
    recv_filter s (st_conn st # conns) d = Packet (length d) (Some (st_conn st)) \<and>
    (\<forall>rest. convert_to_ctcp p (st_conn st) (d @ rest) = Inr g') \<and>
    sg_seqno g' = sg_seqno g \<and> sg_ackno g' = sg_ackno g \<and> sg_window g' = sg_window g \<and>
    sg_data g' = sg_data g \<and> verifies g' = verifies g"
proof -
  have n: "length (sg_data g) \<le> 60000" using g(2) by simp
  obtain d where d: "convert_to_datagram cs c' g (int (20 + length (sg_data g))) = Inr d" "length d = 40 + length (sg_data g)"
      "get16 d 20 = htons (word_of_int (my_port cs))" "get16 d 22 = htons (word_of_int (conn_port c'))"
      "get32 d 24 = htonl (ntohl (sg_seqno g) + init_seqno c')"
      "get32 d 28 = htonl (ntohl (sg_ackno g) + their_init_seqno c')" "get8 d 33 = wire_flags cs (sg_flags g)"
    using convert_to_datagram_ok [OF g(1) n, of cs c'] by blast
  obtain d' g' where g': "convert_to_datagram cs c' g (int (20 + length (sg_data g))) = Inr d'"
      "\<forall>rest. convert_to_ctcp p (st_conn st) (d' @ rest) = Inr g'" "sg_seqno g' = sg_seqno g" "sg_ackno g' = sg_ackno g"
      "sg_window g' = sg_window g" "sg_data g' = sg_data g" "verifies g' = verifies g"
    using convert_roundtrip [OF g(1) n c(2), of cs p] by blast
  have e: "d' = d" using d(1) g'(1) by simp
  have "from_peer s d (st_conn st)"
    using d c no_wrap_le [OF wrap(1)] no_wrap_le [OF wrap(2)] by (simp add: from_peer_def peers_def)
  then have "recv_filter s (st_conn st # conns) d = Packet (length d) (Some (st_conn st))"
    using d(2,4,7) g(3,4) c(1) by (intro filter_from_peer) simp_all
  then show ?thesis using d(1) g' e by blast
qed

lemma handshake_succeeds:
  assumes s: "process (h_tcp h) = s" "is_server s" "unix_socket s" "num_connected h < MAX_NUM_CLIENTS" "0 \<le> num_connected h"
    and c: "\<not> is_server cs" "c = conn_setup (zero_conn q) r ip (my_port s)" "r < 2 ^ 31"
  shows "\<exists>syn synack ack h1 st c'.
    tcp_handshake cs True cfg c (Some synack) =
      Inr (Connected, [syn, ack], cfg\<lparr>cfg_send_window := recv_window s\<rparr>, c') \<and>
    receive_packet h syn = Inr h1 \<and> control_out h1 = control_out h @ [synack] \<and>
    states (h_tcp h1) = st # states (h_tcp h) \<and>
    receive_packet h1 ack = Inr (h1\<lparr>new_connection := 0, next_ptr := Suc (next_ptr h1)\<rparr>) \<and>
    peers c' (st_conn st) \<and> peers (st_conn st) c' \<and>
    (\<forall>g. seg_ok g \<longrightarrow> length (sg_data g) \<le> 1440 \<longrightarrow> wire_flags cs (sg_flags g) AND ucast TH_RST = 0 \<longrightarrow>
      wire_flags cs (sg_flags g) AND ucast TH_SYN = 0 \<longrightarrow>
      unat (ntohl (sg_seqno g)) + unat (init_seqno c') < 2 ^ 32 \<longrightarrow>
      unat (ntohl (sg_ackno g)) + unat (their_init_seqno c') < 2 ^ 32 \<longrightarrow>
      (\<exists>d g'. convert_to_datagram cs c' g (int (20 + length (sg_data g))) = Inr d \<and>
        recv_filter s (get_connections h1) d = Packet (length d) (Some (st_conn st)) \<and>
        (\<forall>rest. convert_to_ctcp p (st_conn st) (d @ rest) = Inr g') \<and>
        sg_seqno g' = sg_seqno g \<and> sg_ackno g' = sg_ackno g \<and> sg_window g' = sg_window g \<and>
        sg_data g' = sg_data g \<and> verifies g' = verifies g))"
proof -
  let ?sc = "peer_conn h cs (next_seqno c)"
  have c_next: "next_seqno c = word_of_nat r" "init_seqno c = word_of_nat r" "conn_port c = my_port s"
    using c(2) by (simp_all add: conn_setup_def)
  have small: "unat (word_of_nat k :: u32) < 2 ^ 31" if "k < 2 ^ 31" for k :: nat
    using that by (simp add: unat_of_nat take_bit_nat_eq_self)
  have rs: "fst (rand (h_net h)) < 2 ^ 31" by (simp add: rand_def)
  obtain syn where syn: "send_tcp_conn_seg cs True c TH_SYN = Inr (0, [syn], c\<lparr>conn_seqno := next_seqno c\<rparr>)"
      "control_segment cs c (ucast TH_SYN) syn"
    using send_control [OF flag_bits(1), of cs c] by blast
  have port: "conn_port c = my_port (process (h_tcp h))" "is_server (process (h_tcp h))" using c_next(3) s(1,2) by simp_all
  obtain h1 synack st where h1: "receive_packet h syn = Inr h1" "control_out h1 = control_out h @ [synack]"
      "control_segment s ?sc (ucast (TH_SYN OR TH_ACK)) synack" "process (h_tcp h1) = s"
      "states (h_tcp h1) = st # states (h_tcp h)" "st_conn st = ?sc" "h_conns h1 = next_ptr h # h_conns h"
      "new_connection h1 = get16 syn 20"
    using syn_received [OF syn(2) port s(4,5)] s(1) by auto
  have sc: "conn_ptr ?sc = next_ptr h" "conn_port ?sc = int (unat (word_of_int (my_port cs) :: u16))"
      "their_init_seqno ?sc = word_of_nat r" "init_seqno ?sc = word_of_nat (fst (rand (h_net h)))"
      "next_seqno ?sc = init_seqno ?sc"
    by (simp_all add: peer_conn_def conn_setup_def zero_conn_def c_next del: of_nat_unat)
  obtain syn' ack c' where c': "tcp_handshake cs True cfg c (Some synack) =
        Inr (Connected, [syn', ack], cfg\<lparr>cfg_send_window := recv_window s\<rparr>, c')"
      "control_segment cs c' (ucast TH_ACK) ack"
      "c' = c\<lparr>conn_seqno := next_seqno c + 1, next_seqno := next_seqno c + 1, their_init_seqno := next_seqno ?sc,
           conn_ackno := next_seqno ?sc + 1\<rparr>"
    using synack_received [OF h1(3) sc(2) c(1), of cfg c] by blast
  have same: "syn' = syn"
    using c'(1) syn(1) by (auto simp: tcp_handshake_def c(1) Let_def fault_simps split: filtered.splits if_splits)
  have p: "peers c' (st_conn st)" "peers (st_conn st) c'"
    unfolding peers_def c'(3) h1(6) using sc(3-5) c_next(1,2) by simp_all
  have swallow: "receive_packet h1 ack = Inr (h1\<lparr>new_connection := 0, next_ptr := Suc (next_ptr h1)\<rparr>)"
    using c'(2,3) c_next(3) h1(4-8) s(3) sc small [OF c(3)] small [OF rs] syn(2) c_next(1)
    by (intro ack_swallowed [where st = st and c' = c' and cs = cs and s = s]) (simp_all add: control_segment_def)
  obtain conns where conns: "get_connections h1 = st_conn st # conns"
    using newest_connection [OF h1(7,5)] h1(6) sc(1) by auto
  have port': "conn_port c' = my_port s" "conn_port (st_conn st) = int (unat (word_of_int (my_port cs) :: u16))"
    using c'(3) c_next(3) h1(6) sc(2) by simp_all
  show ?thesis
    using c'(1) same h1(1,2,5) swallow p data_recognised [OF _ _ _ _ _ _ port'(1) p(1) s(3) port'(2)] conns
    by (intro exI [of _ syn] exI [of _ synack] exI [of _ ack] exI [of _ h1] exI [of _ st] exI [of _ c']) simp
qed

text \<open>
  C23: the handshake connects.  When a client on the same machine sends its SYN to a server that has room, the server's
  answer makes the client's handshake succeed; the acknowledgement the client then sends is taken from the
  server's protocol; both sides hold each other's initial sequence numbers; and from then on every
  segment of the client whose numbers do not wrap is recognised by the server as one of this connection,
  whatever others exist, and arrives with its numbers, window, data and validity unchanged.
\<close>

theorem handshake_connects:
  assumes s: "process (h_tcp h) = s" "is_server s" "unix_socket s" "num_connected h < MAX_NUM_CLIENTS" "0 \<le> num_connected h"
    and c: "\<not> is_server cs" "c = conn_setup (zero_conn q) r ip (my_port s)" "r < 2 ^ 31"
  shows "\<exists>syn synack ack h1 st c'.
    tcp_handshake cs True cfg c (Some synack) =
      Inr (Connected, [syn, ack], cfg\<lparr>cfg_send_window := recv_window s\<rparr>, c') \<and>
    receive_packet h syn = Inr h1 \<and> control_out h1 = control_out h @ [synack] \<and>
    states (h_tcp h1) = st # states (h_tcp h) \<and>
    receive_packet h1 ack = Inr (h1\<lparr>new_connection := 0, next_ptr := Suc (next_ptr h1)\<rparr>) \<and>
    peers c' (st_conn st) \<and> peers (st_conn st) c' \<and>
    (\<forall>g. seg_ok g \<longrightarrow> length (sg_data g) \<le> 1440 \<longrightarrow> wire_flags cs (sg_flags g) AND ucast TH_RST = 0 \<longrightarrow>
      wire_flags cs (sg_flags g) AND ucast TH_SYN = 0 \<longrightarrow>
      unat (ntohl (sg_seqno g)) + unat (init_seqno c') < 2 ^ 32 \<longrightarrow>
      unat (ntohl (sg_ackno g)) + unat (their_init_seqno c') < 2 ^ 32 \<longrightarrow>
      (\<exists>d g'. convert_to_datagram cs c' g (int (20 + length (sg_data g))) = Inr d \<and>
        recv_filter s (get_connections h1) d = Packet (length d) (Some (st_conn st)) \<and>
        (\<forall>rest. convert_to_ctcp p (st_conn st) (d @ rest) = Inr g') \<and>
        sg_seqno g' = sg_seqno g \<and> sg_ackno g' = sg_ackno g \<and> sg_window g' = sg_window g \<and>
        sg_data g' = sg_data g \<and> verifies g' = verifies g))"
  using assms by (rule handshake_succeeds)

definition example_host :: host where
  "example_host = \<lparr>h_tcp = \<lparr>states = [], removed = [], process = example_sys, exited = False\<rparr>, h_conns = [],
     h_cfg = \<lparr>cfg_recv_window = 1440, cfg_send_window = 1440, cfg_timer = 40, cfg_rt_timeout = 200\<rparr>,
     h_net = lossy, next_ptr = 1, num_connected = 0, new_connection = 0, last_timeout = (0, 0), control_out = [], poll_fds = Map.empty\<rparr>"

theorem handshake_connects_witness:
  "\<exists>syn synack ack h1 st c'.
    tcp_handshake (example_sys\<lparr>is_server := False, my_port := 7\<rparr>) True (h_cfg example_host)
      (conn_setup (zero_conn 0) 5 1 8) (Some synack) =
      Inr (Connected, [syn, ack], h_cfg example_host, c') \<and>
    receive_packet example_host syn = Inr h1 \<and> control_out h1 = [synack] \<and> states (h_tcp h1) = [st] \<and>
    receive_packet h1 ack = Inr (h1\<lparr>new_connection := 0, next_ptr := Suc (next_ptr h1)\<rparr>) \<and> peers c' (st_conn st)"
proof -
  have a: "process (h_tcp example_host) = example_sys" "is_server example_sys" "unix_socket example_sys"
      "num_connected example_host < MAX_NUM_CLIENTS" "0 \<le> num_connected example_host" "\<not> is_server (example_sys\<lparr>is_server := False, my_port := 7\<rparr>)"
      "conn_setup (zero_conn 0) 5 1 8 = conn_setup (zero_conn 0) 5 1 (my_port example_sys)" "(5 :: nat) < 2 ^ 31"
    by (simp_all add: example_host_def example_sys_def MAX_NUM_CLIENTS_def)
  have b: "(h_cfg example_host)\<lparr>cfg_send_window := recv_window example_sys\<rparr> = h_cfg example_host"
      "control_out example_host = []" "states (h_tcp example_host) = []"
    by (simp_all add: example_host_def example_sys_def)
  show ?thesis using handshake_connects [OF a, of "h_cfg example_host" 0] unfolding b append_Nil
    by (elim exE conjE) (intro exI conjI)
qed

end
