(* ===== verification/Ctcp_Server.thy ===== *)
theory Ctcp_Server
  imports Ctcp_Host
begin

text \<open>
  What the main loop does to a server over any sequence of events: every protocol operation stays with its
  connection, so connections and protocol states correspond one to one; \<open>ctcp_timer\<close> destroys the newest connection,
  whose removal from the list writes through a dead pointer.  So the list of a server grows until a connection is
  given up, and then the execution is undefined.
\<close>

section \<open>Operations keep their connection\<close>

named_theorems keeps \<open>operations that change neither the address of the connection nor the role of the process\<close>

definition owner :: "tcp \<Rightarrow> nat \<times> bool" where
  "owner t = (conn_ptr (st_conn (fst t)), is_server (snd t))"

lemma owner_upd [simp]:
  "owner (upd_sw f st, s) = owner (st, s)" "owner (upd_rw g st, s) = owner (st, s)"
  by (simp_all add: owner_def upd_sw_def upd_rw_def)

lemma sys_read_role: "sys_read s n = (r, s') \<Longrightarrow> is_server s' = is_server s"
  by (auto simp: sys_read_def split: list.splits read_result.splits if_splits)

lemma sys_write_role: "sys_write s bs = (r, s') \<Longrightarrow> is_server s' = is_server s"
  by (auto simp: sys_write_def Let_def split: list.splits write_result.splits)

lemma read_into_role: "read_into s buf i n = Inr (r, buf', s') \<Longrightarrow> is_server s' = is_server s"
  by (auto simp: read_into_def fault_simps dest: sys_read_role split: prod.splits read_result.splits)

lemma conn_send_keeps: "conn_send c s b n = Inr s' \<Longrightarrow> is_server s' = is_server s"
  by (auto simp: conn_send_def fault_simps split: if_splits)

lemma conn_input_keeps:
  assumes "conn_input c s buf len = Inr (r, buf', c', s')"
  shows "conn_ptr c' = conn_ptr c \<and> is_server s' = is_server s"
proof (cases "delete_me c \<or> read_eof c")
  case True
  then show ?thesis using assms by (auto simp: conn_input_def split: if_splits)
next
  case False
  let ?rest = "\<lambda>(r, buf, s).
    case r of
      Bytes_read n \<Rightarrow>
        if n > 0 then
          rbind (add_network_line_ending (\<not> unix_socket s) buf (nat n)) (\<lambda>(added, buf).
          if added then Inr (Bytes_read (n + 1), buf, s)
          else rbind (read_into s buf (nat n) 1) (\<lambda>(r1, buf, s).
            case r1 of
              Bytes_read k \<Rightarrow> Inr (Bytes_read (n + k), buf, s)
            | _ \<Rightarrow> Inr (Bytes_read (n - 1), buf, s)))
        else Inr (r, buf, s)
    | _ \<Rightarrow> Inr (r, buf, s)"
  have rest: "is_server s2 = is_server s1" if "?rest (r1, b1, s1) = Inr (r2, b2, s2)" for r1 b1 s1 r2 b2 s2
    using that by (cases r1) (auto elim!: rbind_InrE dest!: read_into_role split: if_split_asm input_status.split_asm)
  obtain r1 b1 s1 where 1: "(if run_program s \<or> unix_socket s then read_into s buf 0 len
      else rbind (read_into s buf 0 (len - 1)) ?rest) = Inr (r1, b1, s1)"
    "(case r1 of Would_block \<Rightarrow> Inr (0, b1, c, s1)
      | Read_error \<Rightarrow> Inr (-1, b1, c\<lparr>read_eof := True\<rparr>, s1)
      | Bytes_read n \<Rightarrow>
          if n = 0 then Inr (-1, b1, c\<lparr>read_eof := True\<rparr>, s1)
          else rbind (ld8 b1 0) (\<lambda>b.
            if eof_char s1 \<and> b = 0x1a then Inr (-1, b1, c\<lparr>read_eof := True\<rparr>, s1)
            else Inr (n, b1, c, s1))) = Inr (r, buf', c', s')"
    using assms False unfolding conn_input_def by (auto elim!: rbind_InrE)
  have "is_server s1 = is_server s"
    using 1(1) rest by (auto simp: fault_simps dest!: read_into_role split: if_splits)
  then show ?thesis
    using 1(2) by (cases r1) (auto simp: fault_simps split: if_splits)
qed

lemma conn_output_keeps:
  assumes "conn_output c s buf len = Inr (r, c', s')"
  shows "conn_ptr c' = conn_ptr c \<and> is_server s' = is_server s"
proof -
  obtain w s1 where w: "sys_write s (slice buf 0 len) = (w, s1)" by fastforce
  show ?thesis
    using assms w sys_write_role [OF w]
    by (cases w) (auto simp: conn_output_def Let_def rd_def split: if_splits)
qed

lemma drain_loop_role: "drain_loop q out s = (q', e, out', s') \<Longrightarrow> is_server s' = is_server s"
proof (induction q arbitrary: out s)
  case (Cons k q)
  then show ?case
    by (auto simp: Let_def dest!: sys_write_role split: prod.splits write_result.splits if_splits)
qed simp

lemma conn_drain_keeps:
  "conn_drain c s = (out, c', s') \<Longrightarrow> conn_ptr c' = conn_ptr c \<and> is_server s' = is_server s"
  by (auto simp: conn_drain_def Let_def dest!: drain_loop_role split: if_splits prod.splits)

lemma send_loop_role: "send_loop c a gs s = Inr (gs', s') \<Longrightarrow> is_server s' = is_server s"
proof (induction gs arbitrary: s gs' s')
  case (Cons g gs)
  then show ?case
    by (fastforce simp: Let_def fault_simps dest: conn_send_keeps split: if_splits)
qed simp

lemma ctcp_send_keeps [keeps]: "ctcp_send t = Inr t' \<Longrightarrow> owner t' = owner t"
  by (auto simp: ctcp_send_def Let_def fault_simps owner_def upd_sw_def dest!: send_loop_role split: prod.splits if_splits)

lemma ctcp_makeseg_keeps [keeps]: "ctcp_makeseg t mode = Inr t' \<Longrightarrow> owner t' = owner t"
  by (cases t; cases mode)
    (auto simp: ctcp_makeseg_def new_segment_def Let_def fault_simps owner_def upd_sw_def
      dest!: conn_send_keeps ctcp_send_keeps)

lemma ctcp_retrans_keeps [keeps]: "ctcp_retrans t = Inr t' \<Longrightarrow> owner t' = owner t"
  by (auto simp: ctcp_retrans_def Let_def fault_simps owner_def upd_sw_def dest!: conn_send_keeps
      split: prod.splits list.splits)

lemma output_loop_keeps: "output_loop gs t = Inr (gs', t') \<Longrightarrow> owner t' = owner t"
proof (induction gs arbitrary: t)
  case (Cons g gs)
  obtain st s where t: "t = (st, s)" by (cases t)
  show ?case
  proof (cases "ntohl (sg_seqno g) \<ge> word_of_int (rw_ackno (st_rw st))")
    case False
    then obtain n r c s1 where o: "conn_output (st_conn st) s (sg_data g) n = Inr (r, c, s1)"
        "output_loop gs (upd_rw (\<lambda>w. w\<lparr>rw_size := rw_size w - data_len g\<rparr>) (st\<lparr>st_conn := c\<rparr>), s1) = Inr (gs', t')"
      using Cons.prems t by (auto simp: Let_def fault_simps)
    show ?thesis using Cons.IH [OF o(2)] conn_output_keeps [OF o(1)] t by (simp add: owner_def upd_rw_def)
  qed (use Cons.prems t in auto)
qed simp

lemma ctcp_output_keeps [keeps]: "ctcp_output t = Inr t' \<Longrightarrow> owner t' = owner t"
  by (auto simp: ctcp_output_def fault_simps dest!: output_loop_keeps)

lemma ctcp_read_keeps [keeps]: "ctcp_read t = Inr t' \<Longrightarrow> owner t' = owner t"
  by (cases t)
    (auto simp: ctcp_read_def Let_def fault_simps owner_def dest!: conn_input_keeps ctcp_makeseg_keeps split: if_splits)

lemma drain_conn_keeps [keeps]: "drain_conn t = Inr t' \<Longrightarrow> owner t' = owner t"
  by (cases t)
    (auto simp: drain_conn_def Let_def owner_def dest!: conn_drain_keeps ctcp_output_keeps
      split: prod.splits if_splits)

lemma receive_fin_keeps: "receive_fin t g len = Inr t' \<Longrightarrow> owner t' = owner t"
  by (auto simp: receive_fin_def fault_simps dest!: ctcp_makeseg_keeps split: if_splits)

lemma receive_expected_keeps: "receive_expected t g = Inr t' \<Longrightarrow> owner t' = owner t"
  by (cases t) (auto simp: receive_expected_def Let_def fault_simps dest!: ctcp_makeseg_keeps ctcp_output_keeps
      split: list.splits)

lemma receive_future_keeps: "receive_future t g = Inr t' \<Longrightarrow> owner t' = owner t"
  by (cases t; cases "rw_segments (st_rw (fst t))")
    (auto simp: receive_future_def Let_def split: prod.splits)

lemma receive_data_keeps: "receive_data t g len = Inr t' \<Longrightarrow> owner t' = owner t"
  unfolding receive_data_def
  by (auto simp: Let_def fault_simps dest!: ctcp_makeseg_keeps receive_expected_keeps receive_future_keeps
      split: prod.splits if_splits)

lemma receive_ack_keeps: "receive_ack t g = Inr t' \<Longrightarrow> owner t' = owner t"
  by (auto simp: receive_ack_def Let_def dest!: ctcp_send_keeps split: prod.splits if_splits list.splits)

lemma ctcp_receive_keeps [keeps]:
  assumes "ctcp_receive t g len = Inr t'"
  shows "owner t' = owner t"
proof -
  obtain st s where t: "t = (st, s)" by (cases t)
  obtain good g1 where c: "checksum g = Inr (good, g1)" using assms by (auto simp: ctcp_receive_def elim!: rbind_InrE)
  show ?thesis
  proof (cases good)
    case False
    then show ?thesis using assms c by (simp add: ctcp_receive_def)
  next
    case True
    let ?st = "upd_sw (\<lambda>w. w\<lparr>recv_win_size := int (unat (ntohs (sg_window g1)))\<rparr>) st"
    obtain st1 s1 where f: "receive_fin (?st, s) g1 len = Inr (st1, s1)"
      using assms c True unfolding ctcp_receive_def t by (auto simp: Let_def elim!: rbind_InrE)
    define st2 where "st2 = (if is_fin_ack g1 len then st1\<lparr>timer_teardown := clock s1\<rparr> else st1)"
    have "(if \<not> no_payload len then receive_data (st2, s1) g1 len
        else if sg_flags g1 AND TH_ACK \<noteq> 0 \<or> is_fin_ack g1 len then receive_ack (st2, s1) g1
        else Inr (st2, s1)) = Inr t'"
      using assms c True f unfolding ctcp_receive_def t st2_def by (simp add: Let_def)
    then have "owner t' = owner (st2, s1)"
      using receive_data_keeps receive_ack_keeps by (auto split: if_splits)
    also have "... = owner (st1, s1)" by (simp add: st2_def owner_def)
    also have "... = owner t" using receive_fin_keeps [OF f] t by simp
    finally show ?thesis .
  qed
qed

lemma timer_check_keeps [keeps]: "timer_check t = Inr (b, t') \<Longrightarrow> owner t' = owner t"
  by (cases t)
    (auto simp: timer_check_def Let_def fault_simps dest!: ctcp_retrans_keeps split: if_split_asm)

section \<open>Operations on one of several states\<close>

abbreviation ptrs :: "ctcp_state list \<Rightarrow> nat list" where
  "ptrs sts \<equiv> map (\<lambda>st. conn_ptr (st_conn st)) sts"

lemma timer_loop_keeps:
  "timer_loop sts s = Inr (b, sts', s') \<Longrightarrow> ptrs sts' = ptrs sts \<and> is_server s' = is_server s \<and> (b \<longrightarrow> sts \<noteq> [])"
proof (induction sts arbitrary: s b sts')
  case (Cons st sts)
  then obtain d st1 s1 where d: "timer_check (st, s) = Inr (d, st1, s1)"
    by (auto elim!: rbind_InrE)
  then have "conn_ptr (st_conn st1) = conn_ptr (st_conn st) \<and> is_server s1 = is_server s"
    using timer_check_keeps [OF d] by (simp add: owner_def)
  then show ?case using Cons d by (auto simp: fault_simps split: if_split_asm)
qed simp

section \<open>The invariant\<close>

definition slots_ok :: "int \<Rightarrow> (nat \<Rightarrow> int option) \<Rightarrow> bool" where
  \<comment> \<open>the programs of different connections are polled at different places, the next free one is behind them\<close>
  "slots_ok n f \<longleftrightarrow> (\<forall>p k. f p = Some k \<longrightarrow> NUM_POLL \<le> k \<and> k < NUM_POLL + n) \<and>
     (\<forall>p q k. f p = Some k \<longrightarrow> f q = Some k \<longrightarrow> p = q)"

lemma slots_next: "slots_ok n f \<Longrightarrow> slots_ok (n + 1) f"
  by (fastforce simp: slots_ok_def)

lemma slots_upd:
  assumes "slots_ok n f" "0 \<le> n"
  shows "slots_ok (n + 1) (f(p := Some (NUM_POLL + n)))"
proof -
  have "k < NUM_POLL + n" if "f q = Some k" for q k using assms(1) that by (auto simp: slots_ok_def)
  then have "f q \<noteq> Some (NUM_POLL + n)" for q by force
  then show ?thesis using slots_next [OF assms(1)] assms(2) by (auto simp: slots_ok_def)
qed

definition server_inv :: "host \<Rightarrow> bool" where
  \<comment> \<open>one protocol state for each connection, newest first; every client that ever connected is still there\<close>
  "server_inv h \<longleftrightarrow> is_server (process (h_tcp h)) \<and> removed (h_tcp h) = [] \<and>
     ptrs (states (h_tcp h)) = h_conns h \<and> distinct (h_conns h) \<and> (\<forall>p \<in> set (h_conns h). p < next_ptr h) \<and>
     int (length (h_conns h)) = num_connected h \<and> num_connected h \<le> MAX_NUM_CLIENTS \<and>
     slots_ok (num_connected h) (poll_fds h)"

definition grows :: "host \<Rightarrow> host \<Rightarrow> bool" where
  "grows h h' \<longleftrightarrow> (\<exists>new. h_conns h' = new @ h_conns h)"

lemma grows_refl [simp]: "grows h h"
  by (simp add: grows_def)

lemma grows_trans: "grows a b \<Longrightarrow> grows b c \<Longrightarrow> grows a c"
  by (auto simp: grows_def)

text \<open>
  What the main loop needs of the operations it applies to connections: that they stay with their connection.  Then applying
  one to a state in the list, or to several, keeps the invariant.
\<close>

locale connection_operation =
  fixes f :: "tcp \<Rightarrow> tcp res"
  assumes same_owner: "f t = Inr t' \<Longrightarrow> owner t' = owner t"
begin

lemma at_state_keeps: "at_state p f sts s = Inr (sts', s') \<Longrightarrow> ptrs sts' = ptrs sts \<and> is_server s' = is_server s"
proof (induction sts arbitrary: sts')
  case (Cons st sts)
  show ?case
  proof (cases "conn_ptr (st_conn st) = p")
    case True
    then obtain st1 where "f (st, s) = Inr (st1, s')" "sts' = st1 # sts"
      using Cons.prems by (auto elim!: rbind_InrE)
    then show ?thesis using same_owner [of "(st, s)" "(st1, s')"] by (simp add: owner_def)
  next
    case False
    then show ?thesis using Cons by (auto elim!: rbind_InrE)
  qed
qed simp

lemma at_conn_inv:
  assumes "at_conn p f h = Inr h'" "server_inv h"
  shows "server_inv h' \<and> h_conns h' = h_conns h"
proof -
  obtain sts s where a: "at_state p f (states (h_tcp h)) (process (h_tcp h)) = Inr (sts, s)"
      "h' = h\<lparr>h_tcp := (h_tcp h)\<lparr>states := sts, process := s\<rparr>\<rparr>"
    using assms(1) by (auto simp: at_conn_def elim!: rbind_InrE)
  then show ?thesis using assms(2) at_state_keeps [OF a(1)] by (simp add: server_inv_def)
qed

lemma each_conn_inv: "each_conn f ps h = Inr h' \<Longrightarrow> server_inv h \<Longrightarrow> server_inv h' \<and> h_conns h' = h_conns h"
proof (induction ps arbitrary: h)
  case (Cons p ps)
  then obtain h1 where "at_conn p f h = Inr h1" "each_conn f ps h1 = Inr h'" by (auto elim!: rbind_InrE)
  then show ?case using at_conn_inv [of p h h1] Cons by auto
qed simp

end

interpretation read_op: connection_operation ctcp_read
  by unfold_locales (rule ctcp_read_keeps)

interpretation drain_op: connection_operation drain_conn
  by unfold_locales (rule drain_conn_keeps)

interpretation receive_op: connection_operation "\<lambda>t. ctcp_receive t g len" for g len
  by unfold_locales (rule ctcp_receive_keeps)

lemma read_programs_inv:
  "read_programs ready ps h = Inr h' \<Longrightarrow> server_inv h \<Longrightarrow> server_inv h' \<and> h_conns h' = h_conns h"
proof (induction ps arbitrary: h)
  case (Cons p ps)
  then obtain h1 where "(if p \<in> set ready then at_conn p ctcp_read h else Inr h) = Inr h1" "read_programs ready ps h1 = Inr h'"
    by (auto elim!: rbind_InrE split: option.splits)
  then show ?case using read_op.at_conn_inv [of p h h1] Cons by (auto split: if_split_asm)
qed simp

lemma execute_program_inv:
  assumes "execute_program p h' = Inr h''" "server_inv h'" "slots_ok n (poll_fds h')" "num_connected h' = n + 1" "0 \<le> n"
  shows "server_inv h'' \<and> h_conns h'' = h_conns h'"
proof -
  have "h'' = h'\<lparr>poll_fds := (poll_fds h')(p := Some (NUM_POLL + n))\<rparr>"
    using assms(1,4) by (auto simp: execute_program_def Let_def split: if_split_asm)
  then show ?thesis using assms(2,4) slots_upd [OF assms(3,5)] by (simp add: server_inv_def)
qed

lemma new_connection_inv:
  assumes "tcp_new_connection h pkt = Inr (c, h')" "server_inv h"
  shows "server_inv h' \<and> grows h h'"
proof (cases "num_connected h \<ge> MAX_NUM_CLIENTS")
  case True
  then show ?thesis using assms by (auto simp: tcp_new_connection_def Let_def server_inv_def)
next
  case False
  obtain r net where r: "rand (h_net h) = (r, net)" by (cases "rand (h_net h)")
  have ptr: "conn_ptr dst' = conn_ptr dst" if "send_tcp_conn_seg s ok dst fl = Inr (x, out, dst')" for s ok dst fl x out dst'
  proof -
    from that obtain d where "create_tcp_seg s dst (ucast fl) None 0 = Inr (d, dst')"
      by (auto simp: send_tcp_conn_seg_def elim!: rbind_InrE split: if_split_asm)
    then show ?thesis unfolding create_tcp_seg_def by (auto simp: Let_def elim!: rbind_InrE)
  qed
  show ?thesis
    using assms False
    by (auto simp: tcp_new_connection_def Let_def r ctcp_init_def server_inv_def grows_def conn_setup_def zero_conn_def less_Suc_eq
        elim!: rbind_InrE dest!: ptr less_imp_neq intro!: slots_next split: if_split_asm)
qed

lemma new_connection_counts:
  assumes "tcp_new_connection h pkt = Inr (Some c, h')"
  shows "num_connected h' = num_connected h + 1 \<and> poll_fds h' = poll_fds h"
  using assms
  by (auto simp: tcp_new_connection_def Let_def ctcp_init_def split_beta elim!: rbind_InrE split: if_split_asm)

lemma new_connection_program:
  assumes "tcp_new_connection h pkt = Inr (c, h1)" "server_inv h"
    and "(case c of None \<Rightarrow> Inr h1 | Some c \<Rightarrow> if run then execute_program (conn_ptr c) h1 else Inr h1) = Inr h2"
  shows "server_inv h2 \<and> grows h h2"
proof -
  note i = new_connection_inv [OF assms(1,2)]
  have "server_inv h2 \<and> h_conns h2 = h_conns h1"
  proof (cases "c \<noteq> None \<and> run")
    case True
    then obtain d where d: "c = Some d" "execute_program (conn_ptr d) h1 = Inr h2" using assms(3) by auto
    have "num_connected h1 = num_connected h + 1 \<and> poll_fds h1 = poll_fds h"
      using assms(1) d(1) by (intro new_connection_counts) simp
    then show ?thesis using execute_program_inv [OF d(2)] assms(2) i by (auto simp: server_inv_def)
  next
    case False
    then show ?thesis using assms(3) i by (auto split: option.splits if_splits)
  qed
  then show ?thesis using i by (simp add: grows_def)
qed

lemma receive_packet_inv:
  assumes "receive_packet h pkt = Inr h'" "server_inv h"
  shows "server_inv h' \<and> grows h h'"
proof -
  let ?s = "process (h_tcp h)" and ?buf = "take MAX_PACKET_SIZE pkt"
  show ?thesis
  proof (cases "recv_filter ?s (get_connections h) ?buf")
    case (Packet len who)
    show ?thesis
    proof (cases who)
      case None
      show ?thesis
      proof (cases "get8 ?buf 33 AND ucast TH_SYN = 0")
        case True
        then show ?thesis using assms Packet None by (simp add: receive_packet_def Let_def)
      next
        case False
        then obtain c h1 h2 where 1: "tcp_new_connection h ?buf = Inr (c, h1)"
            "(case c of None \<Rightarrow> Inr h1 | Some c \<Rightarrow> if run_program ?s then execute_program (conn_ptr c) h1 else Inr h1) = Inr h2"
            "h' = h2\<lparr>new_connection := get16 ?buf 20\<rparr>"
          using assms(1) Packet None by (auto simp: receive_packet_def Let_def elim!: rbind_InrE)
        show ?thesis
          using new_connection_program [OF 1(1) assms(2) 1(2)] 1(3) by (simp add: server_inv_def grows_def)
      qed
    next
      case (Some c)
      let ?h = "h\<lparr>next_ptr := Suc (next_ptr h)\<rparr>"
      obtain g where g: "convert_to_ctcp (next_ptr h) c (?buf @ replicate (MAX_PACKET_SIZE - length ?buf) 0) = Inr g"
        using assms(1) Packet Some by (auto simp: receive_packet_def Let_def elim!: rbind_InrE)
      let ?f = "\<lambda>t. ctcp_receive t g (word_of_nat (len - 40 + 20))"
      have inv: "server_inv ?h" using assms(2) by (auto simp: server_inv_def less_Suc_eq)
      have "h' = ?h\<lparr>new_connection := 0\<rparr> \<or> at_conn (conn_ptr c) ?f ?h = Inr h'"
        using assms(1) Packet Some g by (simp add: receive_packet_def Let_def at_conn_def split: if_split_asm)
      then show ?thesis
      proof
        assume "h' = ?h\<lparr>new_connection := 0\<rparr>"
        then show ?thesis using inv by (simp add: server_inv_def grows_def)
      next
        assume "at_conn (conn_ptr c) ?f ?h = Inr h'"
        then show ?thesis using receive_op.at_conn_inv [OF _ inv] by (auto simp: grows_def)
      qed
    qed
  qed (use assms in \<open>auto simp: receive_packet_def Let_def server_inv_def grows_def\<close>)
qed

text \<open>A timeout that ends a connection ends the newest one, and removing that one from the list is undefined.\<close>

lemma timer_branch:
  assumes "ctcp_timer (h_tcp h) = Inr t" "delete_connections (h\<lparr>h_tcp := t, last_timeout := l\<rparr>) = Inr h'" "server_inv h"
  shows "server_inv h' \<and> h_conns h' = h_conns h"
proof -
  obtain d sts s where l: "timer_loop (states (h_tcp h)) (process (h_tcp h)) = Inr (d, sts, s)"
    using assms(1) by (auto simp: ctcp_timer_def elim!: rbind_InrE)
  note k = timer_loop_keeps [OF l]
  let ?t = "(h_tcp h)\<lparr>states := sts, process := s\<rparr>"
  have inv: "ptrs (states (h_tcp h)) = h_conns h" "removed (h_tcp h) = []" "is_server (process (h_tcp h))"
    using assms(3) by (simp_all add: server_inv_def)
  have "\<not> d"
  proof
    assume d: d
    then obtain st sts' where sts: "sts = st # sts'" using k by (cases sts) auto
    then have c: "h_conns h = conn_ptr (st_conn st) # ptrs sts'" using k inv(1) by simp
    have "t = ctcp_destroy 0 ?t" using assms(1) l d by (simp add: ctcp_timer_def Let_def)
    then show False
      using assms(2) k inv sts c
      by (simp add: ctcp_destroy_def delete_connections_def Let_def conn_remove_def)
  qed
  then have "t = ?t" using assms(1) l by (simp add: ctcp_timer_def Let_def)
  then show ?thesis
    using assms(2,3) k inv
    by (auto simp: delete_connections_def server_inv_def split: list.splits)
qed

lemma delete_branch: "delete_connections h = Inr h' \<Longrightarrow> server_inv h \<Longrightarrow> server_inv h' \<and> h_conns h' = h_conns h"
  by (auto simp: delete_connections_def server_inv_def split: list.splits)

lemma iteration_inv:
  assumes "do_iteration h ev = Inr h'" "server_inv h"
  shows "server_inv h' \<and> grows h h'"
proof -
  obtain sec nsec where now: "time_now ev = (sec, nsec)" by (cases "time_now ev")
  let ?s = "(process (h_tcp h))\<lparr>clock := sec * 1000 + nsec sdiv 1000000\<rparr>"
  let ?h0 = "h\<lparr>h_tcp := (h_tcp h)\<lparr>process := ?s\<rparr>\<rparr>"
  have i0: "server_inv ?h0 \<and> h_conns ?h0 = h_conns h" using assms(2) by (simp add: server_inv_def)
  show ?thesis
  proof (cases "exited (h_tcp h)")
    case True
    then show ?thesis using assms(1) i0 now by (auto simp: do_iteration_def Let_def grows_def)
  next
    case False
    obtain h1 h2 h3 h4 where
      1: "(if \<not> run_program ?s \<and> in_ready ev then
             (case h_conns ?h0 of [] \<Rightarrow> Inr ?h0 | p # _ \<Rightarrow> at_conn p ctcp_read ?h0) else Inr ?h0) = Inr h1" and
      2: "(if out_ready ev then each_conn drain_conn (h_conns h1) h1 else Inr h1) = Inr h2" and
      3: "(if run_program ?s then read_programs (programs_ready ev) (h_conns h2) h2
           else Inr h2) = Inr h3" and
      4: "(case packet_in ev of None \<Rightarrow> Inr h3 | Some pkt \<Rightarrow> receive_packet h3 pkt) = Inr h4" and
      5: "(if exited (h_tcp h4) then Inr h4
           else rbind (if need_timer_in (fst (last_timeout h4)) (snd (last_timeout h4)) sec nsec (cfg_timer (h_cfg h4)) = 0
                 then rbind (ctcp_timer (h_tcp h4)) (\<lambda>t. Inr (h4\<lparr>h_tcp := t, last_timeout := (sec, nsec)\<rparr>))
                 else Inr h4) delete_connections) = Inr h'"
      using assms(1) False now unfolding do_iteration_def by (auto simp: Let_def elim!: rbind_InrE)
    have i1: "server_inv h1 \<and> h_conns h1 = h_conns h"
      using 1 i0 read_op.at_conn_inv [of _ ?h0 h1] by (auto split: if_split_asm list.splits)
    have i2: "server_inv h2 \<and> h_conns h2 = h_conns h"
      using 2 i1 drain_op.each_conn_inv [of "h_conns h1" h1 h2] by (auto split: if_split_asm)
    have i3: "server_inv h3 \<and> h_conns h3 = h_conns h"
      using 3 i2 read_programs_inv [of _ _ h2 h3] by (auto split: if_split_asm)
    have i4: "server_inv h4 \<and> grows h h4"
      using 4 i3 receive_packet_inv [of h3 _ h4] by (auto simp: grows_def split: option.splits)
    have "server_inv h' \<and> h_conns h' = h_conns h4"
    proof (cases "exited (h_tcp h4)")
      case True
      then show ?thesis using 5 i4 by simp
    next
      case False
      then consider t where "ctcp_timer (h_tcp h4) = Inr t" "delete_connections (h4\<lparr>h_tcp := t, last_timeout := (sec, nsec)\<rparr>) = Inr h'"
        | "delete_connections h4 = Inr h'"
        using 5 by (auto elim!: rbind_InrE split: if_split_asm)
      then show ?thesis using timer_branch delete_branch i4 by cases blast+
    qed
    then show ?thesis using i4 by (simp add: grows_def)
  qed
qed

lemma loop_inv: "do_loop h evs = Inr h' \<Longrightarrow> server_inv h \<Longrightarrow> server_inv h' \<and> grows h h'"
proof (induction evs arbitrary: h)
  case (Cons ev evs)
  then obtain h1 where "do_iteration h ev = Inr h1" "do_loop h1 evs = Inr h'" by (auto elim!: rbind_InrE)
  then show ?case using iteration_inv [of h ev h1] Cons grows_trans by blast
qed simp

text \<open>A round of the loop in which the time has come for the timer and nothing else happens.\<close>

definition timer_round_at :: "int \<times> int \<Rightarrow> polled" where
  "timer_round_at now =
     \<lparr>in_ready = False, out_ready = False, programs_ready = [], packet_in = None, time_now = now\<rparr>"

definition polls_all :: "host \<Rightarrow> bool" where
  \<comment> \<open>where programs run, every connection has one\<close>
  "polls_all h \<longleftrightarrow> (run_program (process (h_tcp h)) \<longrightarrow> (\<forall>p \<in> set (h_conns h). poll_fds h p \<noteq> None))"

lemma read_programs_none: "\<forall>p \<in> set ps. poll_fds h p \<noteq> None \<Longrightarrow> read_programs [] ps h = Inr h"
  by (induction ps) auto

lemma giving_up_faults:
  fixes h :: host and sec nsec :: int
  defines "s \<equiv> (process (h_tcp h))\<lparr>clock := sec * 1000 + nsec sdiv 1000000\<rparr>"
  assumes "server_inv h" "\<not> exited (h_tcp h)" "polls_all h"
    "need_timer_in (fst (last_timeout h)) (snd (last_timeout h)) sec nsec (cfg_timer (h_cfg h)) = 0"
    "timer_loop (states (h_tcp h)) s = Inr (True, sts, s')"
  shows "do_iteration h (timer_round_at (sec, nsec)) = Inl UseAfterFree"
proof -
  let ?h = "h\<lparr>h_tcp := (h_tcp h)\<lparr>process := s\<rparr>\<rparr>"
  note k = timer_loop_keeps [OF assms(6)]
  have inv: "ptrs (states (h_tcp h)) = h_conns h" "removed (h_tcp h) = []" "is_server s"
    using assms(2) by (simp_all add: server_inv_def s_def)
  obtain st sts' where sts: "sts = st # sts'" using k by (cases sts) auto
  then have c: "h_conns h = conn_ptr (st_conn st) # ptrs sts'" using k inv(1) by simp
  have t: "ctcp_timer (h_tcp ?h) = Inr (ctcp_destroy 0 ((h_tcp h)\<lparr>states := sts, process := s'\<rparr>))"
    using assms(6) by (simp add: ctcp_timer_def)
  have r: "run_program (process (h_tcp h)) \<Longrightarrow> read_programs [] (h_conns h) ?h = Inr ?h"
    using assms(4) by (intro read_programs_none) (simp add: polls_all_def s_def)
  let ?t = "ctcp_destroy 0 ((h_tcp h)\<lparr>states := sts, process := s'\<rparr>)"
  have "do_iteration h (timer_round_at (sec, nsec)) = delete_connections (?h\<lparr>h_tcp := ?t, last_timeout := (sec, nsec)\<rparr>)"
    using assms(3,5) t r by (simp add: do_iteration_def timer_round_at_def Let_def flip: s_def)
  also have "\<dots> = Inl UseAfterFree"
    using k inv c sts by (simp add: delete_connections_def ctcp_destroy_def conn_remove_def)
  finally show ?thesis .
qed

lemma do_loop_append: "do_loop h (evs @ evs') = rbind (do_loop h evs) (\<lambda>h'. do_loop h' evs')"
  by (induction evs arbitrary: h) (simp_all add: rbind_assoc)

text \<open>
  C26: a server over any sequence of events (input, output, packets, timeouts).  As long as the execution is defined,
  its connections and protocol states correspond one to one, newest first, the address of every
  connection is its own, at most ten clients are connected, none has been marked for removal, and after ten
  clients every further SYN is refused: the list of connections only grows.  It does not stay defined: as soon as the timer
  of any connection gives it up, the round ends with a write through a dead pointer, because \<open>ctcp_timer\<close> destroys the newest
  connection and \<open>conn_free\<close> cannot unlink that one.
\<close>

theorem server_keeps_connections:
  assumes "server_inv h" "do_loop h evs = Inr h'"
  shows "ptrs (states (h_tcp h')) = h_conns h' \<and> distinct (h_conns h') \<and>
    int (length (h_conns h')) = num_connected h' \<and> num_connected h' \<le> 10 \<and> removed (h_tcp h') = [] \<and>
    (\<exists>new. h_conns h' = new @ h_conns h) \<and>
    (num_connected h = 10 \<longrightarrow> h_conns h' = h_conns h) \<and>
    (\<forall>sec nsec sts s. \<not> exited (h_tcp h') \<longrightarrow> polls_all h' \<longrightarrow>
      need_timer_in (fst (last_timeout h')) (snd (last_timeout h')) sec nsec (cfg_timer (h_cfg h')) = 0 \<longrightarrow>
      timer_loop (states (h_tcp h')) ((process (h_tcp h'))\<lparr>clock := sec * 1000 + nsec sdiv 1000000\<rparr>) = Inr (True, sts, s) \<longrightarrow>
      do_loop h (evs @ [timer_round_at (sec, nsec)]) = Inl UseAfterFree)"
proof -
  have i: "server_inv h'" "grows h h'" using loop_inv [OF assms(2,1)] by simp_all
  then obtain new where new: "h_conns h' = new @ h_conns h" by (auto simp: grows_def)
  have "h_conns h' = h_conns h" if "num_connected h = 10"
  proof -
    have "int (length new) + 10 \<le> 10"
      using i(1) assms(1) new that by (auto simp: server_inv_def MAX_NUM_CLIENTS_def)
    then show ?thesis using new by simp
  qed
  moreover have "do_loop h (evs @ [timer_round_at now]) = rbind (do_iteration h' (timer_round_at now)) Inr" for now
    using assms(2) by (simp add: do_loop_append)
  ultimately show ?thesis
    using i(1) new giving_up_faults [OF i(1)] by (simp add: server_inv_def MAX_NUM_CLIENTS_def)
qed

text \<open>A round in which a server accepts a client, for the examples.\<close>

definition syn_round :: "byte list \<Rightarrow> polled" where
  "syn_round syn = \<lparr>in_ready = False, out_ready = False, programs_ready = [], packet_in = Some syn, time_now = (0, 0)\<rparr>"

definition accepting :: "host \<Rightarrow> bool" where
  "accepting h \<longleftrightarrow> server_inv h \<and> \<not> exited (h_tcp h) \<and> polls_all h \<and> last_timeout h = (0, 0) \<and> cfg_timer (h_cfg h) = 40 \<and>
     my_port (process (h_tcp h)) = 8"

lemma client_accepted:
  assumes "accepting h" "num_connected h < 10"
    "control_segment cs (conn_setup (zero_conn 0) 5 1 8) (ucast TH_SYN) syn"
  shows "\<exists>h'. do_iteration h (syn_round syn) = Inr h' \<and> accepting h' \<and> h_conns h' = next_ptr h # h_conns h \<and>
    next_ptr h' = Suc (next_ptr h) \<and> num_connected h' = num_connected h + 1 \<and>
    run_program (process (h_tcp h')) = run_program (process (h_tcp h)) \<and>
    poll_fds h' = (if run_program (process (h_tcp h)) then (poll_fds h)(next_ptr h := Some (3 + num_connected h))
      else poll_fds h)"
proof -
  let ?s = "(process (h_tcp h))\<lparr>clock := 0\<rparr>"
  let ?h = "h\<lparr>h_tcp := (h_tcp h)\<lparr>process := ?s\<rparr>\<rparr>"
  have h: "server_inv h" "\<not> exited (h_tcp h)" "polls_all h" "last_timeout h = (0, 0)" "cfg_timer (h_cfg h) = 40"
      "my_port (process (h_tcp h)) = 8"
    using assms(1) by (simp_all add: accepting_def)
  have i0: "server_inv ?h" "0 \<le> num_connected h" "is_server ?s" using h(1) by (auto simp: server_inv_def)
  obtain h1 where h1: "receive_packet ?h syn = Inr h1" "process (h_tcp h1) = ?s" "h_conns h1 = next_ptr h # h_conns h"
      "exited (h_tcp h1) = exited (h_tcp h)" "last_timeout h1 = last_timeout h" "cfg_timer (h_cfg h1) = cfg_timer (h_cfg h)"
      "num_connected h1 = num_connected h + 1" "next_ptr h1 = Suc (next_ptr h)"
      "poll_fds h1 = (if run_program ?s then (poll_fds h)(next_ptr h := Some (3 + num_connected h)) else poll_fds h)"
    using syn_received [OF assms(3), of ?h] i0 h(6) assms(2) by (auto simp: conn_setup_def MAX_NUM_CLIENTS_def)
  have i1: "server_inv h1" using receive_packet_inv [OF h1(1) i0(1)] by simp
  have del: "delete_connections h1 = Inr h1"
    using i1 h1(3) by (simp add: delete_connections_def server_inv_def)
  have polls: "polls_all h1" using h(3) h1(2,3,9) by (auto simp: polls_all_def)
  have r: "run_program ?s \<Longrightarrow> read_programs [] (h_conns h) ?h = Inr ?h"
    using h(3) by (intro read_programs_none) (simp add: polls_all_def)
  have "do_iteration h (syn_round syn) = Inr h1"
    using h h1(1,4-6) del r by (simp add: do_iteration_def syn_round_def Let_def need_timer_in_def)
  then show ?thesis using i1 polls h h1 by (simp add: accepting_def)
qed

lemma example_accepting: "accepting (example_host\<lparr>h_tcp := (h_tcp example_host)\<lparr>process := example_sys\<lparr>run_program := r\<rparr>\<rparr>\<rparr>)"
  by (simp add: accepting_def server_inv_def slots_ok_def polls_all_def example_host_def example_sys_def MAX_NUM_CLIENTS_def)

definition given_up_host :: host where
  \<comment> \<open>a server whose only connection has been retransmitting since time 0 and has used its five attempts\<close>
  "given_up_host = example_host\<lparr>h_tcp := (h_tcp example_host)\<lparr>states :=
     [upd_sw (\<lambda>w. w\<lparr>retrans_counter := 5\<rparr>) waiting_state]\<rparr>, h_conns := [0], num_connected := 1\<rparr>"

theorem server_keeps_connections_witness:
  "(\<exists>syn h'. do_loop example_host [syn_round syn] = Inr h' \<and> ptrs (states (h_tcp h')) = [1] \<and> num_connected h' = 1 \<and>
     removed (h_tcp h') = []) \<and>
   do_loop given_up_host [timer_round_at (1, 0)] = Inl UseAfterFree"
proof
  let ?cs = "example_sys\<lparr>is_server := False, my_port := 7\<rparr>" and ?c = "conn_setup (zero_conn 0) 5 1 8"
  obtain syn where syn: "control_segment ?cs ?c (ucast TH_SYN) syn"
    using create_control_segment [OF flag_bits(1), of ?cs ?c] by blast
  have e: "accepting example_host" "num_connected example_host = 0" "next_ptr example_host = 1" "h_conns example_host = []"
    using example_accepting [of False] by (simp_all add: example_host_def example_sys_def)
  obtain h' where h': "do_loop example_host [syn_round syn] = Inr h'" "h_conns h' = [1]" "num_connected h' = 1"
    using client_accepted [OF e(1) _ syn] e by auto
  have "server_inv example_host" using e(1) by (simp add: accepting_def)
  then show "\<exists>syn h'. do_loop example_host [syn_round syn] = Inr h' \<and> ptrs (states (h_tcp h')) = [1] \<and> num_connected h' = 1 \<and>
     removed (h_tcp h') = []"
    using server_keeps_connections [OF _ h'(1)] h' by (intro exI [of _ syn] exI [of _ h'] conjI) simp_all
next
  let ?h = given_up_host
  have f: "states (h_tcp ?h) = [upd_sw (\<lambda>w. w\<lparr>retrans_counter := 5\<rparr>) waiting_state]" "process (h_tcp ?h) = example_sys"
      "h_conns ?h = [0]" "num_connected ?h = 1" "removed (h_tcp ?h) = []" "last_timeout ?h = (0, 0)" "\<not> exited (h_tcp ?h)"
      "cfg_timer (h_cfg ?h) = 40" "poll_fds ?h = Map.empty" "next_ptr ?h = 1" "\<not> run_program example_sys" "is_server example_sys"
    by (simp_all add: given_up_host_def example_host_def example_sys_def)
  have w: "conn_ptr (st_conn waiting_state) = 0" "timer_teardown waiting_state = -1" "sw_timer (st_sw waiting_state) = 0"
      "timeout_standard waiting_state = 200"
    by (simp_all add: waiting_state_def fresh_state_def ctcp_init_def example_conn_def example_config_def)
  have inv: "server_inv ?h"
    using f w by (simp add: server_inv_def slots_ok_def MAX_NUM_CLIENTS_def)
  have "timer_loop (states (h_tcp ?h)) ((process (h_tcp ?h))\<lparr>clock := 1 * 1000 + 0 sdiv 1000000\<rparr>) =
      Inr (True, states (h_tcp ?h), example_sys\<lparr>clock := 1000\<rparr>)"
    using f w by (simp add: timer_check_def)
  then show "do_loop ?h [timer_round_at (1, 0)] = Inl UseAfterFree"
    using server_keeps_connections [OF inv, of "[]" ?h] f by (fastforce simp: polls_all_def need_timer_in_def)
qed

text \<open>
  C28: the program of a connection is polled at a place of its own in the array \<open>events\<close>, which has three entries
  for the process and one for each of ten clients: after any sequence of events whose execution is defined (see C26)
  all places in use are different and
  inside the array, behind the first three, and the next client that is accepted gets a place inside the array too.
\<close>

theorem program_slots_in_bounds:
  assumes "server_inv h" "do_loop h evs = Inr h'"
  shows "(\<forall>p k. poll_fds h' p = Some k \<longrightarrow> 3 \<le> k \<and> k < 13) \<and>
    (\<forall>p q. poll_fds h' p \<noteq> None \<longrightarrow> poll_fds h' p = poll_fds h' q \<longrightarrow> p = q) \<and>
    (\<forall>pkt c h1. tcp_new_connection h' pkt = Inr (Some c, h1) \<longrightarrow>
      (\<exists>k. 3 \<le> k \<and> k < 13 \<and> k \<notin> ran (poll_fds h') \<and>
        execute_program (conn_ptr c) h1 = Inr (h1\<lparr>poll_fds := (poll_fds h1)(conn_ptr c := Some k)\<rparr>)))"
proof -
  have i: "server_inv h'" using loop_inv [OF assms(2,1)] by simp
  then have s: "slots_ok (num_connected h') (poll_fds h')" "num_connected h' \<le> 10" "0 \<le> num_connected h'"
    by (auto simp: server_inv_def MAX_NUM_CLIENTS_def)
  have run: "\<exists>k. 3 \<le> k \<and> k < 13 \<and> k \<notin> ran (poll_fds h') \<and>
      execute_program (conn_ptr c) h1 = Inr (h1\<lparr>poll_fds := (poll_fds h1)(conn_ptr c := Some k)\<rparr>)"
    if "tcp_new_connection h' pkt = Inr (Some c, h1)" for pkt c h1
  proof (intro exI conjI)
    let ?k = "3 + num_connected h'"
    have "server_inv h1" and n: "num_connected h1 = num_connected h' + 1"
      using new_connection_inv [OF that i] new_connection_counts [OF that] by simp_all
    then have h1: "is_server (process (h_tcp h1))" "num_connected h1 \<le> 10"
      by (simp_all add: server_inv_def MAX_NUM_CLIENTS_def)
    then show "?k < 13" "3 \<le> ?k" using n s(3) by simp_all
    show "execute_program (conn_ptr c) h1 = Inr (h1\<lparr>poll_fds := (poll_fds h1)(conn_ptr c := Some ?k)\<rparr>)"
      using h1 n s(3) by (simp add: execute_program_def NUM_POLL_def MAX_NUM_CLIENTS_def)
    show "?k \<notin> ran (poll_fds h')"
      using s(1) by (auto simp: slots_ok_def ran_def NUM_POLL_def)
  qed
  have "3 \<le> k \<and> k < 13" if "poll_fds h' p = Some k" for p k
    using s(1) that s(2) unfolding slots_ok_def NUM_POLL_def by fastforce
  moreover have "p = q" if "poll_fds h' p \<noteq> None" "poll_fds h' p = poll_fds h' q" for p q
    using s(1) that unfolding slots_ok_def by (metis option.exhaust)
  ultimately show ?thesis using run by blast
qed

theorem program_slots_in_bounds_witness:
  "\<exists>host syn1 syn2 h'. run_program (process (h_tcp host)) \<and> do_loop host [syn_round syn1, syn_round syn2] = Inr h' \<and>
     poll_fds h' = [1 \<mapsto> 3, 2 \<mapsto> 4] \<and>
     (\<forall>p k. poll_fds h' p = Some k \<longrightarrow> 3 \<le> k \<and> k < 13) \<and> poll_fds h' 1 \<noteq> poll_fds h' 2"
proof -
  let ?c = "conn_setup (zero_conn 0) 5 1 8"
  let ?h = "example_host\<lparr>h_tcp := (h_tcp example_host)\<lparr>process := example_sys\<lparr>run_program := True\<rparr>\<rparr>\<rparr>"
  obtain syn1 where syn1: "control_segment (example_sys\<lparr>is_server := False, my_port := 7\<rparr>) ?c (ucast TH_SYN) syn1"
    using create_control_segment [OF flag_bits(1)] by blast
  obtain syn2 where syn2: "control_segment (example_sys\<lparr>is_server := False, my_port := 6\<rparr>) ?c (ucast TH_SYN) syn2"
    using create_control_segment [OF flag_bits(1)] by blast
  have e: "num_connected ?h = 0" "next_ptr ?h = 1" "run_program (process (h_tcp ?h))" "poll_fds ?h = Map.empty"
    by (simp_all add: example_host_def)
  obtain h1 where h1: "do_iteration ?h (syn_round syn1) = Inr h1" "accepting h1" "num_connected h1 = 1" "next_ptr h1 = 2"
      "poll_fds h1 = [1 \<mapsto> 3]" "run_program (process (h_tcp h1))"
    using client_accepted [OF example_accepting [of True] _ syn1] e by auto
  obtain h2 where h2: "do_iteration h1 (syn_round syn2) = Inr h2" "poll_fds h2 = [1 \<mapsto> 3, 2 \<mapsto> 4]"
    using client_accepted [OF h1(2) _ syn2] h1 by auto
  have run: "do_loop ?h [syn_round syn1, syn_round syn2] = Inr h2" using h1(1) h2(1) by simp
  have "server_inv ?h" using example_accepting [of True] by (simp add: accepting_def)
  have all: "\<forall>p k. poll_fds h2 p = Some k \<longrightarrow> 3 \<le> k \<and> k < 13"
    using program_slots_in_bounds [OF \<open>server_inv ?h\<close> run] by (rule conjunct1)
  show ?thesis
    by (intro exI [of _ ?h] exI [of _ syn1] exI [of _ syn2] exI [of _ h2] conjI run e(3) h2(2) all) (simp add: h2(2))
qed

end
