(* ===== verification/Ctcp_Main.thy ===== *)
theory Ctcp_Main
  imports Ctcp_Server Text
begin

text \<open>
  The start of the cTCP program, \<open>main\<close> of \<open>tcp/ctcp_sys_internal.c\<close>: options, configuration of the socket and of the
  server's address, resets for leftover peers, the client's handshake, and the main loop.  What the system answers
  is in a record: name resolution, the list of interfaces, whether sockets can be opened and bound, the packets that arrive
  while resets are sent, and the generator behind \<open>rand\<close>, which is started by a seed.
\<close>

section \<open>The system\<close>

record startup =
  gethostbyname :: "cstr \<Rightarrow> u32 list option"
  interface_list :: "(cstr \<times> u32 option) list"
  opens :: bool
  includes_header :: bool
  binds :: bool
  leftovers :: "(byte list \<times> bool) list"
  syn_sent :: bool
  server_answer :: "byte list option"
  random_after :: "int \<Rightarrow> nat \<Rightarrow> nat"
  blank :: sys

section \<open>Addresses\<close>

definition LOCALHOST :: u32 where "LOCALHOST = 16777343"
definition DEFAULT_PORT :: int where "DEFAULT_PORT = 80"
definition ETH_INTERFACE :: cstr where "ETH_INTERFACE = asc ''eth''"

definition ip_from_hostname :: "startup \<Rightarrow> cstr \<Rightarrow> u32 res" where
  \<comment> \<open>the loop keeps the last address of the entry, in text\<close>
  "ip_from_hostname env hostname =
     (case gethostbyname env hostname of None \<Rightarrow> Inr 0
      | Some ips \<Rightarrow> if ips = [] then Inl Uninitialised else Inr (last ips))"

fun own_address :: "byte list \<Rightarrow> (cstr \<times> u32 option) list \<Rightarrow> u32 \<Rightarrow> u32 res" where
  \<comment> \<open>the loop over the interfaces; \<open>check_iface\<close> keeps what earlier names left in it, and names without an IP
    address are skipped\<close>
  "own_address check_iface [] ip = Inr ip"
| "own_address check_iface ((name, None) # ifs) ip = own_address check_iface ifs ip"
| "own_address check_iface ((name, Some addr) # ifs) ip =
     (if name = [] then Inl OutOfBounds
      else rbind (wr check_iface 0 (butlast name)) (\<lambda>check_iface.
        own_address check_iface ifs (if c_string check_iface = ETH_INTERFACE then addr else ip)))"

definition ip_from_self :: "startup \<Rightarrow> u32 res" where
  "ip_from_self env = own_address (replicate 100 0) (interface_list env) 0"

definition do_config_server ::
  "startup \<Rightarrow> sys \<Rightarrow> unreliable \<Rightarrow> nat \<Rightarrow> cstr \<Rightarrow> (conn option \<times> sys \<times> unreliable) res" where
  \<comment> \<open>the connection to the server at an address in memory; nothing if the function returns \<open>-1\<close>\<close>
  "do_config_server env s net p server =
     (if is_server s then Inl AssertFailed
      else
        let (host, rest) = strsep 58 server in
        case rest of None \<Rightarrow> Inr (None, s, net)
        | Some rest \<Rightarrow>
            let server_port = atoi (fst (strsep 58 rest)); sconn = zero_conn p in
            rbind (ip_from_hostname env host) (\<lambda>dst_ip.
            if dst_ip = 0 then Inr (None, s, net)
            else
              let s = (if dst_ip \<noteq> LOCALHOST then s\<lparr>unix_socket := False\<rparr> else s);
                  port = (if server_port = 0 then DEFAULT_PORT else server_port);
                  (r, net) = rand net
              in Inr (Some (conn_setup sconn r dst_ip port), s, net)))"

section \<open>Resets for leftover peers\<close>

fun send_resets :: "sys \<Rightarrow> unreliable \<Rightarrow> (byte list \<times> bool) list \<Rightarrow> (byte list list \<times> unreliable) res" where
  \<comment> \<open>the packets that arrive until the thread is cancelled, each with whether \<open>sendto\<close> succeeds on a raw socket; the
    connection object that is set up for the address draws a random number; its address is an Internet address
    (\<open>conn_setup\<close> is called with \<open>false\<close>), with which \<open>sendto\<close> fails on a Unix socket\<close>
  "send_resets s net [] = Inr ([], net)"
| "send_resets s net ((pkt, sent) # rest) =
     (if pkt = [] then Inr ([], net)
      else
        let buf = take MAX_PACKET_SIZE pkt @ replicate (MAX_PACKET_SIZE - length pkt) 0 in
        rbind (ld32 buf 12) (\<lambda>saddr.
        rbind (ld16 buf 22) (\<lambda>th_dport.
        rbind (ld16 buf 20) (\<lambda>th_sport.
        rbind (ld32 buf 28) (\<lambda>th_ack.
        rbind (create_tcp_rst s saddr th_dport th_sport th_ack) (\<lambda>rst.
        let (_, net) = rand net in
        if unix_socket s \<or> \<not> sent then Inr ([], net)
        else rbind (send_resets s net rest) (\<lambda>(rsts, net). Inr (rst # rsts, net))))))))"

definition do_config ::
  "startup \<Rightarrow> sys \<Rightarrow> unreliable \<Rightarrow> cstr \<Rightarrow> ((sys \<times> byte list list) option \<times> unreliable) res" where
  \<comment> \<open>the path of a Unix socket is written to a field of 108 bytes\<close>
  "do_config env s net port =
     (if \<not> opens env then Inr (None, net)
      else
        rbind (if unix_socket s then Inr (Some s)
               else if \<not> includes_header env then Inr None
               else rbind (ip_from_self env) (\<lambda>ip. Inr (if ip = 0 then None else Some (s\<lparr>my_ip := ip\<rparr>)))) (\<lambda>s1.
        case s1 of None \<Rightarrow> Inr (None, net)
        | Some s \<Rightarrow>
            let s = s\<lparr>my_port := atoi port\<rparr> in
            if unix_socket s \<and> 108 < length port + 2 then Inl OutOfBounds
            else if \<not> binds env then Inr (None, net)
            else rbind (send_resets s net (leftovers env)) (\<lambda>(rsts, net). Inr (Some (s, rsts), net))))"

section \<open>Options\<close>

record cmdline =
  co_server :: bool
  co_client :: bool
  co_address :: cstr
  co_port_str :: cstr
  co_port :: int
  co_window :: int
  co_seed :: int
  co_drop :: int
  co_corrupt :: int
  co_delay :: int
  co_duplicate :: int
  co_logging :: bool
  co_debug :: bool
  co_test_debug :: bool
  co_lab5 :: bool

definition no_options :: "int \<Rightarrow> cmdline" where
  \<comment> \<open>before the options are read; the seed is the time\<close>
  "no_options time = \<lparr>co_server = False, co_client = False, co_address = [], co_port_str = [], co_port = -1,
     co_window = 1, co_seed = time, co_drop = 0, co_corrupt = 0, co_delay = 0, co_duplicate = 0, co_logging = False,
     co_debug = False, co_test_debug = False, co_lab5 = False\<rparr>"

definition parse_option :: "char \<Rightarrow> cstr \<Rightarrow> cmdline \<Rightarrow> cmdline option" where
  \<comment> \<open>the \<open>switch\<close> over the result of \<open>getopt_long\<close>; \<open>None\<close> is \<open>usage\<close>, which exits\<close>
  "parse_option opt optarg c =
     (if opt = CHR ''d'' then Some (c\<lparr>co_debug := True\<rparr>)
      else if opt = CHR ''s'' then Some (c\<lparr>co_server := True\<rparr>)
      else if opt = CHR ''c'' then Some (c\<lparr>co_client := True, co_address := optarg\<rparr>)
      else if opt = CHR ''p'' then Some (c\<lparr>co_port := atoi optarg, co_port_str := optarg\<rparr>)
      else if opt = CHR ''w'' then Some (c\<lparr>co_window := atoi optarg\<rparr>)
      else if opt = CHR ''e'' then Some (c\<lparr>co_seed := atoi optarg\<rparr>)
      else if opt = CHR ''r'' then Some (c\<lparr>co_drop := atoi optarg\<rparr>)
      else if opt = CHR ''t'' then Some (c\<lparr>co_corrupt := atoi optarg\<rparr>)
      else if opt = CHR ''y'' then Some (c\<lparr>co_delay := atoi optarg\<rparr>)
      else if opt = CHR ''q'' then Some (c\<lparr>co_duplicate := atoi optarg\<rparr>)
      else if opt = CHR ''l'' then Some (c\<lparr>co_logging := True\<rparr>)
      else if opt = CHR ''z'' then Some (c\<lparr>co_test_debug := True\<rparr>)
      else if opt = CHR ''f'' then Some (c\<lparr>co_lab5 := True\<rparr>)
      else None)"

fun parse_options :: "(char \<times> cstr) list \<Rightarrow> cmdline \<Rightarrow> cmdline option" where
  "parse_options [] c = Some c"
| "parse_options ((opt, optarg) # rest) c =
     (case parse_option opt optarg c of None \<Rightarrow> None | Some c \<Rightarrow> parse_options rest c)"

definition valid_options :: "cmdline \<Rightarrow> bool" where
  "valid_options c \<longleftrightarrow> \<not> ((co_client c \<and> co_server c) \<or> (\<not> co_client c \<and> \<not> co_server c) \<or> co_port c \<le> 0)"

definition TIMER_INTERVAL :: int where "TIMER_INTERVAL = 40"
definition RT_INTERVAL :: int where "RT_INTERVAL = 200"

definition main_config :: "cmdline \<Rightarrow> ctcp_config" where
  "main_config c =
     \<lparr>cfg_recv_window = word_of_int (co_window c * int MAX_SEG_DATA_SIZE),
      cfg_send_window = word_of_int (co_window c * int MAX_SEG_DATA_SIZE),
      cfg_timer = TIMER_INTERVAL, cfg_rt_timeout = RT_INTERVAL\<rparr>"

section \<open>Client, server, \<open>main\<close>\<close>

definition new_host :: "sys \<Rightarrow> unreliable \<Rightarrow> ctcp_config \<Rightarrow> host" where
  \<comment> \<open>the static variables; the first connection object gets address 1\<close>
  "new_host s net cfg = \<lparr>h_tcp = \<lparr>states = [], removed = [], process = s, exited = False\<rparr>, h_conns = [],
     h_cfg = cfg, h_net = net, next_ptr = 1, num_connected = 0, new_connection = 0, last_timeout = (0, 0),
     control_out = [], poll_fds = Map.empty\<rparr>"

definition setup_poll :: "host \<Rightarrow> host" where
  \<comment> \<open>of the descriptors only the events of \<open>STDOUT\<close> change later\<close>
  "setup_poll h = h\<lparr>h_tcp := (h_tcp h)\<lparr>process := (process (h_tcp h))\<lparr>poll_out := True\<rparr>\<rparr>\<rparr>"

definition start_client :: "startup \<Rightarrow> host \<Rightarrow> cstr \<Rightarrow> cstr \<Rightarrow> host option res" where
  \<comment> \<open>up to the main loop; nothing if the process ends before\<close>
  "start_client env h server port =
     (let p = next_ptr h in
      rbind (do_config_server env (process (h_tcp h)) (h_net h) p server) (\<lambda>(sconn, s, net).
      case sconn of None \<Rightarrow> Inr None
      | Some sconn \<Rightarrow>
          rbind (do_config env s net port) (\<lambda>(configured, net).
          case configured of None \<Rightarrow> Inr None
          | Some (s, rsts) \<Rightarrow>
              rbind (tcp_handshake s (syn_sent env) (h_cfg h) sconn (server_answer env)) (\<lambda>(result, out, cfg, sconn).
              let conn = (if result = Connected then Some sconn else None) in
              if result = Exited then Inr None
              else case ctcp_init s conn cfg (states (h_tcp h)) of None \<Rightarrow> Inr None
              | Some sts \<Rightarrow> Inr (Some (setup_poll
                  (h\<lparr>h_tcp := (h_tcp h)\<lparr>states := sts, process := s\<rparr>, h_conns := [p], h_cfg := cfg, h_net := net,
                     next_ptr := Suc p, control_out := rsts @ out\<rparr>)))))))"

definition start_server :: "startup \<Rightarrow> host \<Rightarrow> cstr \<Rightarrow> cstr list \<Rightarrow> host option res" where
  \<comment> \<open>the last argument is the program to run and its arguments\<close>
  "start_server env h port argv =
     rbind (do_config env (process (h_tcp h)) (h_net h) port) (\<lambda>(configured, net).
     case configured of None \<Rightarrow> Inr None
     | Some (s, rsts) \<Rightarrow>
         let s = (if argv \<noteq> [] then s\<lparr>run_program := True\<rparr> else s) in
         Inr (Some (setup_poll (h\<lparr>h_tcp := (h_tcp h)\<lparr>process := s\<rparr>, h_net := net, control_out := rsts\<rparr>))))"

definition main_globals :: "startup \<Rightarrow> cmdline \<Rightarrow> sys \<times> unreliable" where
  \<comment> \<open>the static variables the options set, and the generator after \<open>srand\<close>\<close>
  "main_globals env c =
     ((blank env)\<lparr>is_server := \<not> co_client c, run_program := False, unix_socket := True,
        eof_char := co_test_debug c \<or> co_lab5 c, recv_window := cfg_recv_window (main_config c)\<rparr>,
      \<lparr>test_debug_on = co_test_debug c, tester_did_unreliable = False, opt_drop = co_drop c, opt_corrupt = co_corrupt c,
       opt_delay = co_delay c, opt_duplicate = co_duplicate c, rand_stream = random_after env (co_seed c), rand_pos = 0\<rparr>)"

definition ctcp_start :: "startup \<Rightarrow> int \<Rightarrow> (char \<times> cstr) list \<Rightarrow> cstr list \<Rightarrow> host option res" where
  \<comment> \<open>\<open>main\<close> until the main loop: the time, the options and what follows them; \<open>None\<close> is exit status 1\<close>
  "ctcp_start env time opts argv =
     (case parse_options opts (no_options time) of None \<Rightarrow> Inr None
      | Some c \<Rightarrow>
          if \<not> valid_options c then Inr None
          else
            let (s, net) = main_globals env c; h = new_host s net (main_config c) in
            if co_client c then start_client env h (co_address c) (co_port_str c)
            else start_server env h (co_port_str c) argv)"

definition ctcp_main :: "startup \<Rightarrow> int \<Rightarrow> (char \<times> cstr) list \<Rightarrow> cstr list \<Rightarrow> polled list \<Rightarrow> host option res" where
  "ctcp_main env time opts argv evs =
     rbind (ctcp_start env time opts argv) (\<lambda>h.
     case h of None \<Rightarrow> Inr None | Some h \<Rightarrow> rbind (do_loop h evs) (\<lambda>h. Inr (Some h)))"

section \<open>The window option\<close>

text \<open>The windows are the number of segments times 1440, modulo \<open>2 ^ 16\<close>: 46 segments give 704 bytes.\<close>

lemma window_option:
  assumes "0 \<le> w" "w < 1000000"
  shows "\<exists>c. parse_options [(CHR ''w'', int_text w)] (no_options t) = Some c \<and>
    uint (cfg_recv_window (main_config c)) = w * 1440 mod 65536 \<and>
    uint (cfg_send_window (main_config c)) = w * 1440 mod 65536"
proof -
  have "uint (word_of_int (w * 1440) :: u16) = w * 1440 mod 65536" by (simp only: uint_word_of_int) simp
  then show ?thesis
    using assms atoi_int_text [of w]
    by (simp add: parse_option_def main_config_def MAX_SEG_DATA_SIZE_def del: of_int_mult)
qed

section \<open>Finding the host's own address\<close>

definition plain_names :: "(cstr \<times> u32 option) list \<Rightarrow> bool" where
  "plain_names ifs \<longleftrightarrow> (\<forall>(n, a) \<in> set ifs. n \<noteq> [] \<and> 0 \<notin> set n \<and> length n \<le> 16)"

definition short_names :: "(cstr \<times> u32 option) list \<Rightarrow> bool" where
  \<comment> \<open>at most three characters before the last one, and not a beginning of \<open>"eth"\<close>\<close>
  "short_names ifs \<longleftrightarrow> (\<forall>(n, a) \<in> set ifs. length n \<le> 4 \<and> (\<forall>k < 3. butlast n \<noteq> take k ETH_INTERFACE))"

fun last_ethernet :: "(cstr \<times> u32 option) list \<Rightarrow> u32 \<Rightarrow> u32" where
  "last_ethernet [] ip = ip"
| "last_ethernet ((name, None) # ifs) ip = last_ethernet ifs ip"
| "last_ethernet ((name, Some a) # ifs) ip =
     last_ethernet ifs (if butlast name = ETH_INTERFACE then a else ip)"

lemma eth_bytes: "ETH_INTERFACE = [101, 116, 104]"
  by (simp add: ETH_INTERFACE_def asc_def)

lemma not_last: "0 \<notin> set n \<Longrightarrow> 0 \<notin> set (butlast n)"
  using in_set_butlastD by fast

lemma no_nul_at: "0 \<notin> set n \<Longrightarrow> k < length n \<Longrightarrow> n ! k \<noteq> 0"
  by (metis nth_mem)

lemma put_start: "length n \<le> length b \<Longrightarrow> put b 0 n = n @ drop (length n) b"
  by (rule nth_equalityI) (auto simp: nth_put nth_append)

lemma c_string_put:
  assumes "length b = 100" "\<forall>k \<ge> 3. k < 100 \<longrightarrow> b ! k = 0" "length n \<le> 3" "0 \<notin> set n" "\<forall>k < 3. n \<noteq> take k ETH_INTERFACE"
  shows "c_string (put b 0 n) = ETH_INTERFACE \<longleftrightarrow> n = ETH_INTERFACE"
proof -
  have full: "c_string (put b 0 n) = n" if "length n = 3"
  proof -
    have "put b 0 n = n @ 0 # drop 4 b"
      using assms(1,2) that Cons_nth_drop_Suc [of 3 b] by (simp add: put_start)
    then show ?thesis using until_separator(1) [OF assms(4)] by (simp add: c_string_def)
  qed
  show ?thesis
  proof (cases "length n = 3")
    case True
    then show ?thesis using full by simp
  next
    case False
    then have "length n < 3" using assms(3) by simp
    then have ne: "n \<noteq> take (length n) ETH_INTERFACE" "n \<noteq> ETH_INTERFACE" using assms(5) by (auto simp: eth_bytes)
    have "take (length n) (c_string (put b 0 n)) = n"
      using assms(1,4) \<open>length n < 3\<close> until_separator(3) [OF assms(4)]
      by (simp add: c_string_def put_start takeWhile_append)
    then show ?thesis using ne by metis
  qed
qed

lemma own_address_short:
  assumes "length b = 100" "\<forall>k \<ge> 3. k < 100 \<longrightarrow> b ! k = 0" "plain_names ifs" "short_names ifs"
  shows "own_address b ifs ip = Inr (last_ethernet ifs ip)"
  using assms
proof (induction b ifs ip rule: own_address.induct)
  case (3 b name addr ifs ip)
  let ?b = "put b 0 (butlast name)"
  have n: "name \<noteq> []" "length (butlast name) \<le> 3" "0 \<notin> set (butlast name)"
      "\<forall>k < 3. butlast name \<noteq> take k ETH_INTERFACE"
    using 3(4,5) not_last [of name] by (auto simp: plain_names_def short_names_def)
  have w: "wr b 0 (butlast name) = Inr ?b" using 3(2) n(2) by (simp add: wr_def)
  have "own_address ?b ifs (if c_string ?b = ETH_INTERFACE then addr else ip) =
      Inr (last_ethernet ifs (if c_string ?b = ETH_INTERFACE then addr else ip))"
    using 3(2-5) n(1,2) w by (intro 3(1)) (auto simp: plain_names_def short_names_def nth_put)
  then show ?case
    using c_string_put [OF 3(2,3) n(2-4)] n(1) w by simp
qed (auto simp: plain_names_def short_names_def)

lemma not_eth:
  assumes "b ! 3 \<noteq> 0" "3 < length b"
  shows "c_string b \<noteq> ETH_INTERFACE"
proof
  assume "c_string b = ETH_INTERFACE"
  then have "length (takeWhile (\<lambda>c. c \<noteq> 0) b) = 3" by (simp add: c_string_def eth_bytes)
  then show False using nth_length_takeWhile [of "\<lambda>c. c \<noteq> 0" b] assms by simp
qed

lemma own_address_hidden:
  assumes "length b = 100" "b ! 3 \<noteq> 0" "plain_names ifs"
  shows "own_address b ifs ip = Inr ip"
  using assms
proof (induction b ifs ip rule: own_address.induct)
  case (3 b name addr ifs ip)
  let ?b = "put b 0 (butlast name)"
  have n: "name \<noteq> []" "length (butlast name) \<le> 15" "0 \<notin> set (butlast name)"
    using 3(4) not_last [of name] by (auto simp: plain_names_def)
  have w: "wr b 0 (butlast name) = Inr ?b" using 3(2) n(2) by (simp add: wr_def)
  have b: "length ?b = 100" "?b ! 3 \<noteq> 0"
    using 3(2,3) n(2) no_nul_at [OF n(3), of 3] by (auto simp: nth_put)
  have "c_string ?b \<noteq> ETH_INTERFACE" using b by (intro not_eth) simp_all
  moreover have "own_address ?b ifs ip = Inr ip"
    using 3(1) [OF n(1) _ _ _ ] 3(4) b w calculation by (auto simp: plain_names_def)
  ultimately show ?case using n(1) w by simp
qed (auto simp: plain_names_def)

lemma own_address_append:
  "length b = 100 \<Longrightarrow> plain_names ifs \<Longrightarrow> \<exists>b' ip'. length b' = 100 \<and> own_address b ifs ip = Inr ip' \<and>
    (\<forall>rest. own_address b (ifs @ rest) ip = own_address b' rest ip')"
proof (induction b ifs ip rule: own_address.induct)
  case (3 b name addr ifs ip)
  let ?b = "put b 0 (butlast name)"
  have n: "name \<noteq> []" "length (butlast name) \<le> 15"
    using 3(3) by (auto simp: plain_names_def)
  have w: "wr b 0 (butlast name) = Inr ?b" using 3(2) n(2) by (simp add: wr_def)
  then show ?case using 3(1) [OF n(1), of ?b] 3(2,3) n(1) by (auto simp: plain_names_def)
qed (auto simp: plain_names_def)

text \<open>
  The search for the host's own address.  With interface names of at most three letters and a digit, none of them
  a beginning of \<open>"eth"\<close>, \<open>ip_from_self\<close> returns the address of the last Ethernet interface, or 0.  But the
  buffer for the name is not cleared: after an interface with a longer name every later interface is
  overlooked.
\<close>

theorem own_address_search:
  assumes "plain_names ifs"
  shows "(short_names ifs \<longrightarrow> ip_from_self (env\<lparr>interface_list := ifs\<rparr>) = Inr (last_ethernet ifs 0)) \<and>
    (\<forall>before name a after. ifs = before @ (name, Some a) # after \<and> 4 < length name \<longrightarrow>
      ip_from_self (env\<lparr>interface_list := ifs\<rparr>) = ip_from_self (env\<lparr>interface_list := before\<rparr>))"
proof (intro conjI impI allI; (elim conjE)?)
  assume "short_names ifs"
  then show "ip_from_self (env\<lparr>interface_list := ifs\<rparr>) = Inr (last_ethernet ifs 0)"
    using own_address_short [of "replicate 100 0" ifs 0] assms by (simp add: ip_from_self_def)
next
  fix before name a "after"
  assume ifs: "ifs = before @ (name, Some a) # after" and long: "4 < length name"
  have p: "plain_names before" "plain_names after" "name \<noteq> []" "length (butlast name) \<le> 15" "0 \<notin> set (butlast name)"
    using assms not_last [of name] unfolding ifs by (auto simp: plain_names_def)
  obtain b ip where b: "length b = 100" "own_address (replicate 100 0) before 0 = Inr ip"
      "\<And>rest. own_address (replicate 100 0) (before @ rest) 0 = own_address b rest ip"
    using own_address_append [OF _ p(1), of "replicate 100 0" 0] by auto
  let ?b = "put b 0 (butlast name)"
  have w: "wr b 0 (butlast name) = Inr ?b" using b(1) p(4) by (simp add: wr_def)
  have three: "?b ! 3 \<noteq> 0"
    using b(1) p(4) long no_nul_at [OF p(5), of 3] less_diff_conv [of 3 "length name" 1] by (simp add: nth_put)
  have "c_string ?b \<noteq> ETH_INTERFACE"
    using three b(1) by (intro not_eth) simp_all
  then have "own_address b ((name, Some a) # after) ip = Inr ip"
    using own_address_hidden [of ?b "after" ip] b(1) three p(2,3) w by simp
  then show "ip_from_self (env\<lparr>interface_list := ifs\<rparr>) = ip_from_self (env\<lparr>interface_list := before\<rparr>)"
    using b(2,3) by (simp add: ip_from_self_def ifs)
qed

theorem own_address_search_witness:
  fixes env :: startup and lo :: cstr and eth0 :: cstr and docker0 :: cstr
  defines "lo \<equiv> asc ''lo''" and "eth0 \<equiv> asc ''eth0''" and "docker0 \<equiv> asc ''docker0''"
    and "env \<equiv> \<lparr>gethostbyname = \<lambda>_. None, interface_list = [], opens = True, includes_header = True, binds = True,
      leftovers = [], syn_sent = True, server_answer = None, random_after = \<lambda>_ _. 0, blank = example_sys\<rparr>"
  shows "ip_from_self (env\<lparr>interface_list := [(lo, Some 9), (eth0, None), (eth0, Some 7)]\<rparr>) = Inr 7 \<and>
    ip_from_self (env\<lparr>interface_list := [(lo, Some 9), (docker0, Some 8), (eth0, Some 7)]\<rparr>) =
      ip_from_self (env\<lparr>interface_list := [(lo, Some 9)]\<rparr>)"
proof -
  have n: "lo = [108, 111]" "eth0 = [101, 116, 104, 48]" "docker0 = [100, 111, 99, 107, 101, 114, 48]"
    by (simp_all add: lo_def eth0_def docker0_def asc_def)
  have k: "(\<forall>k < 3. P k) \<longleftrightarrow> P 0 \<and> P 1 \<and> P 2" for P :: "nat \<Rightarrow> bool"
    by (auto simp: numeral_3_eq_3 numeral_2_eq_2 less_Suc_eq)
  show ?thesis
    using own_address_search [of "[(lo, Some 9), (eth0, None), (eth0, Some 7)]" env]
      own_address_search [of "[(lo, Some 9), (docker0, Some 8), (eth0, Some 7)]" env, THEN conjunct2, rule_format,
        of "[(lo, Some 9)]" docker0 8 "[(eth0, Some 7)]"]
    by (simp add: plain_names_def short_names_def n eth_bytes k)
qed

section \<open>Resets\<close>

definition reset_for :: "sys \<Rightarrow> byte list \<Rightarrow> byte list \<Rightarrow> bool" where
  \<comment> \<open>a reset to the sender of a packet, with the sequence number the packet acknowledges\<close>
  "reset_for s pkt rst \<longleftrightarrow> length rst = 40 \<and> get32 rst 12 = my_ip s \<and> get32 rst 16 = get32 pkt 12 \<and>
     get16 rst 20 = get16 pkt 22 \<and> get16 rst 22 = get16 pkt 20 \<and> get32 rst 24 = get32 pkt 28 \<and>
     get8 rst 33 = ucast TH_RST \<and> cksum (slice rst 0 20) = 0xffff"

lemma create_rst:
  "\<exists>rst. create_tcp_rst s ip sport dport seqno = Inr rst \<and> length rst = 40 \<and> get32 rst 12 = my_ip s \<and>
    get32 rst 16 = ip \<and> get16 rst 20 = sport \<and> get16 rst 22 = dport \<and> get32 rst 24 = seqno \<and>
    get8 rst 33 = ucast TH_RST \<and> cksum (slice rst 0 20) = 0xffff"
proof -
  obtain d0 where d0: "create_datagram (my_ip s) ip 20 = Inr d0" "length d0 = 40" "get32 d0 12 = my_ip s"
      "get32 d0 16 = ip" "cksum (slice d0 0 20) = 0xffff"
    using create_datagram_ok [of 20 "my_ip s" ip] by auto
  let ?d = "put (put (put (put (put (put (put d0 20 (bytes16 sport)) 22 (bytes16 dport)) 24 (bytes32 seqno))
    28 (bytes32 0)) 32 [0x50]) 33 [ucast TH_RST]) 34 (bytes16 0)"
  let ?e = "put ?d 36 (bytes16 (cksum (pseudo ?d 0)))"
  have k: "cksum_tcp ?d 0 = Inr (cksum (pseudo ?d 0))" using cksum_tcp_ok [of 0 ?d] d0(2) by simp
  show ?thesis
    using d0 by (intro exI [of _ ?e]) (simp add: create_tcp_rst_def access_ok k field_simps)
qed

definition answered :: "sys \<Rightarrow> (byte list \<times> bool) list \<Rightarrow> byte list list" where
  \<comment> \<open>the packets whose reset can be sent: on a raw socket those before the first failing \<open>sendto\<close>\<close>
  "answered s pkts = (if unix_socket s then [] else map fst (takeWhile snd pkts))"

lemma send_resets_all:
  assumes "\<forall>(p, sent) \<in> set pkts. 40 \<le> length p \<and> length p \<le> MAX_PACKET_SIZE"
  shows "\<exists>rsts net'. send_resets s net pkts = Inr (rsts, net') \<and> list_all2 (reset_for s) (answered s pkts) rsts"
  using assms
proof (induction pkts arbitrary: net)
  case (Cons x pkts)
  obtain p sent where x: "x = (p, sent)" by (cases x)
  let ?buf = "take MAX_PACKET_SIZE p @ replicate (MAX_PACKET_SIZE - length p) 0"
  have p: "40 \<le> length p" "take MAX_PACKET_SIZE p = p" "p \<noteq> []" using Cons.prems x by auto
  have ld: "ld32 ?buf 12 = Inr (get32 p 12)" "ld16 ?buf 22 = Inr (get16 p 22)" "ld16 ?buf 20 = Inr (get16 p 20)"
      "ld32 ?buf 28 = Inr (get32 p 28)"
    using p(1) by (simp_all add: p(2) access_ok)
  obtain rst where rst: "create_tcp_rst s (get32 p 12) (get16 p 22) (get16 p 20) (get32 p 28) = Inr rst" "reset_for s p rst"
    using create_rst [of s "get32 p 12" "get16 p 22" "get16 p 20" "get32 p 28"] by (auto simp: reset_for_def)
  obtain rsts net' where "send_resets s (snd (rand net)) pkts = Inr (rsts, net')"
      "list_all2 (reset_for s) (answered s pkts) rsts"
    using Cons.IH [of "snd (rand net)"] Cons.prems by auto
  then have "send_resets s net (x # pkts) = Inr (if unix_socket s \<or> \<not> sent then ([], snd (rand net)) else (rst # rsts, net'))"
    unfolding x send_resets.simps Let_def ld rst(1) rbind_simps using p(3) by (simp add: split_beta)
  then show ?case
    using rst(2) \<open>list_all2 (reset_for s) (answered s pkts) rsts\<close> by (auto simp: x answered_def)
qed (simp add: answered_def)

text \<open>
  C27: leftover peers are reset, on a raw socket.  While a host starts, every TCP packet that arrives before the first failure of
  \<open>sendto\<close> is answered by one reset that goes back to its sender with the ports exchanged, the sequence number the packet
  acknowledged and a header whose checksum verifies; a host of this system that has the port, and so perhaps still the
  connection, ends when it receives it.  On the Unix socket of the hosts of one machine no reset is ever sent, because
  the reset is addressed to an Internet address.
\<close>

theorem leftover_peers_reset:
  assumes "\<forall>(p, sent) \<in> set pkts. 40 \<le> length p \<and> length p \<le> MAX_PACKET_SIZE"
  shows "\<exists>rsts net'. send_resets s net pkts = Inr (rsts, net') \<and>
    (unix_socket s \<longrightarrow> rsts = []) \<and>
    (\<not> unix_socket s \<longrightarrow> list_all2 (\<lambda>p r. reset_for s p r \<and>
      (\<forall>peer conns. get16 p 20 = htons (word_of_int (my_port peer)) \<longrightarrow> recv_filter peer conns r = Reset))
      (map fst (takeWhile snd pkts)) rsts)"
proof -
  obtain rsts net' where r: "send_resets s net pkts = Inr (rsts, net')" "list_all2 (reset_for s) (answered s pkts) rsts"
    using send_resets_all [OF assms] by blast
  have "recv_filter peer conns r = Reset"
    if "reset_for s p r" "get16 p 20 = htons (word_of_int (my_port peer))" for peer conns p r
    using that flag_bits(1) by (simp add: recv_filter_def reset_for_def FULL_HDR_SIZE_def TH_RST_def)
  then show ?thesis using r by (intro exI conjI) (auto simp: answered_def elim!: list_all2_mono)
qed

theorem leftover_peers_reset_witness:
  "(\<exists>rst net'. send_resets (example_sys\<lparr>unix_socket := False\<rparr>) lossy [(replicate 40 1, True), (replicate 40 2, False)] =
      Inr ([rst], net') \<and> reset_for (example_sys\<lparr>unix_socket := False\<rparr>) (replicate 40 1) rst) \<and>
   (\<exists>net'. send_resets example_sys lossy [(replicate 40 1, True)] = Inr ([], net'))"
proof
  let ?s = "example_sys\<lparr>unix_socket := False\<rparr>"
  have "\<forall>(p, sent) \<in> set [(replicate 40 1 :: byte list, True), (replicate 40 2, False)]. 40 \<le> length p \<and> length p \<le> MAX_PACKET_SIZE"
    by (simp add: MAX_PACKET_SIZE_def)
  from leftover_peers_reset [OF this, of ?s lossy] show "\<exists>rst net'. send_resets ?s lossy
      [(replicate 40 1, True), (replicate 40 2, False)] = Inr ([rst], net') \<and> reset_for ?s (replicate 40 1) rst"
    by (auto simp: list_all2_Cons1 simp del: send_resets.simps)
next
  have "\<forall>(p, sent) \<in> set [(replicate 40 1 :: byte list, True)]. 40 \<le> length p \<and> length p \<le> MAX_PACKET_SIZE"
    by (simp add: MAX_PACKET_SIZE_def)
  from leftover_peers_reset [OF this, of example_sys lossy]
  show "\<exists>net'. send_resets example_sys lossy [(replicate 40 1, True)] = Inr ([], net')"
    by (auto simp: example_sys_def simp del: send_resets.simps)
qed

section \<open>Starting a client\<close>

lemma option_defaults:
  "unat (word_of_int 1440 :: u16) = 1440" "(word_of_int 1440 :: u16) = 1440"
  by simp_all

lemma port_text:
  assumes "0 < port" "port < 65536"
  shows "atoi (int_text port) = port" "length (int_text port) \<le> 5" "58 \<notin> set (int_text port)"
  using assms atoi_int_text [of port] number_text_length [of 10 "nat port" 4] decimal_chars(5)
  by (auto simp: int_text_def)

definition client_options :: "cstr \<Rightarrow> int \<Rightarrow> int \<Rightarrow> (char \<times> cstr) list" where
  \<comment> \<open>\<open>-c name:server_port -p port\<close>\<close>
  "client_options name sport cport = [(CHR ''c'', name @ 58 # int_text sport), (CHR ''p'', int_text cport)]"

definition client_globals :: "startup \<Rightarrow> int \<Rightarrow> int \<Rightarrow> sys \<times> unreliable" where
  "client_globals env time cport =
     ((blank env)\<lparr>is_server := False, run_program := False, unix_socket := True, eof_char := False, recv_window := 1440,
        my_port := cport\<rparr>,
      \<lparr>test_debug_on = False, tester_did_unreliable = False, opt_drop = 0, opt_corrupt = 0, opt_delay = 0,
       opt_duplicate = 0, rand_stream = random_after env time, rand_pos = 0\<rparr>)"

lemma client_configured:
  assumes "gethostbyname env name = Some (ips @ [LOCALHOST])" "opens env" "binds env" "leftovers env = []" "syn_sent env"
    and "58 \<notin> set name" "0 < sport" "sport < 65536" "0 < cport" "cport < 65536"
    and "client_globals env time cport = (s, net)"
  shows "ctcp_start env time (client_options name sport cport) argv =
    rbind (tcp_handshake s True (main_config (no_options time)) (conn_setup (zero_conn 1) (fst (rand net)) LOCALHOST sport)
        (server_answer env)) (\<lambda>(result, out, cfg, sconn).
      let conn = (if result = Connected then Some sconn else None) in
      if result = Exited then Inr None
      else case ctcp_init s conn cfg [] of None \<Rightarrow> Inr None
      | Some sts \<Rightarrow> Inr (Some (setup_poll ((new_host s (snd (rand net)) cfg)\<lparr>h_tcp := \<lparr>states = sts, removed = [],
          process = s, exited = False\<rparr>, h_conns := [1], next_ptr := 2, control_out := out\<rparr>))))"
proof -
  have l: "LOCALHOST \<noteq> 0" by (simp add: LOCALHOST_def)
  have w: "recv_window s = 1440" using assms(11) by (auto simp: client_globals_def)
  let ?c = "(no_options time)\<lparr>co_client := True, co_address := name @ 58 # int_text sport, co_port := cport,
      co_port_str := int_text cport\<rparr>"
  have c: "parse_options (client_options name sport cport) (no_options time) = Some ?c" "valid_options ?c"
    using port_text [OF assms(9,10)] assms(9)
    by (simp_all add: client_options_def parse_option_def valid_options_def no_options_def)
  have m: "main_config ?c = main_config (no_options time)" by (simp add: main_config_def no_options_def)
  let ?s0 = "(blank env)\<lparr>is_server := False, run_program := False, unix_socket := True, eof_char := False, recv_window := 1440\<rparr>"
  have g: "main_globals env ?c = (?s0, net)" "s = ?s0\<lparr>my_port := cport\<rparr>"
    using assms(11) by (simp_all add: main_globals_def client_globals_def m)
      (simp_all add: no_options_def main_config_def MAX_SEG_DATA_SIZE_def)
  have h: "ip_from_hostname env name = Inr LOCALHOST" using assms(1) by (simp add: ip_from_hostname_def)
  have sep: "strsep 58 (name @ 58 # int_text sport) = (name, Some (int_text sport))"
      "fst (strsep 58 (int_text sport)) = int_text sport"
    using strsep_append [OF assms(6)] strsep_none port_text(3) [OF assms(7,8)] by simp_all
  have srv: "do_config_server env ?s0 net p (name @ 58 # int_text sport) =
      Inr (Some (conn_setup (zero_conn p) (fst (rand net)) LOCALHOST sport), ?s0, snd (rand net))" for p
    using port_text(1) [OF assms(7,8)] assms(7) h l by (simp add: do_config_server_def sep Let_def split_beta)
  have cfg: "do_config env ?s0 net' (int_text cport) = Inr (Some (s, []), net')" for net'
    using assms(2-4) port_text [OF assms(9,10)] by (simp add: do_config_def g(2))
  have "co_client ?c" "co_address ?c = name @ 58 # int_text sport" "co_port_str ?c = int_text cport" by simp_all
  then show ?thesis
    using c(2) srv cfg assms(5) unfolding ctcp_start_def c(1) option.case g(1) Let_def prod.case m
    by (simp add: start_client_def new_host_def Let_def numeral_2_eq_2 cong: if_cong option.case_cong)
qed

text \<open>
  C24: from the command line to a connection.  A client started with the name of its own machine and the port of a server of
  this system that has room, reaches the main loop with one connection: its SYN makes the server answer, with
  that answer the client sends an acknowledgement the server accepts, the protocol states on both sides
  hold each other's initial sequence numbers, and the client's windows are the default one and the one the
  server announced.
\<close>

theorem client_starts:
  assumes "gethostbyname env name = Some (ips @ [LOCALHOST])" "opens env" "binds env" "leftovers env = []" "syn_sent env"
    and "58 \<notin> set name" "0 < my_port s" "my_port s < 65536" "0 < cport" "cport < 65536"
    and "process (h_tcp h) = s" "is_server s" "unix_socket s" "num_connected h < MAX_NUM_CLIENTS" "0 \<le> num_connected h"
  shows "\<exists>syn synack ack h1 st hc stc.
    ctcp_start (env\<lparr>server_answer := Some synack\<rparr>) time (client_options name (my_port s) cport) [] = Inr (Some hc) \<and>
    control_out hc = [syn, ack] \<and>
    receive_packet h syn = Inr h1 \<and> control_out h1 = control_out h @ [synack] \<and>
    receive_packet h1 ack = Inr (h1\<lparr>new_connection := 0, next_ptr := Suc (next_ptr h1)\<rparr>) \<and>
    states (h_tcp hc) = [stc] \<and> h_conns hc = [conn_ptr (st_conn stc)] \<and> states (h_tcp h1) = st # states (h_tcp h) \<and>
    peers (st_conn stc) (st_conn st) \<and> peers (st_conn st) (st_conn stc) \<and>
    cfg_recv_window (h_cfg hc) = 1440 \<and> sw_max_size (st_sw stc) = int (unat (recv_window s))"
proof -
  obtain cs net where g: "client_globals env time cport = (cs, net)" by (cases "client_globals env time cport")
  have cs: "\<not> is_server cs" using g by (auto simp: client_globals_def)
  let ?c = "conn_setup (zero_conn 1) (fst (rand net)) LOCALHOST (my_port s)"
  have r: "fst (rand net) < 2 ^ 31" by (simp add: rand_def)
  obtain syn synack ack h1 st c' where hs:
    "tcp_handshake cs True (main_config (no_options time)) ?c (Some synack) =
      Inr (Connected, [syn, ack], (main_config (no_options time))\<lparr>cfg_send_window := recv_window s\<rparr>, c')"
    "receive_packet h syn = Inr h1" "control_out h1 = control_out h @ [synack]"
    "states (h_tcp h1) = st # states (h_tcp h)"
    "receive_packet h1 ack = Inr (h1\<lparr>new_connection := 0, next_ptr := Suc (next_ptr h1)\<rparr>)"
    "peers c' (st_conn st)" "peers (st_conn st) c'"
    using handshake_succeeds [where p = 0, OF assms(11-15) cs refl r, of "main_config (no_options time)" 1 LOCALHOST]
    by (elim exE conjE) (rule that, assumption+)
  have ptr: "conn_ptr c' = 1"
    using hs(1) cs by (auto simp: tcp_handshake_def Let_def fault_simps conn_setup_def zero_conn_def
      send_tcp_conn_seg_def create_tcp_seg_def split: filtered.splits if_splits)
  let ?env = "env\<lparr>server_answer := Some synack\<rparr>"
  have "client_globals ?env time cport = (cs, net)" using g by (simp add: client_globals_def)
  then have start: "ctcp_start ?env time (client_options name (my_port s) cport) [] =
    rbind (tcp_handshake cs True (main_config (no_options time)) ?c (Some synack)) (\<lambda>(result, out, cfg, sconn).
      let conn = (if result = Connected then Some sconn else None) in
      if result = Exited then Inr None
      else case ctcp_init cs conn cfg [] of None \<Rightarrow> Inr None
      | Some sts \<Rightarrow> Inr (Some (setup_poll ((new_host cs (snd (rand net)) cfg)\<lparr>h_tcp := \<lparr>states = sts, removed = [],
          process = cs, exited = False\<rparr>, h_conns := [1], next_ptr := 2, control_out := out\<rparr>))))"
    using client_configured [of ?env name ips "my_port s" cport time cs net "[]"] assms(1-10) by simp
  have w: "cfg_recv_window (main_config (no_options time)) = 1440"
    by (simp add: main_config_def no_options_def MAX_SEG_DATA_SIZE_def)
  have "\<exists>hc stc. ctcp_start ?env time (client_options name (my_port s) cport) [] = Inr (Some hc) \<and>
      control_out hc = [syn, ack] \<and> states (h_tcp hc) = [stc] \<and> h_conns hc = [conn_ptr (st_conn stc)] \<and>
      st_conn stc = c' \<and> cfg_recv_window (h_cfg hc) = 1440 \<and> sw_max_size (st_sw stc) = int (unat (recv_window s))"
    unfolding start hs(1) using ptr w by (simp add: ctcp_init_def setup_poll_def new_host_def)
  then obtain hc stc where hc: "ctcp_start ?env time (client_options name (my_port s) cport) [] = Inr (Some hc)"
      "control_out hc = [syn, ack]" "states (h_tcp hc) = [stc]" "h_conns hc = [conn_ptr (st_conn stc)]"
      "st_conn stc = c'" "cfg_recv_window (h_cfg hc) = 1440" "sw_max_size (st_sw stc) = int (unat (recv_window s))"
    by (elim exE conjE) (rule that, assumption+)
  show ?thesis
    using hs(2-7) hc by (intro exI [of _ syn] exI [of _ synack] exI [of _ ack] exI [of _ h1] exI [of _ st]
      exI [of _ hc] exI [of _ stc] conjI) simp_all
qed

theorem client_starts_witness:
  fixes env :: startup and name :: cstr
  defines "name \<equiv> asc ''localhost''"
    and "env \<equiv> \<lparr>gethostbyname = \<lambda>n. if n = name then Some [LOCALHOST] else None, interface_list = [], opens = True,
      includes_header = True, binds = True, leftovers = [], syn_sent = True, server_answer = None,
      random_after = \<lambda>_ _. 3, blank = example_sys\<rparr>"
  shows "\<exists>syn synack ack h1 hc.
    ctcp_start (env\<lparr>server_answer := Some synack\<rparr>) 0 (client_options name 8 9) [] = Inr (Some hc) \<and>
    control_out hc = [syn, ack] \<and> receive_packet example_host syn = Inr h1 \<and> control_out h1 = [synack] \<and>
    cfg_recv_window (h_cfg hc) = 1440"
proof -
  have a: "gethostbyname env name = Some ([] @ [LOCALHOST])" "opens env" "binds env" "leftovers env = []" "syn_sent env"
      "58 \<notin> set name" "0 < my_port example_sys" "my_port example_sys < 65536" "(0 :: int) < 9" "(9 :: int) < 65536"
      "process (h_tcp example_host) = example_sys" "is_server example_sys" "unix_socket example_sys"
      "num_connected example_host < MAX_NUM_CLIENTS" "0 \<le> num_connected example_host" "my_port example_sys = 8" "control_out example_host = []"
    by (simp_all add: env_def name_def asc_def example_host_def example_sys_def MAX_NUM_CLIENTS_def)
  show ?thesis
    using client_starts [OF a(1-15), of 0] unfolding a(16,17) append_Nil
    by (elim exE conjE) (intro exI conjI)
qed

end
