(* ===== verification/Segment_Log.thy ===== *)
theory Segment_Log
  imports Ctcp_Main
begin

text \<open>
  The log of segments and the printing functions of \<open>tcp/ctcp_sys_internal.h\<close> and \<open>tcp/ctcp_utils.c\<close>.  A line is put
  together by \<open>snprintf\<close> calls at the end of what is there already, in a buffer of 5760 bytes; the
  printing functions return the text they write.
\<close>

section \<open>Lines\<close>

definition LOG_SIZE :: nat where "LOG_SIZE = 4 * MAX_SEG_DATA_SIZE"
definition LOG_ENTRY_SIZE :: nat where "LOG_ENTRY_SIZE = 20"

definition append_text :: "nat \<Rightarrow> byte list \<Rightarrow> byte list \<Rightarrow> byte list res" where
  \<comment> \<open>\<open>snprintf (buf + strlen (buf), n, \<dots>)\<close> in a log buffer: at most \<open>n - 1\<close> characters and a terminator\<close>
  "append_text n s buf =
     (let t = take (n - 1) s in
      if length buf + length t + 1 \<le> LOG_SIZE then Inr (buf @ t) else Inl OutOfBounds)"

definition LOCALHOST_STR :: cstr where "LOCALHOST_STR = asc ''localhost''"

definition LOG_HEADERS :: cstr where
  "LOG_HEADERS = asc ''Timestamp'' @ 9 # asc ''Source IP'' @ 9 # asc ''Source Port'' @ 9 # asc ''Destination IP'' @ 9 #
     asc ''Destination Port'' @ 9 # asc ''Sequence Number'' @ 9 # asc ''Acknowledgement Number'' @ 9 # asc ''Length'' @ 9 #
     asc ''Flags'' @ 9 # asc ''Window'' @ 9 # asc ''Checksum'' @ 9 # asc ''Data'' @ [10]"

definition address_text :: "byte list \<Rightarrow> int \<Rightarrow> byte list \<Rightarrow> int \<Rightarrow> byte list" where
  \<comment> \<open>\<open>ADDR_FORMAT_STR\<close>\<close>
  "address_text a p b q = a @ 9 # int_text p @ 9 # b @ 9 # int_text q @ [9]"

definition format_addresses :: "u32 \<Rightarrow> int \<Rightarrow> conn \<Rightarrow> bool \<Rightarrow> bool \<Rightarrow> byte list \<Rightarrow> byte list res" where
  "format_addresses this_ip port c is_sent_segment is_unix_socket buf =
     (if \<not> is_unix_socket then
        if is_sent_segment
        then append_text (5 * LOG_ENTRY_SIZE) (address_text (dotted this_ip) port (dotted (ip_addr c)) (conn_port c)) buf
        else append_text (5 * LOG_ENTRY_SIZE) (address_text (dotted (ip_addr c)) (conn_port c) (dotted this_ip) port) buf
      else
        if is_sent_segment
        then append_text (5 * LOG_ENTRY_SIZE) (address_text LOCALHOST_STR port LOCALHOST_STR (conn_port c)) buf
        else append_text (5 * LOG_ENTRY_SIZE) (address_text LOCALHOST_STR (conn_port c) LOCALHOST_STR port) buf)"

definition hex_byte :: "byte \<Rightarrow> byte list" where
  \<comment> \<open>\<open>"%02x "\<close>\<close>
  "hex_byte b = pad_left 2 48 (number_text 16 (unat b)) @ [32]"

fun hex_loop :: "byte list \<Rightarrow> nat list \<Rightarrow> byte list \<Rightarrow> byte list res" where
  "hex_loop data [] buf = Inr buf"
| "hex_loop data (i # is) buf =
     rbind (ld8 data i) (\<lambda>b. rbind (append_text 4 (hex_byte b) buf) (hex_loop data is))"

definition hex_dump :: "byte list \<Rightarrow> byte list \<Rightarrow> int \<Rightarrow> byte list res" where
  "hex_dump data buf len =
     rbind (append_text 2 [9] buf) (\<lambda>buf.
     rbind (hex_loop data [0..<nat len] buf) (append_text 2 [10]))"

definition flag_text :: "u32 \<Rightarrow> u32 \<Rightarrow> string \<Rightarrow> byte list \<Rightarrow> byte list res" where
  "flag_text flags f name buf = (if flags AND f \<noteq> 0 then append_text 5 (asc name) buf else Inr buf)"

definition log_segment ::
  "int \<Rightarrow> u32 \<Rightarrow> int \<Rightarrow> conn \<Rightarrow> ctcp_segment \<Rightarrow> bool \<Rightarrow> bool \<Rightarrow> bool \<Rightarrow> byte list res" where
  \<comment> \<open>the time in milliseconds; the line that goes to the file, or for the tester to the terminal\<close>
  "log_segment time this_ip port c g is_sent_segment is_unix_socket tester =
     rbind (append_text LOG_ENTRY_SIZE (number_text 10 (nat (time mod 2 ^ 64)) @ [9]) []) (\<lambda>buf.
     rbind (format_addresses this_ip port c is_sent_segment is_unix_socket buf) (\<lambda>buf.
     rbind (append_text (5 * LOG_ENTRY_SIZE) (int_text (sint (ntohl (sg_seqno g))) @ 9 #
              int_text (sint (ntohl (sg_ackno g))) @ 9 # int_text (uint (ntohs (sg_len g))) @ [9]) buf) (\<lambda>buf.
     rbind (flag_text (sg_flags g) TH_SYN ''SYN '' buf) (\<lambda>buf.
     rbind (flag_text (sg_flags g) TH_ACK ''ACK '' buf) (\<lambda>buf.
     rbind (flag_text (sg_flags g) TH_FIN ''FIN '' buf) (\<lambda>buf.
     rbind (append_text LOG_ENTRY_SIZE (9 # int_text (uint (ntohs (sg_window g))) @ 9 # asc ''0x'' @
              number_text 16 (unat (sg_cksum g))) buf) (\<lambda>buf.
     if \<not> tester then hex_dump (sg_data g) buf (uint (ntohs (sg_len g)) - int SEG_HEADER_SIZE)
     else Inr (asc ''!!!'' @ buf @ asc ''!!!'' @ [10]))))))))"

section \<open>Columns of a line\<close>

definition flags_column :: "u32 \<Rightarrow> byte list" where
  "flags_column flags = (if flags AND TH_SYN \<noteq> 0 then asc ''SYN '' else []) @
     (if flags AND TH_ACK \<noteq> 0 then asc ''ACK '' else []) @ (if flags AND TH_FIN \<noteq> 0 then asc ''FIN '' else [])"

definition hex_column :: "byte list \<Rightarrow> byte list" where
  "hex_column data = concat (map hex_byte data)"

fun hex_value :: "byte list \<Rightarrow> byte list" where
  \<comment> \<open>the bytes that a hex dump shows\<close>
  "hex_value (a # b # c # cs) = word_of_nat (digit_value a * 16 + digit_value b) # hex_value cs"
| "hex_value cs = []"

lemma hex_byte_digits: "hex_byte b = [digit (unat b div 16), digit (unat b mod 16), 32]"
proof (cases "unat b < 16")
  case True
  then show ?thesis
    by (simp add: hex_byte_def pad_left_def number_text.simps [of 16 "unat b"] digit_def)
next
  case False
  have "unat b div 16 < 16" using unat_byte_less [of b] by (intro less_mult_imp_div_less) simp
  then have "number_text 16 (unat b) = [digit (unat b div 16), digit (unat b mod 16)]"
    using False by (simp add: number_text.simps [of 16 "unat b"] number_text.simps [of 16 "unat b div 16"])
  then show ?thesis by (simp add: hex_byte_def pad_left_def)
qed

lemma hex_value_column: "hex_value (hex_column data @ [10]) = data"
proof (induction data)
  case (Cons b data)
  have "unat b div 16 < 16" using unat_byte_less [of b] by (intro less_mult_imp_div_less) simp
  then show ?case using Cons by (simp add: hex_column_def hex_byte_digits digit_facts(1))
qed (simp add: hex_column_def)

lemma length_hex_column [simp]: "length (hex_column data) = 3 * length data"
  by (induction data) (simp_all add: hex_column_def hex_byte_digits)

lemma hex_loop_text:
  assumes "i + n \<le> length data" "length buf + 3 * n + 1 \<le> LOG_SIZE"
  shows "hex_loop data [i..<i + n] buf = Inr (buf @ hex_column (take n (drop i data)))"
  using assms
proof (induction n arbitrary: i buf)
  case (Suc n)
  have split: "[i..<i + Suc n] = i # [Suc i..<Suc i + n]" by (simp add: upt_conv_Cons)
  have "take 3 (hex_byte (get8 data i)) = hex_byte (get8 data i)" "length (hex_byte (get8 data i)) = 3"
    by (simp_all add: hex_byte_digits)
  then have a: "append_text 4 (hex_byte (get8 data i)) buf = Inr (buf @ hex_byte (get8 data i))"
    using Suc.prems by (simp add: append_text_def)
  have "hex_loop data [Suc i..<Suc i + n] (buf @ hex_byte (get8 data i)) =
      Inr ((buf @ hex_byte (get8 data i)) @ hex_column (take n (drop (Suc i) data)))"
    using Suc.prems by (intro Suc.IH) (simp_all add: hex_byte_digits)
  moreover have "hex_column (take (Suc n) (drop i data)) = hex_byte (get8 data i) @ hex_column (take n (drop (Suc i) data))"
    using Suc.prems by (simp add: hex_column_def Cons_nth_drop_Suc [symmetric] get8_def)
  ultimately show ?case using Suc.prems unfolding split by (simp add: a access_ok)
qed (simp add: hex_column_def)

section \<open>A line and its columns\<close>

lemma append_fits:
  "length s < n \<Longrightarrow> length buf + length s < LOG_SIZE \<Longrightarrow> append_text n s buf = Inr (buf @ s)"
  by (simp add: append_text_def)

lemma number_chars:
  assumes "c \<in> set (number_text b n)" "2 \<le> b" "b \<le> 16"
  shows "\<not> is_space c"
  using number_digits [OF assms(3,2,1)] digit_facts(3) assms(3) by fastforce

lemma int_text_chars: "c \<in> set (int_text i) \<Longrightarrow> \<not> is_space c"
  using number_chars [of c 10] by (auto simp: int_text_def is_space_def split: if_splits)

lemma int_text_length: "\<bar>i\<bar> < 10 ^ Suc k \<Longrightarrow> length (int_text i) \<le> Suc (Suc k)"
  using number_text_length [of 10 "nat (- i)" k] number_text_length [of 10 "nat i" k]
  by (auto simp: int_text_def nat_less_iff)

lemma no_tab:
  "9 \<notin> set (number_text 10 n)" "9 \<notin> set (number_text 16 n)" "9 \<notin> set (int_text i)" "9 \<notin> set (dotted w)"
  "9 \<notin> set LOCALHOST_STR" "9 \<notin> set (flags_column f)" "9 \<notin> set (hex_column d @ [10])" "9 \<notin> set (asc ''0x'')"
proof -
  have d: "digit k \<noteq> 9" if "k < 16" for k using digit_facts(3) [OF that] by (auto simp: is_space_def)
  have h: "unat b div 16 < 16" for b :: byte using unat_byte_less [of b] by (intro less_mult_imp_div_less) simp
  show "9 \<notin> set (number_text 10 n)" "9 \<notin> set (number_text 16 n)" "9 \<notin> set (int_text i)" "9 \<notin> set (dotted w)"
    using number_chars [of 9 10 n] number_chars [of 9 16 n] int_text_chars [of 9 i] dotted_chars(1) [of 9 w]
    by (auto simp: is_space_def)
  show "9 \<notin> set (hex_column f @ [10])" for f
    using d h by (auto simp: hex_column_def hex_byte_digits)
qed (simp_all add: LOCALHOST_STR_def flags_column_def asc_def)

lemma flag_texts:
  assumes "length buf < 1000"
  shows "rbind (flag_text f TH_SYN ''SYN '' buf) (\<lambda>buf. rbind (flag_text f TH_ACK ''ACK '' buf)
    (\<lambda>buf. rbind (flag_text f TH_FIN ''FIN '' buf) k)) = k (buf @ flags_column f)"
  using assms by (simp add: flag_text_def flags_column_def append_text_def LOG_SIZE_def MAX_SEG_DATA_SIZE_def asc_def)

definition host_text :: "bool \<Rightarrow> u32 \<Rightarrow> byte list" where
  "host_text unix a = (if unix then LOCALHOST_STR else dotted a)"

lemma host_text_facts: "length (host_text u a) \<le> 15" "9 \<notin> set (host_text u a)"
  using dotted_length [of a] no_tab by (auto simp: host_text_def) (simp add: LOCALHOST_STR_def asc_def)

lemma port_text_length: "0 \<le> p \<Longrightarrow> p < 65536 \<Longrightarrow> length (int_text p) \<le> 5"
  using number_text_length [of 10 "nat p" 4] by (simp add: int_text_def)

lemma format_addresses_text:
  assumes "length buf < 100" "0 \<le> port" "port < 65536" "0 \<le> conn_port c" "conn_port c < 65536"
  shows "format_addresses a port c sent u buf = Inr (buf @
    (if sent then address_text (host_text u a) port (host_text u (ip_addr c)) (conn_port c)
     else address_text (host_text u (ip_addr c)) (conn_port c) (host_text u a) port))"
  using assms host_text_facts(1) [of u a] host_text_facts(1) [of u "ip_addr c"]
    port_text_length [of port] port_text_length [of "conn_port c"]
  by (auto simp: format_addresses_def host_text_def address_text_def LOG_ENTRY_SIZE_def LOG_SIZE_def
      MAX_SEG_DATA_SIZE_def intro!: append_fits)

lemma sint_bounds: "\<bar>sint (w :: u32)\<bar> < 10 ^ Suc 9"
proof -
  have "- (2 ^ 31) \<le> sint w" "sint w < 2 ^ 31" using sint_greater_eq [of w] sint_less [of w] by simp_all
  then show ?thesis unfolding abs_less_iff by simp
qed

lemma uint16_bounds: "length (int_text (uint (w :: u16))) \<le> 5"
proof (rule port_text_length)
  show "uint w < 65536" using unsigned_less [of w, where ?'a = int] by simp
qed simp

lemma hex_dump_text:
  assumes "length buf < 1000" "length data \<le> 1440" "len = int (length data)"
  shows "hex_dump data buf len = Inr (buf @ 9 # hex_column data @ [10])"
proof -
  have "hex_loop data [0..<0 + length data] (buf @ [9]) = Inr ((buf @ [9]) @ hex_column (take (length data) (drop 0 data)))"
    using assms by (intro hex_loop_text) (simp_all add: LOG_SIZE_def MAX_SEG_DATA_SIZE_def)
  then show ?thesis
    using assms by (simp add: hex_dump_def append_text_def LOG_SIZE_def MAX_SEG_DATA_SIZE_def)
qed

definition line_columns :: "int \<Rightarrow> byte list \<Rightarrow> int \<Rightarrow> byte list \<Rightarrow> int \<Rightarrow> ctcp_segment \<Rightarrow> byte list list" where
  \<comment> \<open>time, source, destination, numbers, length, flags, window, checksum, data\<close>
  "line_columns time a p b q g =
     [int_text time, a, int_text p, b, int_text q, int_text (sint (ntohl (sg_seqno g))),
      int_text (sint (ntohl (sg_ackno g))), int_text (uint (ntohs (sg_len g))), flags_column (sg_flags g),
      int_text (uint (ntohs (sg_window g))), asc ''0x'' @ number_text 16 (unat (sg_cksum g)),
      hex_column (sg_data g) @ [10]]"

fun tabbed :: "byte list list \<Rightarrow> byte list" where
  "tabbed [] = []"
| "tabbed [x] = x"
| "tabbed (x # xs) = x @ 9 # tabbed xs"

lemma split_tabbed: "xs \<noteq> [] \<Longrightarrow> \<forall>x \<in> set xs. 9 \<notin> set x \<Longrightarrow> split_on 9 (tabbed xs) = xs"
  by (induction xs rule: tabbed.induct) (simp_all add: split_on_append split_on_single)

lemma columns_without_tabs:
  "9 \<notin> set a \<Longrightarrow> 9 \<notin> set b \<Longrightarrow> \<forall>x \<in> set (line_columns time a p b q g). 9 \<notin> set x"
  using no_tab by (simp add: line_columns_def)

lemma log_segment_columns:
  assumes g: "length (sg_data g) \<le> 1440" "uint (ntohs (sg_len g)) = 20 + int (length (sg_data g))"
    and t: "0 \<le> time" "time < 10 ^ 18"
    and p: "0 \<le> port" "port < 65536" "0 \<le> conn_port c" "conn_port c < 65536"
  shows "log_segment time a port c g sent u False = Inr (tabbed
    (if sent then line_columns time (host_text u a) port (host_text u (ip_addr c)) (conn_port c) g
     else line_columns time (host_text u (ip_addr c)) (conn_port c) (host_text u a) port g)) \<and>
    (\<forall>line. log_segment time a port c g sent u False = Inr line \<longrightarrow> length line < LOG_SIZE)"
proof -
  let ?addr = "if sent then address_text (host_text u a) port (host_text u (ip_addr c)) (conn_port c)
     else address_text (host_text u (ip_addr c)) (conn_port c) (host_text u a) port"
  let ?t = "int_text time @ [9]"
  let ?num = "int_text (sint (ntohl (sg_seqno g))) @ 9 # int_text (sint (ntohl (sg_ackno g))) @ 9 #
      int_text (uint (ntohs (sg_len g))) @ [9]"
  let ?win = "9 # int_text (uint (ntohs (sg_window g))) @ 9 # asc ''0x'' @ number_text 16 (unat (sg_cksum g))"
  have time: "length ?t \<le> 19" "number_text 10 (nat (time mod 2 ^ 64)) @ [9] = ?t"
    using t number_text_length [of 10 "nat time" 17] by (simp_all add: int_text_def nat_less_iff)
  have addr: "length ?addr \<le> 44"
    using host_text_facts(1) [of u a] host_text_facts(1) [of u "ip_addr c"] port_text_length [OF p(1,2)]
      port_text_length [OF p(3,4)] by (simp add: address_text_def)
  have num: "length ?num \<le> 30"
    using int_text_length [OF sint_bounds [of "ntohl (sg_seqno g)"]] int_text_length [OF sint_bounds [of "ntohl (sg_ackno g)"]]
      uint16_bounds [of "ntohs (sg_len g)"] by simp
  have win: "length ?win \<le> 13"
    using uint16_bounds [of "ntohs (sg_window g)"] number_text_length [of 16 "unat (sg_cksum g)" 3]
      unat_u16_less [of "sg_cksum g"] by (simp add: asc_def)
  have flg: "length (flags_column (sg_flags g)) \<le> 12" by (simp add: flags_column_def asc_def)
  have 1: "append_text LOG_ENTRY_SIZE ?t [] = Inr ?t"
    using time(1) append_fits [of ?t LOG_ENTRY_SIZE "[]"] by (simp add: LOG_ENTRY_SIZE_def LOG_SIZE_def MAX_SEG_DATA_SIZE_def)
  have 2: "format_addresses a port c sent u ?t = Inr (?t @ ?addr)"
    using time(1) p by (intro format_addresses_text) simp_all
  have 3: "append_text (5 * LOG_ENTRY_SIZE) ?num (?t @ ?addr) = Inr ((?t @ ?addr) @ ?num)"
    using time(1) addr num by (intro append_fits) (simp_all add: LOG_ENTRY_SIZE_def LOG_SIZE_def MAX_SEG_DATA_SIZE_def)
  let ?head = "((?t @ ?addr) @ ?num) @ flags_column (sg_flags g)"
  have 4: "append_text LOG_ENTRY_SIZE ?win ?head = Inr (?head @ ?win)"
    using time(1) addr num flg win by (intro append_fits) (simp_all add: LOG_ENTRY_SIZE_def LOG_SIZE_def MAX_SEG_DATA_SIZE_def)
  have 5: "hex_dump (sg_data g) (?head @ ?win) (uint (ntohs (sg_len g)) - int SEG_HEADER_SIZE) =
      Inr ((?head @ ?win) @ 9 # hex_column (sg_data g) @ [10])"
    using time(1) addr num flg win g by (intro hex_dump_text) (simp_all add: SEG_HEADER_SIZE_def)
  have flags: "length ((?t @ ?addr) @ ?num) < 1000" using time(1) addr num by simp
  have r: "log_segment time a port c g sent u False = Inr ((?head @ ?win) @ 9 # hex_column (sg_data g) @ [10])"
    unfolding log_segment_def time(2) 1 rbind_simps 2 3 flag_texts [OF flags] 4 using 5 by simp
  moreover have "length ((?head @ ?win) @ 9 # hex_column (sg_data g) @ [10]) < LOG_SIZE"
    unfolding length_append using time(1) addr num flg win g(1) by (simp add: LOG_SIZE_def MAX_SEG_DATA_SIZE_def)
  ultimately show ?thesis by (simp add: line_columns_def address_text_def)
qed

text \<open>
  C29: the log of segments.  For every segment of at most 1440 bytes whose length field is right, \<open>log_segment\<close> stays within
  its buffer and writes one line whose tab-separated columns are those of the header of the log, in its order:
  time, source and destination with their ports according to the direction, sequence and acknowledgement number, length,
  flags, window, checksum, and the data, which can be read back from its hex dump.
\<close>

theorem segment_logged:
  assumes "length (sg_data g) \<le> 1440" "uint (ntohs (sg_len g)) = 20 + int (length (sg_data g))"
    and "0 \<le> time" "time < 10 ^ 18" "0 \<le> port" "port < 65536" "0 \<le> conn_port c" "conn_port c < 65536"
  shows "\<exists>line. log_segment time a port c g sent u False = Inr line \<and> length line < LOG_SIZE \<and>
    split_on 9 line = (if sent then line_columns time (host_text u a) port (host_text u (ip_addr c)) (conn_port c) g
       else line_columns time (host_text u (ip_addr c)) (conn_port c) (host_text u a) port g) \<and>
    length (split_on 9 line) = length (split_on 9 LOG_HEADERS) \<and> hex_value (last (split_on 9 line)) = sg_data g"
proof -
  let ?cols = "if sent then line_columns time (host_text u a) port (host_text u (ip_addr c)) (conn_port c) g
       else line_columns time (host_text u (ip_addr c)) (conn_port c) (host_text u a) port g"
  have f: "split_on 9 (tabbed ?cols) = ?cols"
    using columns_without_tabs [OF host_text_facts(2) host_text_facts(2)]
    by (intro split_tabbed) (simp_all add: line_columns_def split: if_splits)
  have h: "length (split_on 9 LOG_HEADERS) = 12"
    by (simp add: LOG_HEADERS_def asc_def)
  have l: "length ?cols = 12" "hex_value (last ?cols) = sg_data g"
    by (simp_all add: line_columns_def hex_value_column)
  show ?thesis
    using log_segment_columns [OF assms, of a sent u] f h l by (intro exI [of _ "tabbed ?cols"]) simp
qed

theorem segment_logged_witness:
  fixes g :: ctcp_segment
  defines "g \<equiv> \<lparr>sg_ptr = 0, sg_seqno = htonl 1, sg_ackno = htonl 1, sg_len = htons 22, sg_pad = 0, sg_flags = TH_ACK,
    sg_window = htons 1440, sg_cksum = 7, sg_data = [104, 105]\<rparr>"
  shows "\<exists>line. log_segment 5 1 8 ((zero_conn 1)\<lparr>conn_port := 9\<rparr>) g True True False = Inr line \<and>
    split_on 9 line = line_columns 5 LOCALHOST_STR 8 LOCALHOST_STR 9 g \<and> hex_value (last (split_on 9 line)) = [104, 105]"
  using segment_logged [of g 5 8 "(zero_conn 1)\<lparr>conn_port := 9\<rparr>" 1 True True]
  by (auto simp: g_def host_text_def)

section \<open>Printing\<close>

definition print_hdr_ctcp :: "ctcp_segment \<Rightarrow> byte list" where
  "print_hdr_ctcp g =
     asc ''[cTCP] seqno: '' @ int_text (sint (ntohl (sg_seqno g))) @ asc '', ackno: '' @ int_text (sint (ntohl (sg_ackno g))) @
     asc '', len: '' @ int_text (uint (ntohs (sg_len g))) @ asc '', flags:'' @
     (if sg_flags g AND TH_SYN \<noteq> 0 then asc '' SYN'' else []) @
     (if sg_flags g AND TH_ACK \<noteq> 0 then asc '' ACK'' else []) @
     (if sg_flags g AND TH_FIN \<noteq> 0 then asc '' FIN'' else []) @
     asc '', window: '' @ int_text (uint (ntohs (sg_window g))) @ asc '', cksum: '' @
     number_text 16 (unat (sg_cksum g)) @ [10]"

definition ctcp_print_addr_ip :: "u32 \<Rightarrow> byte list" where
  \<comment> \<open>\<open>inet_ntop\<close> does not fail\<close>
  "ctcp_print_addr_ip address = dotted address @ [10]"

definition ctcp_print_addr_ip_int :: "u32 \<Rightarrow> byte list" where
  "ctcp_print_addr_ip_int ip =
     int_text (sint (drop_bit 24 ip)) @ 46 # int_text (sint (drop_bit 24 (push_bit 8 ip))) @ 46 #
     int_text (sint (drop_bit 24 (push_bit 16 ip))) @ 46 # int_text (sint (drop_bit 24 (push_bit 24 ip))) @ [10]"

definition value_line :: "string \<Rightarrow> int \<Rightarrow> byte list" where
  "value_line name i = asc ''  '' @ asc name @ asc '': '' @ int_text i @ [10]"

definition hex_line :: "string \<Rightarrow> u16 \<Rightarrow> byte list" where
  "hex_line name w = asc ''  '' @ asc name @ asc '': '' @ number_text 16 (unat w) @ [10]"

definition ctcp_fragment_line :: "u16 \<Rightarrow> byte list" where
  "ctcp_fragment_line off =
     (if off AND 0x4000 \<noteq> 0 then text_line ''  fragment flag: DF''
      else if off AND 0x2000 \<noteq> 0 then text_line ''  fragment flag: MF''
      else if off AND 0x8000 \<noteq> 0 then text_line ''  fragment flag: R''
      else [])"

definition ctcp_print_hdr_ip :: "byte list \<Rightarrow> byte list res" where
  "ctcp_print_hdr_ip buf = cat
     [Inr (text_line ''+-----------------------------+''), Inr (text_line ''IP HEADER''),
      rbind (ld8 buf 0) (\<lambda>b. Inr (value_line ''version'' (uint (drop_bit 4 b)))),
      rbind (ld8 buf 0) (\<lambda>b. Inr (value_line ''header length'' (uint (b AND 15)))),
      rbind (ld8 buf 1) (\<lambda>b. Inr (value_line ''type of service'' (uint b))),
      rbind (ld16 buf 2) (\<lambda>w. Inr (value_line ''length'' (uint (ntohs w)))),
      rbind (ld16 buf 4) (\<lambda>w. Inr (value_line ''id'' (uint (ntohs w)))),
      rbind (ld16 buf 6) (\<lambda>w. Inr (ctcp_fragment_line (ntohs w))),
      rbind (ld16 buf 6) (\<lambda>w. Inr (value_line ''fragment offset'' (uint (ntohs w AND 0x1fff)))),
      rbind (ld8 buf 8) (\<lambda>b. Inr (value_line ''TTL'' (uint b))),
      rbind (ld8 buf 9) (\<lambda>b. Inr (value_line ''protocol'' (uint b))),
      rbind (ld16 buf 10) (\<lambda>w. Inr (hex_line ''checksum'' w)),
      Inr (asc ''  source: ''), rbind (ld32 buf 12) (\<lambda>w. Inr (ctcp_print_addr_ip_int (ntohl w))),
      Inr (asc ''  destination: ''), rbind (ld32 buf 16) (\<lambda>w. Inr (ctcp_print_addr_ip_int (ntohl w)))]"

definition tcp_flag_names :: "byte \<Rightarrow> byte list" where
  "tcp_flag_names f =
     (if f AND ucast TH_SYN \<noteq> 0 then asc ''SYN '' else []) @ (if f AND ucast TH_ACK \<noteq> 0 then asc ''ACK '' else []) @
     (if f AND ucast TH_FIN \<noteq> 0 then asc ''FIN '' else []) @ (if f AND ucast TH_RST \<noteq> 0 then asc ''RST '' else [])"

definition print_hdr_tcp :: "byte list \<Rightarrow> byte list res" where
  "print_hdr_tcp buf = cat
     [Inr (text_line ''+-----------------------------+''), Inr (text_line ''TCP HEADER''),
      rbind (ld16 buf 0) (\<lambda>w. Inr (value_line ''source port'' (uint (ntohs w)))),
      rbind (ld16 buf 2) (\<lambda>w. Inr (value_line ''destination port'' (uint (ntohs w)))),
      rbind (ld32 buf 4) (\<lambda>w. Inr (value_line ''seq number'' (sint (ntohl w)))),
      rbind (ld32 buf 8) (\<lambda>w. Inr (value_line ''ack number'' (sint (ntohl w)))),
      rbind (ld8 buf 13) (\<lambda>f. Inr (asc ''  flags: '' @ tcp_flag_names f @ [10])),
      rbind (ld16 buf 14) (\<lambda>w. Inr (value_line ''window size'' (uint (ntohs w)))),
      rbind (ld16 buf 16) (\<lambda>w. Inr (hex_line ''checksum'' w))]"

definition ctcp_print_hdrs :: "byte list \<Rightarrow> nat \<Rightarrow> byte list res" where
  "ctcp_print_hdrs buf len =
     (if len < IP_HDR_SIZE then Inr (text_line ''[ERROR] Failed to print IP header, insufficient length'')
      else
        rbind (ctcp_print_hdr_ip buf) (\<lambda>ip.
        rbind (ld8 buf 9) (\<lambda>ip_proto.
        if ip_proto = IPPROTO_TCP then
          if len < IP_HDR_SIZE + IP_HDR_SIZE
          then Inr (ip @ text_line ''[ERROR] Failed to print TCP header, insufficient length'')
          else rbind (print_hdr_tcp (drop IP_HDR_SIZE buf)) (\<lambda>tcp. Inr (ip @ tcp))
        else Inr ip)))"

lemma ctcp_print_hdrs_inside: "\<exists>text. ctcp_print_hdrs buf (length buf) = Inr text"
proof (cases "length buf < 20")
  case False
  have ip: "\<exists>t. ctcp_print_hdr_ip buf = Inr t"
    using False by (cases "buf = []") (simp_all add: ctcp_print_hdr_ip_def access_ok)
  have tcp: "\<exists>t. print_hdr_tcp (drop 20 buf) = Inr t" if "40 \<le> length buf"
  proof -
    have "drop 20 buf \<noteq> []" "20 \<le> length (drop 20 buf)" using that by simp_all
    then show ?thesis by (simp add: print_hdr_tcp_def access_ok del: drop_eq_Nil)
  qed
  show ?thesis using ip tcp False by (auto simp: ctcp_print_hdrs_def IP_HDR_SIZE_def access_ok not_less)
qed (simp add: ctcp_print_hdrs_def IP_HDR_SIZE_def)

end
