(* ===== verification/Mail_Client.thy ===== *)
theory Mail_Client
  imports Text
begin

text \<open>
  The mail client \<open>proj1b.c\<close>: its dialogue with an SMTP server on one side and the user on the other.  The server's
  answers are the results of the successive \<open>recv\<close> calls (what does not fit a call stays for the next one), the user's
  input is the text that \<open>scanf\<close> and \<open>fgets\<close> take apart, and what the client sends is the list of its lines.  The
  character arrays hold \<open>1024\<close> pointers, so they have 8192 bytes; an array is the list of the bytes written to it so far
  from its start.  The messages to the user are not part of the model, nor are \<open>socket\<close> and \<open>connect\<close> but for their result.
\<close>

section \<open>Input and output\<close>

definition BUFFER :: nat where "BUFFER = 1024"

record dialogue =
  answers :: "byte list list"
  typed :: "byte list"
  lines_sent :: "byte list list"

type_synonym text_buffer = "byte list"

definition recv_answer :: "nat \<Rightarrow> dialogue \<Rightarrow> byte list \<times> dialogue" where
  \<comment> \<open>\<open>recv (sock, response, n, 0)\<close>; nothing more comes from a server without answers\<close>
  "recv_answer n s =
     (case answers s of [] \<Rightarrow> ([], s)
      | a # as \<Rightarrow> (take n a, s\<lparr>answers := (if length a \<le> n then as else drop n a # as)\<rparr>))"

definition overwrite :: "text_buffer \<Rightarrow> byte list \<Rightarrow> text_buffer" where
  "overwrite buf bs = bs @ drop (length bs) buf"

definition text_of :: "text_buffer \<Rightarrow> byte list res" where
  \<comment> \<open>the string in an array, as \<open>%s\<close> and \<open>strlen\<close> see it\<close>
  "text_of buf = (if 0 \<in> set buf then Inr (c_string buf) else Inl Uninitialised)"

definition scan_word :: "text_buffer \<Rightarrow> dialogue \<Rightarrow> (text_buffer \<times> dialogue) res" where
  \<comment> \<open>\<open>scanf ("%s", buf)\<close>: at the end of the input the array stays as it is\<close>
  "scan_word buf s =
     (let t = dropWhile is_space (typed s); w = takeWhile (\<lambda>c. \<not> is_space c) t in
      if t = [] then Inr (buf, s\<lparr>typed := []\<rparr>)
      else if length w < 8 * BUFFER
      then Inr (overwrite buf (w @ [0]), s\<lparr>typed := dropWhile (\<lambda>c. \<not> is_space c) t\<rparr>)
      else Inl OutOfBounds)"

definition scan_char :: "text_buffer \<Rightarrow> dialogue \<Rightarrow> text_buffer \<times> dialogue" where
  \<comment> \<open>\<open>scanf ("%c", buf)\<close>\<close>
  "scan_char buf s =
     (case typed s of [] \<Rightarrow> (buf, s) | c # cs \<Rightarrow> (overwrite buf [c], s\<lparr>typed := cs\<rparr>))"

definition fgets_line :: "text_buffer \<Rightarrow> dialogue \<Rightarrow> text_buffer \<times> dialogue" where
  \<comment> \<open>\<open>fgets (buf, BUFFER, stdin)\<close>\<close>
  "fgets_line buf s =
     (let n = min (BUFFER - 1) (Suc (length (takeWhile (\<lambda>c. c \<noteq> 10) (typed s)))) in
      if typed s = [] then (buf, s)
      else (overwrite buf (take n (typed s) @ [0]), s\<lparr>typed := drop n (typed s)\<rparr>))"

definition snprintf_line :: "byte list \<Rightarrow> byte list" where
  \<comment> \<open>\<open>snprintf (buf, BUFFER, ...)\<close>: what fits\<close>
  "snprintf_line t = take (BUFFER - 1) t"

definition CRLF :: "byte list" where "CRLF = [13, 10]"

section \<open>The steps of the protocol\<close>

definition sendLine :: "byte list \<Rightarrow> dialogue \<Rightarrow> dialogue" where
  "sendLine words s = s\<lparr>lines_sent := lines_sent s @ [words]\<rparr>"

definition checkResponse :: "byte list \<Rightarrow> dialogue \<Rightarrow> nat \<times> dialogue" where
  "checkResponse codes s =
     (let (r, s) = recv_answer 44 s; response = overwrite (replicate BUFFER 0) r in
      if response ! 0 = codes ! 0 \<and> response ! 1 = codes ! 1 \<and> response ! 2 = codes ! 2
      then (0, s) else (1, s))"

definition HELO :: "dialogue \<Rightarrow> nat \<times> dialogue" where
  "HELO s =
     (let s = sendLine (asc ''HELO localhost'' @ CRLF) s; (bad, s) = checkResponse (asc ''250'') s in
      if bad = 1 then (1, s) else (0, s))"

definition MAILFROM :: "text_buffer \<Rightarrow> dialogue \<Rightarrow> (nat \<times> dialogue) res" where
  "MAILFROM login s =
     rbind (text_of login) (\<lambda>a.
     let s = sendLine (snprintf_line (asc ''MAIL FROM:<'' @ a @ asc ''>'' @ CRLF)) s;
         (bad, s) = checkResponse (asc ''250'') s
     in if bad = 1 then Inr (1, s) else Inr (0, s))"

definition answers_left :: "dialogue \<Rightarrow> nat" where
  "answers_left s = (\<Sum>a\<leftarrow>answers s. Suc (length a))"

lemma scan_word_answers: "scan_word buf s = Inr (buf', s') \<Longrightarrow> answers s' = answers s"
  by (auto simp: scan_word_def Let_def split: if_splits)

lemma scan_char_answers: "answers (snd (scan_char buf s)) = answers s"
  by (auto simp: scan_char_def split: list.split)

lemma fgets_line_answers: "answers (snd (fgets_line buf s)) = answers s"
  by (simp add: fgets_line_def Let_def)

lemma sendLine_fields [simp]:
  "answers (sendLine w s) = answers s" "typed (sendLine w s) = typed s"
  "lines_sent (sendLine w s) = lines_sent s @ [w]"
  by (simp_all add: sendLine_def)

lemma good_answer:
  assumes "checkResponse codes s = (0, s')" "codes ! 0 \<noteq> 0"
  shows "answers_left s' < answers_left s"
proof (cases "answers s")
  case Nil
  then show ?thesis
    using assms by (auto simp: checkResponse_def recv_answer_def overwrite_def BUFFER_def split: if_splits)
next
  case (Cons a as)
  then show ?thesis
    using assms by (auto simp: checkResponse_def recv_answer_def answers_left_def Let_def split: if_splits)
qed

lemma response_code: "fst (checkResponse codes s) = 0 \<or> fst (checkResponse codes s) = 1"
  by (simp add: checkResponse_def Let_def split: prod.split)

definition rcpt_round ::
  "text_buffer \<Rightarrow> text_buffer \<Rightarrow> dialogue \<Rightarrow> ((nat \<times> dialogue) + (text_buffer \<times> text_buffer \<times> dialogue)) res" where
  \<comment> \<open>the body of the loop of \<open>RCPTTO\<close>: its result (\<open>Inl\<close>), or the variables for the next round (\<open>Inr\<close>)\<close>
  "rcpt_round rcpt Y s =
     rbind (scan_word rcpt s) (\<lambda>(rcpt, s).
     rbind (text_of rcpt) (\<lambda>a.
     let s = sendLine (snprintf_line (asc ''RCPT TO:<'' @ a @ asc ''>'' @ CRLF)) s;
         (bad, s) = checkResponse (asc ''250'') s
     in if bad = 1 then Inr (Inl (1, s))
        else
          let (Y, s) = scan_char Y s; (Y, s) = fgets_line Y s in
          rbind (text_of Y) (\<lambda>y. if length y \<le> 1 then Inr (Inl (0, s)) else Inr (Inr (rcpt, Y, s)))))"

lemma rcpt_round_decreases:
  assumes "rcpt_round rcpt Y s = Inr (Inr (rcpt', Y', s'))"
  shows "answers_left s' < answers_left s"
proof -
  obtain r s1 a where 1: "scan_word rcpt s = Inr (r, s1)" "text_of r = Inr a"
    using assms unfolding rcpt_round_def by (auto simp: rbind_eq_Inr)
  let ?w = "sendLine (snprintf_line (asc ''RCPT TO:<'' @ a @ asc ''>'' @ CRLF)) s1"
  obtain bad s2 where 2: "checkResponse (asc ''250'') ?w = (bad, s2)" by fastforce
  obtain Y1 s3 where 3: "scan_char Y s2 = (Y1, s3)" by fastforce
  obtain Y2 s4 where 4: "fgets_line Y1 s3 = (Y2, s4)" by fastforce
  have e: "bad \<noteq> 1" "s' = s4"
    using assms 1 2 3 4 unfolding rcpt_round_def by (auto simp: rbind_eq_Inr split: if_split_asm)
  then have "bad = 0" using response_code [of "asc ''250''" ?w] 2 by simp
  then have "answers_left s2 < answers_left ?w" using good_answer 2 by (simp add: asc_def)
  then show ?thesis
    using e scan_word_answers [OF 1(1)] scan_char_answers [of Y s2] fgets_line_answers [of Y1 s3] 3 4
    by (simp add: answers_left_def)
qed

function rcpt_loop :: "text_buffer \<Rightarrow> text_buffer \<Rightarrow> dialogue \<Rightarrow> (nat \<times> dialogue) res" where
  \<comment> \<open>every round but the last uses an answer of the server\<close>
  "rcpt_loop rcpt Y s =
     rbind (rcpt_round rcpt Y s) (\<lambda>r.
     case r of Inl result \<Rightarrow> Inr result | Inr (rcpt, Y, s) \<Rightarrow> rcpt_loop rcpt Y s)"
  by pat_completeness auto

termination rcpt_loop
  by (relation "measure (\<lambda>(_, _, s). answers_left s)") (auto intro: rcpt_round_decreases)

declare rcpt_loop.simps [simp del]

definition RCPTTO :: "dialogue \<Rightarrow> (nat \<times> dialogue) res" where
  \<comment> \<open>the loop starts with indeterminate arrays\<close>
  "RCPTTO s = rcpt_loop [] [] s"

partial_function (option) compose :: "nat \<Rightarrow> text_buffer \<Rightarrow> dialogue \<Rightarrow> dialogue res option" where
  \<comment> \<open>\<open>while (sendFlag < 2)\<close>\<close>
  "compose sendFlag input s =
     (if 2 \<le> sendFlag then Some (Inr s)
      else
        let (input, s) = fgets_line input s in
        case text_of input of Inl e \<Rightarrow> Some (Inl e)
        | Inr t \<Rightarrow> compose (if length t \<le> 1 then sendFlag + 1 else 0) input (sendLine t s))"

definition DATA_fields :: "text_buffer \<Rightarrow> dialogue \<Rightarrow> (text_buffer \<times> dialogue) res" where
  \<comment> \<open>the sender's name and the subject\<close>
  "DATA_fields login s =
     rbind (scan_word [] s) (\<lambda>(input, s).
     rbind (text_of input) (\<lambda>name.
     rbind (text_of login) (\<lambda>a.
     let s = sendLine (snprintf_line (asc ''From: '' @ name @ asc '' <'' @ a @ asc ''>'' @ CRLF)) s in
     rbind (scan_word input s) (\<lambda>(input, s).
     rbind (text_of input) (\<lambda>subject.
     let s = sendLine (snprintf_line (asc ''Subject: '' @ subject @ asc '' '' @ CRLF @ CRLF)) s in
     Inr (input, s))))))"

definition DATA :: "text_buffer \<Rightarrow> dialogue \<Rightarrow> (nat \<times> dialogue) res option" where
  "DATA login s =
     (let s = sendLine (asc ''DATA'' @ CRLF) s; (bad, s) = checkResponse (asc ''354'') s in
      if bad = 1 then Some (Inr (1, s))
      else
        case DATA_fields login s of Inl e \<Rightarrow> Some (Inl e)
        | Inr (input, s) \<Rightarrow>
            (case compose 0 input s of None \<Rightarrow> None
             | Some (Inl e) \<Rightarrow> Some (Inl e)
             | Some (Inr s) \<Rightarrow>
                 let s = sendLine (CRLF @ asc ''.'' @ CRLF) s; (bad, s) = checkResponse (asc ''250'') s in
                 if bad = 1 then Some (Inr (1, s)) else Some (Inr (0, s))))"

definition smtp :: "bool \<Rightarrow> dialogue \<Rightarrow> (int \<times> dialogue) res option" where
  \<comment> \<open>whether \<open>socket\<close> succeeds is the first argument; the results of \<open>connect\<close>, of the first answer and of
     \<open>HELO\<close>, \<open>RCPTTO\<close> and \<open>DATA\<close> are not looked at\<close>
  "smtp socket s =
     (if \<not> socket then Some (Inr (-1, s))
      else
        let (_, s) = checkResponse (asc ''220'') s; (_, s) = HELO s in
        case scan_word [] s of Inl e \<Rightarrow> Some (Inl e)
        | Inr (login, s) \<Rightarrow>
            (case MAILFROM login s of Inl e \<Rightarrow> Some (Inl e)
             | Inr (bad, s) \<Rightarrow>
                 if bad = 1 then Some (Inr (0, s))
                 else
                   case RCPTTO s of Inl e \<Rightarrow> Some (Inl e)
                   | Inr (_, s) \<Rightarrow>
                       (case DATA login s of None \<Rightarrow> None
                        | Some (Inl e) \<Rightarrow> Some (Inl e)
                        | Some (Inr (_, s)) \<Rightarrow> Some (Inr (0, s)))))"

section \<open>Well-formed input and answers\<close>

definition word_ok :: "byte list \<Rightarrow> bool" where
  "word_ok w \<longleftrightarrow> w \<noteq> [] \<and> length w \<le> 400 \<and> (\<forall>c \<in> set w. \<not> is_space c \<and> c \<noteq> 0)"

definition row_ok :: "byte list \<Rightarrow> bool" where
  "row_ok l \<longleftrightarrow> l \<noteq> [] \<and> length l \<le> 1000 \<and> 10 \<notin> set l \<and> 0 \<notin> set l"

definition accepts :: "string \<Rightarrow> byte list \<Rightarrow> bool" where
  \<comment> \<open>an answer with this code that one \<open>recv\<close> takes completely\<close>
  "accepts code a \<longleftrightarrow> length a \<le> 44 \<and> length code = 3 \<and> take 3 a = asc code"

lemma text_of_overwrite:
  "0 \<notin> set w \<Longrightarrow> text_of (overwrite buf (w @ [0])) = Inr w"
  by (simp add: text_of_def overwrite_def c_string_def takeWhile_append takeWhile_eq_all_conv)

lemma scan_word_ok:
  assumes "word_ok w" "typed s = ws @ w @ c # rest" "\<forall>x \<in> set ws. is_space x" "is_space c"
  shows "scan_word buf s = Inr (overwrite buf (w @ [0]), s\<lparr>typed := c # rest\<rparr>)"
    "text_of (overwrite buf (w @ [0])) = Inr w"
proof -
  have "dropWhile is_space (typed s) = w @ c # rest"
    using assms(1,2,3) by (cases w) (auto simp: word_ok_def)
  moreover have "takeWhile (\<lambda>c. \<not> is_space c) (w @ c # rest) = w" "dropWhile (\<lambda>c. \<not> is_space c) (w @ c # rest) = c # rest"
    using assms(1,4) takeWhile_append2 [of w "\<lambda>c. \<not> is_space c" "c # rest"]
      dropWhile_append2 [of w "\<lambda>c. \<not> is_space c" "c # rest"] by (auto simp: word_ok_def)
  ultimately show "scan_word buf s = Inr (overwrite buf (w @ [0]), s\<lparr>typed := c # rest\<rparr>)"
    using assms(1) by (simp add: scan_word_def word_ok_def BUFFER_def)
  show "text_of (overwrite buf (w @ [0])) = Inr w"
    using assms(1) by (intro text_of_overwrite) (auto simp: word_ok_def)
qed

lemma fgets_line_ok:
  assumes "typed s = l @ 10 # rest" "10 \<notin> set l" "length l \<le> 1000"
  shows "fgets_line buf s = (overwrite buf ((l @ [10]) @ [0]), s\<lparr>typed := rest\<rparr>)"
  using assms by (simp add: fgets_line_def until_separator BUFFER_def Let_def)

lemma checkResponse_ok:
  assumes "answers s = a # as" "accepts code a"
  shows "checkResponse (asc code) s = (0, s\<lparr>answers := as\<rparr>)"
proof -
  have "asc code ! i = a ! i" if "i < 3" for i
    using assms(2) that by (metis accepts_def nth_take)
  moreover have "3 \<le> length a" using assms(2) by (metis accepts_def asc_def length_map length_take min.cobounded1)
  ultimately show ?thesis
    using assms by (auto simp: checkResponse_def recv_answer_def overwrite_def accepts_def nth_append)
qed

section \<open>A dialogue\<close>

definition row :: "byte list \<Rightarrow> byte list" where "row l = l @ [10]"

fun rcpt_input :: "(byte list \<times> byte list) list \<Rightarrow> byte list \<Rightarrow> byte list" where
  \<comment> \<open>recipients, each with the line that asks for another one, and the last, with an empty line\<close>
  "rcpt_input [] r = row r @ row []"
| "rcpt_input ((r0, m) # xs) r = row r0 @ row m @ rcpt_input xs r"

definition rcpt_line :: "byte list \<Rightarrow> byte list" where
  "rcpt_line r = asc ''RCPT TO:<'' @ r @ asc ''>'' @ CRLF"

lemma short_line: "length t < BUFFER \<Longrightarrow> snprintf_line t = t"
  by (simp add: snprintf_line_def BUFFER_def)

lemma rcpt_round_ok:
  assumes "word_ok r" "typed s = ws @ row r @ row m @ rest" "\<forall>x \<in> set ws. is_space x" "m = [] \<or> row_ok m"
    "answers s = a # as" "accepts ''250'' a"
  shows "\<exists>rb Yb. rcpt_round rcpt Y s =
    (let s' = s\<lparr>typed := rest, answers := as, lines_sent := lines_sent s @ [rcpt_line r]\<rparr> in
     Inr (if m = [] then Inl (0, s') else Inr (rb, Yb, s')))"
proof -
  have nl: "is_space 10" by (simp add: is_space_def)
  let ?rb = "overwrite rcpt (r @ [0])"
  have "typed s = ws @ r @ 10 # row m @ rest" using assms(2) by (simp add: row_def)
  note W = scan_word_ok [OF assms(1) this assms(3) nl, of rcpt]
  let ?s1 = "s\<lparr>typed := 10 # row m @ rest\<rparr>"
  have line: "snprintf_line (asc ''RCPT TO:<'' @ r @ asc ''>'' @ CRLF) = rcpt_line r"
    using assms(1) by (simp add: short_line rcpt_line_def asc_def CRLF_def BUFFER_def word_ok_def)
  let ?s2 = "sendLine (rcpt_line r) ?s1"
  have c: "checkResponse (asc ''250'') ?s2 = (0, ?s2\<lparr>answers := as\<rparr>)"
    using assms(5,6) by (intro checkResponse_ok) simp_all
  let ?Y1 = "overwrite Y [10]" and ?s3 = "?s2\<lparr>answers := as, typed := row m @ rest\<rparr>"
  have sc: "scan_char Y (?s2\<lparr>answers := as\<rparr>) = (?Y1, ?s3)" by (simp add: scan_char_def)
  have m: "10 \<notin> set m" "length m \<le> 1000" "0 \<notin> set (m @ [10])" using assms(4) by (auto simp: row_ok_def)
  have f: "fgets_line ?Y1 ?s3 = (overwrite ?Y1 ((m @ [10]) @ [0]), ?s3\<lparr>typed := rest\<rparr>)"
    using m by (intro fgets_line_ok) (simp_all add: row_def)
  show ?thesis
    using W line c sc f text_of_overwrite [OF m(3)]
    by (intro exI [of _ ?rb] exI [of _ "overwrite ?Y1 ((m @ [10]) @ [0])"])
      (simp add: rcpt_round_def Let_def sendLine_def)
qed

lemma rcpt_loop_ok:
  assumes "\<forall>(r0, m) \<in> set xs. word_ok r0 \<and> row_ok m" "word_ok r" "\<forall>x \<in> set ws. is_space x"
    "list_all (accepts ''250'') as" "length as = Suc (length xs)"
    "answers s = as @ later" "typed s = ws @ rcpt_input xs r @ rest"
  shows "rcpt_loop rcpt Y s = Inr (0, s\<lparr>typed := rest, answers := later,
    lines_sent := lines_sent s @ map rcpt_line (map fst xs @ [r])\<rparr>)"
  using assms
proof (induction xs arbitrary: as ws rcpt Y s)
  case Nil
  then obtain a where a: "as = [a]" by (auto simp: length_Suc_conv)
  then show ?case
    using rcpt_round_ok [of r s ws "[]" rest a later rcpt Y] Nil
    by (simp add: rcpt_loop.simps [of rcpt] Let_def)
next
  case (Cons x xs)
  obtain r0 m where x: "x = (r0, m)" by fastforce
  obtain a as' where a: "as = a # as'" "length as' = Suc (length xs)" using Cons.prems(5) by (auto simp: length_Suc_conv)
  let ?s = "s\<lparr>typed := rcpt_input xs r @ rest, answers := as' @ later, lines_sent := lines_sent s @ [rcpt_line r0]\<rparr>"
  obtain rb Yb where r: "rcpt_round rcpt Y s = Inr (Inr (rb, Yb, ?s))"
    using rcpt_round_ok [of r0 s ws m "rcpt_input xs r @ rest" a "as' @ later" rcpt Y] Cons.prems x a
    by (auto simp: row_ok_def Let_def)
  show ?case
    using r Cons.IH [of "[]" as' ?s rb Yb] Cons.prems x a by (simp add: rcpt_loop.simps [of rcpt])
qed

lemma compose_row:
  assumes "l = [] \<or> row_ok l" "typed s = row l @ rest" "k < 2"
  shows "\<exists>buf'. compose k buf s =
    compose (if l = [] then Suc k else 0) buf' (s\<lparr>typed := rest, lines_sent := lines_sent s @ [row l]\<rparr>) \<and>
    text_of buf' = Inr (row l)"
proof -
  have l: "10 \<notin> set l" "length l \<le> 1000" "0 \<notin> set (row l)" using assms(1) by (auto simp: row_ok_def row_def)
  have f: "fgets_line buf s = (overwrite buf (row l @ [0]), s\<lparr>typed := rest\<rparr>)"
    unfolding row_def using l(1,2) assms(2) by (intro fgets_line_ok) (simp_all add: row_def)
  have len: "length (row l) \<le> 1 \<longleftrightarrow> l = []" by (simp add: row_def)
  show ?thesis
    using f text_of_overwrite [OF l(3), of buf] assms(3) len
    by (intro exI [of _ "overwrite buf (row l @ [0])"]) (simp add: compose.simps [of k] sendLine_def)
qed

lemma compose_rows:
  assumes "list_all row_ok ls" "ls \<noteq> []" "typed s = concat (map row ls) @ rest" "k < 2"
  shows "\<exists>buf'. compose k buf s =
    compose 0 buf' (s\<lparr>typed := rest, lines_sent := lines_sent s @ map row ls\<rparr>) \<and> text_of buf' = Inr (row (last ls))"
  using assms
proof (induction ls arbitrary: k buf s)
  case (Cons l ls)
  let ?s = "s\<lparr>typed := concat (map row ls) @ rest, lines_sent := lines_sent s @ [row l]\<rparr>"
  have l: "l \<noteq> []" "row_ok l" using Cons.prems(1) by (auto simp: row_ok_def)
  obtain buf1 where b: "compose k buf s = compose 0 buf1 ?s" "text_of buf1 = Inr (row l)"
    using compose_row [of l s "concat (map row ls) @ rest" k buf] Cons.prems l by auto
  show ?case
  proof (cases "ls = []")
    case True
    then show ?thesis using b by auto
  next
    case False
    then show ?thesis using b Cons.IH [of ?s 0 buf1] Cons.prems by auto
  qed
qed simp

text \<open>At the end of the input \<open>fgets\<close> leaves the last line in place, so a text that does not end in two empty lines never ends.\<close>

lemma compose_hangs_aux:
  "compose k buf s = Some r \<Longrightarrow> k = 0 \<and> typed s = [] \<and> text_of buf = Inr t \<and> 1 < length t \<longrightarrow> False"
proof (rule compose.raw_induct [where P = "\<lambda>k buf s r. k = 0 \<and> typed s = [] \<and> text_of buf = Inr t \<and> 1 < length t \<longrightarrow> False"])
  fix loop and k :: nat and buf s r
  assume 1: "\<And>k buf s r. loop k buf s = Some r \<Longrightarrow>
      k = 0 \<and> typed s = [] \<and> text_of buf = Inr t \<and> 1 < length t \<longrightarrow> False"
    "(if 2 \<le> k then Some (Inr s)
      else let (input, s) = fgets_line buf s in
        case text_of input of Inl e \<Rightarrow> Some (Inl e)
        | Inr t \<Rightarrow> loop (if length t \<le> 1 then k + 1 else 0) input (sendLine t s)) = Some r"
  show "k = 0 \<and> typed s = [] \<and> text_of buf = Inr t \<and> 1 < length t \<longrightarrow> False"
  proof
    assume a: "k = 0 \<and> typed s = [] \<and> text_of buf = Inr t \<and> 1 < length t"
    then have "fgets_line buf s = (buf, s)" by (simp add: fgets_line_def)
    then have "loop 0 buf (sendLine t s) = Some r" using 1(2) a by simp
    from 1(1) [OF this] show False using a by simp
  qed
qed

lemma compose_hangs: "typed s = [] \<Longrightarrow> text_of buf = Inr t \<Longrightarrow> 1 < length t \<Longrightarrow> compose 0 buf s = None"
  using compose_hangs_aux [of 0 buf s _ t] by (cases "compose 0 buf s") auto

section \<open>Sending a mail\<close>

record mail =
  m_from :: "byte list"
  m_more :: "(byte list \<times> byte list) list"
  m_last :: "byte list"
  m_name :: "byte list"
  m_subject :: "byte list"
  m_rows :: "byte list list"

definition mail_ok :: "mail \<Rightarrow> bool" where
  "mail_ok m \<longleftrightarrow> word_ok (m_from m) \<and> (\<forall>(r0, y) \<in> set (m_more m). word_ok r0 \<and> row_ok y) \<and> word_ok (m_last m) \<and>
     word_ok (m_name m) \<and> word_ok (m_subject m) \<and> list_all row_ok (m_rows m) \<and> m_rows m \<noteq> []"

definition mail_input :: "mail \<Rightarrow> byte list" where
  \<comment> \<open>what the user types, up to the last line of the text\<close>
  "mail_input m = row (m_from m) @ rcpt_input (m_more m) (m_last m) @ row (m_name m) @ row (m_subject m) @
     concat (map row (m_rows m))"

definition mail_lines :: "mail \<Rightarrow> byte list list" where
  \<comment> \<open>what the client sends, up to the last line of the text\<close>
  "mail_lines m =
     [asc ''HELO localhost'' @ CRLF, asc ''MAIL FROM:<'' @ m_from m @ asc ''>'' @ CRLF] @
     map rcpt_line (map fst (m_more m) @ [m_last m]) @
     [asc ''DATA'' @ CRLF, asc ''From: '' @ m_name m @ asc '' <'' @ m_from m @ asc ''>'' @ CRLF,
      asc ''Subject: '' @ m_subject m @ asc '' '' @ CRLF @ CRLF, row []] @ map row (m_rows m)"

definition agreed :: "mail \<Rightarrow> byte list list \<Rightarrow> bool" where
  \<comment> \<open>the server agrees to everything before the text\<close>
  "agreed m as \<longleftrightarrow> (\<exists>a b c ds e. as = [a, b, c] @ ds @ [e] \<and> accepts ''220'' a \<and> accepts ''250'' b \<and>
     accepts ''250'' c \<and> list_all (accepts ''250'') ds \<and> length ds = Suc (length (m_more m)) \<and> accepts ''354'' e)"

lemma HELO_ok:
  "answers s = b # as \<Longrightarrow> accepts ''250'' b \<Longrightarrow>
    HELO s = (0, s\<lparr>answers := as, lines_sent := lines_sent s @ [asc ''HELO localhost'' @ CRLF]\<rparr>)"
  by (simp add: HELO_def checkResponse_ok Let_def sendLine_def)

lemma MAILFROM_ok:
  assumes "word_ok a" "text_of login = Inr a" "answers s = c # as" "accepts ''250'' c"
  shows "MAILFROM login s =
    Inr (0, s\<lparr>answers := as, lines_sent := lines_sent s @ [asc ''MAIL FROM:<'' @ a @ asc ''>'' @ CRLF]\<rparr>)"
proof -
  have "snprintf_line (asc ''MAIL FROM:<'' @ a @ asc ''>'' @ CRLF) = asc ''MAIL FROM:<'' @ a @ asc ''>'' @ CRLF"
    using assms(1) by (simp add: short_line asc_def CRLF_def BUFFER_def word_ok_def)
  then show ?thesis using assms by (simp add: MAILFROM_def checkResponse_ok Let_def sendLine_def)
qed

lemma DATA_fields_ok:
  assumes "word_ok a" "word_ok n" "word_ok u" "typed s = row n @ row u @ rest" "text_of login = Inr a"
  shows "\<exists>buf. DATA_fields login s = Inr (buf, s\<lparr>typed := row [] @ rest, lines_sent := lines_sent s @
    [asc ''From: '' @ n @ asc '' <'' @ a @ asc ''>'' @ CRLF, asc ''Subject: '' @ u @ asc '' '' @ CRLF @ CRLF]\<rparr>)"
proof -
  have nl: "is_space 10" by (simp add: is_space_def)
  let ?s1 = "s\<lparr>typed := 10 # row u @ rest\<rparr>"
  have t1: "typed s = [] @ n @ 10 # row u @ rest" using assms(4) by (simp add: row_def)
  note W1 = scan_word_ok [OF assms(2) t1 _ nl, of "[]"]
  let ?from = "asc ''From: '' @ n @ asc '' <'' @ a @ asc ''>'' @ CRLF"
  let ?subj = "asc ''Subject: '' @ u @ asc '' '' @ CRLF @ CRLF"
  let ?b1 = "overwrite [] (n @ [0])" and ?s2 = "sendLine ?from ?s1"
  have t2: "typed ?s2 = [10] @ u @ 10 # rest" by (simp add: row_def)
  note W2 = scan_word_ok [OF assms(3) t2 _ nl, of ?b1]
  have "snprintf_line ?from = ?from" "snprintf_line ?subj = ?subj"
    using assms(1-3) by (simp_all add: short_line asc_def CRLF_def BUFFER_def word_ok_def)
  then show ?thesis
    using W1 W2 assms(5) nl
    by (intro exI [of _ "overwrite ?b1 (u @ [0])"]) (simp add: DATA_fields_def sendLine_def row_def)
qed

lemma DATA_ok:
  assumes "word_ok a" "word_ok n" "word_ok u" "list_all row_ok ls" "ls \<noteq> []" "text_of login = Inr a"
    "typed s = row n @ row u @ concat (map row ls) @ rest" "answers s = e # later" "accepts ''354'' e"
  shows "\<exists>buf. text_of buf = Inr (row (last ls)) \<and> DATA login s =
    (case compose 0 buf (s\<lparr>answers := later, typed := rest, lines_sent := lines_sent s @
       [asc ''DATA'' @ CRLF, asc ''From: '' @ n @ asc '' <'' @ a @ asc ''>'' @ CRLF,
        asc ''Subject: '' @ u @ asc '' '' @ CRLF @ CRLF, row []] @ map row ls\<rparr>) of None \<Rightarrow> None
     | Some (Inl f) \<Rightarrow> Some (Inl f)
     | Some (Inr s) \<Rightarrow> Some (Inr (checkResponse (asc ''250'') (sendLine (CRLF @ asc ''.'' @ CRLF) s))))"
proof -
  let ?s0 = "sendLine (asc ''DATA'' @ CRLF) s"
  have c: "checkResponse (asc ''354'') ?s0 = (0, ?s0\<lparr>answers := later\<rparr>)"
    using assms(8,9) by (intro checkResponse_ok) simp_all
  let ?s1 = "?s0\<lparr>answers := later\<rparr>"
  let ?f = "[asc ''From: '' @ n @ asc '' <'' @ a @ asc ''>'' @ CRLF, asc ''Subject: '' @ u @ asc '' '' @ CRLF @ CRLF]"
  have t: "typed ?s1 = row n @ row u @ concat (map row ls) @ rest" using assms(7) by simp
  obtain b1 where f: "DATA_fields login ?s1 = Inr (b1, ?s1\<lparr>typed := row [] @ concat (map row ls) @ rest,
      lines_sent := lines_sent ?s1 @ ?f\<rparr>)"
    using DATA_fields_ok [OF assms(1-3) t assms(6)] by blast
  let ?s2 = "?s1\<lparr>typed := row [] @ concat (map row ls) @ rest, lines_sent := lines_sent ?s1 @ ?f\<rparr>"
  let ?s3 = "?s2\<lparr>typed := concat (map row ls) @ rest, lines_sent := lines_sent ?s2 @ [row []]\<rparr>"
  obtain b2 where r: "compose 0 b1 ?s2 = compose 1 b2 ?s3"
    using compose_row [of "[]" ?s2 "concat (map row ls) @ rest" 0 b1] by auto
  obtain b3 where l: "compose 1 b2 ?s3 = compose 0 b3 (?s3\<lparr>typed := rest, lines_sent := lines_sent ?s3 @ map row ls\<rparr>)"
      "text_of b3 = Inr (row (last ls))"
    using compose_rows [OF assms(4,5), of ?s3 rest 1 b2] by auto
  have two: "(case x of (bad, s) \<Rightarrow> if bad = 1 then Some (Inr (1, s)) else Some (Inr (0, s))) = Some (Inr x)"
    if "fst x = 0 \<or> fst x = 1" for x :: "nat \<times> dialogue" using that by (cases x) auto
  have "DATA login s = (case compose 0 b1 ?s2 of None \<Rightarrow> None | Some (Inl f) \<Rightarrow> Some (Inl f)
     | Some (Inr s) \<Rightarrow> Some (Inr (checkResponse (asc ''250'') (sendLine (CRLF @ asc ''.'' @ CRLF) s))))"
    using c f by (simp add: DATA_def Let_def two [OF response_code, simplified] split: option.split sum.split)
  then show ?thesis using l(2) unfolding r l(1) by (intro exI [of _ b3]) (simp add: sendLine_def)
qed

definition envelope :: "mail \<Rightarrow> byte list list" where
  "envelope m = [asc ''MAIL FROM:<'' @ m_from m @ asc ''>'' @ CRLF] @ map rcpt_line (map fst (m_more m) @ [m_last m])"

definition letter_input :: "mail \<Rightarrow> byte list" where
  "letter_input m = row (m_name m) @ row (m_subject m) @ concat (map row (m_rows m))"

lemma envelope_ok:
  assumes m: "mail_ok m" and s: "answers s = c # ds @ later" "typed s = mail_input m @ rest"
    and A: "accepts ''250'' c" "list_all (accepts ''250'') ds" "length ds = Suc (length (m_more m))"
  shows "\<exists>login s1 s2. scan_word [] s = Inr (login, s1) \<and> text_of login = Inr (m_from m) \<and> MAILFROM login s1 = Inr (0, s2) \<and>
    RCPTTO s2 = Inr (0, s\<lparr>typed := letter_input m @ rest, answers := later, lines_sent := lines_sent s @ envelope m\<rparr>)"
proof -
  have nl: "is_space 10" by (simp add: is_space_def)
  note M = m [unfolded mail_ok_def]
  let ?t = "rcpt_input (m_more m) (m_last m) @ letter_input m @ rest"
  let ?login = "overwrite [] (m_from m @ [0])" and ?s1 = "s\<lparr>typed := 10 # ?t\<rparr>"
  have t: "typed s = [] @ m_from m @ 10 # ?t" using s(2) by (simp add: mail_input_def letter_input_def row_def)
  have w: "scan_word [] s = Inr (?login, ?s1)" "text_of ?login = Inr (m_from m)"
    using scan_word_ok [OF _ t _ nl, of "[]"] M by simp_all
  let ?s2 = "?s1\<lparr>answers := ds @ later, lines_sent := lines_sent ?s1 @ [asc ''MAIL FROM:<'' @ m_from m @ asc ''>'' @ CRLF]\<rparr>"
  have f: "MAILFROM ?login ?s1 = Inr (0, ?s2)" using MAILFROM_ok [OF _ w(2), of ?s1 c "ds @ later"] M A s(1) by simp
  have "rcpt_loop [] [] ?s2 = Inr (0, ?s2\<lparr>typed := letter_input m @ rest, answers := later,
      lines_sent := lines_sent ?s2 @ map rcpt_line (map fst (m_more m) @ [m_last m])\<rparr>)"
    using rcpt_loop_ok [of "m_more m" "m_last m" "[10]" ds ?s2 later "letter_input m @ rest" "[]" "[]"] M A nl by simp
  then have "RCPTTO ?s2 = Inr (0, s\<lparr>typed := letter_input m @ rest, answers := later,
      lines_sent := lines_sent s @ envelope m\<rparr>)"
    by (simp add: RCPTTO_def envelope_def)
  then show ?thesis using w f by blast
qed

text \<open>The dialogue up to the text is the same whether the text ends or not.\<close>

lemma smtp_opening:
  assumes m: "mail_ok m" and as: "agreed m as" and s: "answers s = as @ later" "typed s = mail_input m @ rest"
    "lines_sent s = []"
  shows "\<exists>buf. text_of buf = Inr (row (last (m_rows m))) \<and> smtp True s =
    (case compose 0 buf (s\<lparr>answers := later, typed := rest, lines_sent := mail_lines m\<rparr>) of None \<Rightarrow> None
     | Some (Inl e) \<Rightarrow> Some (Inl e)
     | Some (Inr s) \<Rightarrow> Some (Inr (0, snd (checkResponse (asc ''250'') (sendLine (CRLF @ asc ''.'' @ CRLF) s)))))"
proof -
  note M = m [unfolded mail_ok_def]
  obtain a b c ds e where A: "as = [a, b, c] @ ds @ [e]" "accepts ''220'' a" "accepts ''250'' b" "accepts ''250'' c"
      "list_all (accepts ''250'') ds" "length ds = Suc (length (m_more m))" "accepts ''354'' e"
    using as unfolding agreed_def by blast
  let ?s1 = "s\<lparr>answers := [b, c] @ ds @ e # later\<rparr>"
  have r1: "checkResponse (asc ''220'') s = (0, ?s1)" using A s(1) by (intro checkResponse_ok) simp_all
  let ?s2 = "?s1\<lparr>answers := c # ds @ e # later, lines_sent := [asc ''HELO localhost'' @ CRLF]\<rparr>"
  have r2: "HELO ?s1 = (0, ?s2)" using HELO_ok [of ?s1 b "c # ds @ e # later"] A s(3) by simp
  let ?s3 = "?s2\<lparr>typed := letter_input m @ rest, answers := e # later, lines_sent := lines_sent ?s2 @ envelope m\<rparr>"
  obtain login t1 t2 where r3: "scan_word [] ?s2 = Inr (login, t1)" "text_of login = Inr (m_from m)"
      "MAILFROM login t1 = Inr (0, t2)" "RCPTTO t2 = Inr (0, ?s3)"
    using envelope_ok [OF m, of ?s2 c ds "e # later" rest] s(2) A by auto
  obtain buf where r4: "text_of buf = Inr (row (last (m_rows m)))" "DATA login ?s3 =
      (case compose 0 buf (s\<lparr>answers := later, typed := rest, lines_sent := mail_lines m\<rparr>) of None \<Rightarrow> None
       | Some (Inl f) \<Rightarrow> Some (Inl f)
       | Some (Inr s) \<Rightarrow> Some (Inr (checkResponse (asc ''250'') (sendLine (CRLF @ asc ''.'' @ CRLF) s))))"
    using DATA_ok [of "m_from m" "m_name m" "m_subject m" "m_rows m" login ?s3 rest e later] M A r3(2)
    by (auto simp: mail_lines_def envelope_def letter_input_def)
  show ?thesis
    using r1 r2 r3 r4
    by (intro exI [of _ buf]) (simp add: smtp_def split: option.split sum.split prod.split)
qed

text \<open>
  C40: a whole dialogue: when the server agrees to every step, with answers that one \<open>recv\<close> takes whole, and the user
  types an address, recipients, a name, a subject (one word each) and the lines of a text, then the client sends
  exactly the lines of the mail, ended by a line with a dot, if two empty lines end the text; if the input
  ends before them, the client never returns (it sends the last line for ever).
\<close>

theorem mail_is_sent:
  assumes "mail_ok m" "agreed m as" "answers s = as @ f # later" "accepts ''250'' f" "lines_sent s = []"
  shows "(typed s = mail_input m @ row [] @ row [] @ rest \<longrightarrow>
      smtp True s = Some (Inr (0, s\<lparr>answers := later, typed := rest,
        lines_sent := mail_lines m @ [row [], row [], CRLF @ asc ''.'' @ CRLF]\<rparr>))) \<and>
    (typed s = mail_input m \<longrightarrow> smtp True s = None)"
proof (intro conjI impI)
  assume t: "typed s = mail_input m @ row [] @ row [] @ rest"
  let ?s0 = "s\<lparr>answers := f # later, typed := row [] @ row [] @ rest, lines_sent := mail_lines m\<rparr>"
  obtain buf where r: "smtp True s = (case compose 0 buf ?s0 of None \<Rightarrow> None
     | Some (Inl e) \<Rightarrow> Some (Inl e)
     | Some (Inr s) \<Rightarrow> Some (Inr (0, snd (checkResponse (asc ''250'') (sendLine (CRLF @ asc ''.'' @ CRLF) s)))))"
    using smtp_opening [OF assms(1-3) t assms(5)] by blast
  let ?s1 = "?s0\<lparr>typed := row [] @ rest, lines_sent := lines_sent ?s0 @ [row []]\<rparr>"
  let ?s2 = "?s1\<lparr>typed := rest, lines_sent := lines_sent ?s1 @ [row []]\<rparr>"
  obtain b1 where b1: "compose 0 buf ?s0 = compose 1 b1 ?s1"
    using compose_row [of "[]" ?s0 "row [] @ rest" 0 buf] by auto
  obtain b2 where b2: "compose 1 b1 ?s1 = compose 2 b2 ?s2"
    using compose_row [of "[]" ?s1 rest 1 b1] by (auto simp: numeral_2_eq_2)
  have "compose 2 b2 ?s2 = Some (Inr ?s2)" by (simp add: compose.simps)
  then show "smtp True s = Some (Inr (0, s\<lparr>answers := later, typed := rest,
      lines_sent := mail_lines m @ [row [], row [], CRLF @ asc ''.'' @ CRLF]\<rparr>))"
    using checkResponse_ok [of "sendLine (CRLF @ asc ''.'' @ CRLF) ?s2" f later, OF _ assms(4)]
    unfolding r b1 b2 by (simp add: sendLine_def)
next
  assume t: "typed s = mail_input m"
  then have t': "typed s = mail_input m @ []" by simp
  obtain buf where "text_of buf = Inr (row (last (m_rows m)))" and
      r: "smtp True s = (case compose 0 buf (s\<lparr>answers := f # later, typed := [], lines_sent := mail_lines m\<rparr>) of None \<Rightarrow> None
     | Some (Inl e) \<Rightarrow> Some (Inl e)
     | Some (Inr s) \<Rightarrow> Some (Inr (0, snd (checkResponse (asc ''250'') (sendLine (CRLF @ asc ''.'' @ CRLF) s)))))"
    using smtp_opening [OF assms(1-3) t' assms(5)] by blast
  moreover have "1 < length (row (last (m_rows m)))"
    using assms(1) last_in_set [of "m_rows m"] by (auto simp: mail_ok_def list_all_iff row_ok_def row_def)
  ultimately have "compose 0 buf (s\<lparr>answers := f # later, typed := [], lines_sent := mail_lines m\<rparr>) = None"
    by (intro compose_hangs) simp_all
  then show "smtp True s = None" unfolding r by simp
qed

definition example_mail :: mail where
  "example_mail = \<lparr>m_from = asc ''a@b'', m_more = [(asc ''c@d'', asc ''yes'')], m_last = asc ''e@f'', m_name = asc ''Ann'',
     m_subject = asc ''Hi'', m_rows = [asc ''Hello there'']\<rparr>"

definition example_answers :: "byte list list" where
  "example_answers = map asc [''220 ready'', ''250 ok'', ''250 ok'', ''250 ok'', ''250 ok'', ''354 go'']"

lemma example_agreed: "accepts ''220'' a \<Longrightarrow> agreed example_mail (a # tl example_answers)"
proof -
  assume "accepts ''220'' a"
  moreover have "accepts ''250'' (asc ''250 ok'')" "accepts ''354'' (asc ''354 go'')"
    by (simp_all add: accepts_def asc_def)
  ultimately show "agreed example_mail (a # tl example_answers)"
    unfolding agreed_def example_answers_def example_mail_def
    by (intro exI [of _ a] exI [of _ "asc ''250 ok''"] exI [of _ "[asc ''250 ok'', asc ''250 ok'']"]
        exI [of _ "asc ''354 go''"]) simp
qed

lemma example_dialogue: "mail_ok example_mail" "agreed example_mail example_answers" "accepts ''250'' (asc ''250 sent'')"
proof -
  show "mail_ok example_mail"
    by (simp add: mail_ok_def example_mail_def word_ok_def row_ok_def asc_def is_space_def)
  have "accepts ''220'' (asc ''220 ready'')" by (simp add: accepts_def asc_def)
  from example_agreed [OF this] show "agreed example_mail example_answers" by (simp add: example_answers_def)
  show "accepts ''250'' (asc ''250 sent'')" by (simp add: accepts_def asc_def)
qed

lemma mail_is_sent_witness:
  "(\<exists>s'. smtp True \<lparr>answers = example_answers @ [asc ''250 sent''], typed = mail_input example_mail @ row [] @ row [],
      lines_sent = []\<rparr> = Some (Inr (0, s')) \<and> typed s' = [] \<and> answers s' = []) \<and>
   smtp True \<lparr>answers = example_answers @ [asc ''250 sent''], typed = mail_input example_mail, lines_sent = []\<rparr> = None"
  using mail_is_sent [OF example_dialogue(1,2) _ example_dialogue(3), of _ "[]" "[]"] by simp

text \<open>
  Every answer is read with one \<open>recv\<close> of 44 bytes, and what does not fit is taken for the answer to the next command.
  So when the greeting of the server is longer than that (and not longer than 88 bytes), a dialogue in which server and user do
  everything right ends before the text: the answer to the last recipient is compared with the code for \<open>DATA\<close>, and the
  client sends nothing after this command; it returns 0 all the same.
\<close>

theorem long_greeting_stops_mail:
  assumes "mail_ok m" "agreed m (take 44 g # as)" "answers s = g # as @ later" "44 < length g" "length g \<le> 88"
    "typed s = mail_input m @ rest" "lines_sent s = []"
  shows "\<exists>s'. smtp True s = Some (Inr (0, s')) \<and> lines_sent s' = [asc ''HELO localhost'' @ CRLF] @ envelope m @ [asc ''DATA'' @ CRLF]"
proof -
  obtain b c ds e where A: "as = [b, c] @ ds @ [e]" "accepts ''250'' b" "accepts ''250'' c"
      "list_all (accepts ''250'') ds" "length ds = Suc (length (m_more m))"
    using assms(2) unfolding agreed_def by auto
  obtain cs d where "c # ds = cs @ [d]" by (cases "c # ds" rule: rev_cases) auto
  moreover from this have "Suc (length ds) = Suc (length cs)" by (metis length_Cons length_append_singleton)
  moreover have "list_all (accepts ''250'') (cs @ [d])" using A(3,4) calculation(1) by (metis list.pred_inject(2))
  ultimately have cs: "c # ds = cs @ [d]" "length cs = Suc (length (m_more m))" "list_all (accepts ''250'') cs" "accepts ''250'' d"
    using A(5) by simp_all
  let ?s1 = "s\<lparr>answers := drop 44 g # as @ later\<rparr>"
  obtain x1 where r1: "checkResponse (asc ''220'') s = (x1, ?s1)"
    using assms(3,4) by (cases "checkResponse (asc ''220'') s") (auto simp: checkResponse_def recv_answer_def Let_def split: if_split_asm)
  let ?h = "sendLine (asc ''HELO localhost'' @ CRLF) ?s1"
  let ?s2 = "?h\<lparr>answers := b # cs @ d # e # later\<rparr>"
  obtain x2 where r2: "HELO ?s1 = (x2, ?s2)"
    using assms(5) A(1) cs(1) by (cases "HELO ?s1")
      (auto simp: HELO_def checkResponse_def recv_answer_def Let_def split: if_split_asm)
  let ?s3 = "?s2\<lparr>typed := letter_input m @ rest, answers := d # e # later, lines_sent := lines_sent ?s2 @ envelope m\<rparr>"
  obtain login t1 t2 where r3: "scan_word [] ?s2 = Inr (login, t1)" "MAILFROM login t1 = Inr (0, t2)" "RCPTTO t2 = Inr (0, ?s3)"
    using envelope_ok [OF assms(1), of ?s2 b cs "d # e # later" rest] assms(6) A(2) cs by auto
  let ?s4 = "(sendLine (asc ''DATA'' @ CRLF) ?s3)\<lparr>answers := e # later\<rparr>"
  have "length d \<le> 44" "d ! 0 = 50" "d \<noteq> []"
    using cs(4) by (auto simp: accepts_def asc_def) (metis nth_Cons_0 nth_take zero_less_numeral)
  then have "checkResponse (asc ''354'') (sendLine (asc ''DATA'' @ CRLF) ?s3) = (1, ?s4)"
    by (simp add: checkResponse_def recv_answer_def overwrite_def asc_def nth_append)
  then have "DATA login ?s3 = Some (Inr (1, ?s4))" by (simp add: DATA_def)
  then have "smtp True s = Some (Inr (0, ?s4))" using r1 r2 r3 by (simp add: smtp_def)
  then show ?thesis using assms(7) by (intro exI [of _ ?s4]) simp
qed

definition long_greeting :: "byte list" where
  "long_greeting = asc ''220 mail.example.org ESMTP ready and waiting for mail''"

lemma long_greeting_stops_mail_witness:
  "\<exists>s'. smtp True \<lparr>answers = long_greeting # tl example_answers, typed = mail_input example_mail, lines_sent = []\<rparr> =
     Some (Inr (0, s')) \<and> length (lines_sent s') = 5"
proof -
  have g: "length long_greeting = 53" "accepts ''220'' (take 44 long_greeting)"
    by (simp_all add: long_greeting_def accepts_def asc_def)
  show ?thesis
    using long_greeting_stops_mail [OF example_dialogue(1) example_agreed [OF g(2)], of
        "\<lparr>answers = long_greeting # tl example_answers, typed = mail_input example_mail, lines_sent = []\<rparr>" "[]" "[]"] g(1)
    by (auto simp: envelope_def example_mail_def)
qed

end
