(* ===== verification/Ctcp_Timer.thy ===== *)
theory Ctcp_Timer
  imports Ctcp_Properties
begin

text \<open>
  The timer of cTCP over time: an unanswered segment is retransmitted five times, with the segments it sends,
  and then the connection is given up; which connection \<open>ctcp_timer\<close> then destroys; and the exchange of FIN segments.
\<close>

section \<open>Giving up\<close>

fun timer_calls :: "int list \<Rightarrow> tcp_host \<Rightarrow> tcp_host res" where
  \<comment> \<open>calls of \<open>ctcp_timer\<close> at the given times\<close>
  "timer_calls [] h = Inr h"
| "timer_calls (c # cs) h = rbind (ctcp_timer (h\<lparr>process := (process h)\<lparr>clock := c\<rparr>\<rparr>)) (timer_calls cs)"

fun spaced :: "int \<Rightarrow> int \<Rightarrow> int list \<Rightarrow> bool" where
  \<comment> \<open>times that follow each other by more than the timeout\<close>
  "spaced timeout t [] \<longleftrightarrow> True"
| "spaced timeout t (c # cs) \<longleftrightarrow> timeout < c - t \<and> spaced timeout c cs"

definition waiting :: "tcp \<Rightarrow> nat \<Rightarrow> bool" where
  \<comment> \<open>a segment is in flight, retransmitted \<open>5 - k\<close> times\<close>
  "waiting t k \<longleftrightarrow> conn_inv t \<and> sw_segments (st_sw (fst t)) \<noteq> [] \<and> 0 \<le> sw_timer (st_sw (fst t)) \<and>
     retrans_counter (st_sw (fst t)) = 5 - int k \<and> timer_teardown (fst t) = -1 \<and> 0 \<le> timeout_standard (fst t)"

definition retransmission :: "int \<Rightarrow> ctcp_segment \<Rightarrow> ctcp_segment" where
  \<comment> \<open>what becomes of a segment that is sent again when the acknowledgement number is \<open>a\<close>\<close>
  "retransmission a g =
     (let h = g\<lparr>sg_ackno := htonl (word_of_int a)\<rparr> in h\<lparr>sg_cksum := cksum (seg_bytes h)\<rparr>)"

definition retransmissions :: "int \<Rightarrow> ctcp_segment \<Rightarrow> nat \<Rightarrow> ctcp_segment list" where
  \<comment> \<open>a segment sent again \<open>k\<close> times, each time from the copy before\<close>
  "retransmissions a g k = map (\<lambda>n. (retransmission a ^^ n) g) [1..<Suc k]"

lemma retransmissions_Suc:
  "retransmissions a g (Suc k) = retransmission a g # retransmissions a (retransmission a g) k"
proof -
  have "[1..<Suc (Suc k)] = 1 # map Suc [1..<Suc k]"
    by (simp only: map_Suc_upt upt_conv_Cons)
  then show ?thesis by (simp only: retransmissions_def) (simp add: funpow_swap1 del: upt_Suc)
qed

text \<open>
  The checksum of a retransmission is computed over an image that still holds the checksum of the copy before: for a valid
  segment with the current acknowledgement number it is 0xffff, which does not verify, and the next retransmission is the
  segment itself again.
\<close>

lemma retransmission_spoils:
  assumes "seg_ok g" "verifies g" "sg_ackno g = htonl (word_of_int a)"
  shows "retransmission a g = g\<lparr>sg_cksum := 0xffff\<rparr>"
proof -
  have "g\<lparr>sg_ackno := htonl (word_of_int a)\<rparr> = g" using assms(3) by (cases g) simp
  then show ?thesis using verifies_image [OF assms(1,2)] by (simp add: retransmission_def)
qed

lemma retransmission_repairs:
  assumes ok: "seg_ok g" "verifies g" and a: "sg_ackno g = htonl (word_of_int a)"
  shows "retransmission a (g\<lparr>sg_cksum := 0xffff\<rparr>) = g"
proof -
  let ?b = "seg_bytes g"
  have same: "g\<lparr>sg_ackno := htonl (word_of_int a)\<rparr> = g" using a by (cases g) simp
  have len: "length ?b \<le> 131072" using seg_ok_bound [OF ok(1)] by simp
  have "wsum (put ?b 18 (bytes16 0xffff)) = wsum (put ?b 18 (bytes16 0)) + 65535"
    using wsum_put16 [of 18 ?b "0xffff"] wsum_put16 [of 18 ?b 0] by simp
  then have "wsum (put ?b 18 (bytes16 0xffff)) mod 65535 = wsum (put ?b 18 (bytes16 0)) mod 65535" by simp
  then have "cksum (seg_bytes (g\<lparr>sg_cksum := 0xffff\<rparr>)) = cksum (seg_bytes (g\<lparr>sg_cksum := 0\<rparr>))"
    using len by (simp add: seg_bytes_cksum cksum_eq_iff)
  then have "cksum (seg_bytes (g\<lparr>sg_cksum := 0xffff\<rparr>)) = sg_cksum g" using ok(2) by (simp add: verifies_def)
  moreover have "g\<lparr>sg_cksum := 0xffff, sg_ackno := htonl (word_of_int a)\<rparr> = g\<lparr>sg_cksum := 0xffff\<rparr>"
    using same by (cases g) simp
  ultimately show ?thesis by (simp add: retransmission_def)
qed

lemma retransmissions_alternate:
  assumes "seg_ok g" "verifies g" "sg_ackno g = htonl (word_of_int a)"
  defines "b \<equiv> g\<lparr>sg_cksum := 0xffff\<rparr>"
  shows "retransmissions a g 5 = [b, g, b, g, b]"
  using retransmission_spoils [OF assms(1-3)] retransmission_repairs [OF assms(1-3)]
  by (simp add: numeral_eq_Suc retransmissions_Suc b_def) (simp add: retransmissions_def)

lemma conn_inv_clock [simp]: "conn_inv (st, s') = conn_inv (st, s)"
  by (simp add: conn_inv_def)

lemma timer_round:
  assumes "waiting (st, process h) (Suc k)" "Suc k \<le> 5" "timeout_standard st < c - sw_timer (st_sw st)"
    "states h = [st]" "sw_segments (st_sw st) = g # gs"
  defines "g' \<equiv> retransmission (rw_ackno (st_rw st)) g"
  shows "\<exists>st'. ctcp_timer (h\<lparr>process := (process h)\<lparr>clock := c\<rparr>\<rparr>) = Inr (h\<lparr>states := [st'],
      process := (process h)\<lparr>clock := c, segments_out := segments_out (process h) @ [seg_bytes g']\<rparr>\<rparr>) \<and>
    waiting (st', s') k \<and> sw_timer (st_sw st') = c \<and> timeout_standard st' = timeout_standard st \<and>
    sw_segments (st_sw st') = g' # gs \<and> rw_ackno (st_rw st') = rw_ackno (st_rw st) \<and> st_conn st' = st_conn st"
proof -
  let ?s = "(process h)\<lparr>clock := c\<rparr>"
  let ?st = "upd_sw (\<lambda>w. w\<lparr>retrans_counter := retrans_counter w + 1, sw_timer := c\<rparr>) st"
  let ?new = "upd_sw (\<lambda>w. w\<lparr>sw_segments := g' # gs, sw_timer := c\<rparr>) ?st"
  have inv: "conn_inv (st, ?s)" using assms(1) by (simp add: waiting_def conn_inv_def)
  then have t: "tcp_inv st" by (simp add: conn_inv_def)
  have "seg_ok g" using tcp_invD(2) [OF t] assms(5) by (simp add: sent_ok_def)
  then have "ctcp_retrans (?st, ?s) = Inr (?new, ?s\<lparr>segments_out := segments_out ?s @ [seg_bytes g']\<rparr>)"
    using retrans_ok [of ?st g gs ?s] assms(5) tcp_invD(1) [OF t] by (simp add: g'_def retransmission_def Let_def)
  then have run: "timer_check (st, ?s) = Inr (False, ?new, ?s\<lparr>segments_out := segments_out ?s @ [seg_bytes g']\<rparr>)"
    using assms(1-3) by (simp add: timer_check_def waiting_def)
  moreover have "conn_inv (?new, s')"
    using timer_inv [OF inv] run conn_inv_clock [of ?new s'] by fastforce
  ultimately show ?thesis using assms(1-4) by (auto simp: waiting_def ctcp_timer_def)
qed

lemma gives_up_after:
  assumes "waiting (st, process h) k" "k \<le> 5" "spaced (timeout_standard st) (sw_timer (st_sw st)) cs" "length cs = Suc k"
    "states h = [st]" "sw_segments (st_sw st) = g # gs"
  shows "\<exists>h1 h2 out. out = map seg_bytes (retransmissions (rw_ackno (st_rw st)) g k) \<and>
    timer_calls (take k cs) h = Inr h1 \<and> timer_calls cs h = Inr h2 \<and>
    map st_conn (states h1) = [st_conn st] \<and> removed h1 = removed h \<and> exited h1 = exited h \<and>
    segments_out (process h1) = segments_out (process h) @ out \<and>
    states h2 = [] \<and> removed h2 = removed h @ [conn_remove (st_conn st)] \<and>
    exited h2 = (exited h \<or> \<not> is_server (process h)) \<and> segments_out (process h2) = segments_out (process h) @ out"
  using assms
proof (induction k arbitrary: st h cs g)
  case 0
  then obtain c where c: "cs = [c]" by (auto simp: length_Suc_conv)
  have "timer_check (st, (process h)\<lparr>clock := c\<rparr>) = Inr (True, st, (process h)\<lparr>clock := c\<rparr>)"
    using 0 c by (simp add: timer_check_def waiting_def)
  then show ?case
    using c 0 by (simp add: ctcp_timer_def ctcp_destroy_def retransmissions_def)
next
  case (Suc k)
  let ?g = "retransmission (rw_ackno (st_rw st)) g"
  obtain c cs' where c: "cs = c # cs'" "length cs' = Suc k" using Suc.prems(4) by (auto simp: length_Suc_conv)
  obtain st' where r: "ctcp_timer (h\<lparr>process := (process h)\<lparr>clock := c\<rparr>\<rparr>) = Inr (h\<lparr>states := [st'],
      process := (process h)\<lparr>clock := c, segments_out := segments_out (process h) @ [seg_bytes ?g]\<rparr>\<rparr>)"
      "waiting (st', (process h)\<lparr>clock := c, segments_out := segments_out (process h) @ [seg_bytes ?g]\<rparr>) k"
      "sw_timer (st_sw st') = c" "timeout_standard st' = timeout_standard st"
      "sw_segments (st_sw st') = ?g # gs" "rw_ackno (st_rw st') = rw_ackno (st_rw st)" "st_conn st' = st_conn st"
    using timer_round [OF Suc.prems(1,2) _ Suc.prems(5,6), of c "(process h)\<lparr>clock := c,
      segments_out := segments_out (process h) @ [seg_bytes ?g]\<rparr>"] Suc.prems(3) c(1) by auto
  let ?h = "h\<lparr>states := [st'],
      process := (process h)\<lparr>clock := c, segments_out := segments_out (process h) @ [seg_bytes ?g]\<rparr>\<rparr>"
  show ?case
    using Suc.IH [of st' ?h cs' ?g] r(2-7) Suc.prems(2,3) c by (simp add: r(1) retransmissions_Suc)
qed

text \<open>
  C25: a segment that is not acknowledged is not retried for ever, and the retries are what they are.  A host has one connection,
  with segments in flight and no retry so far; \<open>ctcp_timer\<close> is called six times, each more than the timeout after the last.
  The first five calls put one segment each on the wire, the first segment in flight with the current
  acknowledgement number and a new checksum, and the connection stays.  The sixth call sends nothing, takes
  the connection from the list, marks it for removal, and ends the process of a client.  When the segment was valid and
  the acknowledgement number has not moved, every other retry is spoilt: the first, third and fifth carry the checksum
  0xffff, the second and fourth are the segment itself.
\<close>

theorem tcp_gives_up:
  assumes "states h = [st]" "waiting (st, process h) 5" "sw_segments (st_sw st) = g # gs"
    "spaced (timeout_standard st) (sw_timer (st_sw st)) cs" "length cs = 6"
  shows "\<exists>h1 h2 rs. timer_calls (take 5 cs) h = Inr h1 \<and> timer_calls cs h = Inr h2 \<and>
    rs = retransmissions (rw_ackno (st_rw st)) g 5 \<and>
    map st_conn (states h1) = [st_conn st] \<and> removed h1 = removed h \<and> exited h1 = exited h \<and>
    segments_out (process h1) = segments_out (process h) @ map seg_bytes rs \<and>
    states h2 = [] \<and> removed h2 = removed h @ [(st_conn st)\<lparr>delete_me := True\<rparr>] \<and>
    exited h2 = (exited h \<or> \<not> is_server (process h)) \<and> segments_out (process h2) = segments_out (process h1) \<and>
    (verifies g \<and> sg_ackno g = htonl (word_of_int (rw_ackno (st_rw st))) \<longrightarrow>
      rs = [g\<lparr>sg_cksum := 0xffff\<rparr>, g, g\<lparr>sg_cksum := 0xffff\<rparr>, g, g\<lparr>sg_cksum := 0xffff\<rparr>])"
proof -
  have "seg_ok g" using assms(2,3) tcp_invD(2) by (force simp: waiting_def conn_inv_def sent_ok_def)
  then show ?thesis
    using gives_up_after [OF assms(2) _ assms(4) _ assms(1,3)] assms(5)
      retransmissions_alternate [of g "rw_ackno (st_rw st)"] by (auto simp: conn_remove_def)
qed

lemma waiting_example: "waiting (waiting_state, example_sys) 5"
  using waiting_inv
  by (simp add: waiting_def) (simp add: waiting_state_def fresh_state_def ctcp_init_def example_config_def)

definition waiting_host :: tcp_host where
  "waiting_host = \<lparr>states = [waiting_state], removed = [], process = example_sys, exited = False\<rparr>"

lemma tcp_gives_up_witness:
  "\<exists>h1 h2. timer_calls [300, 600, 900, 1200, 1500] waiting_host = Inr h1 \<and>
     timer_calls [300, 600, 900, 1200, 1500, 1800] waiting_host = Inr h2 \<and>
     segments_out (process h1) = map seg_bytes [example_data\<lparr>sg_cksum := 0xffff\<rparr>, example_data,
       example_data\<lparr>sg_cksum := 0xffff\<rparr>, example_data, example_data\<lparr>sg_cksum := 0xffff\<rparr>] \<and>
     map st_conn (states h1) = [example_conn] \<and> states h2 = [] \<and> removed h2 = [example_conn\<lparr>delete_me := True\<rparr>]"
proof -
  have "spaced (timeout_standard waiting_state) (sw_timer (st_sw waiting_state)) [300, 600, 900, 1200, 1500, 1800]"
    by (simp add: waiting_state_def fresh_state_def ctcp_init_def example_config_def)
  moreover have "waiting (waiting_state, process waiting_host) 5" using waiting_example by (simp add: waiting_host_def)
  moreover have "sw_segments (st_sw waiting_state) = [example_data]" "states waiting_host = [waiting_state]"
    by (simp_all add: waiting_state_def waiting_host_def)
  moreover have "verifies example_data" by simp
  moreover have "sg_ackno example_data = htonl (word_of_int (rw_ackno (st_rw waiting_state)))"
    by (simp add: example_data_def seal_def Let_def waiting_state_def)
  moreover have "segments_out (process waiting_host) = []" "removed waiting_host = []" "st_conn waiting_state = example_conn"
    by (simp_all add: waiting_host_def example_sys_def waiting_state_def fresh_state_def ctcp_init_def)
  ultimately show ?thesis
    using tcp_gives_up [of waiting_host waiting_state example_data "[]" "[300, 600, 900, 1200, 1500, 1800]"] by fastforce
qed

section \<open>Which connection is destroyed\<close>

definition expired :: "tcp \<Rightarrow> bool" where
  \<comment> \<open>the connection of this state is to be given up\<close>
  "expired t \<longleftrightarrow> timer_check t = Inr (True, t)"

text \<open>
  \<open>ctcp_timer\<close> destroys the first connection of the list, whichever of them has expired: when the first is alive and the
  second is to be given up, the first is removed, its peer's connection is lost, and the expired one stays.
\<close>

theorem timer_destroys_first:
  assumes "timer_check (st, process h) = Inr (False, st', p)" "expired (st2, p)"
    "states h = st # st2 # sts"
  shows "\<exists>h'. ctcp_timer h = Inr h' \<and> states h' = st2 # sts \<and>
    removed h' = removed h @ [(st_conn st')\<lparr>delete_me := True\<rparr>] \<and> process h' = p"
  using assms by (simp add: ctcp_timer_def expired_def ctcp_destroy_def conn_remove_def)

definition given_up_state :: ctcp_state where
  "given_up_state = upd_sw (\<lambda>w. w\<lparr>retrans_counter := 5\<rparr>) waiting_state"

lemma timer_destroys_first_witness:
  "\<exists>h'. ctcp_timer \<lparr>states = [fresh_state, given_up_state], removed = [], process = example_sys, exited = False\<rparr> = Inr h' \<and>
     states h' = [given_up_state] \<and> removed h' = [example_conn\<lparr>delete_me := True\<rparr>]"
proof -
  have a: "timer_check (fresh_state, example_sys) = Inr (False, fresh_state, example_sys)"
    by (simp add: timer_check_def fresh_state_def ctcp_init_def)
  have b: "expired (given_up_state, example_sys)"
    by (simp add: expired_def timer_check_def given_up_state_def waiting_state_def fresh_state_def ctcp_init_def
        example_sys_def example_config_def)
  show ?thesis
    using timer_destroys_first [of fresh_state
        "\<lparr>states = [fresh_state, given_up_state], removed = [], process = example_sys, exited = False\<rparr>"
        fresh_state example_sys given_up_state "[]"] a b by auto
qed

section \<open>FIN\<close>

text \<open>
  A received FIN is answered with two segments: the acknowledgement, whose flags are \<open>htonl (0x11)\<close>, and, unless
  the teardown timer already runs, the host's own FIN, which is queued for retransmission; sequence numbers do
  not move.  The acknowledgement's flags have no bit in the eight that go into the TCP header, and a
  segment without flags is exactly what step 4 of the receiver takes for the acknowledgement of its FIN.
\<close>

theorem fin_answered:
  assumes "conn_inv (st, s)" "seg_ok g" "verifies g" "sg_data g = []" "sg_flags g = TH_FIN" "timer_teardown st = -1"
  shows "\<exists>st' s' a f. ctcp_receive (st, s) g (word_of_nat (length (seg_bytes g))) = Inr (st', s') \<and>
    segments_out s' = segments_out s @ [seg_bytes a, seg_bytes f] \<and> verifies a \<and> verifies f \<and>
    sg_flags a = htonl 0x11 \<and> (ucast (sg_flags a) :: byte) = 0 \<and> is_fin_ack (a\<lparr>sg_flags := 0\<rparr>) 20 \<and>
    sg_flags f = TH_FIN \<and> sw_segments (st_sw st') = sw_segments (st_sw st) @ [f] \<and>
    sw_seqno (st_sw st') = sw_seqno (st_sw st) \<and> st_rw st' = st_rw st"
proof -
  let ?st = "set_peer_window g st" and ?f0 = "\<lambda>s. bare (set_peer_window g st) s TH_FIN []"
  have c: "conn_inv (?st, s)" using assms(1) by simp
  then have t: "tcp_inv ?st" by (simp add: conn_inv_def)
  note D = tcp_invD [OF t]
  let ?a = "reply ?st s (htonl 0x11)"
  let ?s = "send_out ?a s"
  let ?g = "bare ?st ?s TH_FIN []" and ?k = "rw_ackno (st_rw ?st)"
  have ok: "seg_ok ?g" using D(3) by (intro bare_ok) auto
  have len: "data_len ?g = 0" using ok by (simp add: data_len_ok)
  have "receive_fin (?st, s) (g\<lparr>sg_cksum := 0\<rparr>) (word_of_nat (length (seg_bytes g))) =
      Inr (upd_sw (enqueue (clock ?s) ?k ?g) ?st, send_out (seal ?k ?g) ?s)"
    using makeseg_reply(2) [OF D(1,3), of s] makeseg_fin [OF D(1,2,3), of ?s] no_payload_iff [OF assms(2)] assms(4,5,6)
    by (simp add: receive_fin_def TH_FIN_def set_peer_window_def)
  then have run: "ctcp_receive (st, s) g (word_of_nat (length (seg_bytes g))) =
      Inr (upd_sw (enqueue (clock ?s) ?k ?g) ?st, send_out (seal ?k ?g) ?s)"
    using receive_control [OF assms(2,3,4), of st s] assms(5)
    by (simp add: is_fin_ack_def TH_FIN_def TH_ACK_def)
  have flags: "(ucast (htonl 0x11) :: byte) = 0"
    by code_simp
  have fin_ack: "is_fin_ack (?a\<lparr>sg_flags := 0\<rparr>) 20"
    by (simp add: is_fin_ack_def TH_FIN_def TH_ACK_def no_payload_def SEG_HEADER_SIZE_def)
  show ?thesis
    using run flags fin_ack reply_verifies [of ?st s "htonl 0x11"] verifies_seal [of ?g ?k] len
    by (intro exI [of _ "upd_sw (enqueue (clock ?s) ?k ?g) ?st"] exI [of _ "send_out (seal ?k ?g) ?s"]
        exI [of _ ?a] exI [of _ "seal ?k ?g"] conjI) (auto simp: enqueue_def)
qed

lemma fin_answered_witness:
  "\<exists>st' s' a f. ctcp_receive (fresh_state, example_sys) (reply fresh_state example_sys TH_FIN)
     (word_of_nat (length (seg_bytes (reply fresh_state example_sys TH_FIN)))) = Inr (st', s') \<and>
     segments_out s' = [seg_bytes a, seg_bytes f] \<and> sg_flags f = TH_FIN"
proof -
  have "send_buf_len fresh_state = 0" "timer_teardown fresh_state = -1" "segments_out example_sys = []"
    by (simp_all add: fresh_state_def ctcp_init_def example_sys_def)
  then show ?thesis
    using fin_answered [OF reachable_inv [OF fresh_reachable], of "reply fresh_state example_sys TH_FIN"]
      reply_ok reply_verifies by fastforce
qed

end
