(* ===== verification/Ctcp_Stream.thy ===== *)
theory Ctcp_Stream
  imports Ctcp_Properties "HOL-Library.Sublist"
begin

text \<open>
  Two cTCP hosts and the network between them, which may lose, repeat, reorder and corrupt what they send: what
  one host's application reads is what the other's gets, in order, and a byte leaves the sender's window
  only after it was delivered.
\<close>

section \<open>What an operation does to a host\<close>

definition offspring :: "ctcp_state \<Rightarrow> byte list \<Rightarrow> ctcp_segment \<Rightarrow> bool" where
  \<comment> \<open>a segment in flight (with other acknowledgement number and checksum), or a new one with data \<open>d\<close> or none\<close>
  "offspring st d g \<longleftrightarrow> seg_ok g \<and>
     ((\<exists>h \<in> set (sw_segments (st_sw st)). sg_seqno g = sg_seqno h \<and> sg_data g = sg_data h) \<or>
      sg_data g \<in> {d, []} \<and> ntohl (sg_seqno g) = word_of_int (sw_seqno (st_sw st)))"

definition emits :: "tcp \<Rightarrow> byte list \<Rightarrow> tcp \<Rightarrow> bool" where
  \<comment> \<open>the step takes \<open>d\<close> into the window and transmits some segments, all with the new acknowledgement number\<close>
  "emits t d t' \<longleftrightarrow> conn_inv t' \<and> sw_seqno (st_sw (fst t')) = sw_seqno (st_sw (fst t)) + int (length d) \<and>
     (\<forall>g \<in> set (sw_segments (st_sw (fst t'))). offspring (fst t) d g) \<and>
     (\<exists>gs. segments_out (snd t') = segments_out (snd t) @ map seg_bytes gs \<and>
        (\<forall>g \<in> set gs. offspring (fst t) d g \<and> ntohl (sg_ackno g) = word_of_int (rw_ackno (st_rw (fst t'))))) \<and>
     rw_ackno (st_rw (fst t)) \<le> rw_ackno (st_rw (fst t'))"

definition same_output :: "tcp \<Rightarrow> tcp \<Rightarrow> bool" where
  \<comment> \<open>nothing was delivered\<close>
  "same_output t t' \<longleftrightarrow> rw_ackno (st_rw (fst t')) = rw_ackno (st_rw (fst t)) \<and>
     rw_max_size (st_rw (fst t')) = rw_max_size (st_rw (fst t)) \<and>
     delivered (st_conn (fst t')) (snd t') = delivered (st_conn (fst t)) (snd t) \<and>
     wrote_eof (st_conn (fst t')) = wrote_eof (st_conn (fst t)) \<and>
     wrote_err (st_conn (fst t')) = wrote_err (st_conn (fst t))"

lemma offspring_window: "conn_inv (st, s) \<Longrightarrow> g \<in> set (sw_segments (st_sw st)) \<Longrightarrow> offspring st d g"
  using tcp_invD(2) by (auto simp: offspring_def conn_inv_def sent_ok_def)

lemma emits_refl: "conn_inv t \<Longrightarrow> emits t [] t"
  using offspring_window by (cases t) (auto simp: emits_def intro: exI [of _ "[]"])

lemma same_output_refl [simp]: "same_output t t"
  by (simp add: same_output_def)

definition transmits :: "tcp \<Rightarrow> ctcp_segment \<Rightarrow> tcp \<Rightarrow> bool" where
  \<comment> \<open>the segment is sealed, appended to the window and sent\<close>
  "transmits t g t' \<longleftrightarrow> seg_ok g \<and> sg_cksum g = 0 \<and> length (sg_data g) \<le> MAX_SEG_DATA_SIZE \<and>
     ntohl (sg_seqno g) = word_of_int (sw_seqno (st_sw (fst t))) \<and>
     (\<exists>now. st_sw (fst t') = enqueue now (rw_ackno (st_rw (fst t))) g (st_sw (fst t))) \<and>
     segments_out (snd t') = segments_out (snd t) @ [seg_bytes (seal (rw_ackno (st_rw (fst t))) g)] \<and>
     same_output t t'"

lemma seal_ackno: "sg_cksum g = 0 \<Longrightarrow> ntohl (sg_ackno (seal a g)) = word_of_int a"
  by (simp add: seal_def Let_def)

lemma transmits_emits:
  assumes "conn_inv (st, s)" "conn_inv t'" "transmits (st, s) g t'"
  shows "emits (st, s) (sg_data g) t'" "base (fst t') = base st"
proof -
  have new: "offspring st (sg_data g) (seal (rw_ackno (st_rw st)) g)"
    using assms(3) by (simp add: offspring_def transmits_def)
  have len: "data_len g = int (length (sg_data g))" using assms(3) by (simp add: transmits_def data_len_ok)
  show "base (fst t') = base st" using assms(3) by (auto simp: transmits_def enqueue_def base_def)
  show "emits (st, s) (sg_data g) t'"
    using assms new len offspring_window [OF assms(1)] seal_ackno [of g]
    by (auto simp: emits_def transmits_def enqueue_def same_output_def
        intro!: exI [of _ "[seal (rw_ackno (st_rw st)) g]"])
qed

section \<open>Reading\<close>

lemma read_into_quiet:
  "read_into s buf i n = Inr (r, buf', s') \<Longrightarrow>
    stdout s' = stdout s \<and> segments_out s' = segments_out s \<and> clock s' = clock s"
  by (auto simp: read_into_def sys_read_def split: list.splits read_result.splits if_splits)

lemma conn_input_quiet:
  assumes "conn_input c s buf n = Inr (r, buf', c', s')"
  shows "stdout s' = stdout s \<and> segments_out s' = segments_out s \<and> clock s' = clock s"
proof (cases "read_eof c \<or> delete_me c")
  case True
  then show ?thesis using assms by (auto simp: conn_input_def split: if_splits)
next
  case False
  let ?same = "\<lambda>s1. stdout s1 = stdout s \<and> segments_out s1 = segments_out s \<and> clock s1 = clock s"
  let ?rest = "\<lambda>(r, buf, s).
    case r of
      Bytes_read n \<Rightarrow>
        if n > 0 then
          rbind (add_network_line_ending (\<not> unix_socket s) buf (nat n)) (\<lambda>(added, buf).
          if added then Inr (Bytes_read (n + 1), buf, s)
          else rbind (read_into s buf (nat n) 1) (\<lambda>(r1, buf, s).
            case r1 of
              Bytes_read k \<Rightarrow> Inr (Bytes_read (n + k), buf, s)
            | _ \<Rightarrow> Inr (Bytes_read (n - 1), buf, s)))
        else Inr (r, buf, s)
    | _ \<Rightarrow> Inr (r, buf, s)"
  have rest: "?same s2" if "?rest (r1, b1, s1) = Inr (r2, b2, s2)" "?same s1" for r1 b1 s1 r2 b2 s2
    using that by (cases r1) (auto elim!: rbind_InrE dest!: read_into_quiet split: if_split_asm input_status.split_asm)
  obtain r1 b1 s1 where 1: "(if run_program s \<or> unix_socket s then read_into s buf 0 n
      else rbind (read_into s buf 0 (n - 1)) ?rest) = Inr (r1, b1, s1)"
    "(case r1 of Would_block \<Rightarrow> Inr (0, b1, c, s1)
      | Read_error \<Rightarrow> Inr (-1, b1, c\<lparr>read_eof := True\<rparr>, s1)
      | Bytes_read n \<Rightarrow>
          if n = 0 then Inr (-1, b1, c\<lparr>read_eof := True\<rparr>, s1)
          else rbind (ld8 b1 0) (\<lambda>b.
            if eof_char s1 \<and> b = 0x1a then Inr (-1, b1, c\<lparr>read_eof := True\<rparr>, s1)
            else Inr (n, b1, c, s1))) = Inr (r, buf', c', s')"
    using assms False unfolding conn_input_def by (auto elim!: rbind_InrE)
  have "?same s1"
    using 1(1) rest by (auto simp: fault_simps dest!: read_into_quiet split: if_splits)
  then show ?thesis using 1(2) by (cases r1) (auto simp: fault_simps split: if_splits)
qed

lemma same_output_read:
  "c = st_conn st \<or> c = (st_conn st)\<lparr>read_eof := True\<rparr> \<Longrightarrow> stdout s' = stdout s \<Longrightarrow> st_conn st' = c \<Longrightarrow>
    st_rw st' = st_rw st \<Longrightarrow> same_output (st, s) (st', s')"
  by (auto simp: same_output_def delivered_def)

definition taken_in :: "ctcp_state \<Rightarrow> sys \<Rightarrow> byte list" where
  \<comment> \<open>the bytes that the next \<open>ctcp_read\<close> gets from \<open>conn_input\<close>\<close>
  "taken_in st s =
     (if read_size st \<le> 0 then []
      else case conn_input (st_conn st) s (send_buf st) (nat (read_size st)) of
        Inl _ \<Rightarrow> [] | Inr (r, buf, _, _) \<Rightarrow> take (nat r) buf)"

text \<open>A read changes nothing, or it transmits one segment, which carries what was taken in.\<close>

lemma read_cases:
  assumes inv: "conn_inv (st, s)" and run: "ctcp_read (st, s) = Inr t'"
  shows "t' = (st, s) \<and> taken_in st s = [] \<or> (\<exists>g. transmits (st, s) g t' \<and> sg_data g = taken_in st s)"
proof (cases "read_size st \<le> 0")
  case True
  then show ?thesis using run by (simp add: ctcp_read_def Let_def taken_in_def)
next
  case False
  have t: "tcp_inv st" using inv by (simp add: conn_inv_def)
  note D = tcp_invD [OF t]
  let ?n = "nat (read_size st)"
  have bound: "0 < ?n" "?n \<le> length (send_buf st)"
    using False D(4) read_size_bound(3) [of st] by auto
  have line: "\<not> line_overruns (st_conn st) s (send_buf st) ?n"
    using read_defined [OF inv run] by (simp add: read_overruns_def)
  obtain r buf c s' where i: "conn_input (st_conn st) s (send_buf st) ?n = Inr (r, buf, c, s')"
      "-1 \<le> r" "r \<le> int ?n" "length buf = length (send_buf st)"
      "c = st_conn st \<or> c = (st_conn st)\<lparr>read_eof := True\<rparr>"
    using conn_input_cases [OF D(1) bound, of s] line by auto
  have taken: "taken_in st s = take (nat r) buf" using False i(1) by (simp add: taken_in_def)
  note quiet = conn_input_quiet [OF i(1)]
  show ?thesis
  proof (cases "0 \<le> r")
    case True
    then obtain n where n: "r = int n" using zero_le_imp_eq_int by blast
    let ?st = "st\<lparr>st_conn := c, send_buf := buf, send_buf_len := int n\<rparr>"
    let ?g = "bare ?st s' TH_ACK (take n buf)"
    have k: "n \<le> MAX_SEG_DATA_SIZE" "int n \<le> read_size st" "length buf = MAX_SEG_DATA_SIZE"
      using n i(3,4) False D(4) read_size_bound(3) [of st] by linarith+
    have g: "seg_ok ?g" using k by (intro bare_ok) auto
    have "transmits (st, s) ?g t'"
      using ctcp_read_step [OF t _ i(1) [unfolded n] k(2,3) i(5)] False run g k quiet i(5)
      by (auto simp: transmits_def intro!: same_output_read [OF i(5)])
    then show ?thesis using taken n by auto
  next
    case neg: False
    let ?st = "st\<lparr>st_conn := c, send_buf := buf, send_buf_len := 0\<rparr>"
    let ?g = "bare ?st s' TH_FIN []"
    have g: "seg_ok ?g" by (intro bare_ok) auto
    have del: "\<not> delete_me (st_conn ?st)" using i(5) D(1) by auto
    have "ctcp_makeseg (?st, s') SEND_FIN = Inr t'"
      using i(1) False neg run by (simp add: ctcp_read_def Let_def)
    then have "transmits (st, s) ?g t'"
      using makeseg_fin [OF del, of s'] D(2) g quiet
      by (auto simp: transmits_def intro!: same_output_read [OF i(5)])
    then show ?thesis using taken neg by auto
  qed
qed

section \<open>Timers\<close>

lemma retrans_cases:
  assumes inv: "conn_inv (st, s)"
    and run: "ctcp_retrans (upd_sw (\<lambda>w. w\<lparr>retrans_counter := n, sw_timer := now\<rparr>) st, s) = Inr t'"
  shows "emits (st, s) [] t' \<and> same_output (st, s) t' \<and> base (fst t') = base st"
proof (cases "sw_segments (st_sw st)")
  case Nil
  then show ?thesis
    using run retrans_inv [OF inv, where n = n and now = now] inv
    by (auto simp: ctcp_retrans_def emits_def same_output_def base_def intro: exI [of _ "[]"])
next
  case (Cons g gs)
  let ?st = "upd_sw (\<lambda>w. w\<lparr>retrans_counter := n, sw_timer := now\<rparr>) st"
  let ?a = "htonl (word_of_int (rw_ackno (st_rw st)))"
  define h where "h = (g\<lparr>sg_ackno := ?a\<rparr>)\<lparr>sg_cksum := cksum (seg_bytes (g\<lparr>sg_ackno := ?a\<rparr>))\<rparr>"
  have t: "\<not> delete_me (st_conn ?st)" "sw_segments (st_sw ?st) = g # gs" "seg_ok g"
    using inv tcp_invD(1,2) [of st] Cons by (auto simp: conn_inv_def sent_ok_def)
  have e: "t' = (upd_sw (\<lambda>w. w\<lparr>sw_segments := h # gs, sw_timer := clock s\<rparr>) ?st,
      s\<lparr>segments_out := segments_out s @ [seg_bytes h]\<rparr>)"
    using run retrans_ok [OF t, of s] by (simp add: h_def)
  have h: "offspring st [] h" "ntohl (sg_ackno h) = word_of_int (rw_ackno (st_rw st))"
    using t(3) Cons by (auto simp: offspring_def h_def)
  have "conn_inv t'" using retrans_inv [OF inv, where n = n and now = now] run by simp
  then show ?thesis
    using e h offspring_window [OF inv] Cons
    by (auto simp: emits_def same_output_def base_def delivered_def intro!: exI [of _ "[h]"])
qed

lemma timer_cases:
  assumes inv: "conn_inv (st, s)" and run: "timer_check (st, s) = Inr (False, t')"
  shows "emits (st, s) [] t' \<and> same_output (st, s) t' \<and> base (fst t') = base st"
proof -
  have eq: "upd_sw (\<lambda>w. w\<lparr>retrans_counter := retrans_counter w + 1, sw_timer := clock s\<rparr>) st =
      upd_sw (\<lambda>w. w\<lparr>retrans_counter := retrans_counter (st_sw st) + 1, sw_timer := clock s\<rparr>) st"
    by (simp add: upd_sw_def)
  have "t' = (st, s) \<or>
      ctcp_retrans (upd_sw (\<lambda>w. w\<lparr>retrans_counter := retrans_counter (st_sw st) + 1, sw_timer := clock s\<rparr>) st, s) = Inr t'"
    using run unfolding timer_check_def Let_def prod.case eq
    by (auto split: if_splits sum.splits simp: rbind_def)
  then show ?thesis using retrans_cases [OF inv] emits_refl [OF inv] by (elim disjE) (simp, blast)
qed

section \<open>Segments without data\<close>

lemma ack_cases:
  assumes inv: "conn_inv (st, s)" and r: "ntohl (sg_ackno g) = word_of_int r" "0 \<le> r" "r < 2 ^ 31"
    and run: "receive_ack (st, s) g = Inr t'"
  shows "\<exists>n. snd t' = s \<and> conn_inv t' \<and> only_sw st (fst t') \<and>
    sw_segments (st_sw (fst t')) = drop n (sw_segments (st_sw st)) \<and> sw_seqno (st_sw (fst t')) = sw_seqno (st_sw st) \<and>
    base st \<le> base (fst t') \<and> (base (fst t') = base st \<or> base (fst t') \<le> r)"
proof (cases "t' = (st, s)")
  case True
  then show ?thesis using inv by (auto intro: exI [of _ 0])
next
  case False
  have t: "tcp_inv st" "stream_ok st" using inv by (auto simp: conn_inv_def)
  have rk: "sint (ntohl (sg_ackno g)) = r" using r sint_word_of_int_small by simp
  obtain e es where e: "sw_segments (st_sw st) = e # es" "expected_ackno e \<le> r"
      "t' = (upd_sw (\<lambda>w. restart_timer (clock s) (slide r w)) st, s)"
    using run receive_ack_ok [OF t(1), of s g] False unfolding rk by (auto split: list.splits if_splits)
  have w: "expected_ackno e = base st + data_len e" "0 \<le> data_len e" "0 < base st"
    using window_head [OF inv, of e es] e(1) by (auto simp: base_def)
  let ?segs = "sw_segments (st_sw st)"
  have ok: "\<forall>g \<in> set ?segs. seg_ok g" using tcp_invD(2) [OF t(1)] by (simp add: sent_ok_def)
  have chain: "contiguous (base st) ?segs (sw_seqno (st_sw st))" "sw_seqno (st_sw st) < 2 ^ 31"
    using t(2) by (auto simp: stream_ok_def base_def)
  obtain n a' where n: "filter (\<lambda>g. \<not> acked r g) ?segs = drop n ?segs"
      "contiguous a' (drop n ?segs) (sw_seqno (st_sw st))" "base st \<le> a'" "base st \<le> r \<longrightarrow> a' \<le> r"
    using ack_suffix [OF chain(1) _ r(2,3) chain(2) ok] w(3) by fastforce
  have "a' = sw_seqno (st_sw st) - in_flight (drop n ?segs)" using contiguous_end [OF n(2)] by simp
  moreover have "conn_inv t'" using ack_inv [OF inv, of g] run by auto
  moreover have "only_sw st (fst t')"
    unfolding e(3) fst_conv by (intro only_sw_upd) (simp add: restart_timer_def slide_def)
  ultimately show ?thesis
    using e w n by (intro exI [of _ n]) (auto simp: slide_def restart_timer_def base_def)
qed

lemma emits_after_reply:
  assumes "emits (st, send_out k s) d t'" "offspring st d k" "ntohl (sg_ackno k) = word_of_int (rw_ackno (st_rw st))"
    "rw_ackno (st_rw (fst t')) = rw_ackno (st_rw st)"
  shows "emits (st, s) d t'"
proof -
  obtain gs where gs: "segments_out (snd t') = segments_out (send_out k s) @ map seg_bytes gs"
      "\<forall>g \<in> set gs. offspring st d g \<and> ntohl (sg_ackno g) = word_of_int (rw_ackno (st_rw (fst t')))"
    using assms(1) unfolding emits_def fst_conv snd_conv by blast
  have "segments_out (snd t') = segments_out s @ map seg_bytes (k # gs)" using gs(1) by simp
  moreover have "\<forall>g \<in> set (k # gs). offspring st d g \<and> ntohl (sg_ackno g) = word_of_int (rw_ackno (st_rw (fst t')))"
    using gs(2) assms(2-4) by simp
  ultimately show ?thesis using assms(1) unfolding emits_def fst_conv snd_conv by blast
qed

lemma fin_cases:
  assumes inv: "conn_inv (st, s)" and run: "receive_fin (st, s) g len = Inr t'"
  shows "emits (st, s) [] t' \<and> same_output (st, s) t' \<and> base (fst t') = base st"
proof -
  have t: "tcp_inv st" using inv by (simp add: conn_inv_def)
  note D = tcp_invD [OF t]
  let ?k = "reply st s (htonl 0x11)"
  have k: "offspring st [] ?k" "ntohl (sg_ackno ?k) = word_of_int (rw_ackno (st_rw st))"
    using reply_ok [OF D(3)] by (auto simp: offspring_def)
  have c: "conn_inv (st, send_out ?k s)" using inv by (simp add: conn_inv_def)
  have so: "same_output (st, s) (st, send_out ?k s)" by (simp add: same_output_def delivered_def)
  have one: "emits (st, s) [] (st, send_out ?k s)"
    using emits_after_reply [OF emits_refl [OF c] k] by simp
  have "Inr t' \<in> {Inr (st, s), Inr (st, send_out ?k s), ctcp_makeseg (st, send_out ?k s) SEND_FIN}"
    using run [symmetric] unfolding receive_fin_def makeseg_reply(2) [OF D(1,3)] rbind_simps fst_conv
    by (simp only: insert_iff split: if_split_asm) simp_all
  then consider "t' = (st, s)" | "t' = (st, send_out ?k s)"
    | "ctcp_makeseg (st, send_out ?k s) SEND_FIN = Inr t'"
    unfolding insert_iff by (metis empty_iff sum.inject(2))
  then show ?thesis
  proof cases
    case 3
    let ?g = "bare st (send_out ?k s) TH_FIN []"
    have f: "transmits (st, send_out ?k s) ?g t'"
      using makeseg_fin [OF D(1,2,3), of "send_out ?k s"] 3 bare_ok [of st "[]" "send_out ?k s" TH_FIN] D(3)
      by (simp add: transmits_def same_output_def delivered_def) blast
    have "conn_inv t'" using receive_fin_inv [OF inv, of g len] run by (elim exE conjE) simp
    from transmits_emits [OF c this f] f have "emits (st, send_out ?k s) [] t'" "base (fst t') = base st"
      "same_output (st, send_out ?k s) t'" by (simp_all add: transmits_def)
    moreover have "emits (st, s) [] t'"
      using emits_after_reply [OF calculation(1) k] calculation(3) by (simp add: same_output_def)
    ultimately show ?thesis using so by (simp add: same_output_def)
  qed (use emits_refl [OF inv] one so in simp_all)
qed

lemma control_cases:
  assumes inv: "conn_inv (st, s)" and g: "seg_ok g" "verifies g" "sg_data g = []"
    and r: "ntohl (sg_ackno g) = word_of_int r" "0 \<le> r" "r < 2 ^ 31"
    and run: "ctcp_receive (st, s) g (word_of_nat (length (seg_bytes g))) = Inr t'"
  shows "emits (st, s) [] t' \<and> same_output (st, s) t' \<and> base st \<le> base (fst t') \<and>
    (base (fst t') = base st \<or> base (fst t') \<le> r)"
proof -
  let ?st = "set_peer_window g st" and ?g = "g\<lparr>sg_cksum := 0\<rparr>" and ?n = "word_of_nat (length (seg_bytes g)) :: u64"
  have c: "conn_inv (?st, s)" using inv by simp
  obtain st1 s1 where fin: "receive_fin (?st, s) ?g ?n = Inr (st1, s1)" "conn_inv (st1, s1)"
    using receive_fin_inv [OF c] by blast
  note F = fin_cases [OF c fin(1)]
  let ?st1 = "if is_fin_ack ?g ?n then st1\<lparr>timer_teardown := clock s1\<rparr> else st1"
  have c1: "conn_inv (?st1, s1)" using fin(2) conn_inv_upd(2) by simp
  have r': "ntohl (sg_ackno ?g) = word_of_int r" using r(1) by simp
  have "receive_ack (?st1, s1) ?g = Inr t' \<or> t' = (?st1, s1)"
    using run receive_control [OF g, of st s] fin(1) by (auto simp: Let_def split: if_splits)
  then obtain n where a: "snd t' = s1" "conn_inv t'" "only_sw ?st1 (fst t')"
      "sw_segments (st_sw (fst t')) = drop n (sw_segments (st_sw ?st1))" "sw_seqno (st_sw (fst t')) = sw_seqno (st_sw ?st1)"
      "base ?st1 \<le> base (fst t')" "base (fst t') = base ?st1 \<or> base (fst t') \<le> r"
    using ack_cases [OF c1 r' r(2,3)] c1 by (elim disjE) (blast, force intro: exI [of _ 0])
  have same: "sw_segments (st_sw ?st1) = sw_segments (st_sw st1)" "sw_seqno (st_sw ?st1) = sw_seqno (st_sw st1)"
    "st_rw ?st1 = st_rw st1" "st_conn ?st1 = st_conn st1" "base ?st1 = base st1" "base ?st = base st"
    by (simp_all add: base_def)
  have off: "offspring ?st d h = offspring st d h" for d h by (simp add: offspring_def)
  note o = only_sw_fields [OF a(3)]
  have "emits (st, s) [] t'"
    using F a same o(2) off by (auto simp: emits_def dest: in_set_dropD)
  moreover have "same_output (st, s) t'"
    using F a(1) o(1,2) same by (simp add: same_output_def)
  ultimately show ?thesis using F a(6,7) same by simp
qed

section \<open>Segments with data\<close>

lemma conn_output_part:
  assumes "\<not> delete_me c" "n \<le> length buf" "n \<le> conn_bufspace c" "conn_output c s buf n = Inr (r, c', s')"
  shows "(\<exists>m. delivered c' s' = delivered c s @ take m (take n buf)) \<and>
    (0 < n \<and> \<not> wrote_eof c \<longrightarrow> \<not> wrote_eof c' \<and>
      (\<not> wrote_err c \<and> delivered c' s' = delivered c s @ take n buf \<or> wrote_err c' \<and> delivered c' s' = delivered c s))"
proof (cases "wrote_eof c \<or> n = 0 \<or> wrote_err c")
  case True
  then have "delivered c' s' = delivered c s \<and> (0 < n \<and> \<not> wrote_eof c \<longrightarrow> \<not> wrote_eof c' \<and> wrote_err c')"
    using assms by (auto simp: conn_output_def delivered_def split: if_splits)
  then show ?thesis by (auto intro: exI [of _ 0])
next
  case False
  then have f: "\<not> wrote_eof c" "\<not> wrote_err c" "0 < n" by auto
  have "\<not> wrote_eof c'"
    using assms f by (auto simp: conn_output_def rd_def Let_def split: if_splits prod.splits)
  moreover have "r = int n \<and> delivered c' s' = delivered c s @ take n buf \<or>
      r = -1 \<and> wrote_err c' \<and> delivered c' s' = delivered c s"
    using conn_output_stream [OF assms(1) f(1,2,3) assms(2,3), of s] assms(4) by auto
  ultimately show ?thesis using f by (auto intro: exI [of _ n] exI [of _ 0])
qed

lemma conn_output_delivers:
  assumes "\<not> delete_me c" "\<not> wrote_eof c" "0 < n" "n \<le> length buf" "n \<le> conn_bufspace c"
    "conn_output c s buf n = Inr (r, c', s')"
  shows "\<not> wrote_eof c' \<and>
    (\<not> wrote_err c \<and> delivered c' s' = delivered c s @ take n buf \<or> wrote_err c' \<and> delivered c' s' = delivered c s)"
  using conn_output_part [OF assms(1,4,5,6)] assms(2,3) by blast

definition takes :: "tcp \<Rightarrow> byte list \<Rightarrow> tcp \<Rightarrow> bool" where
  \<comment> \<open>the bytes are acknowledged; a first part of them is delivered, all of them if there is room and no write fails\<close>
  "takes t d t' \<longleftrightarrow> rw_ackno (st_rw (fst t')) = rw_ackno (st_rw (fst t)) + int (length d) \<and>
     (\<exists>m. delivered (st_conn (fst t')) (snd t') = delivered (st_conn (fst t)) (snd t) @ take m d) \<and>
     (length d \<le> conn_bufspace (st_conn (fst t)) \<and> \<not> wrote_eof (st_conn (fst t)) \<longrightarrow>
       \<not> wrote_eof (st_conn (fst t')) \<and>
       (\<not> wrote_err (st_conn (fst t)) \<and>
          delivered (st_conn (fst t')) (snd t') = delivered (st_conn (fst t)) (snd t) @ d \<or>
        wrote_err (st_conn (fst t')) \<and> delivered (st_conn (fst t')) (snd t') = delivered (st_conn (fst t)) (snd t)))"

lemma expected_cases:
  assumes inv: "conn_inv (st, s)" and g: "seg_ok g" "sg_data g \<noteq> []"
      "ntohl (sg_seqno g) = word_of_int (rw_ackno (st_rw st))" "rw_ackno (st_rw st) + data_len g < 2 ^ 31"
    and run: "receive_expected (st, s) g = Inr t'"
  shows "emits (st, s) [] t' \<and> base (fst t') = base st \<and> takes (st, s) (sg_data g) t'"
proof -
  have t: "tcp_inv st" "0 \<le> rw_ackno (st_rw st)" using inv by (auto simp: conn_inv_def stream_ok_def)
  note D = tcp_invD [OF t(1)]
  let ?st1 = "advance g st" and ?n = "length (sg_data g)"
  let ?k = "reply ?st1 s TH_ACK"
  have len: "data_len g = int ?n" using g(1) by (rule data_len_ok)
  let ?m = "min (conn_bufspace (st_conn st)) ?n"
  have n: "0 < ?n" "?m \<le> ?n" "?m \<le> conn_bufspace (st_conn st)" using g(2) by simp_all
  obtain r c s' where o: "conn_output (st_conn st) (send_out ?k s) (sg_data g) ?m = Inr (r, c, s')"
    using conn_output_total [OF D(1) n(2)] by blast
  have e: "t' = (?st1\<lparr>st_conn := c\<rparr>, s')"
    using receive_expected_ok [OF t(1) g(1-3) t(2) g(4), of s] run o by simp
  have k: "offspring st [] ?k" "ntohl (sg_ackno ?k) = word_of_int (rw_ackno (st_rw ?st1))"
    using reply_ok [of ?st1 s TH_ACK] D(3) by (auto simp: offspring_def advance_def)
  have "conn_inv t'" using expected_inv [OF inv g] run by auto
  then have "emits (st, s) [] t'"
    using k conn_output_segments [OF o] offspring_window [OF inv] len
    by (auto simp: emits_def e advance_def intro!: exI [of _ "[?k]"])
  moreover have "takes (st, s) (sg_data g) t'"
  proof -
    have "delivered (st_conn st) (send_out ?k s) = delivered (st_conn st) s" by (simp add: delivered_def)
    note d = conn_output_part [OF D(1) n(2,3) o, unfolded this]
    have "?m = ?n" if "?n \<le> conn_bufspace (st_conn st)" using that by simp
    then show ?thesis using d len n(1) by (auto simp: takes_def e advance_def take_take)
  qed
  ultimately show ?thesis by (simp add: e base_def advance_def)
qed

lemma data_cases:
  assumes inv: "conn_inv (st, s)" and g: "seg_ok g" "verifies g" "sg_data g \<noteq> []"
      "rw_ackno (st_rw st) + data_len g < 2 ^ 31"
    and run: "ctcp_receive (st, s) g (word_of_nat (length (seg_bytes g))) = Inr t'"
  shows "emits (st, s) [] t' \<and> base (fst t') = base st \<and>
    (same_output (st, s) t' \<or>
     ntohl (sg_seqno g) = word_of_int (rw_ackno (st_rw st)) \<and> takes (st, s) (sg_data g) t')"
proof -
  let ?st = "set_peer_window g st" and ?g = "g\<lparr>sg_cksum := 0\<rparr>" and ?n = "word_of_nat (length (seg_bytes g)) :: u64"
  have c: "conn_inv (?st, s)" using inv by simp
  then have t: "tcp_inv ?st" "0 \<le> rw_ackno (st_rw ?st)" by (auto simp: conn_inv_def stream_ok_def)
  note D = tcp_invD [OF t(1)]
  have off: "offspring ?st d h = offspring st d h" "base ?st = base st" for d h
    by (simp_all add: offspring_def base_def)
  have lift: "emits (?st, s) [] t' \<Longrightarrow> emits (st, s) [] t'" "same_output (?st, s) t' \<Longrightarrow> same_output (st, s) t'"
    "takes (?st, s) d t' \<Longrightarrow> takes (st, s) d t'" for d
    by (simp_all add: emits_def off same_output_def takes_def)
  have run': "receive_data (?st, s) ?g ?n = Inr t'" using run receive_payload [OF g(1-3)] by simp
  have g': "seg_ok ?g" "sg_data ?g \<noteq> []" "rw_ackno (st_rw ?st) + data_len ?g < 2 ^ 31" using g by simp_all
  note R = receive_data_ok [OF t(1) g'(1,2) t(2) g'(3), of s ?n, unfolded run']
  let ?k = "reply ?st s TH_ACK"
  consider "t' = (?st, send_out ?k s)" | "t' = (?st, s)"
    | "ntohl (sg_seqno ?g) = word_of_int (rw_ackno (st_rw ?st))" "receive_expected (?st, s) ?g = Inr t'"
    using R by (auto split: if_split_asm)
  then show ?thesis
  proof cases
    case 1
    have k: "offspring ?st [] ?k" "ntohl (sg_ackno ?k) = word_of_int (rw_ackno (st_rw ?st))"
      using reply_ok [OF D(3)] by (auto simp: offspring_def)
    have "conn_inv (?st, send_out ?k s)" using c by (simp add: conn_inv_def)
    from emits_after_reply [OF emits_refl [OF this] k] have "emits (st, s) [] t'" using lift(1) 1 by simp
    moreover have "same_output (st, s) t'" using 1 by (simp add: same_output_def delivered_def)
    ultimately show ?thesis using 1 off by simp
  next
    case 2
    then show ?thesis using lift emits_refl [OF c] off by simp
  next
    case 3
    from expected_cases [OF c g'(1,2) 3(1) g'(3) 3(2)] show ?thesis using lift 3(1) off by simp
  qed
qed

section \<open>Segments as pieces of a stream\<close>

definition carries :: "byte list \<Rightarrow> ctcp_segment \<Rightarrow> bool" where
  \<comment> \<open>the data is the piece of the stream at the segment's sequence number (the first byte has number 1)\<close>
  "carries x g \<longleftrightarrow> seg_ok g \<and> length (sg_data g) \<le> MAX_SEG_DATA_SIZE \<and>
     (\<exists>n. ntohl (sg_seqno g) = word_of_int (1 + int n) \<and> n + length (sg_data g) \<le> length x \<and>
        sg_data g = take (length (sg_data g)) (drop n x))"

definition acknowledges :: "int \<Rightarrow> ctcp_segment \<Rightarrow> bool" where
  \<comment> \<open>its acknowledgement number is at most \<open>a\<close>\<close>
  "acknowledges a g \<longleftrightarrow> (\<exists>r. 0 \<le> r \<and> r \<le> a \<and> ntohl (sg_ackno g) = word_of_int r)"

lemma carries_append: "carries x g \<Longrightarrow> carries (x @ d) g"
  by (fastforce simp: carries_def)

lemma acknowledges_mono: "acknowledges a g \<Longrightarrow> a \<le> b \<Longrightarrow> acknowledges b g"
  by (fastforce simp: acknowledges_def)

lemma carries_cong:
  "seg_ok h \<Longrightarrow> sg_seqno h = sg_seqno g \<Longrightarrow> sg_data h = sg_data g \<Longrightarrow> carries x g \<Longrightarrow> carries x h"
  by (simp add: carries_def)

lemma seg_bytes_inject:
  assumes "seg_bytes g = seg_bytes h"
  shows "sg_seqno g = sg_seqno h" "sg_ackno g = sg_ackno h" "sg_len g = sg_len h" "sg_data g = sg_data h"
  using assms by (simp_all add: seg_bytes_def)

lemma offspring_carries:
  assumes "offspring st d g" "\<forall>h \<in> set (sw_segments (st_sw st)). carries x h"
    "sw_seqno (st_sw st) = 1 + int (length x)" "length d \<le> MAX_SEG_DATA_SIZE"
  shows "carries (x @ d) g"
  using assms carries_append carries_cong unfolding offspring_def
  by (auto simp: carries_def intro: exI [of _ "length x"])

section \<open>Two hosts\<close>

type_synonym endpoint = "tcp \<times> byte list"
  \<comment> \<open>a host and what its application has given it\<close>

definition host_ok :: "endpoint \<Rightarrow> bool" where
  "host_ok h \<longleftrightarrow> (case h of ((st, s), x) \<Rightarrow>
     conn_inv (st, s) \<and> sw_seqno (st_sw st) = 1 + int (length x) \<and> sw_seqno (st_sw st) < 2 ^ 31 - 1440 \<and>
     (\<forall>g \<in> set (sw_segments (st_sw st)). carries x g) \<and>
     (\<forall>b \<in> set (segments_out s). \<exists>g. b = seg_bytes g \<and> carries x g \<and> acknowledges (rw_ackno (st_rw st)) g))"

definition linked :: "bool \<Rightarrow> endpoint \<Rightarrow> endpoint \<Rightarrow> bool" where
  \<comment> \<open>what the first host has taken in, and what the second has got of it; \<open>roomy\<close>: it always had room for it\<close>
  "linked roomy h k \<longleftrightarrow> (case (h, k) of (((st, s), x), ((su, u), y)) \<Rightarrow>
     base st \<le> rw_ackno (st_rw su) \<and> 1 \<le> rw_ackno (st_rw su) \<and> rw_ackno (st_rw su) \<le> 1 + int (length x) \<and>
     subseq (delivered (st_conn su) u) (take (nat (rw_ackno (st_rw su) - 1)) x) \<and>
     (roomy \<longrightarrow> \<not> wrote_eof (st_conn su) \<and> prefix (delivered (st_conn su) u) x \<and>
       (\<not> wrote_err (st_conn su) \<longrightarrow> delivered (st_conn su) u = take (nat (rw_ackno (st_rw su) - 1)) x)))"

definition conveyed :: "ctcp_segment \<Rightarrow> ctcp_segment \<Rightarrow> bool" where
  \<comment> \<open>numbers, length and data arrive as they were sent; the flags do not (the TCP header cuts them, the Internet adds ACK)\<close>
  "conveyed g g' \<longleftrightarrow> sg_seqno g' = sg_seqno g \<and> sg_ackno g' = sg_ackno g \<and> sg_len g' = sg_len g \<and> sg_data g' = sg_data g"

inductive host_step :: "bool \<Rightarrow> byte list set \<Rightarrow> endpoint \<Rightarrow> endpoint \<Rightarrow> bool" for roomy wire where
  \<comment> \<open>the events of a host; \<open>wire\<close> is what its peer has transmitted, and with \<open>roomy\<close> the output queue has room for
    the data whenever data is accepted\<close>
  input: "ctcp_read (st, s) = Inr t \<Longrightarrow> sw_seqno (st_sw (fst t)) < 2 ^ 31 - 1440 \<Longrightarrow>
    host_step roomy wire ((st, s), x) (t, x @ taken_in st s)"
| arrival: "seg_bytes g \<in> wire \<Longrightarrow> conveyed g g' \<Longrightarrow>
    ctcp_receive (st, s) g' (word_of_nat (length (seg_bytes g'))) = Inr t \<Longrightarrow>
    (roomy \<Longrightarrow> rw_ackno (st_rw (fst t)) \<noteq> rw_ackno (st_rw st) \<Longrightarrow> length (sg_data g') \<le> conn_bufspace (st_conn st)) \<Longrightarrow>
    host_step roomy wire ((st, s), x) (t, x)"
| corrupted: "seg_ok g \<Longrightarrow> \<not> verifies g \<Longrightarrow>
    ctcp_receive (st, s) g (word_of_nat (length (seg_bytes g))) = Inr t \<Longrightarrow> host_step roomy wire ((st, s), x) (t, x)"
| timer: "timer_check (st, s) = Inr (False, t) \<Longrightarrow> host_step roomy wire ((st, s), x) (t, x)"
| drain: "conn_drain (st_conn st) s = (outputted, c, s') \<Longrightarrow>
    host_step roomy wire ((st, s), x) ((st\<lparr>st_conn := c\<rparr>, s'), x)"
| deliver: "ctcp_output (st, s) = Inr t \<Longrightarrow> host_step roomy wire ((st, s), x) (t, x)"
| environment: "stdout s' = stdout s \<Longrightarrow> segments_out s' = segments_out s \<Longrightarrow>
    host_step roomy wire ((st, s), x) ((st, s'), x)"

definition sent :: "endpoint \<Rightarrow> byte list set" where
  "sent h = set (segments_out (snd (fst h)))"

definition new_host_state :: "endpoint \<Rightarrow> bool" where
  "new_host_state h \<longleftrightarrow> (\<exists>s c cfg st. h = ((st, s), []) \<and> ctcp_init s (Some c) cfg [] = Some [st] \<and>
     \<not> delete_me c \<and> \<not> wrote_eof c \<and> delivered c s = [] \<and> segments_out s = [])"

inductive network :: "bool \<Rightarrow> bool \<Rightarrow> endpoint \<Rightarrow> endpoint \<Rightarrow> bool" for ra rb where
  start: "new_host_state a \<Longrightarrow> new_host_state b \<Longrightarrow> network ra rb a b"
| left: "network ra rb a b \<Longrightarrow> host_step ra (sent b) a a' \<Longrightarrow> network ra rb a' b"
| right: "network ra rb a b \<Longrightarrow> host_step rb (sent a) b b' \<Longrightarrow> network ra rb a b'"

lemma new_host_ok: "new_host_state a \<Longrightarrow> host_ok a"
  using tcp_init_inv unfolding new_host_state_def host_ok_def by (auto simp: ctcp_init_def)

lemma new_hosts_linked: "new_host_state a \<Longrightarrow> new_host_state b \<Longrightarrow> linked r a b"
  unfolding new_host_state_def linked_def by (auto simp: ctcp_init_def base_def)

lemma host_emits:
  assumes ok: "host_ok ((st, s), x)" and e: "emits (st, s) d t'"
    and d: "length d \<le> MAX_SEG_DATA_SIZE" "1 + int (length (x @ d)) < 2 ^ 31 - 1440"
  shows "host_ok (t', x @ d)"
proof -
  obtain st' s' where t: "t' = (st', s')" by fastforce
  have h: "sw_seqno (st_sw st) = 1 + int (length x)" "\<forall>g \<in> set (sw_segments (st_sw st)). carries x g"
    "\<forall>b \<in> set (segments_out s). \<exists>g. b = seg_bytes g \<and> carries x g \<and> acknowledges (rw_ackno (st_rw st)) g"
    using ok by (auto simp: host_ok_def)
  note C = offspring_carries [OF _ h(2,1) d(1)]
  obtain gs where gs: "segments_out s' = segments_out s @ map seg_bytes gs"
      "\<forall>g \<in> set gs. offspring st d g \<and> ntohl (sg_ackno g) = word_of_int (rw_ackno (st_rw st'))"
    using e unfolding emits_def t by auto
  have r: "0 \<le> rw_ackno (st_rw st')" "rw_ackno (st_rw st) \<le> rw_ackno (st_rw st')"
    using e unfolding emits_def t by (auto simp: conn_inv_def stream_ok_def)
  have out: "\<exists>g. b = seg_bytes g \<and> carries (x @ d) g \<and> acknowledges (rw_ackno (st_rw st')) g"
    if b: "b \<in> set (segments_out s')" for b
  proof (cases "b \<in> set (segments_out s)")
    case True
    then show ?thesis using h(3) carries_append acknowledges_mono [OF _ r(2)] by blast
  next
    case False
    then obtain g where "b = seg_bytes g" "g \<in> set gs" using b gs(1) by auto
    then show ?thesis using gs(2) C r(1) unfolding acknowledges_def by blast
  qed
  show ?thesis using e d(2) h(1) C out by (simp add: host_ok_def emits_def t)
qed

lemma linked_grows: "linked r (t, x) k \<Longrightarrow> linked r (t, x @ d) k"
  by (cases t; cases k) (auto simp: linked_def prefix_append)

lemma quiet_step:
  assumes ok: "host_ok ((st, s), x)" and l: "linked r' ((st, s), x) k" "linked r k ((st, s), x)"
    and e: "emits (st, s) d t'" "same_output (st, s) t'"
    and b: "base (fst t') = base st \<or> base (fst t') \<le> rw_ackno (st_rw (fst (fst k)))"
    and d: "length d \<le> MAX_SEG_DATA_SIZE" "1 + int (length (x @ d)) < 2 ^ 31 - 1440"
  shows "host_ok (t', x @ d) \<and> linked r' (t', x @ d) k \<and> linked r k (t', x @ d)"
proof -
  obtain st' s' su u y where t: "t' = (st', s')" "k = ((su, u), y)" by (metis prod.exhaust)
  have "host_ok (t', x @ d)" using host_emits [OF ok e(1) d] by simp
  moreover have "linked r' (t', x) k" using l(1) b by (auto simp: linked_def t)
  moreover have "linked r k (t', x @ d)" using l(2) e(2) by (auto simp: linked_def t same_output_def)
  ultimately show ?thesis using linked_grows by blast
qed

lemma taking_step:
  assumes ok: "host_ok ((st, s), x)" and l: "linked r' ((st, s), x) k" "linked r k ((st, s), x)"
    and e: "emits (st, s) [] t'" "base (fst t') = base st" "takes (st, s) (sg_data g) t'"
    and room: "r \<Longrightarrow> length (sg_data g) \<le> conn_bufspace (st_conn st)"
    and g: "carries (snd k) g" "ntohl (sg_seqno g) = word_of_int (rw_ackno (st_rw st))"
    and k: "host_ok k"
  shows "host_ok (t', x) \<and> linked r' (t', x) k \<and> linked r k (t', x)"
proof -
  obtain st' s' su u y where t: "t' = (st', s')" "k = ((su, u), y)" by (metis prod.exhaust)
  let ?a = "rw_ackno (st_rw st)" and ?d = "sg_data g"
  let ?was = "delivered (st_conn st) s" and ?is = "delivered (st_conn st') s'"
  obtain n where n: "ntohl (sg_seqno g) = word_of_int (1 + int n)" "n + length ?d \<le> length y"
      "?d = take (length ?d) (drop n y)"
    using g(1) by (auto simp: carries_def t)
  have y: "1 + int (length y) < 2 ^ 31" using k by (simp add: host_ok_def t)
  have a: "1 \<le> ?a" "?a \<le> 1 + int (length y)" using l(2) by (simp_all add: linked_def t)
  have "(word_of_int (1 + int n) :: u32) = word_of_int ?a" using n(1) g(2) by simp
  then have "sint (word_of_int (1 + int n) :: u32) = sint (word_of_int ?a :: u32)" by (rule arg_cong)
  moreover have "sint (word_of_int (1 + int n) :: u32) = 1 + int n"
    using n(2) y by (intro sint_word_of_int_small) auto
  moreover have "sint (word_of_int ?a :: u32) = ?a" using a y by (intro sint_word_of_int_small) auto
  ultimately have an: "?a = 1 + int n" by linarith
  then have a': "rw_ackno (st_rw st') = 1 + int (n + length ?d)" using e(3) by (simp add: takes_def t)
  obtain m where m: "?is = ?was @ take m ?d" using e(3) by (auto simp: takes_def t)
  have piece: "take n y @ ?d = take (n + length ?d) y" using n(3) by (simp add: take_add)
  have "subseq ?was (take n y)" using l(2) an by (simp add: linked_def t)
  moreover have "subseq (take m ?d) ?d" by (intro prefix_imp_subseq take_is_prefix)
  ultimately have part: "subseq ?is (take (n + length ?d) y)"
    using list_emb_append_mono [of "(=)" ?was "take n y" "take m ?d" ?d] m piece by simp
  have full: "\<not> wrote_eof (st_conn st') \<and> prefix ?is y \<and>
      (\<not> wrote_err (st_conn st') \<longrightarrow> ?is = take (n + length ?d) y)" if r
  proof -
    have was: "\<not> wrote_eof (st_conn st)" "prefix ?was y" "\<not> wrote_err (st_conn st) \<longrightarrow> ?was = take n y"
      using l(2) that an by (simp_all add: linked_def t)
    then have "\<not> wrote_eof (st_conn st') \<and>
        (\<not> wrote_err (st_conn st) \<and> ?is = ?was @ ?d \<or> wrote_err (st_conn st') \<and> ?is = ?was)"
      using e(3) room [OF that] by (simp add: takes_def t)
    then show ?thesis using was piece take_is_prefix [of "n + length ?d" y] by auto
  qed
  have "linked r k (t', x)" using a' an part full n(2) l(2) by (simp add: linked_def t nat_add_distrib)
  moreover have "linked r' (t', x) k" using l(1) e(2) by (simp add: linked_def t)
  moreover have "host_ok (t', x)" using host_emits [OF ok e(1)] ok by (simp add: host_ok_def)
  ultimately show ?thesis by simp
qed

lemma arrival_step:
  assumes ok: "host_ok ((st, s), x)" "host_ok k" and l: "linked r' ((st, s), x) k" "linked r k ((st, s), x)"
    and g: "seg_bytes g \<in> sent k" "conveyed g g'"
    and room: "r \<Longrightarrow> rw_ackno (st_rw (fst t')) \<noteq> rw_ackno (st_rw st) \<Longrightarrow> length (sg_data g') \<le> conn_bufspace (st_conn st)"
    and run: "ctcp_receive (st, s) g' (word_of_nat (length (seg_bytes g'))) = Inr t'"
  shows "host_ok (t', x) \<and> linked r' (t', x) k \<and> linked r k (t', x)"
proof -
  obtain su u y where k: "k = ((su, u), y)" by (metis prod.exhaust)
  obtain h where h: "seg_bytes g = seg_bytes h" "carries y h" "acknowledges (rw_ackno (st_rw su)) h"
    using ok(2) g(1) by (auto simp: host_ok_def sent_def k)
  note im = g(2) [unfolded conveyed_def] and eq = seg_bytes_inject [OF h(1)]
  have ok': "seg_ok g'" using h(2) im eq by (simp add: carries_def seg_ok_def)
  have c: "carries y g'" using carries_cong [OF ok' _ _ h(2)] im eq by simp
  obtain n where n: "ntohl (sg_ackno g') = word_of_int n" "0 \<le> n" "n \<le> rw_ackno (st_rw su)"
    using h(3) im eq by (auto simp: acknowledges_def)
  have inv: "conn_inv (st, s)" using ok(1) by (simp add: host_ok_def)
  have small: "1 + int (length x) < 2 ^ 31 - 1440" "1 + int (length y) < 2 ^ 31 - 1440"
    using ok by (simp_all add: host_ok_def k)
  have b: "rw_ackno (st_rw su) \<le> 1 + int (length x)" "rw_ackno (st_rw st) \<le> 1 + int (length y)"
    using l by (simp_all add: linked_def k)
  have n31: "n < 2 ^ 31" using n(3) b(1) small(1) by linarith
  have range: "rw_ackno (st_rw st) + data_len g' < 2 ^ 31"
    using b(2) small(2) c ok' by (simp add: carries_def data_len_ok MAX_SEG_DATA_SIZE_def)
  have Q: "host_ok (t', x) \<and> linked r' (t', x) k \<and> linked r k (t', x)"
    if "emits (st, s) [] t'" "same_output (st, s) t'" "base (fst t') = base st \<or> base (fst t') \<le> n"
    using quiet_step [OF ok(1) l that(1,2)] that(3) n(3) small(1) by (auto simp: k)
  consider "\<not> verifies g'" | "verifies g'" "sg_data g' = []" | "verifies g'" "sg_data g' \<noteq> []" by blast
  then show ?thesis
  proof cases
    case 1
    then show ?thesis using run receive_corrupted [OF ok'] ok l by simp
  next
    case 2
    from control_cases [OF inv ok' this n(1,2) n31 run] show ?thesis using Q by blast
  next
    case 3
    from data_cases [OF inv ok' this range run] consider
        "emits (st, s) [] t'" "base (fst t') = base st" "same_output (st, s) t'"
      | "emits (st, s) [] t'" "base (fst t') = base st" "ntohl (sg_seqno g') = word_of_int (rw_ackno (st_rw st))"
        "takes (st, s) (sg_data g') t'"
      by blast
    then show ?thesis
    proof cases
      case took: 2
      have "rw_ackno (st_rw (fst t')) \<noteq> rw_ackno (st_rw st)" using took(4) 3(2) by (simp add: takes_def)
      then have "r \<Longrightarrow> length (sg_data g') \<le> conn_bufspace (st_conn st)" using room by blast
      from taking_step [OF ok(1) l took(1,2,4) this _ took(3) ok(2)] c show ?thesis by (simp add: k)
    qed (use Q in simp)
  qed
qed

lemma sys_write_clock: "sys_write s bs = (r, s') \<Longrightarrow> clock s' = clock s"
  by (auto simp: sys_write_def Let_def split: list.splits write_result.splits)

lemma drain_loop_quiet:
  "drain_loop q out s = (q', err, out', s') \<Longrightarrow> segments_out s' = segments_out s \<and> clock s' = clock s"
proof (induction q arbitrary: out s)
  case (Cons k ks)
  obtain r s1 where r: "sys_write s (unwritten k) = (r, s1)" by fastforce
  then show ?case
    using Cons sys_write_segments [OF r] sys_write_clock [OF r]
    by (cases r) (fastforce simp: Let_def split: if_splits)+
qed simp

lemma conn_drain_quiet:
  assumes "conn_drain c s = (outputted, c', s')"
  shows "segments_out s' = segments_out s \<and> wrote_eof c' = wrote_eof c \<and> delivered c' s' = delivered c s \<and>
    (wrote_err c \<longrightarrow> wrote_err c') \<and> clock s' = clock s \<and> delete_me c' = delete_me c"
proof (cases "wrote_err c")
  case True
  then show ?thesis using assms by (simp add: conn_drain_def Let_def delivered_def) (auto simp: delivered_def)
next
  case False
  obtain q err o1 s1 where l: "drain_loop (out_queue c) False (s\<lparr>poll_out := False\<rparr>) = (q, err, o1, s1)"
    by (metis prod_cases4)
  have "segments_out s1 = segments_out s" "clock s1 = clock s" using drain_loop_quiet [OF l] by simp_all
  then show ?thesis
    using assms False l conn_drain_stream [OF assms False] by (auto simp: conn_drain_def Let_def split: if_splits)
qed

lemma drain_quiet:
  assumes "host_ok ((st, s), x)" "linked r k ((st, s), x)" "conn_drain (st_conn st) s = (outputted, c, s')"
  shows "host_ok ((st\<lparr>st_conn := c\<rparr>, s'), x) \<and> linked r k ((st\<lparr>st_conn := c\<rparr>, s'), x)"
proof -
  note o = conn_drain_quiet [OF assms(3)]
  show ?thesis
    using assms(1,2) drain_inv [OF _ assms(3)] o by (cases k) (auto simp: host_ok_def linked_def)
qed

lemma step_linked:
  assumes "host_step r (sent k) h h'" "host_ok h" "host_ok k" "linked r' h k" "linked r k h"
  shows "host_ok h' \<and> linked r' h' k \<and> linked r k h'"
  using assms
proof (induction rule: host_step.induct)
  case (input st s t x)
  have inv: "conn_inv (st, s)" "sw_seqno (st_sw st) = 1 + int (length x)" "sw_seqno (st_sw st) < 2 ^ 31 - 1440"
    using input.prems(1) by (simp_all add: host_ok_def)
  have c: "conn_inv t" using read_inv [OF inv(1) read_defined [OF inv(1) input.hyps(1)] inv(3)] input.hyps(1) by auto
  from read_cases [OF inv(1) input.hyps(1)] show ?case
  proof (elim disjE exE conjE)
    fix g assume g: "transmits (st, s) g t" "sg_data g = taken_in st s"
    then have "sw_seqno (st_sw (fst t)) = sw_seqno (st_sw st) + int (length (taken_in st s))"
      by (auto simp: transmits_def enqueue_def data_len_ok)
    then show ?thesis
      using transmits_emits [OF inv(1) c g(1), unfolded g(2)] quiet_step [OF input.prems(1,3,4)] g input.hyps(2) inv(2)
      by (simp add: transmits_def)
  qed (use input.prems in simp)
next
  case (arrival g g' st s t x)
  then show ?case using arrival_step [of st s x k r' r g g' t] by blast
next
  case (corrupted g st s t x)
  then show ?case using receive_corrupted by auto
next
  case (timer st s t x)
  have inv: "conn_inv (st, s)" "sw_seqno (st_sw st) = 1 + int (length x)" "sw_seqno (st_sw st) < 2 ^ 31 - 1440"
    using timer.prems(1) by (simp_all add: host_ok_def)
  show ?case
    using quiet_step [OF timer.prems(1,3,4), where d = "[]"] timer_cases [OF inv(1) timer.hyps] inv(2,3) by simp
next
  case (drain st s outputted c s' x)
  have "linked r' ((st\<lparr>st_conn := c\<rparr>, s'), x) k" using drain.prems(3) by (cases k) (simp add: linked_def base_def)
  then show ?case using drain_quiet [OF drain.prems(1,4) drain.hyps] by simp
next
  case (deliver st s t x)
  then show ?case using output_quiet by (auto simp: host_ok_def)
next
  case (environment s' s st x)
  then show ?case by (cases k) (auto simp: host_ok_def linked_def delivered_def conn_inv_def)
qed

lemma network_linked: "network ra rb a b \<Longrightarrow> host_ok a \<and> host_ok b \<and> linked rb a b \<and> linked ra b a"
proof (induction rule: network.induct)
  case (start a b)
  then show ?case by (simp add: new_host_ok new_hosts_linked)
qed (use step_linked in blast)+

lemma network_sym: "network ra rb a b \<Longrightarrow> network rb ra b a"
  by (induction rule: network.induct) (auto intro: network.intros)

text \<open>
  C18: what a transfer promises, whatever the network does.  Two hosts start fresh and exchange the segments they transmit
  over a network that loses, repeats, reorders and corrupts them (so that the checksum shows it), and their
  applications give and take data as they like, in all modes.  At every moment: everything the sender has dropped from
  its window has been acknowledged; and what has been delivered on one host, in order and each byte at most once, are
  bytes below its acknowledgement number of what \<open>conn_input\<close> of the other has taken in.  They need not be all of these
  bytes: data that arrives when the output queue has no room for it is acknowledged and dropped.  If the queue had room
  whenever data was accepted (\<open>rb\<close>), then what was delivered is a prefix, and unless a write failed it is all the bytes
  below the acknowledgement number; so when the sender's window is empty all of its input was delivered.
  (Sequence numbers stay below \<open>2 ^ 31 - 1440\<close>, and an event that ends the process has no next state.)
\<close>

theorem tcp_stream_reliable:
  assumes "network ra rb ((sa, pa), x) ((sb, pb), y)"
  shows "base sa \<le> rw_ackno (st_rw sb) \<and>
    subseq (delivered (st_conn sb) pb) (take (nat (rw_ackno (st_rw sb) - 1)) x) \<and>
    (rb \<longrightarrow> prefix (delivered (st_conn sb) pb) x \<and>
      (\<not> wrote_err (st_conn sb) \<longrightarrow>
        delivered (st_conn sb) pb = take (nat (rw_ackno (st_rw sb) - 1)) x \<and>
        (sw_segments (st_sw sa) = [] \<longrightarrow> delivered (st_conn sb) pb = x)))"
proof -
  note N = network_linked [OF assms]
  have l: "linked rb ((sa, pa), x) ((sb, pb), y)" using N by blast
  have "tcp_inv sa" "sw_seqno (st_sw sa) = 1 + int (length x)" using N by (simp_all add: host_ok_def conn_inv_def)
  then have "base sa = 1 + int (length x)" if "sw_segments (st_sw sa) = []"
    using that tcp_invD(7) by (simp add: base_def)
  then show ?thesis using l by (auto simp: linked_def)
qed

lemma taken_in_ready:
  "conn_inv (st, s) \<Longrightarrow> input_ready s (read_size st) d \<Longrightarrow> \<not> read_eof (st_conn st) \<Longrightarrow> taken_in st s = d"
proof -
  assume a: "conn_inv (st, s)" "input_ready s (read_size st) d" "\<not> read_eof (st_conn st)"
  have t: "\<not> delete_me (st_conn st)" "length (send_buf st) = MAX_SEG_DATA_SIZE" using a(1) tcp_invD by (auto simp: conn_inv_def)
  have d: "d \<noteq> []" "int (length d) \<le> read_size st" using a(2) by (simp_all add: input_ready_def)
  then have pos: "\<not> read_size st \<le> 0" by (cases d) auto
  have "nat (read_size st) \<le> length (send_buf st)" using t(2) read_size_bound(3) [of st] by linarith
  from conn_input_ready [OF a(2) t(1) a(3) this] pos d show ?thesis
    using t(2) read_size_bound(3) [of st] by (simp add: taken_in_def put_append)
qed

lemma fresh_host: "new_host_state ((fresh_state, example_sys\<lparr>reads := rs\<rparr>), [])"
proof -
  have "ctcp_init (example_sys\<lparr>reads := rs\<rparr>) (Some example_conn) example_config [] = Some [fresh_state]"
    by (simp add: fresh_state_def ctcp_init_def example_sys_def)
  moreover have "\<not> delete_me example_conn" "\<not> wrote_eof example_conn"
    "delivered example_conn (example_sys\<lparr>reads := rs\<rparr>) = []" "segments_out (example_sys\<lparr>reads := rs\<rparr>) = []"
    by (simp_all add: example_conn_def delivered_def example_sys_def)
  ultimately show ?thesis unfolding new_host_state_def by blast
qed

lemma example_network:
  "\<exists>sa pa g. network ra rb ((sa, pa), [104, 105]) ((fresh_state, example_sys\<lparr>reads := []\<rparr>), []) \<and>
     segments_out pa = [seg_bytes g] \<and> sg_data g = [104, 105] \<and> expected fresh_state g"
proof -
  let ?p = "example_sys\<lparr>reads := [Got [104, 105]]\<rparr>" and ?q = "example_sys\<lparr>reads := []\<rparr>"
  have inv: "conn_inv (fresh_state, ?p)" using new_host_ok [OF fresh_host] by (auto simp: host_ok_def)
  have ready: "input_ready ?p (read_size fresh_state) [104, 105]" "\<not> read_eof (st_conn fresh_state)"
    by (simp_all add: input_ready_def read_size_def fresh_state_def ctcp_init_def example_config_def
        example_sys_def example_conn_def MAX_SEG_DATA_SIZE_def)
  obtain sa pa g where read: "ctcp_read (fresh_state, ?p) = Inr (sa, pa)"
      "segments_out pa = segments_out ?p @ [seg_bytes g]" "seg_ok g" "verifies g" "sg_data g = [104, 105]"
      "ntohl (sg_seqno g) = word_of_int (sw_seqno (st_sw fresh_state))" "sw_seqno (st_sw sa) = 3"
    using read_effect [OF inv ready] by auto
  have "network ra rb ((sa, pa), [] @ taken_in fresh_state ?p) ((fresh_state, ?q), [])"
    by (rule network.left [OF network.start [OF fresh_host fresh_host] host_step.input [OF read(1)]]) (use read(7) in simp)
  moreover have "expected fresh_state g" using read(3-6) by (simp add: expected_def)
  moreover have "segments_out pa = [seg_bytes g]" using read(2) by (simp add: example_sys_def)
  ultimately show ?thesis using read(5) taken_in_ready [OF inv ready] by auto
qed

lemma tcp_stream_reliable_witness:
  "\<exists>a sb pb. network True True (a, [104, 105]) ((sb, pb), []) \<and> rw_ackno (st_rw sb) = 3 \<and>
     prefix (delivered (st_conn sb) pb) [104, 105] \<and>
     (\<not> wrote_err (st_conn sb) \<longrightarrow> delivered (st_conn sb) pb = [104, 105])"
proof -
  let ?q = "example_sys\<lparr>reads := []\<rparr>"
  have inv: "conn_inv (fresh_state, ?q)" using new_host_ok [OF fresh_host] by (auto simp: host_ok_def)
  obtain sa pa g where n: "network True True ((sa, pa), [104, 105]) ((fresh_state, ?q), [])" "segments_out pa = [seg_bytes g]"
      "sg_data g = [104, 105]" "expected fresh_state g"
    using example_network by blast
  have room: "can_write (st_conn fresh_state) (length (sg_data g))"
    using example_expected(2) n(3) by (simp add: numeral_2_eq_2)
  obtain sb pb where rcv: "ctcp_receive (fresh_state, ?q) g (word_of_nat (length (seg_bytes g))) = Inr (sb, pb)"
      "rw_ackno (st_rw sb) = 3"
    using deliver_expected [OF inv n(4) room] n(3) by auto
  have "seg_bytes g \<in> sent ((sa, pa), [104, 105])" using n(2) by (simp add: sent_def)
  then have n2: "network True True ((sa, pa), [104, 105]) ((sb, pb), [])"
    using network.right [OF n(1) host_step.arrival [OF _ _ rcv(1)]] room by (simp add: can_write_def conveyed_def)
  show ?thesis using n2 tcp_stream_reliable [OF n2] rcv(2) by auto
qed

end
