(* ===== verification/Ctcp_Close.thy ===== *)
theory Ctcp_Close
  imports Ctcp_Timer Ctcp_Stream Ctcp_Wire
begin

text \<open>
  Two hosts across the translation of segments to datagrams and back: what they transmit is well formed, and
  the end of a connection, the exchange of FIN segments until both have destroyed it.
\<close>

section \<open>Across the network\<close>

definition cross :: "sys \<Rightarrow> conn \<Rightarrow> conn \<Rightarrow> ctcp_segment \<Rightarrow> ctcp_segment res" where
  \<comment> \<open>\<open>conn_send\<close> of a segment to \<open>dst\<close>, and what the peer makes of the datagram, which it has from \<open>src\<close>\<close>
  "cross s dst src g =
     rbind (convert_to_datagram s dst g (int (length (seg_bytes g)))) (convert_to_ctcp (sg_ptr g) src)"

definition hand_over :: "tcp \<Rightarrow> ctcp_segment \<Rightarrow> tcp \<Rightarrow> tcp res" where
  \<comment> \<open>a segment of the first host is received by the second\<close>
  "hand_over a g b =
     rbind (cross (snd a) (st_conn (fst a)) (st_conn (fst b)) g) (\<lambda>g'.
     ctcp_receive b g' (word_of_nat (length (seg_bytes g'))))"

definition narrow :: "u32 \<Rightarrow> u32" where
  \<comment> \<open>the flags that survive the eight bits of the TCP header\<close>
  "narrow flags = ucast (ucast flags :: byte)"

lemma narrow_simps [simp]: "narrow TH_FIN = TH_FIN" "narrow TH_ACK = TH_ACK" "narrow (htonl 0x11) = 0"
  unfolding narrow_def TH_FIN_def TH_ACK_def by code_simp+

definition as_sent :: "ctcp_segment \<Rightarrow> ctcp_segment \<Rightarrow> bool" where
  \<comment> \<open>the segment that arrives on a Unix socket\<close>
  "as_sent g g' \<longleftrightarrow> seg_ok g' \<and> sg_seqno g' = sg_seqno g \<and> sg_ackno g' = sg_ackno g \<and> sg_window g' = sg_window g \<and>
     sg_data g' = sg_data g \<and> sg_flags g' = narrow (sg_flags g) \<and> verifies g' = verifies g"

lemma cross_ok:
  assumes "seg_ok g" "sg_data g = []" "peers dst src" "unix_socket s"
  shows "\<exists>g'. cross s dst src g = Inr g' \<and> as_sent g g'"
proof -
  obtain d g' where d: "convert_to_datagram s dst g (int (20 + length (sg_data g))) = Inr d"
      "\<forall>rest. convert_to_ctcp (sg_ptr g) src (d @ rest) = Inr g'"
      "sg_seqno g' = sg_seqno g" "sg_ackno g' = sg_ackno g" "sg_len g' = sg_len g" "sg_window g' = sg_window g"
      "sg_data g' = sg_data g" "sg_flags g' = ucast (wire_flags s (sg_flags g))" "verifies g' = verifies g"
    using convert_roundtrip [OF assms(1) _ assms(3), of s "sg_ptr g"] assms(2) by auto
  have "cross s dst src g = Inr g'" using d(1) spec [OF d(2), of "[]"] by (simp add: cross_def)
  moreover have "seg_ok g'" using assms(1) d(5,7) by (simp add: seg_ok_def)
  moreover have "wire_flags s (sg_flags g) = ucast (sg_flags g)" using assms(4) by (simp add: wire_flags_def)
  ultimately show ?thesis using d by (simp add: as_sent_def narrow_def)
qed

text \<open>
  C37: everything a host ever hands to \<open>conn_send\<close>, in every run of two hosts and a network that loses, repeats, reorders
  and corrupts, in all modes and whether or not the output queues have room: it is the image of a segment whose length
  field agrees with its memory, whose data are at most 1440 bytes of what \<open>conn_input\<close> has taken in, those at the place
  its sequence number says; and it becomes a datagram of the same length plus 20, which its IP header states and which
  fits into a packet of \<open>MAX_PACKET_SIZE\<close> bytes.  (As long as sequence numbers stay below \<open>2 ^ 31 - 1440\<close>.)
\<close>

theorem transmitted_segments_well_formed:
  assumes "network ra rb ((sa, pa), x) h" "b \<in> set (segments_out pa)"
  shows "\<exists>g n d. b = seg_bytes g \<and> unat (ntohs (sg_len g)) = length b \<and> ntohl (sg_seqno g) = word_of_int (1 + int n) \<and>
    length (sg_data g) \<le> 1440 \<and> n + length (sg_data g) \<le> length x \<and> sg_data g = take (length (sg_data g)) (drop n x) \<and>
    convert_to_datagram s dst g (int (length b)) = Inr d \<and> length d = length b + 20 \<and>
    get16 d 2 = htons (word_of_nat (length d)) \<and> length d \<le> MAX_PACKET_SIZE"
proof -
  have "host_ok ((sa, pa), x)" using network_linked [OF assms(1)] by simp
  then obtain g where g: "b = seg_bytes g" "carries x g" using assms(2) by (auto simp: host_ok_def)
  then obtain n where n: "seg_ok g" "length (sg_data g) \<le> 1440" "ntohl (sg_seqno g) = word_of_int (1 + int n)"
      "n + length (sg_data g) \<le> length x" "sg_data g = take (length (sg_data g)) (drop n x)"
    by (auto simp: carries_def MAX_SEG_DATA_SIZE_def)
  have "length (sg_data g) \<le> 60000" using n(2) by simp
  from convert_to_datagram_ok [OF n(1) this, of s dst] obtain d where
    "convert_to_datagram s dst g (int (20 + length (sg_data g))) = Inr d" "length d = 40 + length (sg_data g)"
    "get16 d 2 = htons (word_of_nat (40 + length (sg_data g)))"
    by blast
  then show ?thesis
    using g(1) n by (intro exI [of _ g] exI [of _ n] exI [of _ d]) (simp add: seg_ok_def MAX_PACKET_SIZE_def)
qed

lemma transmitted_segments_well_formed_witness:
  "\<exists>(pa :: sys) g d. segments_out pa = [seg_bytes g] \<and> sg_data g = [104, 105] \<and>
     convert_to_datagram example_sys example_conn g 22 = Inr d \<and> length d = 42"
proof -
  obtain sa pa g where n: "network False False ((sa, pa), [104, 105]) ((fresh_state, example_sys\<lparr>reads := []\<rparr>), [])"
      "segments_out pa = [seg_bytes g]" "sg_data g = [104, 105]"
    using example_network by blast
  have "seg_bytes g \<in> set (segments_out pa)" using n(2) by simp
  from transmitted_segments_well_formed [OF n(1) this, of example_sys example_conn] obtain h d where
    h: "seg_bytes g = seg_bytes h" "convert_to_datagram example_sys example_conn h (int (length (seg_bytes g))) = Inr d"
      "length d = length (seg_bytes g) + 20"
    by blast
  have "sg_data h = [104, 105]" using seg_bytes_inject(4) [OF h(1)] n(3) by simp
  then show ?thesis using n(2) h by (intro exI [of _ pa] exI [of _ h] exI [of _ d]) simp
qed

section \<open>The events\<close>

definition input_ended :: "ctcp_state \<Rightarrow> sys \<Rightarrow> bool" where
  \<comment> \<open>there is room to read, and the next read finds the end of the input\<close>
  "input_ended st s \<longleftrightarrow> 0 < read_size st \<and> \<not> read_eof (st_conn st) \<and> (\<exists>rs. reads s = Got [] # rs)"

definition fin_seg :: "int \<Rightarrow> int \<Rightarrow> ctcp_segment \<Rightarrow> bool" where
  "fin_seg seq ack f \<longleftrightarrow> seg_ok f \<and> verifies f \<and> sg_data f = [] \<and> sg_flags f = TH_FIN \<and>
     ntohl (sg_seqno f) = word_of_int seq \<and> ntohl (sg_ackno f) = word_of_int ack"

definition fin_ack_seg :: "int \<Rightarrow> ctcp_segment \<Rightarrow> bool" where
  "fin_ack_seg ack k \<longleftrightarrow> seg_ok k \<and> verifies k \<and> sg_data k = [] \<and> sg_flags k = htonl 0x11 \<and>
     ntohl (sg_ackno k) = word_of_int ack"

definition sends :: "tcp \<Rightarrow> tcp \<Rightarrow> ctcp_segment list \<Rightarrow> bool" where
  \<comment> \<open>exactly these segments are transmitted\<close>
  "sends t t' gs \<longleftrightarrow> segments_out (snd t') = segments_out (snd t) @ map seg_bytes gs"

definition same_end :: "tcp \<Rightarrow> tcp \<Rightarrow> bool" where
  \<comment> \<open>nothing but the send window, the timers and the output differ\<close>
  "same_end t t' \<longleftrightarrow> conn_inv t' \<and> st_rw (fst t') = st_rw (fst t) \<and>
     (st_conn (fst t') = st_conn (fst t) \<or> st_conn (fst t') = (st_conn (fst t))\<lparr>read_eof := True\<rparr>) \<and>
     timeout_standard (fst t') = timeout_standard (fst t) \<and> clock (snd t') = clock (snd t) \<and>
     unix_socket (snd t') = unix_socket (snd t) \<and> is_server (snd t') = is_server (snd t)"

lemma same_end_peers:
  "same_end t t' \<Longrightarrow> peers (st_conn (fst t')) c = peers (st_conn (fst t)) c"
  "same_end t t' \<Longrightarrow> peers c (st_conn (fst t')) = peers c (st_conn (fst t))"
  by (auto simp: same_end_def peers_def)

lemma same_end_trans: "same_end t t' \<Longrightarrow> same_end t' t'' \<Longrightarrow> same_end t t''"
  unfolding same_end_def by (elim conjE disjE; simp)

lemma enqueue_fin_inv:
  assumes "conn_inv (st, s)" "seg_ok g" "sg_data g = []" "ntohl (sg_seqno g) = word_of_int (sw_seqno (st_sw st))"
  shows "conn_inv (upd_sw (enqueue now a g) st, s')"
proof -
  have len: "data_len g = 0" using assms(2,3) by (simp add: data_len_ok)
  have t: "tcp_inv st" "stream_ok st" using assms(1) by (auto simp: conn_inv_def)
  have "stream_ok (upd_sw (enqueue now a g) st)"
    using t(2) tcp_invD(7) [OF t(1)] assms(4) len by (intro enqueue_stream) (auto simp: stream_ok_def)
  moreover have "tcp_inv (upd_sw (enqueue now a g) st)"
    using t(1) tcp_invD(8) [OF t(1)] assms(2) len by (auto simp: tcp_inv_def quiet_def intro!: enqueue_ok)
  ultimately show ?thesis by (simp add: conn_inv_def)
qed

lemma fin_sealed:
  assumes "send_buf_len st = 0"
  shows "fin_seg (sw_seqno (st_sw st)) (rw_ackno (st_rw st)) (seal (rw_ackno (st_rw st)) (bare st s TH_FIN []))"
  using bare_ok [of st "[]" s TH_FIN] assms verifies_seal [of "bare st s TH_FIN []"] seal_ackno [of "bare st s TH_FIN []"]
  by (simp add: fin_seg_def)

text \<open>At the end of its input a host sends a FIN, which stays in its window.\<close>

lemma read_end:
  assumes inv: "conn_inv (st, s)" and unix: "unix_socket s" and inp: "input_ended st s"
  shows "\<exists>st' s' f. ctcp_read (st, s) = Inr (st', s') \<and> same_end (st, s) (st', s') \<and> sends (st, s) (st', s') [f] \<and>
    fin_seg (sw_seqno (st_sw st)) (rw_ackno (st_rw st)) f \<and> sw_segments (st_sw st') = sw_segments (st_sw st) @ [f] \<and>
    sw_seqno (st_sw st') = sw_seqno (st_sw st) \<and> timer_teardown st' = timer_teardown st"
proof -
  have t: "tcp_inv st" using inv by (simp add: conn_inv_def)
  note D = tcp_invD [OF t]
  obtain rs where rs: "reads s = Got [] # rs" using inp by (auto simp: input_ended_def)
  let ?s = "s\<lparr>reads := rs\<rparr>" and ?c = "(st_conn st)\<lparr>read_eof := True\<rparr>"
  let ?st = "st\<lparr>st_conn := ?c, send_buf_len := 0\<rparr>"
  have put: "put (send_buf st) 0 [] = send_buf st" by (simp add: put_def map_nth)
  have i: "conn_input (st_conn st) s (send_buf st) (nat (read_size st)) = Inr (-1, send_buf st, ?c, ?s)"
    using inp unix rs D(1) put by (simp add: conn_input_def input_ended_def read_into_def sys_read_def wr_def)
  let ?g = "bare ?st ?s TH_FIN []" and ?a = "rw_ackno (st_rw st)"
  have m: "ctcp_makeseg (?st, ?s) SEND_FIN = Inr (upd_sw (enqueue (clock s) ?a ?g) ?st, send_out (seal ?a ?g) ?s)"
    using makeseg_fin [of ?st ?s] D(1,2) by simp
  have run: "ctcp_read (st, s) = Inr (upd_sw (enqueue (clock s) ?a ?g) ?st, send_out (seal ?a ?g) ?s)"
    using inp i m by (simp add: ctcp_read_def Let_def input_ended_def)
  have g: "seg_ok ?g" using bare_ok [of ?st "[]" ?s TH_FIN] by simp
  have f: "fin_seg (sw_seqno (st_sw st)) ?a (seal ?a ?g)" using fin_sealed [of ?st ?s] by simp
  have "conn_inv (?st, s)" using inv D(3) by (simp add: conn_inv_def tcp_inv_def quiet_def stream_ok_def)
  then have "conn_inv (upd_sw (enqueue (clock s) ?a ?g) ?st, send_out (seal ?a ?g) ?s)"
    using g by (rule enqueue_fin_inv) simp_all
  then show ?thesis
    using run f g
    by (intro exI [of _ "upd_sw (enqueue (clock s) ?a ?g) ?st"] exI [of _ "send_out (seal ?a ?g) ?s"]
        exI [of _ "seal ?a ?g"]) (simp add: same_end_def sends_def enqueue_def data_len_ok)
qed

text \<open>A FIN is answered with its acknowledgement and, if the teardown has not begun, with a FIN.\<close>

lemma fin_arrives:
  assumes inv: "conn_inv (st, s)" and f: "fin_seg seq ack f" and g: "as_sent f g"
  shows "\<exists>st' s' k fs. ctcp_receive (st, s) g (word_of_nat (length (seg_bytes g))) = Inr (st', s') \<and>
    same_end (st, s) (st', s') \<and> sends (st, s) (st', s') (k # fs) \<and> fin_ack_seg (rw_ackno (st_rw st)) k \<and>
    sw_segments (st_sw st') = sw_segments (st_sw st) @ fs \<and> sw_seqno (st_sw st') = sw_seqno (st_sw st) \<and>
    timer_teardown st' = timer_teardown st \<and> (timer_teardown st \<noteq> -1 \<longrightarrow> fs = [] \<and> sw_timer (st_sw st') = sw_timer (st_sw st)) \<and>
    (timer_teardown st = -1 \<longrightarrow> (\<exists>e. fs = [e] \<and> fin_seg (sw_seqno (st_sw st)) (rw_ackno (st_rw st)) e))"
proof -
  have G: "seg_ok g" "verifies g" "sg_data g = []" "sg_flags g = TH_FIN"
    using f g by (simp_all add: fin_seg_def as_sent_def)
  let ?st = "set_peer_window g st" and ?a = "rw_ackno (st_rw st)"
  have c: "conn_inv (?st, s)" using inv by simp
  then have t: "tcp_inv ?st" by (simp add: conn_inv_def)
  note D = tcp_invD [OF t]
  let ?k = "reply ?st s (htonl 0x11)"
  let ?s = "send_out ?k s"
  let ?g = "bare ?st ?s TH_FIN []"
  have len: "no_payload (word_of_nat (length (seg_bytes g)))" using no_payload_iff [OF G(1)] G(3) by simp
  have fin: "receive_fin (?st, s) (g\<lparr>sg_cksum := 0\<rparr>) (word_of_nat (length (seg_bytes g))) =
      (if timer_teardown st = -1 then Inr (upd_sw (enqueue (clock s) ?a ?g) ?st, send_out (seal ?a ?g) ?s)
       else Inr (?st, ?s))"
    using makeseg_reply(2) [OF D(1,3), of s] makeseg_fin [OF D(1,2,3), of ?s] len G(4)
    by (simp add: receive_fin_def TH_FIN_def set_peer_window_def)
  have run: "ctcp_receive (st, s) g (word_of_nat (length (seg_bytes g))) =
      (if timer_teardown st = -1 then Inr (upd_sw (enqueue (clock s) ?a ?g) ?st, send_out (seal ?a ?g) ?s)
       else Inr (?st, ?s))"
    unfolding receive_control [OF G(1-3), of st s] fin using G(4)
    by (simp add: is_fin_ack_def TH_FIN_def TH_ACK_def Let_def)
  have k: "fin_ack_seg ?a ?k" using reply_ok [OF D(3), of s] reply_verifies by (simp add: fin_ack_seg_def)
  have e: "fin_seg (sw_seqno (st_sw st)) ?a (seal ?a ?g)" using fin_sealed [OF D(3), of ?s] by simp
  have g0: "seg_ok ?g" using bare_ok [of ?st "[]" ?s TH_FIN] D(3) by simp
  have "timer_teardown ?st = timer_teardown st" "timeout_standard ?st = timeout_standard st"
    "sw_timer (st_sw ?st) = sw_timer (st_sw st)" by (simp_all add: set_peer_window_def)
  note S = this
  show ?thesis
  proof (cases "timer_teardown st = -1")
    case True
    have "conn_inv (upd_sw (enqueue (clock s) ?a ?g) ?st, send_out (seal ?a ?g) ?s)"
      by (rule enqueue_fin_inv [OF c g0]) simp_all
    then show ?thesis
      using run True k e g0 S
      by (intro exI [of _ "upd_sw (enqueue (clock s) ?a ?g) ?st"] exI [of _ "send_out (seal ?a ?g) ?s"]
          exI [of _ ?k] exI [of _ "[seal ?a ?g]"]) (simp add: same_end_def sends_def enqueue_def data_len_ok)
  next
    case False
    have "conn_inv (?st, ?s)" using c by (simp add: conn_inv_def)
    then show ?thesis
      using run False k S
      by (intro exI [of _ ?st] exI [of _ ?s] exI [of _ ?k] exI [of _ "[]"]) (simp add: same_end_def sends_def)
  qed
qed

text \<open>The acknowledgement of a FIN empties the window and starts the teardown.\<close>

lemma fin_acknowledged:
  assumes inv: "conn_inv (st, s)" and w: "sw_segments (st_sw st) = [f]" "sg_data f = []"
    and k: "fin_ack_seg (sw_seqno (st_sw st)) k" and g: "as_sent k g"
  shows "\<exists>st'. ctcp_receive (st, s) g (word_of_nat (length (seg_bytes g))) = Inr (st', s) \<and>
    same_end (st, s) (st', s) \<and> sw_segments (st_sw st') = [] \<and> sw_seqno (st_sw st') = sw_seqno (st_sw st) \<and>
    sw_timer (st_sw st') = -1 \<and> timer_teardown st' = clock s"
proof -
  have G: "seg_ok g" "verifies g" "sg_data g = []" "sg_flags g = 0" "sg_ackno g = sg_ackno k"
    using k g by (simp_all add: fin_ack_seg_def as_sent_def)
  let ?a = "sw_seqno (st_sw st)" and ?st = "(set_peer_window g st)\<lparr>timer_teardown := clock s\<rparr>"
  have c: "conn_inv (?st, s)" using inv conn_inv_upd(2) by simp
  then have t: "tcp_inv ?st" by (simp add: conn_inv_def)
  have len: "no_payload (word_of_nat (length (seg_bytes g)))" using no_payload_iff [OF G(1)] G(3) by simp
  have run: "ctcp_receive (st, s) g (word_of_nat (length (seg_bytes g))) = receive_ack (?st, s) (g\<lparr>sg_cksum := 0\<rparr>)"
    unfolding receive_control [OF G(1-3), of st s] using G(4) len
    by (simp add: receive_fin_def is_fin_ack_def TH_FIN_def TH_ACK_def Let_def)
  have f: "seg_ok f" "data_len f = 0"
    using tcp_invD(2) [OF t] w by (simp_all add: sent_ok_def data_len_ok)
  have size: "sw_size (st_sw st) = 0" using tcp_invD(7) [OF t] w(1) f(2) by (simp add: set_peer_window_def)
  have a: "0 < ?a" "?a < 2 ^ 31" using inv size by (auto simp: conn_inv_def stream_ok_def)
  have r: "sint (ntohl (sg_ackno (g\<lparr>sg_cksum := 0\<rparr>))) = ?a"
    using k G(5) sint_word_of_int_small a by (simp add: fin_ack_seg_def)
  have ex: "expected_ackno f = ?a" using window_head(1) [OF inv w(1)] size f(2) by simp
  have "acked ?a f"
  proof -
    have "(ucast (ntohl (sg_seqno f)) :: u64) = word_of_int ?a"
    proof -
      have "ntohl (sg_seqno f) = word_of_int ?a"
        using inv w(1) size by (simp add: conn_inv_def stream_ok_def)
      then show ?thesis
        using a by (intro word_uint_eqI) (simp add: unsigned_ucast_eq uint_word_of_int take_bit_int_eq_self_iff)
    qed
    then show ?thesis using f(2) by (simp add: acked_def)
  qed
  then have "receive_ack (?st, s) (g\<lparr>sg_cksum := 0\<rparr>) = Inr (upd_sw (\<lambda>w. restart_timer (clock s) (slide ?a w)) ?st, s)"
    using receive_ack_ok [OF t, of s "g\<lparr>sg_cksum := 0\<rparr>"] w(1) ex r by (simp add: set_peer_window_def)
  moreover have "conn_inv (upd_sw (\<lambda>w. restart_timer (clock s) (slide ?a w)) ?st, s)"
    using ack_inv [OF c, of "g\<lparr>sg_cksum := 0\<rparr>"] calculation by simp
  ultimately show ?thesis
    using run w(1) \<open>acked ?a f\<close>
    by (intro exI [of _ "upd_sw (\<lambda>w. restart_timer (clock s) (slide ?a w)) ?st"])
       (simp add: same_end_def slide_def restart_timer_def set_peer_window_def)
qed

section \<open>The events across the network\<close>

definition local_pair :: "tcp \<Rightarrow> tcp \<Rightarrow> bool" where
  \<comment> \<open>the first sends to the second over a Unix socket, and the second is in order\<close>
  "local_pair a b \<longleftrightarrow> conn_inv b \<and> peers (st_conn (fst a)) (st_conn (fst b)) \<and> unix_socket (snd a)"

lemma peers_sym: "peers c d = peers d c"
  by (auto simp: peers_def)

lemma local_pair_step:
  "local_pair a b \<Longrightarrow> same_end a a' \<Longrightarrow> local_pair a' b" "local_pair a b \<Longrightarrow> same_end b b' \<Longrightarrow> local_pair a b'"
  using same_end_peers by (simp_all add: local_pair_def) (simp_all add: same_end_def)

lemma read_fin:
  assumes "conn_inv a" "unix_socket (snd a)" "input_ended (fst a) (snd a)" "sw_segments (st_sw (fst a)) = []"
  shows "\<exists>a' f. ctcp_read a = Inr a' \<and> same_end a a' \<and> sends a a' [f] \<and>
    fin_seg (sw_seqno (st_sw (fst a))) (rw_ackno (st_rw (fst a))) f \<and> sw_segments (st_sw (fst a')) = [f] \<and>
    sw_seqno (st_sw (fst a')) = sw_seqno (st_sw (fst a))"
proof -
  obtain st s where a: "a = (st, s)" by fastforce
  have s: "conn_inv (st, s)" "unix_socket s" "input_ended st s" using assms(1-3) by (simp_all add: a)
  obtain st' s' f where "ctcp_read (st, s) = Inr (st', s')" "same_end (st, s) (st', s')" "sends (st, s) (st', s') [f]"
      "fin_seg (sw_seqno (st_sw st)) (rw_ackno (st_rw st)) f" "sw_segments (st_sw st') = sw_segments (st_sw st) @ [f]"
      "sw_seqno (st_sw st') = sw_seqno (st_sw st)"
    using read_end [OF s] by blast
  then show ?thesis using assms(4) by (intro exI [of _ "(st', s')"] exI [of _ f]) (simp add: a)
qed

lemma hand_over_ok:
  assumes "local_pair a b" "seg_ok g" "sg_data g = []"
  shows "\<exists>g'. as_sent g g' \<and> hand_over a g b = ctcp_receive b g' (word_of_nat (length (seg_bytes g')))"
  using cross_ok [OF assms(2,3), of "st_conn (fst a)" "st_conn (fst b)" "snd a"] assms(1)
  by (auto simp: hand_over_def local_pair_def)

lemma hand_over_fin:
  assumes "local_pair a b" "fin_seg seq n f" "sw_segments (st_sw (fst b)) = []" "timer_teardown (fst b) = -1"
  shows "\<exists>b' k e. hand_over a f b = Inr b' \<and> same_end b b' \<and> sends b b' [k, e] \<and>
    fin_ack_seg (rw_ackno (st_rw (fst b))) k \<and> fin_seg (sw_seqno (st_sw (fst b))) (rw_ackno (st_rw (fst b))) e \<and>
    sw_segments (st_sw (fst b')) = [e] \<and> sw_seqno (st_sw (fst b')) = sw_seqno (st_sw (fst b))"
proof -
  obtain st s where b: "b = (st, s)" by fastforce
  have inv: "conn_inv (st, s)" using assms(1) by (simp add: local_pair_def b)
  obtain g where g: "as_sent f g" "hand_over a f b = ctcp_receive b g (word_of_nat (length (seg_bytes g)))"
    using hand_over_ok [OF assms(1)] assms(2) by (auto simp: fin_seg_def)
  obtain st' s' k fs where r: "ctcp_receive b g (word_of_nat (length (seg_bytes g))) = Inr (st', s')"
      "same_end b (st', s')" "sends b (st', s') (k # fs)" "fin_ack_seg (rw_ackno (st_rw st)) k"
      "sw_segments (st_sw st') = sw_segments (st_sw st) @ fs" "sw_seqno (st_sw st') = sw_seqno (st_sw st)"
      "timer_teardown st = -1 \<longrightarrow> (\<exists>e. fs = [e] \<and> fin_seg (sw_seqno (st_sw st)) (rw_ackno (st_rw st)) e)"
    using fin_arrives [OF inv assms(2) g(1)] unfolding b by (elim exE conjE) blast
  obtain e where e: "fs = [e]" "fin_seg (sw_seqno (st_sw st)) (rw_ackno (st_rw st)) e"
    using r(7) assms(4) by (auto simp: b)
  show ?thesis
    using g(2) r(1-6) e assms(3) by (intro exI [of _ "(st', s')"] exI [of _ k] exI [of _ e]) (simp add: b)
qed

lemma hand_over_fin_again:
  assumes "local_pair a b" "fin_seg seq n f" "timer_teardown (fst b) \<noteq> -1"
  shows "\<exists>b' k. hand_over a f b = Inr b' \<and> same_end b b' \<and> sends b b' [k] \<and>
    fin_ack_seg (rw_ackno (st_rw (fst b))) k \<and> sw_segments (st_sw (fst b')) = sw_segments (st_sw (fst b)) \<and>
    sw_timer (st_sw (fst b')) = sw_timer (st_sw (fst b)) \<and> timer_teardown (fst b') = timer_teardown (fst b)"
proof -
  obtain st s where b: "b = (st, s)" by fastforce
  have inv: "conn_inv (st, s)" using assms(1) by (simp add: local_pair_def b)
  obtain g where g: "as_sent f g" "hand_over a f b = ctcp_receive b g (word_of_nat (length (seg_bytes g)))"
    using hand_over_ok [OF assms(1)] assms(2) by (auto simp: fin_seg_def)
  obtain st' s' k fs where r: "ctcp_receive b g (word_of_nat (length (seg_bytes g))) = Inr (st', s')"
      "same_end b (st', s')" "sends b (st', s') (k # fs)" "fin_ack_seg (rw_ackno (st_rw st)) k"
      "sw_segments (st_sw st') = sw_segments (st_sw st) @ fs" "timer_teardown st' = timer_teardown st"
      "timer_teardown st \<noteq> -1 \<longrightarrow> fs = [] \<and> sw_timer (st_sw st') = sw_timer (st_sw st)"
    using fin_arrives [OF inv assms(2) g(1)] unfolding b by (elim exE conjE) blast
  show ?thesis
    using g(2) r assms(3) by (intro exI [of _ "(st', s')"] exI [of _ k]) (simp add: b)
qed

lemma hand_over_fin_ack:
  assumes "local_pair a b" "fin_ack_seg (sw_seqno (st_sw (fst b))) k" "sw_segments (st_sw (fst b)) = [f]" "sg_data f = []"
  shows "\<exists>b'. hand_over a k b = Inr b' \<and> same_end b b' \<and> sends b b' [] \<and> sw_segments (st_sw (fst b')) = [] \<and>
    sw_timer (st_sw (fst b')) = -1 \<and> timer_teardown (fst b') = clock (snd b')"
proof -
  obtain st s where b: "b = (st, s)" by fastforce
  have inv: "conn_inv (st, s)" using assms(1) by (simp add: local_pair_def b)
  obtain g where g: "as_sent k g" "hand_over a k b = ctcp_receive b g (word_of_nat (length (seg_bytes g)))"
    using hand_over_ok [OF assms(1)] assms(2) by (auto simp: fin_ack_seg_def)
  obtain st' where "ctcp_receive b g (word_of_nat (length (seg_bytes g))) = Inr (st', s)" "same_end b (st', s)"
      "sw_segments (st_sw st') = []" "sw_timer (st_sw st') = -1" "timer_teardown st' = clock s"
    using fin_acknowledged [OF inv _ assms(4) _ g(1)] assms(2,3) unfolding b by auto
  then show ?thesis using g(2) by (intro exI [of _ "(st', s)"]) (simp add: sends_def b)
qed

section \<open>The end\<close>

definition closing :: "tcp \<Rightarrow> bool" where
  \<comment> \<open>nothing is in flight, and the teardown began now\<close>
  "closing t \<longleftrightarrow> sw_segments (st_sw (fst t)) = [] \<and> sw_timer (st_sw (fst t)) = -1 \<and>
     timer_teardown (fst t) = clock (snd t)"

definition client_at :: "int \<Rightarrow> tcp \<Rightarrow> tcp_host" where
  \<comment> \<open>the process with this one connection, at the time \<open>c\<close>\<close>
  "client_at c t = \<lparr>states = [fst t], removed = [], process = (snd t)\<lparr>clock := c\<rparr>, exited = False\<rparr>"

definition gone_after :: "int \<Rightarrow> tcp \<Rightarrow> bool" where
  \<comment> \<open>the timer leaves the connection alone until \<open>wait\<close> is over, and destroys it then; a client exits\<close>
  "gone_after wait t \<longleftrightarrow> (\<forall>c. ctcp_timer (client_at c t) = Inr
     (if c \<le> clock (snd t) + wait then client_at c t
      else (client_at c t)\<lparr>states := [], removed := [conn_remove (st_conn (fst t))], exited := \<not> is_server (snd t)\<rparr>))"

lemma closing_gone: "closing (st, s) \<Longrightarrow> 0 \<le> clock s \<Longrightarrow> gone_after (2 * timeout_standard st) (st, s)"
  by (auto simp: gone_after_def closing_def client_at_def ctcp_timer_def timer_check_def ctcp_destroy_def)

lemma ends_gone: "same_end a a' \<Longrightarrow> closing a' \<Longrightarrow> 0 \<le> clock (snd a) \<Longrightarrow> gone_after (2 * timeout_standard (fst a)) a'"
  using closing_gone [of "fst a'" "snd a'"] by (simp add: same_end_def)

lemma agreed:
  assumes "network ra rb (a, x) (b, y)" "sw_segments (st_sw (fst a)) = []" "sw_segments (st_sw (fst b)) = []"
  shows "conn_inv a" "conn_inv b" "rw_ackno (st_rw (fst b)) = sw_seqno (st_sw (fst a))"
    "rw_ackno (st_rw (fst a)) = sw_seqno (st_sw (fst b))"
proof -
  obtain sa pa sb pb where ab: "a = (sa, pa)" "b = (sb, pb)" by fastforce
  note N = network_linked [OF assms(1)]
  show inv: "conn_inv a" "conn_inv b" using N by (simp_all add: host_ok_def ab)
  have "base sa = sw_seqno (st_sw sa)" "base sb = sw_seqno (st_sw sb)"
    using inv tcp_invD(7) [of sa] tcp_invD(7) [of sb] assms(2,3) by (simp_all add: base_def conn_inv_def ab)
  then show "rw_ackno (st_rw (fst b)) = sw_seqno (st_sw (fst a))" "rw_ackno (st_rw (fst a)) = sw_seqno (st_sw (fst b))"
    using N by (simp_all add: linked_def host_ok_def ab)
qed

text \<open>
  C20: a connection on a Unix socket with nothing in flight is closed by both ends.  When one host's input ends, it sends
  a FIN; translated to a datagram and back, it makes the other send the acknowledgement and its own FIN; these empty the
  window of the first and make it send one more acknowledgement, which empties the window of the second.  After these
  four segments nothing is in flight and no retransmission runs, and each end destroys its connection (and a client exits)
  at the first timer call more than twice the timeout later, and not earlier.
\<close>

theorem connection_closes:
  assumes "network ra rb (a, x) (b, y)" "peers (st_conn (fst a)) (st_conn (fst b))" "unix_socket (snd a)" "unix_socket (snd b)"
    "sw_segments (st_sw (fst a)) = []" "sw_segments (st_sw (fst b)) = []"
    "timer_teardown (fst a) = -1" "timer_teardown (fst b) = -1" "0 \<le> clock (snd a)" "0 \<le> clock (snd b)"
    "input_ended (fst a) (snd a)"
  shows "\<exists>a1 a2 a3 b1 b2 fin ack fin' ack'.
    ctcp_read a = Inr a1 \<and> sends a a1 [fin] \<and>
    hand_over a1 fin b = Inr b1 \<and> sends b b1 [ack, fin'] \<and>
    hand_over b1 ack a1 = Inr a2 \<and> sends a1 a2 [] \<and>
    hand_over b1 fin' a2 = Inr a3 \<and> sends a2 a3 [ack'] \<and>
    hand_over a3 ack' b1 = Inr b2 \<and> sends b1 b2 [] \<and>
    closing a3 \<and> gone_after (2 * timeout_standard (fst a)) a3 \<and>
    closing b2 \<and> gone_after (2 * timeout_standard (fst b)) b2"
proof -
  have inv: "conn_inv a" "conn_inv b" and agree: "rw_ackno (st_rw (fst b)) = sw_seqno (st_sw (fst a))"
      "rw_ackno (st_rw (fst a)) = sw_seqno (st_sw (fst b))"
    using agreed [OF assms(1,5,6)] by simp_all
  have p: "local_pair a b" "local_pair b a" using inv assms(2-4) peers_sym by (simp_all add: local_pair_def)
  obtain a1 fin where A1: "ctcp_read a = Inr a1" "same_end a a1" "sends a a1 [fin]"
      "fin_seg (sw_seqno (st_sw (fst a))) (rw_ackno (st_rw (fst a))) fin" "sw_segments (st_sw (fst a1)) = [fin]"
      "sw_seqno (st_sw (fst a1)) = sw_seqno (st_sw (fst a))"
    using read_fin [OF inv(1) assms(3,11,5)] by blast
  note p1 = local_pair_step(1) [OF p(1) A1(2)] local_pair_step(2) [OF p(2) A1(2)]
  obtain b1 ack fin' where B1: "hand_over a1 fin b = Inr b1" "same_end b b1" "sends b b1 [ack, fin']"
      "fin_ack_seg (sw_seqno (st_sw (fst a1))) ack" "fin_seg (sw_seqno (st_sw (fst b))) (rw_ackno (st_rw (fst b))) fin'"
      "sw_segments (st_sw (fst b1)) = [fin']" "sw_seqno (st_sw (fst b1)) = sw_seqno (st_sw (fst b))"
    using hand_over_fin [OF p1(1) A1(4) assms(6,8)] agree(1) A1(6) by metis
  note p2 = local_pair_step(2) [OF p1(1) B1(2)] local_pair_step(1) [OF p1(2) B1(2)]
  have data: "sg_data fin = []" "sg_data fin' = []" using A1(4) B1(5) by (simp_all add: fin_seg_def)
  obtain a2 where A2: "hand_over b1 ack a1 = Inr a2" "same_end a1 a2" "sends a1 a2 []" "sw_segments (st_sw (fst a2)) = []"
      "sw_timer (st_sw (fst a2)) = -1" "timer_teardown (fst a2) = clock (snd a2)"
    using hand_over_fin_ack [OF p2(2) B1(4) A1(5) data(1)] by blast
  have aa2: "same_end a a2" using same_end_trans A1(2) A2(2) by blast
  have t2: "timer_teardown (fst a2) \<noteq> -1" using aa2 A2(6) assms(9) by (simp add: same_end_def)
  obtain a3 ack' where A3: "hand_over b1 fin' a2 = Inr a3" "same_end a2 a3" "sends a2 a3 [ack']"
      "fin_ack_seg (rw_ackno (st_rw (fst a2))) ack'" "sw_segments (st_sw (fst a3)) = sw_segments (st_sw (fst a2))"
      "sw_timer (st_sw (fst a3)) = sw_timer (st_sw (fst a2))" "timer_teardown (fst a3) = timer_teardown (fst a2)"
    using hand_over_fin_again [OF local_pair_step(2) [OF p2(2) A2(2)] B1(5) t2] by blast
  have aa3: "same_end a a3" using same_end_trans aa2 A3(2) by blast
  have "rw_ackno (st_rw (fst a2)) = sw_seqno (st_sw (fst b1))" using aa2 agree(2) B1(7) by (simp add: same_end_def)
  then obtain b2 where B2: "hand_over a3 ack' b1 = Inr b2" "same_end b1 b2" "sends b1 b2 []"
      "sw_segments (st_sw (fst b2)) = []" "sw_timer (st_sw (fst b2)) = -1" "timer_teardown (fst b2) = clock (snd b2)"
    using hand_over_fin_ack [OF local_pair_step(1) [OF local_pair_step(1) [OF p2(1) A2(2)] A3(2)] _ B1(6) data(2)] A3(4)
    by metis
  have bb2: "same_end b b2" using same_end_trans B1(2) B2(2) by blast
  have "closing a3" "closing b2" using A2(4-6) A3(2,5-7) B2(4-6) by (simp_all add: closing_def same_end_def)
  moreover have "gone_after (2 * timeout_standard (fst a)) a3" "gone_after (2 * timeout_standard (fst b)) b2"
    using ends_gone [OF aa3] ends_gone [OF bb2] calculation assms(9,10) by simp_all
  ultimately show ?thesis using A1(1,3) B1(1,3) A2(1,3) A3(1,3) B2(1,3) by blast
qed

definition far_conn :: conn where
  \<comment> \<open>the connection as the peer has it\<close>
  "far_conn = example_conn\<lparr>init_seqno := 200, their_init_seqno := 100\<rparr>"

lemma far_host: "new_host_state ((fresh_state\<lparr>st_conn := far_conn\<rparr>, example_sys\<lparr>reads := rs\<rparr>), [])"
proof -
  have "ctcp_init (example_sys\<lparr>reads := rs\<rparr>) (Some far_conn) example_config [] = Some [fresh_state\<lparr>st_conn := far_conn\<rparr>]"
    by (simp add: fresh_state_def ctcp_init_def example_sys_def)
  moreover have "\<not> delete_me far_conn" "\<not> wrote_eof far_conn" "delivered far_conn (example_sys\<lparr>reads := rs\<rparr>) = []"
    "segments_out (example_sys\<lparr>reads := rs\<rparr>) = []"
    by (simp_all add: far_conn_def example_conn_def delivered_def example_sys_def)
  ultimately show ?thesis unfolding new_host_state_def by blast
qed

lemma connection_closes_witness:
  "\<exists>a1 a2 a3 b1 b2 fin ack fin' ack'. ctcp_read (fresh_state, example_sys\<lparr>reads := [Got []]\<rparr>) = Inr a1 \<and>
     hand_over a1 fin (fresh_state\<lparr>st_conn := far_conn\<rparr>, example_sys\<lparr>reads := []\<rparr>) = Inr b1 \<and>
     hand_over b1 ack a1 = Inr a2 \<and> hand_over b1 fin' a2 = Inr a3 \<and> hand_over a3 ack' b1 = Inr b2 \<and>
     gone_after 400 a3 \<and> gone_after 400 b2"
proof -
  let ?a = "(fresh_state, example_sys\<lparr>reads := [Got []]\<rparr>)"
  let ?b = "(fresh_state\<lparr>st_conn := far_conn\<rparr>, example_sys\<lparr>reads := []\<rparr>)"
  have n: "network True True (?a, []) (?b, [])" by (intro network.start fresh_host far_host)
  have p: "peers (st_conn (fst ?a)) (st_conn (fst ?b))" by (simp add: peers_def far_conn_def example_conn_def)
  have u: "unix_socket (snd ?a)" "unix_socket (snd ?b)" "0 \<le> clock (snd ?a)" "0 \<le> clock (snd ?b)"
    by (simp_all add: example_sys_def)
  have e: "sw_segments (st_sw (fst ?a)) = []" "sw_segments (st_sw (fst ?b)) = []" "timer_teardown (fst ?a) = -1"
    "timer_teardown (fst ?b) = -1" "timeout_standard (fst ?a) = 200" "timeout_standard (fst ?b) = 200"
    by (simp_all add: fresh_state_def ctcp_init_def example_config_def)
  have i: "input_ended (fst ?a) (snd ?a)"
    by (simp add: input_ended_def read_size_def fresh_state_def ctcp_init_def example_config_def example_conn_def
        MAX_SEG_DATA_SIZE_def)
  have "2 * timeout_standard (fst ?a) = 400" "2 * timeout_standard (fst ?b) = 400" using e by simp_all
  then show ?thesis using connection_closes [OF n p u(1,2) e(1-4) u(3,4) i] by metis
qed

section \<open>On the Internet\<close>

text \<open>
  Between two machines every segment leaves with ACK among its flags, so the acknowledgement of a FIN is taken for an
  ordinary one: whatever segment without data arrives, the teardown does not begin, and the connection
  stays until the process ends.
\<close>

lemma internet_flags:
  assumes "\<not> unix_socket s" "\<not> run_program s" "seg_ok g" "length (sg_data g) \<le> 60000" "peers dst src"
    "cross s dst src g = Inr g'"
  shows "seg_ok g' \<and> sg_data g' = sg_data g \<and> sg_flags g' \<noteq> 0 \<and> verifies g' = verifies g"
proof -
  obtain d h where d: "convert_to_datagram s dst g (int (20 + length (sg_data g))) = Inr d"
      "\<forall>rest. convert_to_ctcp (sg_ptr g) src (d @ rest) = Inr h" "sg_len h = sg_len g"
      "sg_data h = sg_data g" "sg_flags h = ucast (wire_flags s (sg_flags g))" "verifies h = verifies g"
    using convert_roundtrip [OF assms(3,4,5), of s "sg_ptr g"] by auto
  have "cross s dst src g = Inr h" using d(1) spec [OF d(2), of "[]"] by (simp add: cross_def)
  moreover have "(ucast (b OR ucast TH_ACK :: byte) :: u32) \<noteq> 0" for b :: byte
  proof -
    have "bit (ucast (b OR ucast TH_ACK :: byte) :: u32) 4"
      by (simp add: bit_simps TH_ACK_def)
    then show ?thesis by (metis bit_0_eq bot_apply bot_bool_def)
  qed
  ultimately show ?thesis using assms d by (simp add: wire_flags_def seg_ok_def)
qed

theorem no_teardown_on_internet:
  assumes "conn_inv (st, s)" "\<not> unix_socket p" "\<not> run_program p" "seg_ok g" "sg_data g = []" "peers dst src"
    "cross p dst src g = Inr g'" "ctcp_receive (st, s) g' (word_of_nat (length (seg_bytes g'))) = Inr (st', s')"
  shows "timer_teardown st' = timer_teardown st"
proof -
  have F: "seg_ok g'" "sg_data g' = []" "sg_flags g' \<noteq> 0"
    using internet_flags [OF assms(2,3,4) _ assms(6,7)] assms(5) by simp_all
  show ?thesis
  proof (cases "verifies g'")
    case False
    then show ?thesis using receive_corrupted [OF F(1)] assms(8) by simp
  next
    case True
    let ?st = "set_peer_window g' st" and ?g = "g'\<lparr>sg_cksum := 0\<rparr>" and ?n = "word_of_nat (length (seg_bytes g')) :: u64"
    have c: "conn_inv (?st, s)" using assms(1) by simp
    obtain st1 s1 where fin: "receive_fin (?st, s) ?g ?n = Inr (st1, s1)" "conn_inv (st1, s1)" "only_sw ?st st1"
      using receive_fin_inv [OF c] by blast
    have "tcp_inv st1" using fin(2) by (simp add: conn_inv_def)
    then obtain st2 where ack: "receive_ack (st1, s1) ?g = Inr (st2, s1)" "only_sw st1 st2"
      using receive_ack_inv by blast
    have "\<not> is_fin_ack ?g ?n" using F(3) by (simp add: is_fin_ack_def TH_ACK_def TH_FIN_def)
    then have "(st', s') \<in> {(st2, s1), (st1, s1)}"
      using assms(8) receive_control [OF F(1) True F(2), of st s] fin(1) ack(1) by (auto simp: Let_def split: if_splits)
    then show ?thesis
      using only_sw_fields(6) [OF fin(3)] only_sw_fields(6) [OF ack(2)] by (auto simp: set_peer_window_def)
  qed
qed

end
