(* ===== verification/Stop_Wait.thy ===== *)
theory Stop_Wait
  imports Ctcp_Stream
begin

text \<open>
  The stop-and-wait version of the protocol, \<open>oldctcp.c\<close>: one segment is outstanding at a time and the queue of
  segments only grows, so a node of it is its position.  A connection is destroyed by \<open>old_destroy\<close>, after which
  there is no state; segments, connections and the process are those of \<open>Ctcp\<close>.  Printing is left out.
\<close>

section \<open>State\<close>

datatype old_mode = OLD_SEND_DATA | OLD_SEND_FIN | OLD_SEND_ACK

record old_state =
  oc_conn :: conn
  oc_segments :: "ctcp_segment list"
  oc_buf :: "byte list"
  oc_buf_len :: int
  oc_send_seq :: int
  oc_lastsent_timeout :: int
  oc_timeout_standard :: int
  oc_retransmit_counter :: int
  oc_max_seg_acked :: "nat option"
  oc_last_seg_sent :: "nat option"
  oc_recv_ack :: int
  oc_lastreceived :: "ctcp_segment option"

type_synonym old_tcp = "old_state \<times> sys"

datatype outcome = Running old_tcp | Destroyed conn sys
  \<comment> \<open>after \<open>ctcp_destroy\<close> the connection waits for its removal\<close>

definition old_init :: "sys \<Rightarrow> conn option \<Rightarrow> ctcp_config \<Rightarrow> old_state option" where
  "old_init s conn cfg =
     (case conn of None \<Rightarrow> None
      | Some c \<Rightarrow> Some
          \<lparr>oc_conn = c, oc_segments = [], oc_buf = map (\<lambda>i. lo16 (junk_pad s (seg_count s + i))) [0..<1500],
           oc_buf_len = 0, oc_send_seq = 1, oc_lastsent_timeout = -1, oc_timeout_standard = cfg_rt_timeout cfg,
           oc_retransmit_counter = 0, oc_max_seg_acked = None, oc_last_seg_sent = None, oc_recv_ack = 1,
           oc_lastreceived = None\<rparr>)"

definition old_destroy :: "old_tcp \<Rightarrow> outcome" where
  "old_destroy t = Destroyed (conn_remove (oc_conn (fst t))) (snd t)"

section \<open>Sending\<close>

definition transmit :: "ctcp_segment \<Rightarrow> old_tcp \<Rightarrow> old_tcp res" where
  \<comment> \<open>\<open>conn_send\<close> of a queued segment, and the time of it\<close>
  "transmit g t =
     (let (st, s) = t in
      rbind (conn_send (oc_conn st) s (seg_bytes g) (unat (ntohs (sg_len g)))) (\<lambda>s.
      Inr (st\<lparr>oc_lastsent_timeout := clock s\<rparr>, s)))"

definition old_send_data :: "old_tcp \<Rightarrow> bool \<Rightarrow> (nat \<times> old_tcp) res" where
  "old_send_data t retrans =
     (let (st, s) = t; segs = oc_segments st in
      case oc_last_seg_sent st of
        None \<Rightarrow>
          (case segs of [] \<Rightarrow> Inl NullDeref
           | g # _ \<Rightarrow> rbind (transmit g t) (\<lambda>(st, s). Inr (0, st\<lparr>oc_last_seg_sent := Some 0\<rparr>, s)))
      | Some i \<Rightarrow>
          if retrans then rbind (transmit (segs ! i) t) (\<lambda>t. Inr (0, t))
          else if oc_max_seg_acked st = Some i then
            (if Suc i < length segs
             then rbind (transmit (segs ! Suc i) t) (\<lambda>(st, s). Inr (0, st\<lparr>oc_last_seg_sent := Some (Suc i)\<rparr>, s))
             else Inl NullDeref)
          else Inr (1, t))"

definition old_segment :: "old_tcp \<Rightarrow> ctcp_segment \<times> sys" where
  \<comment> \<open>the fields every mode sets; the data area is fresh memory\<close>
  "old_segment t =
     (let (st, s) = t; seglen = int SEG_HEADER_SIZE + oc_buf_len st in
      (\<lparr>sg_ptr = seg_count s, sg_seqno = htonl 1, sg_ackno = htonl 1, sg_len = htons (word_of_int seglen),
        sg_pad = junk_pad s (seg_count s), sg_flags = 0, sg_window = htons (word_of_nat MAX_SEG_DATA_SIZE),
        sg_cksum = htons 0,
        sg_data = map (\<lambda>i. lo16 (junk_pad s (seg_count s + i))) [0..<nat (oc_buf_len st)]\<rparr>,
       s\<lparr>seg_count := Suc (seg_count s)\<rparr>))"

definition old_makeseg_send :: "old_tcp \<Rightarrow> old_mode \<Rightarrow> outcome res" where
  \<comment> \<open>the checksum of a data segment is computed before its data is copied into it\<close>
  "old_makeseg_send t mode =
     (let (st, s) = t; seglen = int SEG_HEADER_SIZE + oc_buf_len st; (g, s) = old_segment t in
      case mode of
        OLD_SEND_DATA \<Rightarrow>
          let g = g\<lparr>sg_seqno := htonl (word_of_int (oc_send_seq st)), sg_ackno := htonl (word_of_int (oc_recv_ack st)),
                    sg_flags := htonl 0x018\<rparr> in
          rbind (seg_cksum g (word_of_int seglen)) (\<lambda>k.
          rbind (rd (oc_buf st) 0 (nat (oc_buf_len st))) (\<lambda>d.
          let g = g\<lparr>sg_cksum := k, sg_data := d\<rparr> in
          rbind (st8 (oc_buf st) 0 0) (\<lambda>buf.
          let st = st\<lparr>oc_buf := buf, oc_buf_len := 0, oc_segments := oc_segments st @ [g]\<rparr> in
          rbind (old_send_data (st, s) False) (\<lambda>(_, t). Inr (Running t)))))
      | OLD_SEND_ACK \<Rightarrow>
          let g = g\<lparr>sg_seqno := htonl (word_of_int (oc_send_seq st)), sg_ackno := htonl (word_of_int (oc_recv_ack st)),
                    sg_flags := TH_ACK\<rparr> in
          rbind (seg_cksum g (word_of_int seglen)) (\<lambda>k.
          rbind (conn_send (oc_conn st) s (seg_bytes (g\<lparr>sg_cksum := k\<rparr>)) (nat seglen)) (\<lambda>s. Inr (Running (st, s))))
      | OLD_SEND_FIN \<Rightarrow>
          let g = g\<lparr>sg_flags := TH_FIN\<rparr> in
          rbind (seg_cksum g (word_of_int seglen)) (\<lambda>k.
          rbind (conn_send (oc_conn st) s (seg_bytes (g\<lparr>sg_cksum := k\<rparr>)) (nat seglen)) (\<lambda>s. Inr (old_destroy (st, s)))))"

section \<open>Entry points\<close>

definition old_read :: "old_tcp \<Rightarrow> outcome res" where
  "old_read t =
     (let (st, s) = t in
      rbind (conn_input (oc_conn st) s (oc_buf st) MAX_SEG_DATA_SIZE) (\<lambda>(r, buf, c, s).
      let st = st\<lparr>oc_conn := c, oc_buf := buf, oc_buf_len := r\<rparr> in
      if oc_buf_len st \<ge> 0 then old_makeseg_send (st, s) OLD_SEND_DATA
      else old_makeseg_send (st\<lparr>oc_buf_len := 0\<rparr>, s) OLD_SEND_FIN))"

definition old_output :: "old_tcp \<Rightarrow> old_tcp res" where
  "old_output t =
     (let (st, s) = t in
      case oc_lastreceived st of None \<Rightarrow> Inl Uninitialised
      | Some g \<Rightarrow>
          let output_available = word_of_nat (conn_bufspace (oc_conn st)) :: u64;
              data_available = word_of_int (data_len g) :: u64;
              output_size = (if output_available < data_available then output_available else data_available)
          in rbind (conn_output (oc_conn st) s (sg_data g) (unat output_size)) (\<lambda>(_, c, s). Inr (st\<lparr>oc_conn := c\<rparr>, s)))"

definition confirms :: "int \<Rightarrow> ctcp_segment \<Rightarrow> bool" where
  \<comment> \<open>\<open>send_seq == ntohl (seqno) + ntohs (len) - SEGSIZE\<close>, where \<open>SEGSIZE\<close> is a \<open>size_t\<close>\<close>
  "confirms seq g \<longleftrightarrow>
     (word_of_int seq :: u64) = ucast (ntohl (sg_seqno g) + ucast (ntohs (sg_len g)) :: u32) - word_of_nat SEG_HEADER_SIZE"

definition old_receive_ack :: "old_state \<Rightarrow> ctcp_segment \<Rightarrow> (bool \<times> old_state) res" where
  \<comment> \<open>the branch for an acknowledgement; the flag says that the function goes on\<close>
  "old_receive_ack st g =
     (let st = st\<lparr>oc_send_seq := sint (ntohl (sg_ackno g))\<rparr> in
      case oc_last_seg_sent st of None \<Rightarrow> Inl NullDeref
      | Some i \<Rightarrow>
          if confirms (oc_send_seq st) (oc_segments st ! i)
          then Inr (True, st\<lparr>oc_max_seg_acked := Some i, oc_lastsent_timeout := -1, oc_retransmit_counter := 0\<rparr>)
          else Inr (False, st))"

definition old_receive :: "old_tcp \<Rightarrow> ctcp_segment \<Rightarrow> u64 \<Rightarrow> outcome res" where
  \<comment> \<open>the test of the checksum is commented out in the code\<close>
  "old_receive t g len =
     (let (st, s) = t in
      rbind (if sg_flags g AND TH_ACK \<noteq> 0 \<and> no_payload len then old_receive_ack st g else Inr (True, st)) (\<lambda>(go_on, st).
      if \<not> go_on then Inr (Running (st, s))
      else if sg_flags g AND TH_FIN \<noteq> 0 \<and> no_payload len then Inr (old_destroy (st, s))
      else if \<not> no_payload len then
        let st = st\<lparr>oc_lastreceived := Some g,
                   oc_recv_ack := sint (ntohl (sg_seqno g) + ucast (ntohs (sg_len g)) - word_of_nat SEG_HEADER_SIZE :: u32)\<rparr> in
        rbind (old_makeseg_send (st, s) OLD_SEND_ACK) (\<lambda>r.
        case r of Destroyed c s \<Rightarrow> Inl UseAfterFree
        | Running t \<Rightarrow> rbind (old_output t) (\<lambda>t. Inr (Running t)))
      else Inr (Running (st, s))))"

definition old_timer :: "old_tcp \<Rightarrow> outcome res" where
  \<comment> \<open>\<open>ctcp_timer\<close> for the one state it looks at, the first of the list; the timeout is fixed\<close>
  "old_timer t =
     (let (st, s) = t in
      if oc_lastsent_timeout st \<noteq> -1 \<and> clock s - oc_lastsent_timeout st > 1000 then
        if oc_retransmit_counter st \<ge> 5 then Inr (old_destroy t)
        else
          let st = st\<lparr>oc_retransmit_counter := oc_retransmit_counter st + 1, oc_lastsent_timeout := clock s\<rparr> in
          rbind (old_send_data (st, s) True) (\<lambda>(_, t). Inr (Running t))
      else Inr (Running t))"

section \<open>The operations in a consistent state\<close>

definition count :: "nat option \<Rightarrow> nat" where
  \<comment> \<open>how many segments of the queue a node pointer has behind it\<close>
  "count p = (case p of None \<Rightarrow> 0 | Some i \<Rightarrow> Suc i)"

definition in_step :: "nat \<Rightarrow> nat option \<Rightarrow> nat option \<Rightarrow> int \<Rightarrow> bool" where
  \<comment> \<open>length of the queue, last segment sent, last one acknowledged, timer\<close>
  "in_step n p a timer \<longleftrightarrow> count p \<le> n \<and> (0 < n \<longrightarrow> p \<noteq> None) \<and>
     (if timer = -1 then a = p else count p = Suc (count a))"

lemma in_step_send: "in_step n p p t \<Longrightarrow> 0 \<le> c \<Longrightarrow> in_step (Suc n) (Some (count p)) p c"
  by (simp add: in_step_def count_def split: option.split)

lemma in_step_wait: "in_step n p a t \<Longrightarrow> a \<noteq> p \<Longrightarrow> in_step (Suc n) p a t"
  by (auto simp: in_step_def count_def split: option.splits if_splits)

lemma in_step_timer: "in_step n p a t \<Longrightarrow> (t = -1 \<longleftrightarrow> a = p) \<and> (a \<noteq> p \<longrightarrow> (\<exists>i. p = Some i \<and> i < n \<and> i = count a))"
  by (cases p; cases a) (auto simp: in_step_def count_def split: if_splits)

definition old_inv :: "old_tcp \<Rightarrow> bool" where
  "old_inv t \<longleftrightarrow> (case t of (st, s) \<Rightarrow>
     \<not> delete_me (oc_conn st) \<and> length (oc_buf st) = 1500 \<and> oc_buf_len st = 0 \<and> 0 \<le> clock s \<and>
     (\<forall>g \<in> set (oc_segments st). seg_ok g) \<and>
     in_step (length (oc_segments st)) (oc_last_seg_sent st) (oc_max_seg_acked st) (oc_lastsent_timeout st))"

lemma transmit_ok:
  "\<not> delete_me (oc_conn st) \<Longrightarrow> seg_ok g \<Longrightarrow> transmit g (st, s) =
    Inr (st\<lparr>oc_lastsent_timeout := clock s\<rparr>, s\<lparr>segments_out := segments_out s @ [seg_bytes g]\<rparr>)"
  by (simp add: transmit_def conn_send_ok)

lemma old_makeseg_data:
  assumes "oc_buf_len st = int n" "n \<le> MAX_SEG_DATA_SIZE" "length (oc_buf st) = 1500"
  shows "\<exists>g. old_makeseg_send (st, s) OLD_SEND_DATA =
      rbind (old_send_data (st\<lparr>oc_buf := put (oc_buf st) 0 [0], oc_buf_len := 0, oc_segments := oc_segments st @ [g]\<rparr>,
        s\<lparr>seg_count := Suc (seg_count s)\<rparr>) False) (\<lambda>(_, t). Inr (Running t)) \<and>
    seg_ok g \<and> sg_data g = take n (oc_buf st) \<and> ntohl (sg_seqno g) = word_of_int (oc_send_seq st)"
proof -
  let ?g0 = "(fst (old_segment (st, s)))\<lparr>sg_seqno := htonl (word_of_int (oc_send_seq st)),
    sg_ackno := htonl (word_of_int (oc_recv_ack st)), sg_flags := htonl 0x018\<rparr>"
  have "unat (word_of_int (20 + int n) :: u16) = 20 + n"
    using bare_ok [of "fresh_state\<lparr>send_buf_len := int n\<rparr>" "replicate n 0" s 0] assms(2)
    by (simp add: seg_ok_def SEG_HEADER_SIZE_def)
  then have ok: "seg_ok ?g0" using assms(1) by (simp add: seg_ok_def old_segment_def SEG_HEADER_SIZE_def)
  have len: "ntohs (sg_len ?g0) = word_of_int (int SEG_HEADER_SIZE + int n)"
    using assms(1) by (simp add: old_segment_def)
  define g where "g = ?g0\<lparr>sg_cksum := cksum (seg_bytes ?g0), sg_data := take n (oc_buf st)\<rparr>"
  have n: "n \<le> length (oc_buf st)" "1 \<le> length (oc_buf st)" using assms(2,3) by (simp_all add: MAX_SEG_DATA_SIZE_def)
  have gl: "length (sg_data ?g0) = n" using assms(1) by (simp add: old_segment_def)
  have g: "seg_ok g" "sg_data g = take n (oc_buf st)" "ntohl (sg_seqno g) = word_of_int (oc_send_seq st)"
    using ok n(1) gl by (simp_all add: g_def seg_ok_def)
  have run: "old_makeseg_send (st, s) OLD_SEND_DATA =
      rbind (old_send_data (st\<lparr>oc_buf := put (oc_buf st) 0 [0], oc_buf_len := 0, oc_segments := oc_segments st @ [g]\<rparr>,
        s\<lparr>seg_count := Suc (seg_count s)\<rparr>) False) (\<lambda>(_, t). Inr (Running t))"
    using seg_cksum_ok [OF ok, unfolded len] n assms(1)
    by (simp add: old_makeseg_send_def Let_def old_segment_def g_def rd_def slice_def st8_def wr_def)
  show ?thesis using run g by blast
qed

lemma old_reply_ok:
  assumes "\<not> delete_me (oc_conn st)" "oc_buf_len st = 0"
  shows "\<exists>k. old_makeseg_send (st, s) OLD_SEND_ACK = Inr (Running (st, s\<lparr>seg_count := Suc (seg_count s),
      segments_out := segments_out s @ [seg_bytes k]\<rparr>)) \<and>
    seg_ok k \<and> sg_data k = [] \<and> sg_flags k = TH_ACK \<and> ntohl (sg_ackno k) = word_of_int (oc_recv_ack st)"
    "\<exists>k. old_makeseg_send (st, s) OLD_SEND_FIN = Inr (Destroyed (conn_remove (oc_conn st)) (s\<lparr>seg_count := Suc (seg_count s),
      segments_out := segments_out s @ [seg_bytes k]\<rparr>)) \<and> seg_ok k \<and> sg_data k = [] \<and> sg_flags k = TH_FIN"
proof -
  let ?h = "fst (old_segment (st, s))"
  have ok: "seg_ok ?h" "sg_data ?h = []" "sg_len ?h = htons (word_of_int (int SEG_HEADER_SIZE))"
    using assms(2) by (simp_all add: seg_ok_def old_segment_def SEG_HEADER_SIZE_def)
  have s: "snd (old_segment (st, s)) = s\<lparr>seg_count := Suc (seg_count s)\<rparr>" by (simp add: old_segment_def)
  have out: "rbind (seg_cksum g (word_of_int (int SEG_HEADER_SIZE + oc_buf_len st))) (\<lambda>k.
      rbind (conn_send (oc_conn st) x (seg_bytes (g\<lparr>sg_cksum := k\<rparr>)) (nat (int SEG_HEADER_SIZE + oc_buf_len st))) f) =
      f (x\<lparr>segments_out := segments_out x @ [seg_bytes (g\<lparr>sg_cksum := cksum (seg_bytes g)\<rparr>)]\<rparr>)"
    if g: "seg_ok g" "sg_data g = []" "sg_len g = htons (word_of_int (int SEG_HEADER_SIZE))" for g x and f :: "sys \<Rightarrow> outcome res"
  proof -
    let ?k = "g\<lparr>sg_cksum := cksum (seg_bytes g)\<rparr>"
    have "seg_ok ?k" using g(1) by simp
    from conn_send_ok [OF assms(1) this, of x] show ?thesis
      using seg_cksum_ok [OF g(1)] g(2,3) assms(2) by (simp add: SEG_HEADER_SIZE_def)
  qed
  let ?a = "?h\<lparr>sg_seqno := htonl (word_of_int (oc_send_seq st)), sg_ackno := htonl (word_of_int (oc_recv_ack st)),
    sg_flags := TH_ACK\<rparr>"
  have a: "seg_ok ?a" "sg_data ?a = []" "sg_len ?a = htons (word_of_int (int SEG_HEADER_SIZE))"
    using ok by (simp_all add: seg_ok_def)
  have "old_makeseg_send (st, s) OLD_SEND_ACK = Inr (Running (st, s\<lparr>seg_count := Suc (seg_count s),
      segments_out := segments_out s @ [seg_bytes (?a\<lparr>sg_cksum := cksum (seg_bytes ?a)\<rparr>)]\<rparr>))"
    using out [OF a] s by (simp add: old_makeseg_send_def Let_def split_beta)
  then show "\<exists>k. old_makeseg_send (st, s) OLD_SEND_ACK = Inr (Running (st, s\<lparr>seg_count := Suc (seg_count s),
      segments_out := segments_out s @ [seg_bytes k]\<rparr>)) \<and>
    seg_ok k \<and> sg_data k = [] \<and> sg_flags k = TH_ACK \<and> ntohl (sg_ackno k) = word_of_int (oc_recv_ack st)"
    using a by (intro exI conjI) (assumption, simp_all)
  let ?f = "?h\<lparr>sg_flags := TH_FIN\<rparr>"
  have f: "seg_ok ?f" "sg_data ?f = []" "sg_len ?f = htons (word_of_int (int SEG_HEADER_SIZE))"
    using ok by (simp_all add: seg_ok_def)
  have "old_makeseg_send (st, s) OLD_SEND_FIN = Inr (Destroyed (conn_remove (oc_conn st)) (s\<lparr>seg_count := Suc (seg_count s),
      segments_out := segments_out s @ [seg_bytes (?f\<lparr>sg_cksum := cksum (seg_bytes ?f)\<rparr>)]\<rparr>))"
    using out [OF f] s by (simp add: old_makeseg_send_def Let_def split_beta old_destroy_def)
  then show "\<exists>k. old_makeseg_send (st, s) OLD_SEND_FIN = Inr (Destroyed (conn_remove (oc_conn st)) (s\<lparr>seg_count := Suc (seg_count s),
      segments_out := segments_out s @ [seg_bytes k]\<rparr>)) \<and> seg_ok k \<and> sg_data k = [] \<and> sg_flags k = TH_FIN"
    using f by (intro exI conjI) (assumption, simp_all)
qed

section \<open>Events\<close>

definition idle :: "old_state \<Rightarrow> bool" where
  \<comment> \<open>everything sent was acknowledged\<close>
  "idle st \<longleftrightarrow> oc_max_seg_acked st = oc_last_seg_sent st"

lemma old_inv_idle: "old_inv (st, s) \<Longrightarrow> idle st \<longleftrightarrow> oc_lastsent_timeout st = -1"
  using in_step_timer by (auto simp: old_inv_def idle_def)

lemma old_send_new:
  assumes inv: "old_inv (st, s)" and g: "seg_ok g" and q: "oc_segments st1 = oc_segments st @ [g]"
    "oc_last_seg_sent st1 = oc_last_seg_sent st" "oc_max_seg_acked st1 = oc_max_seg_acked st" "\<not> delete_me (oc_conn st1)"
  shows "\<exists>b. old_send_data (st1, s1) False = Inr (b,
    if idle st
    then (st1\<lparr>oc_lastsent_timeout := clock s1, oc_last_seg_sent := Some (count (oc_last_seg_sent st))\<rparr>,
          s1\<lparr>segments_out := segments_out s1 @ [seg_bytes (oc_segments st1 ! count (oc_last_seg_sent st))]\<rparr>)
    else (st1, s1))"
proof (cases "idle st")
  case True
  let ?n = "count (oc_last_seg_sent st)"
  have p: "in_step (length (oc_segments st)) (oc_last_seg_sent st) (oc_max_seg_acked st) (oc_lastsent_timeout st)"
    using inv by (simp add: old_inv_def)
  then have n: "?n < length (oc_segments st1)" using q(1) by (simp add: in_step_def)
  have "\<forall>g \<in> set (oc_segments st1). seg_ok g" using inv g q(1) by (simp add: old_inv_def)
  then have "seg_ok (oc_segments st1 ! ?n)" using nth_mem [OF n] by blast
  note T = transmit_ok [OF q(4) this, of s1]
  show ?thesis
  proof (cases "oc_last_seg_sent st")
    case None
    then have "oc_segments st1 = [g]" using p q(1) by (simp add: in_step_def)
    then show ?thesis using T True None q(2) by (simp add: old_send_data_def count_def)
  next
    case (Some i)
    then have "oc_max_seg_acked st1 = Some i" "Suc i < length (oc_segments st1)"
      using True q(3) n by (simp_all add: idle_def count_def)
    then show ?thesis using T True Some q(2) by (simp add: old_send_data_def count_def)
  qed
next
  case False
  then obtain i where "oc_last_seg_sent st = Some i"
    using inv in_step_timer by (fastforce simp: old_inv_def idle_def)
  then show ?thesis using False q by (simp add: old_send_data_def idle_def)
qed

lemma old_read_data:
  assumes inv: "old_inv (st, s)" and mode: "run_program s \<or> unix_socket s"
    and input: "conn_input (oc_conn st) s (oc_buf st) MAX_SEG_DATA_SIZE = Inr (int n, buf, c, s1)" "n \<le> MAX_SEG_DATA_SIZE"
      "length buf = 1500" "\<not> delete_me c"
  shows "\<exists>st' s' g. old_read (st, s) = Inr (Running (st', s')) \<and> old_inv (st', s') \<and> seg_ok g \<and>
    sg_data g = take n buf \<and> ntohl (sg_seqno g) = word_of_int (oc_send_seq st) \<and> oc_segments st' = oc_segments st @ [g] \<and>
    oc_send_seq st' = oc_send_seq st \<and> \<not> idle st' \<and>
    (if idle st then oc_last_seg_sent st' = Some (count (oc_last_seg_sent st)) \<and>
       segments_out s' = segments_out s @ [seg_bytes (oc_segments st' ! count (oc_last_seg_sent st))]
     else oc_last_seg_sent st' = oc_last_seg_sent st \<and> segments_out s' = segments_out s)"
proof -
  note quiet = conn_input_quiet [OF input(1)]
  let ?st = "st\<lparr>oc_conn := c, oc_buf := buf, oc_buf_len := int n\<rparr>"
  let ?s = "s1\<lparr>seg_count := Suc (seg_count s1)\<rparr>"
  obtain g where g: "old_makeseg_send (?st, s1) OLD_SEND_DATA =
      rbind (old_send_data (?st\<lparr>oc_buf := put buf 0 [0], oc_buf_len := 0, oc_segments := oc_segments st @ [g]\<rparr>, ?s) False)
        (\<lambda>(_, t). Inr (Running t))"
      "seg_ok g" "sg_data g = take n buf" "ntohl (sg_seqno g) = word_of_int (oc_send_seq st)"
    using old_makeseg_data [of ?st n s1] input(2,3) by auto
  let ?st1 = "?st\<lparr>oc_buf := put buf 0 [0], oc_buf_len := 0, oc_segments := oc_segments st @ [g]\<rparr>"
  let ?t = "if idle st
    then (?st1\<lparr>oc_lastsent_timeout := clock s1, oc_last_seg_sent := Some (count (oc_last_seg_sent st))\<rparr>,
          ?s\<lparr>segments_out := segments_out s1 @ [seg_bytes (oc_segments ?st1 ! count (oc_last_seg_sent st))]\<rparr>)
    else (?st1, ?s)"
  obtain b where "old_send_data (?st1, ?s) False = Inr (b, ?t)"
    using old_send_new [OF inv g(2), of ?st1 ?s] input(4) by auto
  then have run: "old_read (st, s) = Inr (Running ?t)"
    using input(1) g(1) by (simp add: old_read_def)
  have p: "in_step (length (oc_segments st)) (oc_last_seg_sent st) (oc_max_seg_acked st) (oc_lastsent_timeout st)"
    "0 \<le> clock s1" "\<forall>h \<in> set (oc_segments st @ [g]). seg_ok h"
    using inv g(2) quiet by (simp_all add: old_inv_def)
  have "old_inv ?t"
  proof (cases "idle st")
    case True
    then have "in_step (Suc (length (oc_segments st))) (Some (count (oc_last_seg_sent st))) (oc_max_seg_acked st) (clock s1)"
      using in_step_send p(1,2) by (simp add: idle_def)
    then show ?thesis using True p input(3,4) by (simp add: old_inv_def)
  next
    case False
    then have "in_step (Suc (length (oc_segments st))) (oc_last_seg_sent st) (oc_max_seg_acked st) (oc_lastsent_timeout st)"
      using in_step_wait p(1) by (simp add: idle_def)
    then show ?thesis using False p input(3,4) by (simp add: old_inv_def)
  qed
  moreover have "\<not> idle (fst ?t)"
    by (cases "idle st"; cases "oc_last_seg_sent st") (simp_all add: idle_def count_def)
  ultimately show ?thesis
    using run g(2-4) quiet by (intro exI [of _ "fst ?t"] exI [of _ "snd ?t"] exI [of _ g]) (cases "idle st"; simp)
qed

lemma old_read_cases:
  assumes inv: "old_inv (st, s)" and mode: "run_program s \<or> unix_socket s"
  shows "\<exists>r. old_read (st, s) = Inr r \<and> (case r of Running t \<Rightarrow> old_inv t | Destroyed c s' \<Rightarrow> True)"
proof -
  have D: "\<not> delete_me (oc_conn st)" "length (oc_buf st) = 1500" using inv by (simp_all add: old_inv_def)
  have k: "0 < MAX_SEG_DATA_SIZE" "MAX_SEG_DATA_SIZE \<le> length (oc_buf st)" using D by (simp_all add: MAX_SEG_DATA_SIZE_def)
  obtain r buf c s1 where i: "conn_input (oc_conn st) s (oc_buf st) MAX_SEG_DATA_SIZE = Inr (r, buf, c, s1)"
      "-1 \<le> r" "r \<le> int MAX_SEG_DATA_SIZE" "length buf = 1500" "c = oc_conn st \<or> c = (oc_conn st)\<lparr>read_eof := True\<rparr>"
    using conn_input_ok [OF D(1) mode k] D(2) by auto
  have c: "\<not> delete_me c" using i(5) D(1) by auto
  show ?thesis
  proof (cases "0 \<le> r")
    case True
    then obtain n where n: "r = int n" using zero_le_imp_eq_int by blast
    then have "n \<le> MAX_SEG_DATA_SIZE" using i(3) by simp
    from old_read_data [OF inv mode i(1) [unfolded n] this i(4) c] show ?thesis by fastforce
  next
    case False
    let ?st = "st\<lparr>oc_conn := c, oc_buf := buf, oc_buf_len := 0\<rparr>"
    obtain k where "old_makeseg_send (?st, s1) OLD_SEND_FIN = Inr (Destroyed (conn_remove c) (s1\<lparr>seg_count := Suc (seg_count s1),
        segments_out := segments_out s1 @ [seg_bytes k]\<rparr>))"
      using old_reply_ok(2) [of ?st s1] c by auto
    then show ?thesis using i(1) False by (simp add: old_read_def)
  qed
qed

lemma conn_output_clock:
  assumes "conn_output c s buf n = Inr (r, c', s')"
  shows "clock s' = clock s"
proof -
  obtain w s1 where w: "sys_write s (take n buf) = (w, s1)" by fastforce
  then have "clock s1 = clock s" by (auto simp: sys_write_def Let_def split: list.splits write_result.splits)
  then show ?thesis
    using assms w by (cases w) (auto simp: conn_output_def rd_def slice_def Let_def split: if_splits)
qed

definition next_number :: "ctcp_segment \<Rightarrow> int" where
  \<comment> \<open>the acknowledgement number for a segment\<close>
  "next_number g = sint (ntohl (sg_seqno g) + ucast (ntohs (sg_len g)) - word_of_nat SEG_HEADER_SIZE :: u32)"

text \<open>A data segment is delivered whatever its sequence number and its checksum.\<close>

lemma old_receive_data:
  assumes inv: "old_inv (st, s)" and g: "seg_ok g" "sg_data g \<noteq> []"
  shows "\<exists>k c s'. old_receive (st, s) g (word_of_nat (length (seg_bytes g))) =
      Inr (Running (st\<lparr>oc_lastreceived := Some g, oc_recv_ack := next_number g, oc_conn := c\<rparr>, s')) \<and>
    old_inv (st\<lparr>oc_lastreceived := Some g, oc_recv_ack := next_number g, oc_conn := c\<rparr>, s') \<and>
    segments_out s' = segments_out s @ [seg_bytes k] \<and> seg_ok k \<and> sg_data k = [] \<and> sg_flags k = TH_ACK \<and>
    ntohl (sg_ackno k) = word_of_int (next_number g) \<and>
    (can_write (oc_conn st) (length (sg_data g)) \<longrightarrow>
      delivered c s' = delivered (oc_conn st) s @ sg_data g \<or> wrote_err c)"
proof -
  have D: "\<not> delete_me (oc_conn st)" "oc_buf_len st = 0" using inv by (simp_all add: old_inv_def)
  let ?st = "st\<lparr>oc_lastreceived := Some g, oc_recv_ack := next_number g\<rparr>" and ?n = "length (sg_data g)"
  obtain k where k: "old_makeseg_send (?st, s) OLD_SEND_ACK = Inr (Running (?st, s\<lparr>seg_count := Suc (seg_count s),
      segments_out := segments_out s @ [seg_bytes k]\<rparr>))"
      "seg_ok k" "sg_data k = []" "sg_flags k = TH_ACK" "ntohl (sg_ackno k) = word_of_int (next_number g)"
    using old_reply_ok(1) [of ?st s] D by auto
  let ?s = "s\<lparr>seg_count := Suc (seg_count s), segments_out := segments_out s @ [seg_bytes k]\<rparr>"
  let ?m = "min (conn_bufspace (oc_conn st)) ?n"
  obtain r c s' where o: "conn_output (oc_conn st) ?s (sg_data g) ?m = Inr (r, c, s')" "\<not> delete_me c"
    using conn_output_total [OF D(1), of ?m "sg_data g"] by (metis min.cobounded2)
  have "old_output (?st, ?s) = Inr (?st\<lparr>oc_conn := c\<rparr>, s')"
    using o(1) output_size [OF g(1), of "oc_conn st"] by (simp add: old_output_def Let_def)
  then have run: "old_receive (st, s) g (word_of_nat (length (seg_bytes g))) = Inr (Running (?st\<lparr>oc_conn := c\<rparr>, s'))"
    using no_payload_iff [OF g(1)] g(2) k(1) by (simp add: old_receive_def next_number_def Let_def)
  have "old_inv (?st\<lparr>oc_conn := c\<rparr>, s')"
    using inv o(2) conn_output_clock [OF o(1)] by (simp add: old_inv_def)
  moreover have "delivered c s' = delivered (oc_conn st) s @ sg_data g \<or> wrote_err c"
    if "can_write (oc_conn st) ?n"
  proof -
    have m: "?m = ?n" "0 < ?n" "?n \<le> conn_bufspace (oc_conn st)" "\<not> wrote_eof (oc_conn st)"
      using that g(2) by (simp_all add: can_write_def)
    show ?thesis
      using conn_output_delivers [OF D(1) m(4,2) order_refl m(3)] o(1) unfolding m(1) by (fastforce simp: delivered_def)
  qed
  ultimately show ?thesis
    using run k(2-5) conn_output_segments [OF o(1)]
    by (intro exI [of _ k] exI [of _ c] exI [of _ s']) simp
qed

lemma old_receive_control:
  assumes inv: "old_inv (st, s)" and g: "seg_ok g" "sg_data g = []"
  defines "r \<equiv> old_receive (st, s) g (word_of_nat (length (seg_bytes g)))"
  shows "r = Inl NullDeref \<and> oc_last_seg_sent st = None \<and> sg_flags g AND TH_ACK \<noteq> 0 \<or>
    r = Inr (Destroyed (conn_remove (oc_conn st)) s) \<or>
    (\<exists>st'. r = Inr (Running (st', s)) \<and> old_inv (st', s) \<and>
      (st' = st \<or> st' = st\<lparr>oc_send_seq := sint (ntohl (sg_ackno g))\<rparr> \<or>
       st' = st\<lparr>oc_send_seq := sint (ntohl (sg_ackno g)), oc_max_seg_acked := oc_last_seg_sent st, oc_lastsent_timeout := -1,
         oc_retransmit_counter := 0\<rparr>))"
proof -
  let ?q = "sint (ntohl (sg_ackno g))"
  let ?w = "st\<lparr>oc_send_seq := ?q\<rparr>"
  let ?c = "?w\<lparr>oc_max_seg_acked := oc_last_seg_sent st, oc_lastsent_timeout := -1, oc_retransmit_counter := 0\<rparr>"
  have np: "no_payload (word_of_nat (length (seg_bytes g)))" using no_payload_iff [OF g(1)] g(2) by simp
  have inv': "old_inv (?w, s)" "old_inv (?c, s)" using inv by (simp_all add: old_inv_def in_step_def)
  have ack: "old_receive_ack st g = Inl NullDeref \<and> oc_last_seg_sent st = None \<or>
      old_receive_ack st g = Inr (True, ?c) \<or> old_receive_ack st g = Inr (False, ?w)"
    by (cases "oc_last_seg_sent st") (simp_all add: old_receive_ack_def Let_def)
  have r: "r = rbind (if sg_flags g AND TH_ACK \<noteq> 0 then old_receive_ack st g else Inr (True, st)) (\<lambda>(go_on, st).
      if \<not> go_on then Inr (Running (st, s))
      else if sg_flags g AND TH_FIN \<noteq> 0 then Inr (old_destroy (st, s)) else Inr (Running (st, s)))"
    by (simp only: r_def old_receive_def Let_def prod.case np simp_thms if_False)
  show ?thesis
  proof (cases "sg_flags g AND TH_ACK \<noteq> 0")
    case True
    then show ?thesis using ack inv' unfolding r by (elim disjE) (simp_all add: old_destroy_def)
  next
    case False
    then show ?thesis using inv unfolding r by (simp add: old_destroy_def)
  qed
qed

lemma old_timer_cases:
  assumes inv: "old_inv (st, s)"
  shows "old_timer (st, s) = Inr (Running (st, s)) \<or> old_timer (st, s) = Inr (Destroyed (conn_remove (oc_conn st)) s) \<or>
    (\<exists>i. oc_last_seg_sent st = Some i \<and> \<not> idle st \<and>
      old_timer (st, s) = Inr (Running (st\<lparr>oc_retransmit_counter := oc_retransmit_counter st + 1,
        oc_lastsent_timeout := clock s\<rparr>, s\<lparr>segments_out := segments_out s @ [seg_bytes (oc_segments st ! i)]\<rparr>)))"
proof (cases "oc_lastsent_timeout st \<noteq> -1 \<and> clock s - oc_lastsent_timeout st > 1000 \<and> oc_retransmit_counter st < 5")
  case True
  have p: "in_step (length (oc_segments st)) (oc_last_seg_sent st) (oc_max_seg_acked st) (oc_lastsent_timeout st)"
    using inv by (simp add: old_inv_def)
  obtain i where i: "oc_last_seg_sent st = Some i" "i < length (oc_segments st)" "\<not> idle st"
    using in_step_timer [OF p] True by (auto simp: idle_def)
  have "\<not> delete_me (oc_conn st)" "seg_ok (oc_segments st ! i)"
    using inv nth_mem [OF i(2)] by (auto simp: old_inv_def)
  then show ?thesis
    using True i transmit_ok [of "st\<lparr>oc_retransmit_counter := oc_retransmit_counter st + 1, oc_lastsent_timeout := clock s\<rparr>"]
    by (simp add: old_timer_def old_send_data_def)
qed (auto simp: old_timer_def old_destroy_def)

inductive old_step :: "old_tcp \<Rightarrow> old_tcp \<Rightarrow> bool" where
  read: "run_program s \<or> unix_socket s \<Longrightarrow> old_read (st, s) = Inr (Running t) \<Longrightarrow> old_step (st, s) t"
| receive: "seg_ok g \<Longrightarrow> old_receive (st, s) g (word_of_nat (length (seg_bytes g))) = Inr (Running t) \<Longrightarrow> old_step (st, s) t"
| timer: "old_timer t = Inr (Running t') \<Longrightarrow> old_step t t'"
| drain: "conn_drain (oc_conn st) s = (outputted, c, s') \<Longrightarrow> old_step (st, s) (st\<lparr>oc_conn := c\<rparr>, s')"
| environment: "0 \<le> clock s' \<Longrightarrow> old_step (st, s) (st, s')"

inductive old_reachable :: "old_tcp \<Rightarrow> bool" where
  init: "old_init s (Some c) cfg = Some st \<Longrightarrow> \<not> delete_me c \<Longrightarrow> 0 \<le> clock s \<Longrightarrow> old_reachable (st, s)"
| step: "old_reachable t \<Longrightarrow> old_step t t' \<Longrightarrow> old_reachable t'"

lemma old_timer_inv: "old_inv t \<Longrightarrow> old_timer t = Inr (Running t') \<Longrightarrow> old_inv t'"
  using old_timer_cases [of "fst t" "snd t"] by (auto simp: old_inv_def in_step_def idle_def split: if_splits)

lemma old_step_inv: "old_step t t' \<Longrightarrow> old_inv t \<Longrightarrow> old_inv t'"
proof (induction rule: old_step.induct)
  case (read s st t)
  then show ?case using old_read_cases [of st s] by auto
next
  case (receive g st s t)
  then show ?case
    using old_receive_data [of st s g] old_receive_control [of st s g] by (cases "sg_data g = []") auto
next
  case (timer t t')
  then show ?case using old_timer_inv by blast
next
  case (drain st s outputted c s')
  then show ?case using conn_drain_quiet [OF drain.hyps] by (simp add: old_inv_def)
next
  case (environment s' st s)
  then show ?case by (simp add: old_inv_def)
qed

lemma old_init_inv: "old_init s (Some c) cfg = Some st \<Longrightarrow> \<not> delete_me c \<Longrightarrow> 0 \<le> clock s \<Longrightarrow> old_inv (st, s)"
  by (auto simp: old_init_def old_inv_def in_step_def count_def)

lemma old_reachable_inv: "old_reachable t \<Longrightarrow> old_inv t"
  by (induction rule: old_reachable.induct) (blast intro: old_step_inv old_init_inv)+

section \<open>Stop and wait\<close>

lemma old_read_ready:
  assumes inv: "old_inv (st, s)" and r: "input_ready s (int MAX_SEG_DATA_SIZE) d" "\<not> read_eof (oc_conn st)"
  shows "\<exists>st' s' g. old_read (st, s) = Inr (Running (st', s')) \<and> old_inv (st', s') \<and> seg_ok g \<and> sg_data g = d \<and>
    ntohl (sg_seqno g) = word_of_int (oc_send_seq st) \<and> oc_segments st' = oc_segments st @ [g] \<and> \<not> idle st' \<and>
    (idle st \<longrightarrow> oc_last_seg_sent st' = Some (count (oc_last_seg_sent st))) \<and>
    segments_out s' = segments_out s @
      (if idle st then [seg_bytes (oc_segments st' ! count (oc_last_seg_sent st))] else [])"
proof -
  have D: "\<not> delete_me (oc_conn st)" "length (oc_buf st) = 1500" using inv by (simp_all add: old_inv_def)
  have d: "length d \<le> MAX_SEG_DATA_SIZE" "run_program s \<or> unix_socket s" using r(1) by (auto simp: input_ready_def)
  have buf: "nat (int MAX_SEG_DATA_SIZE) \<le> length (oc_buf st)" using D(2) by (simp add: MAX_SEG_DATA_SIZE_def)
  have i: "conn_input (oc_conn st) s (oc_buf st) MAX_SEG_DATA_SIZE =
      Inr (int (length d), put (oc_buf st) 0 d, oc_conn st, s\<lparr>reads := tl (reads s)\<rparr>)"
    using conn_input_ready [OF r(1) D(1) r(2) buf] by simp
  have "length d \<le> length (oc_buf st)" using d(1) D(2) by (simp add: MAX_SEG_DATA_SIZE_def)
  then have "take (length d) (put (oc_buf st) 0 d) = d" "length (put (oc_buf st) 0 d) = 1500"
    using D(2) by (simp_all add: put_append)
  from old_read_data [OF inv d(2) i d(1) this(2) D(1), unfolded this(1)] obtain st' s' g where
      "old_read (st, s) = Inr (Running (st', s'))" "old_inv (st', s')" "seg_ok g" "sg_data g = d"
      "ntohl (sg_seqno g) = word_of_int (oc_send_seq st)" "oc_segments st' = oc_segments st @ [g]" "\<not> idle st'"
      "if idle st then oc_last_seg_sent st' = Some (count (oc_last_seg_sent st)) \<and>
         segments_out s' = segments_out s @ [seg_bytes (oc_segments st' ! count (oc_last_seg_sent st))]
       else oc_last_seg_sent st' = oc_last_seg_sent st \<and> segments_out s' = segments_out s"
    by blast
  then show ?thesis by (intro exI [of _ st'] exI [of _ s'] exI [of _ g]) (cases "idle st"; simp)
qed

text \<open>
  C31: the sender of \<open>oldctcp.c\<close> stops and waits: in every state it can reach, all segments but the last one sent are
  acknowledged, and the retransmission timer runs exactly when that one is not.  Input is queued, and transmits
  the next segment of the queue only when nothing is outstanding; segments without data, acknowledgements among them,
  never make it send anything, so what was queued meanwhile waits for the next input.
\<close>

theorem stop_and_wait:
  assumes "old_reachable (st, s)"
  shows "count (oc_last_seg_sent st) \<le> length (oc_segments st) \<and>
    count (oc_last_seg_sent st) = count (oc_max_seg_acked st) + (if oc_lastsent_timeout st = -1 then 0 else 1) \<and>
    (\<forall>d. input_ready s (int MAX_SEG_DATA_SIZE) d \<and> \<not> read_eof (oc_conn st) \<longrightarrow>
      (\<exists>st' s' g. old_read (st, s) = Inr (Running (st', s')) \<and> sg_data g = d \<and> oc_segments st' = oc_segments st @ [g] \<and>
        segments_out s' = segments_out s @
          (if count (oc_last_seg_sent st) = count (oc_max_seg_acked st)
           then [seg_bytes (oc_segments st' ! count (oc_last_seg_sent st))] else []))) \<and>
    (\<forall>g st' s'. seg_ok g \<and> sg_data g = [] \<and>
      old_receive (st, s) g (word_of_nat (length (seg_bytes g))) = Inr (Running (st', s')) \<longrightarrow> s' = s)"
proof -
  have inv: "old_inv (st, s)" using old_reachable_inv [OF assms] .
  have p: "in_step (length (oc_segments st)) (oc_last_seg_sent st) (oc_max_seg_acked st) (oc_lastsent_timeout st)"
    using inv by (simp add: old_inv_def)
  then have q: "count (oc_last_seg_sent st) \<le> length (oc_segments st)"
    "count (oc_last_seg_sent st) = count (oc_max_seg_acked st) + (if oc_lastsent_timeout st = -1 then 0 else 1)"
    by (auto simp: in_step_def)
  then have idle: "idle st \<longleftrightarrow> count (oc_last_seg_sent st) = count (oc_max_seg_acked st)"
    using old_inv_idle [OF inv] by (auto split: if_splits)
  have "\<exists>st' s' g. old_read (st, s) = Inr (Running (st', s')) \<and> sg_data g = d \<and> oc_segments st' = oc_segments st @ [g] \<and>
      segments_out s' = segments_out s @ (if count (oc_last_seg_sent st) = count (oc_max_seg_acked st)
        then [seg_bytes (oc_segments st' ! count (oc_last_seg_sent st))] else [])"
    if "input_ready s (int MAX_SEG_DATA_SIZE) d \<and> \<not> read_eof (oc_conn st)" for d
    using old_read_ready [OF inv] that unfolding idle by blast
  moreover have "s' = s" if "seg_ok g" "sg_data g = []"
      "old_receive (st, s) g (word_of_nat (length (seg_bytes g))) = Inr (Running (st', s'))" for g st' s'
    using old_receive_control [OF inv that(1,2)] unfolding that(3) by auto
  ultimately show ?thesis using q by blast
qed

definition old_fresh :: old_state where
  "old_fresh = the (old_init example_sys (Some example_conn) example_config)"

lemma old_fresh_reachable: "old_reachable (old_fresh, example_sys\<lparr>reads := rs\<rparr>)"
proof -
  have "old_reachable (old_fresh, example_sys)"
    by (rule old_reachable.init [where c = example_conn and cfg = example_config])
       (simp_all add: old_fresh_def old_init_def example_conn_def example_sys_def)
  from old_reachable.step [OF this old_step.environment] show ?thesis by (simp add: example_sys_def)
qed

lemma example_ready:
  "input_ready (example_sys\<lparr>reads := [Got [104, 105]]\<rparr>) (int MAX_SEG_DATA_SIZE) [104, 105]" "\<not> read_eof (oc_conn old_fresh)"
  by (simp_all add: input_ready_def example_sys_def MAX_SEG_DATA_SIZE_def old_fresh_def old_init_def example_conn_def)

lemma stop_and_wait_witness:
  "\<exists>st' s' g. old_read (old_fresh, example_sys\<lparr>reads := [Got [104, 105]]\<rparr>) = Inr (Running (st', s')) \<and>
     sg_data g = [104, 105] \<and> segments_out s' = [seg_bytes g]"
proof -
  have "oc_segments old_fresh = []" "count (oc_last_seg_sent old_fresh) = 0" "count (oc_max_seg_acked old_fresh) = 0"
    "segments_out (example_sys\<lparr>reads := [Got [104, 105]]\<rparr>) = []"
    by (simp_all add: old_fresh_def old_init_def count_def example_sys_def)
  then show ?thesis
    using stop_and_wait [OF old_fresh_reachable, of "[Got [104, 105]]"] example_ready by fastforce
qed

section \<open>A round, and a repetition\<close>

lemma segment_numbers:
  assumes "seg_ok g" "ntohl (sg_seqno g) = word_of_int a" "0 \<le> a" "a + int (length (sg_data g)) < 2 ^ 31"
  shows "next_number g = a + int (length (sg_data g))" "confirms (a + int (length (sg_data g))) g"
proof -
  let ?n = "int (length (sg_data g))"
  have u: "(ucast (ntohs (sg_len g)) :: u32) = word_of_int (20 + ?n)"
    using assms(1) by (metis of_int_of_nat_eq of_nat_add of_nat_numeral of_nat_unat seg_ok_def)
  then have "ntohl (sg_seqno g) + ucast (ntohs (sg_len g)) - word_of_nat SEG_HEADER_SIZE = (word_of_int (a + ?n) :: u32)"
    using assms(2) by (simp add: SEG_HEADER_SIZE_def)
  then show "next_number g = a + ?n"
    using sint_word_of_int_small [of "a + ?n"] assms(3,4) unfolding next_number_def by simp
  have widen: "(ucast (word_of_int b :: u32) :: u64) = word_of_int b" if "0 \<le> b" "b < 2 ^ 32" for b
    using that by (intro word_uint_eqI) (simp add: unsigned_ucast_eq uint_word_of_int take_bit_int_eq_self_iff)
  have "(ucast (word_of_int (a + (20 + ?n)) :: u32) :: u64) = word_of_int (a + (20 + ?n))"
    using assms(3,4) by (intro widen) auto
  moreover have "ntohl (sg_seqno g) + ucast (ntohs (sg_len g)) = (word_of_int (a + (20 + ?n)) :: u32)"
    using assms(2) u by simp
  ultimately show "confirms (a + ?n) g"
    unfolding confirms_def SEG_HEADER_SIZE_def by (simp only:) simp
qed

lemma old_ack_received:
  assumes inv: "old_inv (st, s)" and k: "seg_ok k" "sg_data k = []" "sg_flags k = TH_ACK" "ntohl (sg_ackno k) = word_of_int a"
    and i: "oc_last_seg_sent st = Some i" "confirms a (oc_segments st ! i)" "0 \<le> a" "a < 2 ^ 31"
  shows "\<exists>st'. old_receive (st, s) k (word_of_nat (length (seg_bytes k))) = Inr (Running (st', s)) \<and> idle st' \<and>
    oc_lastsent_timeout st' = -1 \<and> oc_send_seq st' = a"
proof -
  have np: "no_payload (word_of_nat (length (seg_bytes k)))" using no_payload_iff [OF k(1)] k(2) by simp
  have fl: "sg_flags k AND TH_ACK \<noteq> 0" "\<not> sg_flags k AND TH_FIN \<noteq> 0" using k(3) by (simp_all add: TH_ACK_def TH_FIN_def)
  let ?st = "st\<lparr>oc_send_seq := a, oc_max_seg_acked := Some i, oc_lastsent_timeout := -1, oc_retransmit_counter := 0\<rparr>"
  have "sint (ntohl (sg_ackno k)) = a" using k(4) sint_word_of_int_small i(3,4) by simp
  then have "old_receive_ack st k = Inr (True, ?st)" using i(1,2) by (simp add: old_receive_ack_def Let_def)
  then have "old_receive (st, s) k (word_of_nat (length (seg_bytes k))) = Inr (Running (?st, s))"
    by (simp only: old_receive_def Let_def prod.case np fl simp_thms if_True if_False rbind_simps)
  then show ?thesis using i(1) by (intro exI [of _ ?st]) (simp add: idle_def)
qed

text \<open>
  One round of the old protocol: when nothing is outstanding or queued, input is sent as one segment; a receiver in any
  state takes a copy of it, delivers its data and sends one acknowledgement; and a copy of that stops the sender's timer and
  frees it for the next segment, whose number is the acknowledged one.
\<close>

theorem old_transfer:
  assumes a: "old_reachable (sa, pa)" "idle sa" "count (oc_last_seg_sent sa) = length (oc_segments sa)"
      "input_ready pa (int MAX_SEG_DATA_SIZE) d" "\<not> read_eof (oc_conn sa)" "0 \<le> oc_send_seq sa" "oc_send_seq sa < 2 ^ 31 - 1440"
    and b: "old_reachable (sb, pb)" "can_write (oc_conn sb) (length d)"
  shows "\<exists>sa' pa' g. old_read (sa, pa) = Inr (Running (sa', pa')) \<and> segments_out pa' = segments_out pa @ [seg_bytes g] \<and>
    (\<forall>g'. faithful g g' \<longrightarrow>
      (\<exists>sb' pb' k. old_receive (sb, pb) g' (word_of_nat (length (seg_bytes g'))) = Inr (Running (sb', pb')) \<and>
        (delivered (oc_conn sb') pb' = delivered (oc_conn sb) pb @ d \<or> wrote_err (oc_conn sb')) \<and>
        segments_out pb' = segments_out pb @ [seg_bytes k] \<and>
        (\<forall>k'. faithful k k' \<longrightarrow>
          (\<exists>sa''. old_receive (sa', pa') k' (word_of_nat (length (seg_bytes k'))) = Inr (Running (sa'', pa')) \<and>
             idle sa'' \<and> oc_lastsent_timeout sa'' = -1 \<and> oc_send_seq sa'' = oc_recv_ack sb'))))"
proof -
  have inv: "old_inv (sa, pa)" "old_inv (sb, pb)" using old_reachable_inv a(1) b(1) by auto
  obtain sa' pa' g where read: "old_read (sa, pa) = Inr (Running (sa', pa'))" "old_inv (sa', pa')" "seg_ok g" "sg_data g = d"
      "ntohl (sg_seqno g) = word_of_int (oc_send_seq sa)" "oc_segments sa' = oc_segments sa @ [g]"
      "oc_last_seg_sent sa' = Some (length (oc_segments sa))" "segments_out pa' = segments_out pa @ [seg_bytes g]"
    using old_read_ready [OF inv(1) a(4,5)] a(2,3) by auto
  have d: "d \<noteq> []" "length d \<le> 1440" using a(4) by (auto simp: input_ready_def MAX_SEG_DATA_SIZE_def)
  let ?a = "oc_send_seq sa + int (length d)"
  have range: "oc_send_seq sa + int (length (sg_data g)) < 2 ^ 31" "0 \<le> ?a" "?a < 2 ^ 31" using a(6,7) d(2) read(4) by auto
  note N = segment_numbers [OF read(3,5) a(6) range(1), unfolded read(4)]
  have "\<exists>sb' pb' k. old_receive (sb, pb) g' (word_of_nat (length (seg_bytes g'))) = Inr (Running (sb', pb')) \<and>
        (delivered (oc_conn sb') pb' = delivered (oc_conn sb) pb @ d \<or> wrote_err (oc_conn sb')) \<and>
        segments_out pb' = segments_out pb @ [seg_bytes k] \<and>
        (\<forall>k'. faithful k k' \<longrightarrow>
          (\<exists>sa''. old_receive (sa', pa') k' (word_of_nat (length (seg_bytes k'))) = Inr (Running (sa'', pa')) \<and>
             idle sa'' \<and> oc_lastsent_timeout sa'' = -1 \<and> oc_send_seq sa'' = oc_recv_ack sb'))"
    if same: "faithful g g'" for g'
  proof -
    note im = faithfulD [OF same]
    have num: "next_number g' = ?a" using N(1) same by (simp add: next_number_def faithful_def)
    have g': "seg_ok g'" "sg_data g' \<noteq> []" using im read(3,4) d(1) by simp_all
    obtain k c s' where k: "old_receive (sb, pb) g' (word_of_nat (length (seg_bytes g'))) =
        Inr (Running (sb\<lparr>oc_lastreceived := Some g', oc_recv_ack := ?a, oc_conn := c\<rparr>, s'))"
        "segments_out s' = segments_out pb @ [seg_bytes k]" "seg_ok k" "sg_data k = []" "sg_flags k = TH_ACK"
        "ntohl (sg_ackno k) = word_of_int ?a" "delivered c s' = delivered (oc_conn sb) pb @ d \<or> wrote_err c"
      using old_receive_data [OF inv(2) g'] b(2) im(3) read(4) unfolding num by auto
    have "\<exists>sa''. old_receive (sa', pa') k' (word_of_nat (length (seg_bytes k'))) = Inr (Running (sa'', pa')) \<and>
        idle sa'' \<and> oc_lastsent_timeout sa'' = -1 \<and> oc_send_seq sa'' = ?a" if "faithful k k'" for k'
      using old_ack_received [OF read(2) _ _ _ _ read(7) _ range(2,3), of k'] faithfulD [OF that] k(3-6) N(2) read(6)
      by simp
    then show ?thesis
      using k(1,2,7)
      by (intro exI [of _ "sb\<lparr>oc_lastreceived := Some g', oc_recv_ack := ?a, oc_conn := c\<rparr>"] exI [of _ s'] exI [of _ k]) simp
  qed
  then show ?thesis using read(1,8) by blast
qed

lemma old_transfer_witness:
  "\<exists>sa' pa' g. old_read (old_fresh, example_sys\<lparr>reads := [Got [104, 105]]\<rparr>) = Inr (Running (sa', pa')) \<and>
     (\<exists>sb' pb'. old_receive (old_fresh, example_sys\<lparr>reads := []\<rparr>) g (word_of_nat (length (seg_bytes g))) =
        Inr (Running (sb', pb')) \<and> (delivered (oc_conn sb') pb' = [104, 105] \<or> wrote_err (oc_conn sb')))"
proof -
  have c: "oc_conn old_fresh = example_conn" "idle old_fresh" "oc_send_seq old_fresh = 1"
    "count (oc_last_seg_sent old_fresh) = length (oc_segments old_fresh)" "delivered example_conn (example_sys\<lparr>reads := []\<rparr>) = []"
    by (simp_all add: old_fresh_def old_init_def idle_def count_def delivered_def example_conn_def example_sys_def)
  have n: "0 \<le> oc_send_seq old_fresh" "oc_send_seq old_fresh < 2 ^ 31 - 1440" using c(3) by simp_all
  have w: "can_write (oc_conn old_fresh) (length [104, 105 :: byte])"
    using example_expected(2) c(1) by (simp add: numeral_2_eq_2)
  obtain sa' pa' g where t: "old_read (old_fresh, example_sys\<lparr>reads := [Got [104, 105]]\<rparr>) = Inr (Running (sa', pa'))"
      "\<And>g'. faithful g g' \<Longrightarrow>
        \<exists>sb' pb'. old_receive (old_fresh, example_sys\<lparr>reads := []\<rparr>) g' (word_of_nat (length (seg_bytes g'))) =
          Inr (Running (sb', pb')) \<and>
          (delivered (oc_conn sb') pb' = delivered (oc_conn old_fresh) (example_sys\<lparr>reads := []\<rparr>) @ [104, 105] \<or>
           wrote_err (oc_conn sb'))"
    using old_transfer [OF old_fresh_reachable c(2,4) example_ready n old_fresh_reachable w, of "[]"] by meson
  show ?thesis using t(1) t(2) [OF faithful_refl] c(1,5) by auto
qed

text \<open>
  The receiver of \<open>oldctcp.c\<close> looks neither at the sequence number nor at the checksum (the test is commented out): it
  delivers the data of every segment that has some, so a segment that was retransmitted because its acknowledgement was
  lost is delivered twice, and a corrupted one is delivered as it is.
\<close>

theorem old_delivers_everything:
  assumes "old_reachable (st, s)" "seg_ok g" "sg_data g \<noteq> []" "can_write (oc_conn st) (length (sg_data g))"
  shows "\<exists>st' s'. old_receive (st, s) g (word_of_nat (length (seg_bytes g))) = Inr (Running (st', s')) \<and>
    (delivered (oc_conn st') s' = delivered (oc_conn st) s @ sg_data g \<or> wrote_err (oc_conn st')) \<and>
    (can_write (oc_conn st') (length (sg_data g)) \<longrightarrow>
      (\<exists>st'' s''. old_receive (st', s') g (word_of_nat (length (seg_bytes g))) = Inr (Running (st'', s'')) \<and>
        (delivered (oc_conn st'') s'' = delivered (oc_conn st) s @ sg_data g @ sg_data g \<or> wrote_err (oc_conn st''))))"
proof -
  have inv: "old_inv (st, s)" using old_reachable_inv [OF assms(1)] .
  obtain st' s' where 1: "old_receive (st, s) g (word_of_nat (length (seg_bytes g))) = Inr (Running (st', s'))" "old_inv (st', s')"
      "delivered (oc_conn st') s' = delivered (oc_conn st) s @ sg_data g \<or> wrote_err (oc_conn st')"
    using old_receive_data [OF inv assms(2,3)] assms(4) by fastforce
  have "\<exists>st'' s''. old_receive (st', s') g (word_of_nat (length (seg_bytes g))) = Inr (Running (st'', s'')) \<and>
      (delivered (oc_conn st'') s'' = delivered (oc_conn st') s' @ sg_data g \<or> wrote_err (oc_conn st''))"
    if "can_write (oc_conn st') (length (sg_data g))"
    using old_receive_data [OF 1(2) assms(2,3)] that by fastforce
  moreover have "\<not> wrote_err (oc_conn st')" if "can_write (oc_conn st') (length (sg_data g))"
    using that by (simp add: can_write_def)
  ultimately show ?thesis using 1 by (intro exI [of _ st'] exI [of _ s']) auto
qed

lemma old_delivers_everything_witness:
  "\<exists>st' s'. old_receive (old_fresh, example_sys\<lparr>reads := []\<rparr>) (example_data\<lparr>sg_cksum := 0\<rparr>)
     (word_of_nat (length (seg_bytes (example_data\<lparr>sg_cksum := 0\<rparr>)))) = Inr (Running (st', s')) \<and>
     (delivered (oc_conn st') s' = [104, 105] \<or> wrote_err (oc_conn st'))"
proof -
  have c: "oc_conn old_fresh = example_conn" "delivered example_conn (example_sys\<lparr>reads := []\<rparr>) = []"
    by (simp_all add: old_fresh_def old_init_def delivered_def example_conn_def example_sys_def)
  have "can_write (oc_conn old_fresh) (length (sg_data (example_data\<lparr>sg_cksum := 0\<rparr>)))"
    using example_expected(2) c(1) by (simp add: numeral_2_eq_2)
  from old_delivers_everything [OF old_fresh_reachable _ _ this, of "[]"] show ?thesis using c by auto
qed

end
