(* ===== verification/Early_Window.thy ===== *)
theory Early_Window
  imports Stop_Wait
begin

text \<open>
  The first version with windows, \<open>cpctcp.c\<close>: up to \<open>send_win_size\<close> segments at the front of the queue are
  transmitted, and all of them again when the timer runs out.  The receiver keeps every segment it took.  Segments,
  connections and the process are those of \<open>Ctcp\<close>; printing is left out, and so are the fields that are only set.
\<close>

section \<open>State\<close>

datatype cp_mode = CP_SEND_DATA | CP_SEND_FIN | CP_SEND_ACK | CP_SEND_FIN_ACK

record cp_state =
  cp_conn :: conn
  cp_send_segments :: "ctcp_segment list"
  cp_recv_segments :: "ctcp_segment list"
  cp_buf :: "byte list"
  cp_buf_len :: int
  cp_send_win_size :: int
  cp_send_seq :: int
  cp_lastsent_timeout :: int
  cp_timeout_standard :: int
  cp_retransmit_counter :: int
  cp_recv_win_size :: int
  cp_recv_ack :: int

type_synonym cp_tcp = "cp_state \<times> sys"

datatype cp_outcome = Cp_running cp_tcp | Cp_destroyed conn sys
  \<comment> \<open>after \<open>ctcp_destroy\<close> the connection waits for its removal\<close>

definition cp_init :: "sys \<Rightarrow> conn option \<Rightarrow> ctcp_config \<Rightarrow> cp_state option" where
  "cp_init s conn cfg =
     (case conn of None \<Rightarrow> None
      | Some c \<Rightarrow> Some
          \<lparr>cp_conn = c, cp_send_segments = [], cp_recv_segments = [],
           cp_buf = map (\<lambda>i. lo16 (junk_pad s (seg_count s + i))) [0..<1500], cp_buf_len = 0,
           cp_send_win_size = int (unat (cfg_send_window cfg)) div int MAX_SEG_DATA_SIZE, cp_send_seq = 1,
           cp_lastsent_timeout = -1, cp_timeout_standard = cfg_rt_timeout cfg, cp_retransmit_counter = 0,
           cp_recv_win_size = int (unat (cfg_recv_window cfg)) div int MAX_SEG_DATA_SIZE, cp_recv_ack = 1\<rparr>)"

definition cp_destroy :: "cp_tcp \<Rightarrow> cp_outcome" where
  "cp_destroy t = Cp_destroyed (conn_remove (cp_conn (fst t))) (snd t)"

section \<open>Sending\<close>

fun cp_send_loop ::
  "conn \<Rightarrow> int \<Rightarrow> bool \<Rightarrow> nat \<Rightarrow> ctcp_segment list \<Rightarrow> sys \<Rightarrow> (bool \<times> ctcp_segment list \<times> sys) res" where
  \<comment> \<open>the loop of \<open>ctcp_send_data\<close> over the front of the queue; the flag says that something was transmitted\<close>
  "cp_send_loop c ackno resend 0 gs s = Inr (False, gs, s)"
| "cp_send_loop c ackno resend (Suc n) [] s = Inr (False, [], s)"
| "cp_send_loop c ackno resend (Suc n) (g # gs) s =
     (if sg_cksum g = htons 0 then
        let g = g\<lparr>sg_ackno := htonl (word_of_int ackno)\<rparr> in
        rbind (seg_cksum g (ntohs (sg_len g))) (\<lambda>k.
        let g = g\<lparr>sg_cksum := k\<rparr> in
        rbind (conn_send c s (seg_bytes g) (unat (ntohs (sg_len g)))) (\<lambda>s.
        rbind (cp_send_loop c ackno resend n gs s) (\<lambda>(_, gs, s). Inr (True, g # gs, s))))
      else if resend then
        let g = g\<lparr>sg_cksum := htons 0\<rparr>; g = g\<lparr>sg_ackno := htonl (word_of_int ackno)\<rparr> in
        rbind (seg_cksum g (ntohs (sg_len g))) (\<lambda>k.
        let g = g\<lparr>sg_cksum := k\<rparr> in
        rbind (conn_send c s (seg_bytes g) (unat (ntohs (sg_len g)))) (\<lambda>s.
        rbind (cp_send_loop c ackno resend n gs s) (\<lambda>(_, gs, s). Inr (True, g # gs, s))))
      else rbind (cp_send_loop c ackno resend n gs s) (\<lambda>(b, gs, s). Inr (b, g # gs, s)))"

definition cp_send_data :: "cp_tcp \<Rightarrow> bool \<Rightarrow> cp_tcp res" where
  "cp_send_data t resend =
     (let (st, s) = t in
      rbind (cp_send_loop (cp_conn st) (cp_recv_ack st) resend (nat (cp_send_win_size st)) (cp_send_segments st) s)
        (\<lambda>(any, gs, s).
      let st = st\<lparr>cp_send_segments := gs\<rparr>
      in Inr (if any then st\<lparr>cp_lastsent_timeout := clock s\<rparr> else st, s)))"

definition cp_segment :: "cp_tcp \<Rightarrow> ctcp_segment \<times> sys" where
  \<comment> \<open>the fields every mode sets; the data area is fresh memory\<close>
  "cp_segment t =
     (let (st, s) = t; seglen = int SEG_HEADER_SIZE + cp_buf_len st in
      (\<lparr>sg_ptr = seg_count s, sg_seqno = htonl (word_of_int (cp_send_seq st)),
        sg_ackno = htonl (word_of_int (cp_recv_ack st)), sg_len = htons (word_of_int seglen),
        sg_pad = junk_pad s (seg_count s), sg_flags = 0,
        sg_window = htons (word_of_int (int MAX_SEG_DATA_SIZE * cp_recv_win_size st)), sg_cksum = htons 0,
        sg_data = map (\<lambda>i. lo16 (junk_pad s (seg_count s + i))) [0..<nat (cp_buf_len st)]\<rparr>,
       s\<lparr>seg_count := Suc (seg_count s)\<rparr>))"

definition cp_reply_now :: "cp_tcp \<Rightarrow> ctcp_segment \<Rightarrow> cp_tcp res" where
  \<comment> \<open>the end of \<open>ctcp_makeseg_send\<close> for acknowledgements: the checksum is computed twice, the second time over the first\<close>
  "cp_reply_now t g =
     (let (st, s) = t; seglen = int SEG_HEADER_SIZE + cp_buf_len st in
      rbind (seg_cksum g (word_of_int seglen)) (\<lambda>k.
      let g = g\<lparr>sg_cksum := k\<rparr> in
      rbind (seg_cksum g (word_of_int seglen)) (\<lambda>k.
      let g = g\<lparr>sg_cksum := k\<rparr> in
      rbind (conn_send (cp_conn st) s (seg_bytes g) (nat seglen)) (\<lambda>s. Inr (st, s)))))"

definition cp_makeseg_send :: "cp_tcp \<Rightarrow> cp_mode \<Rightarrow> cp_tcp res" where
  "cp_makeseg_send t mode =
     (let (st, s) = t; (g, s) = cp_segment t in
      case mode of
        CP_SEND_DATA \<Rightarrow>
          let g = g\<lparr>sg_flags := htonl 0x018\<rparr> in
          rbind (rd (cp_buf st) 0 (nat (cp_buf_len st))) (\<lambda>d.
          let g = g\<lparr>sg_data := d\<rparr> in
          rbind (st8 (cp_buf st) 0 0) (\<lambda>buf.
          cp_send_data (st\<lparr>cp_buf := buf, cp_buf_len := 0, cp_send_segments := cp_send_segments st @ [g]\<rparr>, s) False))
      | CP_SEND_ACK \<Rightarrow> cp_reply_now (st, s) (g\<lparr>sg_flags := TH_ACK\<rparr>)
      | CP_SEND_FIN \<Rightarrow>
          let g = g\<lparr>sg_flags := TH_FIN\<rparr>
          in cp_send_data (st\<lparr>cp_send_segments := cp_send_segments st @ [g]\<rparr>, s) False
      | CP_SEND_FIN_ACK \<Rightarrow> cp_reply_now (st, s) (g\<lparr>sg_flags := htonl 0x11\<rparr>))"

section \<open>Entry points\<close>

definition cp_read :: "cp_tcp \<Rightarrow> cp_tcp res" where
  "cp_read t =
     (let (st, s) = t in
      rbind (conn_input (cp_conn st) s (cp_buf st) MAX_SEG_DATA_SIZE) (\<lambda>(r, buf, c, s).
      let st = st\<lparr>cp_conn := c, cp_buf := buf, cp_buf_len := r\<rparr> in
      if cp_buf_len st \<ge> 0 then cp_makeseg_send (st, s) CP_SEND_DATA
      else cp_makeseg_send (st\<lparr>cp_buf_len := 0\<rparr>, s) CP_SEND_FIN))"

definition cp_output :: "cp_tcp \<Rightarrow> cp_tcp res" where
  \<comment> \<open>writes the last segment of the list, which is kept\<close>
  "cp_output t =
     (let (st, s) = t in
      if cp_recv_segments st = [] then Inl NullDeref
      else
        let g = last (cp_recv_segments st);
            output_available = word_of_nat (conn_bufspace (cp_conn st)) :: u64;
            data_available = word_of_int (data_len g) :: u64;
            output_size = (if output_available < data_available then output_available else data_available)
        in rbind (conn_output (cp_conn st) s (sg_data g) (unat output_size)) (\<lambda>(_, c, s). Inr (st\<lparr>cp_conn := c\<rparr>, s)))"

definition cp_receive_data :: "cp_tcp \<Rightarrow> ctcp_segment \<Rightarrow> cp_tcp res" where
  \<comment> \<open>the branch for segments with data; a duplicate resets \<open>recv_ack\<close> to the number of the last segment, unconverted\<close>
  "cp_receive_data t g =
     (let (st, s) = t in
      if ntohl (sg_seqno g) \<noteq> word_of_int (cp_recv_ack st) then
        if cp_recv_segments st = [] then Inl NullDeref
        else cp_makeseg_send (st\<lparr>cp_recv_ack := sint (sg_seqno (last (cp_recv_segments st)))\<rparr>, s) CP_SEND_ACK
      else
        let st = st\<lparr>cp_recv_segments := cp_recv_segments st @ [g],
                   cp_recv_ack := sint (ntohl (sg_seqno g) + ucast (ntohs (sg_len g)) - word_of_nat SEG_HEADER_SIZE :: u32)\<rparr>
        in rbind (cp_makeseg_send (st, s) CP_SEND_ACK) cp_output)"

definition cp_receive_ack :: "cp_tcp \<Rightarrow> ctcp_segment \<Rightarrow> cp_tcp res" where
  \<comment> \<open>only the first segment of the queue can be acknowledged\<close>
  "cp_receive_ack t g =
     (let (st, s) = t in
      case cp_send_segments st of [] \<Rightarrow> Inl NullDeref
      | e # es \<Rightarrow>
          let st = st\<lparr>cp_send_seq := sint (ntohl (sg_ackno g))\<rparr> in
          if confirms (cp_send_seq st) e
          then Inr (st\<lparr>cp_lastsent_timeout := -1, cp_retransmit_counter := 0, cp_send_segments := es\<rparr>, s)
          else rbind (cp_send_data (st, s) False) (\<lambda>(st, s).
               Inr (st\<lparr>cp_lastsent_timeout := -1, cp_retransmit_counter := 0\<rparr>, s)))"

definition cp_receive :: "cp_tcp \<Rightarrow> ctcp_segment \<Rightarrow> u64 \<Rightarrow> cp_outcome res" where
  "cp_receive t g len =
     rbind (checksum g) (\<lambda>(good, g).
     if \<not> good then Inr (Cp_running t)
     else if \<not> no_payload len then rbind (cp_receive_data t g) (\<lambda>t. Inr (Cp_running t))
     else if sg_flags g AND TH_ACK \<noteq> 0 then rbind (cp_receive_ack t g) (\<lambda>t. Inr (Cp_running t))
     else if sg_flags g AND TH_FIN \<noteq> 0 then
       rbind (cp_makeseg_send t CP_SEND_FIN_ACK) (\<lambda>t. Inr (cp_destroy t))
     else if sg_flags g = TH_ACK AND TH_FIN then Inr (cp_destroy t)
     else Inr (Cp_running t))"

definition cp_timer :: "cp_tcp \<Rightarrow> cp_outcome res" where
  \<comment> \<open>\<open>ctcp_timer\<close> for the one state it looks at, the first of the list\<close>
  "cp_timer t =
     (let (st, s) = t in
      if cp_lastsent_timeout st \<noteq> -1 \<and> clock s - cp_lastsent_timeout st > cp_timeout_standard st then
        if cp_retransmit_counter st \<ge> 5 then Inr (cp_destroy t)
        else
          let st = st\<lparr>cp_retransmit_counter := cp_retransmit_counter st + 1, cp_lastsent_timeout := clock s\<rparr> in
          rbind (cp_send_data (st, s) True) (\<lambda>t. Inr (Cp_running t))
      else Inr (Cp_running t))"

section \<open>Sending the window\<close>

definition unsent :: "ctcp_segment \<Rightarrow> bool" where
  "unsent g \<longleftrightarrow> sg_cksum g = 0"

definition refresh :: "bool \<Rightarrow> ctcp_segment \<Rightarrow> ctcp_segment" where
  \<comment> \<open>what the loop does to a segment before it is sealed\<close>
  "refresh resend g = (if resend then g\<lparr>sg_cksum := 0\<rparr> else g)"

lemma refresh_fields [simp]:
  "seg_ok (refresh r g) = seg_ok g" "sg_data (refresh r g) = sg_data g" "sg_seqno (refresh r g) = sg_seqno g"
  "sg_len (refresh r g) = sg_len g" "sg_flags (refresh r g) = sg_flags g" "data_len (refresh r g) = data_len g"
  by (simp_all add: refresh_def)

lemma cp_send_loop_ok:
  assumes "\<not> delete_me c"
  shows "\<forall>g \<in> set gs. seg_ok g \<Longrightarrow> cp_send_loop c a r n gs s =
    Inr (\<exists>g \<in> set (take n gs). r \<or> unsent g, map (seal a \<circ> refresh r) (take n gs) @ drop n gs,
      s\<lparr>segments_out := segments_out s @ map (seg_bytes \<circ> seal a \<circ> refresh r) (filter (\<lambda>g. r \<or> unsent g) (take n gs))\<rparr>)"
proof (induction n arbitrary: gs s)
  case (Suc n)
  show ?case
  proof (cases gs)
    case (Cons g hs)
    let ?z = "refresh r g"
    let ?g = "?z\<lparr>sg_ackno := htonl (word_of_int a)\<rparr>"
    let ?k = "?g\<lparr>sg_cksum := cksum (seg_bytes ?g)\<rparr>"
    have ok: "seg_ok ?g" "seg_ok ?k" "\<forall>g \<in> set hs. seg_ok g" using Suc.prems Cons by simp_all
    note S = seg_cksum_ok [OF ok(1)] conn_send_ok [OF assms ok(2)]
    consider "unsent g" | "\<not> unsent g" "r" | "\<not> unsent g" "\<not> r" by blast
    then show ?thesis
    proof cases
      case 1
      then have "?z = g" by (simp add: refresh_def unsent_def cksum_field_zero)
      then show ?thesis
        using 1 S Suc.IH [OF ok(3)] unfolding Cons by (simp add: unsent_def seal_def Let_def)
    next
      case 2
      then show ?thesis
        using S Suc.IH [OF ok(3)] unfolding Cons by (simp add: unsent_def seal_def Let_def refresh_def) blast
    next
      case 3
      then show ?thesis
        using Suc.IH [OF ok(3)] unfolding Cons by (simp add: unsent_def seal_def Let_def refresh_def)
    qed
  qed simp
qed simp

text \<open>The transmitted segments of a queue, and the queue and the state afterwards.\<close>

definition due :: "bool \<Rightarrow> cp_state \<Rightarrow> ctcp_segment list" where
  "due r st = map (seal (cp_recv_ack st) \<circ> refresh r)
     (filter (\<lambda>g. r \<or> unsent g) (take (nat (cp_send_win_size st)) (cp_send_segments st)))"

definition after_send :: "bool \<Rightarrow> int \<Rightarrow> cp_state \<Rightarrow> cp_state" where
  "after_send r now st = st\<lparr>
     cp_send_segments := map (seal (cp_recv_ack st) \<circ> refresh r) (take (nat (cp_send_win_size st)) (cp_send_segments st)) @
       drop (nat (cp_send_win_size st)) (cp_send_segments st),
     cp_lastsent_timeout := (if due r st = [] then cp_lastsent_timeout st else now)\<rparr>"

lemma cp_send_data_ok:
  assumes "\<not> delete_me (cp_conn st)" "\<forall>g \<in> set (cp_send_segments st). seg_ok g"
  shows "cp_send_data (st, s) r = Inr (after_send r (clock s) st, s\<lparr>segments_out := segments_out s @ map seg_bytes (due r st)\<rparr>)"
  using cp_send_loop_ok [OF assms, of "cp_recv_ack st" r "nat (cp_send_win_size st)" s]
  by (auto simp: cp_send_data_def after_send_def due_def filter_empty_conv)

section \<open>The operations in a consistent state\<close>

definition windowed :: "nat \<Rightarrow> ctcp_segment list \<Rightarrow> bool" where
  \<comment> \<open>the transmitted segments stand at the front of the queue, at most \<open>n\<close> of them\<close>
  "windowed n gs \<longleftrightarrow> (\<exists>k \<le> n. (\<forall>g \<in> set (take k gs). \<not> unsent g) \<and> (\<forall>g \<in> set (drop k gs). unsent g))"

definition cp_inv :: "cp_tcp \<Rightarrow> bool" where
  "cp_inv t \<longleftrightarrow> (case t of (st, s) \<Rightarrow>
     \<not> delete_me (cp_conn st) \<and> length (cp_buf st) = 1500 \<and> cp_buf_len st = 0 \<and>
     (\<forall>g \<in> set (cp_send_segments st). seg_ok g) \<and> (\<forall>g \<in> set (cp_recv_segments st). seg_ok g) \<and>
     windowed (nat (cp_send_win_size st)) (cp_send_segments st))"

lemma windowed_Nil [simp]: "windowed n []"
  by (auto simp: windowed_def)

lemma windowed_tl: "windowed n (g # gs) \<Longrightarrow> windowed n gs"
proof -
  assume "windowed n (g # gs)"
  then obtain k where k: "k \<le> n" "\<forall>h \<in> set (take k (g # gs)). \<not> unsent h" "\<forall>h \<in> set (drop k (g # gs)). unsent h"
    by (auto simp: windowed_def)
  show ?thesis
  proof (cases k)
    case 0
    then show ?thesis using k by (auto simp: windowed_def intro: exI [of _ 0])
  next
    case (Suc j)
    then show ?thesis using k unfolding windowed_def by (intro exI [of _ j]) simp
  qed
qed

lemma windowed_sent:
  assumes "windowed n gs" "\<forall>g \<in> set gs. seg_ok g"
  shows "windowed n (map (seal a \<circ> refresh r) (take n gs) @ drop n gs)"
proof -
  obtain k where k: "k \<le> n" "\<forall>g \<in> set (drop k gs). unsent g" using assms(1) by (auto simp: windowed_def)
  have "drop n gs = drop (n - k) (drop k gs)" using k(1) by simp
  then have "\<forall>g \<in> set (drop n gs). unsent g" using k(2) in_set_dropD by metis
  moreover have "\<forall>g \<in> set (map (seal a \<circ> refresh r) (take n gs)). \<not> unsent g"
    using assms(2) seal_nonzero by (auto simp: unsent_def dest: in_set_takeD)
  ultimately show ?thesis
    unfolding windowed_def by (intro exI [of _ "min n (length gs)"]) (simp add: min_def)
qed

lemma windowed_snoc: "windowed n gs \<Longrightarrow> unsent g \<Longrightarrow> windowed n (gs @ [g])"
proof -
  assume w: "windowed n gs" and g: "unsent g"
  obtain k where k: "k \<le> n" "\<forall>h \<in> set (take k gs). \<not> unsent h" "\<forall>h \<in> set (drop k gs). unsent h"
    using w by (auto simp: windowed_def)
  show ?thesis
    unfolding windowed_def using k g
    by (intro exI [of _ "min k (length gs)"]) (auto simp: min_def split: if_splits)
qed

lemma after_send_inv:
  assumes "cp_inv (st, s)"
  shows "cp_inv (after_send r now st, s')"
proof -
  let ?n = "nat (cp_send_win_size st)" and ?gs = "cp_send_segments st"
  let ?hs = "map (seal (cp_recv_ack st) \<circ> refresh r) (take ?n ?gs) @ drop ?n ?gs"
  have a: "\<forall>g \<in> set ?gs. seg_ok g" "windowed ?n ?gs" using assms by (simp_all add: cp_inv_def)
  have "windowed ?n ?hs" by (rule windowed_sent [OF a(2,1)])
  moreover have "seg_ok h" if h: "h \<in> set ?hs" for h
  proof (cases "h \<in> set (drop ?n ?gs)")
    case True
    then show ?thesis using a(1) in_set_dropD by metis
  next
    case False
    then obtain g where "g \<in> set (take ?n ?gs)" "h = seal (cp_recv_ack st) (refresh r g)" using h by auto
    then show ?thesis using a(1) in_set_takeD by fastforce
  qed
  ultimately have "cp_inv (st\<lparr>cp_send_segments := ?hs\<rparr>, s')" using assms unfolding cp_inv_def by simp
  then show ?thesis by (simp add: cp_inv_def after_send_def)
qed

lemma after_send_fields [simp]:
  "cp_conn (after_send r now st) = cp_conn st" "cp_recv_ack (after_send r now st) = cp_recv_ack st"
  "cp_send_seq (after_send r now st) = cp_send_seq st" "cp_recv_segments (after_send r now st) = cp_recv_segments st"
  "cp_retransmit_counter (after_send r now st) = cp_retransmit_counter st"
  "cp_timeout_standard (after_send r now st) = cp_timeout_standard st"
  "cp_send_win_size (after_send r now st) = cp_send_win_size st"
  by (simp_all add: after_send_def)

text \<open>A data segment is queued with the current number, which does not move, and the window is sent.\<close>

lemma cp_segment_ok:
  assumes "cp_buf_len st = int n" "n \<le> MAX_SEG_DATA_SIZE"
  shows "seg_ok (fst (cp_segment (st, s)))" "length (sg_data (fst (cp_segment (st, s)))) = n"
proof -
  have "unat (word_of_int (20 + int n) :: u16) = 20 + n"
    using bare_ok [of "fresh_state\<lparr>send_buf_len := int n\<rparr>" "replicate n 0" s 0] assms(2)
    by (simp add: seg_ok_def SEG_HEADER_SIZE_def)
  then show "seg_ok (fst (cp_segment (st, s)))" "length (sg_data (fst (cp_segment (st, s)))) = n"
    using assms(1) by (simp_all add: seg_ok_def cp_segment_def SEG_HEADER_SIZE_def)
qed

definition cp_new :: "cp_tcp \<Rightarrow> u32 \<Rightarrow> byte list \<Rightarrow> ctcp_segment" where
  \<comment> \<open>the segment that is queued\<close>
  "cp_new t flags d = (fst (cp_segment t))\<lparr>sg_flags := flags, sg_data := d\<rparr>"

lemma cp_new_fields [simp]:
  "sg_seqno (cp_new t f d) = htonl (word_of_int (cp_send_seq (fst t)))" "sg_data (cp_new t f d) = d"
  "sg_flags (cp_new t f d) = f" "sg_cksum (cp_new t f d) = 0" "unsent (cp_new t f d)"
  by (simp_all add: cp_new_def cp_segment_def unsent_def split_beta)

definition count_segment :: "sys \<Rightarrow> sys" where
  "count_segment s = s\<lparr>seg_count := Suc (seg_count s)\<rparr>"

lemma cp_segment_snd [simp]: "snd (cp_segment (st, s)) = count_segment s"
  by (simp add: cp_segment_def count_segment_def)

lemma cp_makeseg_queued:
  fixes st :: cp_state and s :: sys and n :: nat
  assumes "cp_buf_len st = int n" "n \<le> MAX_SEG_DATA_SIZE" "length (cp_buf st) = 1500"
  defines "g \<equiv> cp_new (st, s) (htonl 0x018) (take n (cp_buf st))" and "f \<equiv> cp_new (st, s) TH_FIN []"
  shows "seg_ok g" "cp_makeseg_send (st, s) CP_SEND_DATA =
      cp_send_data (st\<lparr>cp_buf := put (cp_buf st) 0 [0], cp_buf_len := 0, cp_send_segments := cp_send_segments st @ [g]\<rparr>,
        count_segment s) False"
    "n = 0 \<Longrightarrow> seg_ok f" "n = 0 \<Longrightarrow> cp_makeseg_send (st, s) CP_SEND_FIN =
      cp_send_data (st\<lparr>cp_send_segments := cp_send_segments st @ [f]\<rparr>, count_segment s) False"
proof -
  note H = cp_segment_ok [OF assms(1,2), of s]
  have n: "n \<le> length (cp_buf st)" "1 \<le> length (cp_buf st)" using assms(2,3) by (simp_all add: MAX_SEG_DATA_SIZE_def)
  show "seg_ok g" using H n(1) by (simp add: g_def cp_new_def seg_ok_def)
  show "cp_makeseg_send (st, s) CP_SEND_DATA =
      cp_send_data (st\<lparr>cp_buf := put (cp_buf st) 0 [0], cp_buf_len := 0, cp_send_segments := cp_send_segments st @ [g]\<rparr>,
        count_segment s) False"
    using n assms(1)
    by (simp add: cp_makeseg_send_def split_beta g_def cp_new_def rd_def slice_def st8_def wr_def)
  assume "n = 0"
  then have "sg_data (fst (cp_segment (st, s))) = []" using H(2) by simp
  then have f: "f = (fst (cp_segment (st, s)))\<lparr>sg_flags := TH_FIN\<rparr>"
    by (cases "fst (cp_segment (st, s))") (simp add: f_def cp_new_def)
  then show "seg_ok f" using H(1) by (simp add: seg_ok_def)
  show "cp_makeseg_send (st, s) CP_SEND_FIN =
      cp_send_data (st\<lparr>cp_send_segments := cp_send_segments st @ [f]\<rparr>, count_segment s) False"
    by (simp add: cp_makeseg_send_def split_beta f)
qed

text \<open>
  An acknowledgement is sent at once; because its checksum is computed a second time over the first, it always carries
  0xffff.
\<close>

lemma cp_reply_ok:
  assumes "\<not> delete_me (cp_conn st)" "cp_buf_len st = 0" "m = CP_SEND_ACK \<or> m = CP_SEND_FIN_ACK"
  shows "\<exists>k. cp_makeseg_send (st, s) m = Inr (st, (count_segment s)\<lparr>segments_out := segments_out s @ [seg_bytes k]\<rparr>) \<and>
    seg_ok k \<and> sg_data k = [] \<and> sg_flags k = (if m = CP_SEND_ACK then TH_ACK else htonl 0x11) \<and> sg_cksum k = 0xffff \<and>
    ntohl (sg_ackno k) = word_of_int (cp_recv_ack st) \<and> ntohl (sg_seqno k) = word_of_int (cp_send_seq st)"
proof -
  let ?f = "if m = CP_SEND_ACK then TH_ACK else htonl 0x11"
  let ?g = "(fst (cp_segment (st, s)))\<lparr>sg_flags := ?f\<rparr>"
  have "cp_buf_len st = int 0" "0 \<le> MAX_SEG_DATA_SIZE" using assms(2) by simp_all
  note H = cp_segment_ok [OF this, of s]
  have g: "seg_ok ?g" "sg_cksum ?g = 0" "sg_len ?g = htons (word_of_int (int SEG_HEADER_SIZE))" "sg_data ?g = []"
    using H assms(2) by (simp_all add: seg_ok_def cp_segment_def)
  let ?k = "?g\<lparr>sg_cksum := cksum (seg_bytes ?g)\<rparr>"
  let ?r = "?k\<lparr>sg_cksum := cksum (seg_bytes ?k)\<rparr>"
  have ok: "seg_ok ?k" "seg_ok ?r" using g(1) by simp_all
  have len: "(word_of_int (int SEG_HEADER_SIZE) :: u16) = ntohs (sg_len ?k)" "ntohs (sg_len ?g) = ntohs (sg_len ?k)"
    "20 = unat (ntohs (sg_len ?r))" using g(3) by (simp_all add: SEG_HEADER_SIZE_def)
  have c: "seg_cksum ?g (word_of_int (int SEG_HEADER_SIZE)) = Inr (cksum (seg_bytes ?g))"
    "seg_cksum ?k (word_of_int (int SEG_HEADER_SIZE)) = Inr (cksum (seg_bytes ?k))"
    using seg_cksum_ok [OF g(1)] seg_cksum_ok [OF ok(1)] g(3) by simp_all
  have o: "conn_send (cp_conn st) x (seg_bytes ?r) (nat (int SEG_HEADER_SIZE)) =
      Inr (x\<lparr>segments_out := segments_out x @ [seg_bytes ?r]\<rparr>)" for x
    using conn_send_ok [OF assms(1) ok(2), of x] g(3) by (simp add: SEG_HEADER_SIZE_def)
  have "cp_reply_now (st, count_segment s) ?g =
      Inr (st, (count_segment s)\<lparr>segments_out := segments_out s @ [seg_bytes ?r]\<rparr>)"
    unfolding cp_reply_now_def prod.case Let_def assms(2) using c o by (simp add: count_segment_def)
  then have "cp_makeseg_send (st, s) m = Inr (st, (count_segment s)\<lparr>segments_out := segments_out s @ [seg_bytes ?r]\<rparr>)"
    using assms(3) by (auto simp: cp_makeseg_send_def split_beta)
  moreover have "cksum (seg_bytes ?k) = 0xffff" using sealed_image [OF g(1,2)] .
  moreover have "seg_ok ?r" "sg_data ?r = []" using g(1,4) by simp_all
  ultimately show ?thesis by (intro exI [of _ ?r]) (simp add: cp_segment_def)
qed

section \<open>Events\<close>

definition same_rest :: "cp_state \<Rightarrow> cp_state \<Rightarrow> bool" where
  \<comment> \<open>reading changes the connection, the buffer, the queue and the timer\<close>
  "same_rest st st' \<longleftrightarrow> cp_send_win_size st' = cp_send_win_size st \<and> cp_recv_ack st' = cp_recv_ack st \<and>
     cp_send_seq st' = cp_send_seq st \<and> cp_recv_segments st' = cp_recv_segments st"

definition queues :: "cp_tcp \<Rightarrow> ctcp_segment \<Rightarrow> cp_tcp \<Rightarrow> bool" where
  \<comment> \<open>the segment is queued with the current number, and the unsent part of the window goes out\<close>
  "queues t g t' \<longleftrightarrow> seg_ok g \<and> unsent g \<and> ntohl (sg_seqno g) = word_of_int (cp_send_seq (fst t)) \<and>
     (\<exists>st1. same_rest (fst t) st1 \<and> cp_send_segments st1 = cp_send_segments (fst t) @ [g] \<and>
        fst t' = after_send False (clock (snd t)) st1 \<and>
        segments_out (snd t') = segments_out (snd t) @ map seg_bytes (due False st1))"

lemma cp_enqueue:
  assumes "cp_inv (st, s)" "same_rest st st1" "cp_send_segments st1 = cp_send_segments st @ [g]" "seg_ok g" "unsent g"
    "ntohl (sg_seqno g) = word_of_int (cp_send_seq st)" "\<not> delete_me (cp_conn st1)" "length (cp_buf st1) = 1500"
    "cp_buf_len st1 = 0" "segments_out s1 = segments_out s" "clock s1 = clock s"
  shows "\<exists>t. cp_send_data (st1, s1) False = Inr t \<and> cp_inv t \<and> queues (st, s) g t"
proof -
  have q: "\<forall>h \<in> set (cp_send_segments st1). seg_ok h" using assms(1,3,4) by (simp add: cp_inv_def)
  have w: "windowed (nat (cp_send_win_size st1)) (cp_send_segments st1)"
    using assms(1-3,5) windowed_snoc by (simp add: cp_inv_def same_rest_def)
  have "cp_inv (st1, s1)" using assms(1,2,7-9) q w by (simp add: cp_inv_def same_rest_def)
  then have "cp_inv (after_send False (clock s1) st1, s1\<lparr>segments_out := segments_out s1 @ map seg_bytes (due False st1)\<rparr>)"
    by (rule after_send_inv)
  then show ?thesis
    using cp_send_data_ok [OF assms(7) q, of s1 False] assms by (auto simp: queues_def)
qed

lemma cp_read_cases:
  assumes inv: "cp_inv (st, s)" and mode: "run_program s \<or> unix_socket s"
  shows "\<exists>t g. cp_read (st, s) = Inr t \<and> cp_inv t \<and> queues (st, s) g t"
proof -
  have D: "\<not> delete_me (cp_conn st)" "length (cp_buf st) = 1500" "cp_buf_len st = 0" using inv by (simp_all add: cp_inv_def)
  have k: "0 < MAX_SEG_DATA_SIZE" "MAX_SEG_DATA_SIZE \<le> length (cp_buf st)" using D by (simp_all add: MAX_SEG_DATA_SIZE_def)
  obtain r buf c s1 where i: "conn_input (cp_conn st) s (cp_buf st) MAX_SEG_DATA_SIZE = Inr (r, buf, c, s1)"
      "-1 \<le> r" "r \<le> int MAX_SEG_DATA_SIZE" "length buf = 1500" "c = cp_conn st \<or> c = (cp_conn st)\<lparr>read_eof := True\<rparr>"
    using conn_input_ok [OF D(1) mode k] D(2) by auto
  note quiet = conn_input_quiet [OF i(1)]
  have c: "\<not> delete_me c" using i(5) D(1) by auto
  have s: "segments_out (count_segment s1) = segments_out s" "clock (count_segment s1) = clock s"
    using quiet by (simp_all add: count_segment_def)
  show ?thesis
  proof (cases "0 \<le> r")
    case True
    then obtain n where n: "r = int n" using zero_le_imp_eq_int by blast
    let ?st = "st\<lparr>cp_conn := c, cp_buf := buf, cp_buf_len := int n\<rparr>"
    let ?g = "cp_new (?st, s1) (htonl 0x018) (take n buf)"
    let ?st1 = "?st\<lparr>cp_buf := put buf 0 [0], cp_buf_len := 0, cp_send_segments := cp_send_segments st @ [?g]\<rparr>"
    have m: "seg_ok ?g" "cp_makeseg_send (?st, s1) CP_SEND_DATA = cp_send_data (?st1, count_segment s1) False"
      using cp_makeseg_queued(1,2) [of ?st n s1] n i(3,4) by simp_all
    have "\<exists>t. cp_send_data (?st1, count_segment s1) False = Inr t \<and> cp_inv t \<and> queues (st, s) ?g t"
      using c i(4) by (intro cp_enqueue [OF inv _ _ m(1) _ _ _ _ _ s]) (simp_all add: same_rest_def)
    then show ?thesis using i(1) m(2) n by (auto simp: cp_read_def)
  next
    case False
    let ?st = "st\<lparr>cp_conn := c, cp_buf := buf, cp_buf_len := 0\<rparr>"
    let ?g = "cp_new (?st, s1) TH_FIN []"
    let ?st1 = "?st\<lparr>cp_send_segments := cp_send_segments st @ [?g]\<rparr>"
    have m: "seg_ok ?g" "cp_makeseg_send (?st, s1) CP_SEND_FIN = cp_send_data (?st1, count_segment s1) False"
      using cp_makeseg_queued(3,4) [of ?st 0 s1] i(4) by simp_all
    have "\<exists>t. cp_send_data (?st1, count_segment s1) False = Inr t \<and> cp_inv t \<and> queues (st, s) ?g t"
      using c i(4) by (intro cp_enqueue [OF inv _ _ m(1) _ _ _ _ _ s]) (simp_all add: same_rest_def)
    then show ?thesis using i(1) m(2) False by (auto simp: cp_read_def)
  qed
qed

lemma cp_output_ok:
  assumes "\<not> delete_me (cp_conn st)" "cp_recv_segments st = gs @ [g]" "seg_ok g"
  shows "\<exists>c s'. cp_output (st, s) = Inr (st\<lparr>cp_conn := c\<rparr>, s') \<and> \<not> delete_me c \<and> segments_out s' = segments_out s \<and>
    clock s' = clock s \<and>
    (can_write (cp_conn st) (length (sg_data g)) \<and> sg_data g \<noteq> [] \<longrightarrow>
      delivered c s' = delivered (cp_conn st) s @ sg_data g \<or> wrote_err c)"
proof -
  let ?n = "length (sg_data g)" and ?m = "min (conn_bufspace (cp_conn st)) (length (sg_data g))"
  obtain r c s' where o: "conn_output (cp_conn st) s (sg_data g) ?m = Inr (r, c, s')" "\<not> delete_me c"
    using conn_output_total [OF assms(1), of ?m "sg_data g"] by (metis min.cobounded2)
  have "cp_output (st, s) = Inr (st\<lparr>cp_conn := c\<rparr>, s')"
    using o(1) output_size [OF assms(3), of "cp_conn st"] assms(2) by (simp add: cp_output_def Let_def)
  moreover have "delivered c s' = delivered (cp_conn st) s @ sg_data g \<or> wrote_err c"
    if "can_write (cp_conn st) ?n" "sg_data g \<noteq> []"
  proof -
    have m: "?m = ?n" "0 < ?n" "?n \<le> conn_bufspace (cp_conn st)" "\<not> wrote_eof (cp_conn st)"
      using that by (simp_all add: can_write_def)
    show ?thesis
      using conn_output_delivers [OF assms(1) m(4,2) order_refl m(3)] o(1) unfolding m(1) by fastforce
  qed
  ultimately show ?thesis
    using o(2) conn_output_segments [OF o(1)] conn_output_clock [OF o(1)] by blast
qed

text \<open>The expected segment is kept, answered with a rejected acknowledgement, and written.\<close>

lemma cp_receive_expected:
  assumes inv: "cp_inv (st, s)" and g: "seg_ok g" "verifies g" "sg_data g \<noteq> []"
    "ntohl (sg_seqno g) = word_of_int (cp_recv_ack st)"
  defines "st1 \<equiv> st\<lparr>cp_recv_segments := cp_recv_segments st @ [g\<lparr>sg_cksum := 0\<rparr>], cp_recv_ack := next_number g\<rparr>"
  shows "\<exists>k c s'. cp_receive (st, s) g (word_of_nat (length (seg_bytes g))) = Inr (Cp_running (st1\<lparr>cp_conn := c\<rparr>, s')) \<and>
    cp_inv (st1\<lparr>cp_conn := c\<rparr>, s') \<and> segments_out s' = segments_out s @ [seg_bytes k] \<and> seg_ok k \<and> sg_data k = [] \<and>
    sg_flags k = TH_ACK \<and> sg_cksum k = 0xffff \<and> ntohl (sg_ackno k) = word_of_int (next_number g) \<and>
    (can_write (cp_conn st) (length (sg_data g)) \<longrightarrow>
      delivered c s' = delivered (cp_conn st) s @ sg_data g \<or> wrote_err c)"
proof -
  have D: "\<not> delete_me (cp_conn st1)" "cp_buf_len st1 = 0" using inv by (simp_all add: cp_inv_def st1_def)
  obtain k where k: "cp_makeseg_send (st1, s) CP_SEND_ACK =
      Inr (st1, (count_segment s)\<lparr>segments_out := segments_out s @ [seg_bytes k]\<rparr>)"
      "seg_ok k" "sg_data k = []" "sg_flags k = TH_ACK" "sg_cksum k = 0xffff"
      "ntohl (sg_ackno k) = word_of_int (next_number g)"
    using cp_reply_ok [OF D, of CP_SEND_ACK s] by (auto simp: st1_def)
  let ?s = "(count_segment s)\<lparr>segments_out := segments_out s @ [seg_bytes k]\<rparr>"
  have last: "cp_recv_segments st1 = cp_recv_segments st @ [g\<lparr>sg_cksum := 0\<rparr>]" by (simp add: st1_def)
  obtain c s' where o: "cp_output (st1, ?s) = Inr (st1\<lparr>cp_conn := c\<rparr>, s')" "\<not> delete_me c"
      "segments_out s' = segments_out ?s" "can_write (cp_conn st1) (length (sg_data g)) \<and> sg_data g \<noteq> [] \<longrightarrow>
        delivered c s' = delivered (cp_conn st1) ?s @ sg_data g \<or> wrote_err c"
    using cp_output_ok [OF D(1) last, of ?s] g(1) by auto
  have len: "\<not> no_payload (word_of_nat (length (seg_bytes g)))" using no_payload_iff [OF g(1)] g(3) by simp
  have num: "sint (ntohl (sg_seqno g) + ucast (ntohs (sg_len g)) - word_of_nat SEG_HEADER_SIZE :: u32) = next_number g"
    by (simp add: next_number_def)
  have "cp_receive_data (st, s) (g\<lparr>sg_cksum := 0\<rparr>) = rbind (cp_makeseg_send (st1, s) CP_SEND_ACK) cp_output"
    using g(4) num by (simp add: cp_receive_data_def Let_def st1_def)
  then have "cp_receive_data (st, s) (g\<lparr>sg_cksum := 0\<rparr>) = Inr (st1\<lparr>cp_conn := c\<rparr>, s')" using k(1) o(1) by simp
  then have run: "cp_receive (st, s) g (word_of_nat (length (seg_bytes g))) = Inr (Cp_running (st1\<lparr>cp_conn := c\<rparr>, s'))"
    using checksum_ok [OF g(1)] g(2) len by (simp only: cp_receive_def rbind_simps prod.case simp_thms if_False if_True)
  have "cp_inv (st1\<lparr>cp_conn := c\<rparr>, s')" using inv o(2) g(1) by (simp add: cp_inv_def st1_def)
  moreover have "delivered (cp_conn st1) ?s = delivered (cp_conn st) s"
    by (simp add: delivered_def count_segment_def st1_def)
  moreover have "cp_conn st1 = cp_conn st" by (simp add: st1_def)
  ultimately show ?thesis
    using run k(2-6) o(3,4) g(3) by (intro exI [of _ k] exI [of _ c] exI [of _ s']) (simp add: count_segment_def)
qed

text \<open>Another data segment resets the number to the unconverted one of the last segment that was taken.\<close>

lemma cp_receive_unexpected:
  assumes inv: "cp_inv (st, s)" and g: "seg_ok g" "verifies g" "sg_data g \<noteq> []"
    "ntohl (sg_seqno g) \<noteq> word_of_int (cp_recv_ack st)"
  defines "r \<equiv> cp_receive (st, s) g (word_of_nat (length (seg_bytes g)))"
    and "st1 \<equiv> st\<lparr>cp_recv_ack := sint (sg_seqno (last (cp_recv_segments st)))\<rparr>"
  shows "if cp_recv_segments st = [] then r = Inl NullDeref
    else \<exists>k. r = Inr (Cp_running (st1, (count_segment s)\<lparr>segments_out := segments_out s @ [seg_bytes k]\<rparr>)) \<and>
      sg_cksum k = 0xffff \<and> sg_data k = []"
proof -
  have D: "\<not> delete_me (cp_conn st1)" "cp_buf_len st1 = 0" using inv by (simp_all add: cp_inv_def st1_def)
  obtain k where k: "cp_makeseg_send (st1, s) CP_SEND_ACK =
      Inr (st1, (count_segment s)\<lparr>segments_out := segments_out s @ [seg_bytes k]\<rparr>)" "sg_cksum k = 0xffff" "sg_data k = []"
    using cp_reply_ok [OF D, of CP_SEND_ACK s] by auto
  have len: "\<not> no_payload (word_of_nat (length (seg_bytes g)))" using no_payload_iff [OF g(1)] g(3) by simp
  have "r = rbind (cp_receive_data (st, s) (g\<lparr>sg_cksum := 0\<rparr>)) (\<lambda>t. Inr (Cp_running t))"
    using checksum_ok [OF g(1)] g(2) len
    by (simp only: r_def cp_receive_def rbind_simps prod.case simp_thms if_False if_True)
  then show ?thesis using k g(4) by (auto simp: cp_receive_data_def st1_def)
qed

lemma cp_receive_corrupted: "seg_ok g \<Longrightarrow> \<not> verifies g \<Longrightarrow> cp_receive t g len = Inr (Cp_running t)"
  by (simp add: cp_receive_def checksum_ok)

lemma cp_ack_inv:
  assumes inv: "cp_inv (st, s)" and run: "cp_receive_ack (st, s) g = Inr t"
  shows "cp_inv t"
proof (cases "cp_send_segments st")
  case Nil
  then show ?thesis using run by (simp add: cp_receive_ack_def)
next
  case (Cons e es)
  let ?st = "st\<lparr>cp_send_seq := sint (ntohl (sg_ackno g))\<rparr>"
  have i: "cp_inv (?st, s)" using inv by (simp add: cp_inv_def)
  show ?thesis
  proof (cases "confirms (cp_send_seq ?st) e")
    case True
    then have "t = (?st\<lparr>cp_lastsent_timeout := -1, cp_retransmit_counter := 0, cp_send_segments := es\<rparr>, s)"
      using run Cons by (simp add: cp_receive_ack_def Let_def)
    then show ?thesis using i Cons windowed_tl [of _ e es] by (simp add: cp_inv_def)
  next
    case False
    have d: "\<not> delete_me (cp_conn ?st)" "\<forall>g \<in> set (cp_send_segments ?st). seg_ok g" using i by (simp_all add: cp_inv_def)
    have "cp_inv (after_send False (clock s) ?st, s)" using after_send_inv [OF i] .
    moreover have "fst t = (after_send False (clock s) ?st)\<lparr>cp_lastsent_timeout := -1, cp_retransmit_counter := 0\<rparr>"
      using run Cons False cp_send_data_ok [OF d, of s False] by (auto simp: cp_receive_ack_def Let_def)
    ultimately show ?thesis by (cases t) (simp add: cp_inv_def)
  qed
qed

lemma cp_receive_inv:
  assumes inv: "cp_inv (st, s)" and g: "seg_ok g"
    and run: "cp_receive (st, s) g (word_of_nat (length (seg_bytes g))) = Inr (Cp_running t)"
  shows "cp_inv t"
proof -
  have same: "cp_inv (st, s)" using inv .
  consider "\<not> verifies g" | "verifies g" "sg_data g \<noteq> []" "ntohl (sg_seqno g) = word_of_int (cp_recv_ack st)"
    | "verifies g" "sg_data g \<noteq> []" "ntohl (sg_seqno g) \<noteq> word_of_int (cp_recv_ack st)"
    | "verifies g" "sg_data g = []" by blast
  then show ?thesis
  proof cases
    case 1
    then show ?thesis using cp_receive_corrupted [OF g, of "(st, s)"] run inv by simp
  next
    case 2
    then show ?thesis using cp_receive_expected [OF inv g] run by auto
  next
    case 3
    then show ?thesis
      using cp_receive_unexpected [OF inv g 3] run inv by (auto simp: cp_inv_def split: if_splits)
  next
    case 4
    let ?g = "g\<lparr>sg_cksum := 0\<rparr>"
    have np: "no_payload (word_of_nat (length (seg_bytes g)))" using no_payload_iff [OF g] 4(2) by simp
    have r: "cp_receive (st, s) g (word_of_nat (length (seg_bytes g))) =
      (if sg_flags ?g AND TH_ACK \<noteq> 0 then rbind (cp_receive_ack (st, s) ?g) (\<lambda>t. Inr (Cp_running t))
       else if sg_flags ?g AND TH_FIN \<noteq> 0 then rbind (cp_makeseg_send (st, s) CP_SEND_FIN_ACK) (\<lambda>t. Inr (cp_destroy t))
       else if sg_flags ?g = TH_ACK AND TH_FIN then Inr (cp_destroy (st, s)) else Inr (Cp_running (st, s)))"
      using checksum_ok [OF g] 4(1) np
      by (simp only: cp_receive_def rbind_simps prod.case simp_thms if_False if_True)
    have "t = (st, s) \<or> cp_receive_ack (st, s) ?g = Inr t"
      using run [unfolded r] by (auto simp: cp_destroy_def rbind_def split: if_split_asm sum.split_asm)
    then show ?thesis using inv cp_ack_inv by blast
  qed
qed

text \<open>When the timer runs out, everything in the window is transmitted again.\<close>

lemma cp_timer_ok:
  assumes inv: "cp_inv (st, s)"
  defines "st1 \<equiv> st\<lparr>cp_retransmit_counter := cp_retransmit_counter st + 1, cp_lastsent_timeout := clock s\<rparr>"
  shows "cp_timer (st, s) =
    (if cp_lastsent_timeout st \<noteq> -1 \<and> clock s - cp_lastsent_timeout st > cp_timeout_standard st then
       if cp_retransmit_counter st \<ge> 5 then Inr (Cp_destroyed (conn_remove (cp_conn st)) s)
       else Inr (Cp_running (after_send True (clock s) st1, s\<lparr>segments_out := segments_out s @ map seg_bytes (due True st1)\<rparr>))
     else Inr (Cp_running (st, s)))" "cp_inv (after_send True (clock s) st1, s')"
proof -
  have i: "cp_inv (st1, s)" using inv by (simp add: cp_inv_def st1_def)
  then have d: "\<not> delete_me (cp_conn st1)" "\<forall>g \<in> set (cp_send_segments st1). seg_ok g" by (simp_all add: cp_inv_def)
  show "cp_timer (st, s) =
    (if cp_lastsent_timeout st \<noteq> -1 \<and> clock s - cp_lastsent_timeout st > cp_timeout_standard st then
       if cp_retransmit_counter st \<ge> 5 then Inr (Cp_destroyed (conn_remove (cp_conn st)) s)
       else Inr (Cp_running (after_send True (clock s) st1, s\<lparr>segments_out := segments_out s @ map seg_bytes (due True st1)\<rparr>))
     else Inr (Cp_running (st, s)))"
    using cp_send_data_ok [OF d, of s True] by (simp add: cp_timer_def cp_destroy_def st1_def)
  show "cp_inv (after_send True (clock s) st1, s')" using after_send_inv [OF i] .
qed

inductive cp_step :: "cp_tcp \<Rightarrow> cp_tcp \<Rightarrow> bool" where
  read: "run_program s \<or> unix_socket s \<Longrightarrow> cp_read (st, s) = Inr t \<Longrightarrow> cp_step (st, s) t"
| receive: "seg_ok g \<Longrightarrow> cp_receive (st, s) g (word_of_nat (length (seg_bytes g))) = Inr (Cp_running t) \<Longrightarrow> cp_step (st, s) t"
| timer: "cp_timer (st, s) = Inr (Cp_running t) \<Longrightarrow> cp_step (st, s) t"
| drain: "conn_drain (cp_conn st) s = (outputted, c, s') \<Longrightarrow> cp_step (st, s) (st\<lparr>cp_conn := c\<rparr>, s')"
| deliver: "cp_output (st, s) = Inr t \<Longrightarrow> cp_step (st, s) t"
| environment: "cp_step (st, s) (st, s')"

inductive cp_reachable :: "cp_tcp \<Rightarrow> bool" where
  init: "cp_init s (Some c) cfg = Some st \<Longrightarrow> \<not> delete_me c \<Longrightarrow> cp_reachable (st, s)"
| step: "cp_reachable t \<Longrightarrow> cp_step t t' \<Longrightarrow> cp_reachable t'"

lemma cp_output_inv:
  assumes inv: "cp_inv (st, s)" and run: "cp_output (st, s) = Inr t"
  shows "cp_inv t"
proof (cases "cp_recv_segments st = []")
  case True
  then show ?thesis using run by (simp add: cp_output_def)
next
  case False
  then obtain gs g where g: "cp_recv_segments st = gs @ [g]" by (meson rev_exhaust)
  have "\<not> delete_me (cp_conn st)" "seg_ok g" using inv g by (simp_all add: cp_inv_def)
  from cp_output_ok [OF this(1) g this(2), of s] run inv show ?thesis by (auto simp: cp_inv_def)
qed

lemma cp_step_inv: "cp_step t t' \<Longrightarrow> cp_inv t \<Longrightarrow> cp_inv t'"
proof (induction rule: cp_step.induct)
  case (read s st t)
  then show ?case using cp_read_cases [of st s] by auto
next
  case (receive g st s t)
  then show ?case using cp_receive_inv by blast
next
  case (timer st s t)
  show ?case using timer.hyps cp_timer_ok [OF timer.prems] timer.prems by (auto split: if_splits)
next
  case (drain st s outputted c s')
  then show ?case using conn_drain_quiet [OF drain.hyps] by (simp add: cp_inv_def)
next
  case (deliver st s t)
  then show ?case using cp_output_inv by blast
next
  case (environment st s s')
  then show ?case by (simp add: cp_inv_def)
qed

lemma cp_init_inv: "cp_init s (Some c) cfg = Some st \<Longrightarrow> \<not> delete_me c \<Longrightarrow> cp_inv (st, s)"
  by (auto simp: cp_init_def cp_inv_def)

lemma cp_reachable_inv: "cp_reachable t \<Longrightarrow> cp_inv t"
  by (induction rule: cp_reachable.induct) (blast intro: cp_step_inv cp_init_inv)+

section \<open>What the version does\<close>

lemma windowed_nth: "windowed n gs \<Longrightarrow> \<exists>k \<le> n. \<forall>i < length gs. sg_cksum (gs ! i) \<noteq> 0 \<longleftrightarrow> i < k"
proof -
  assume "windowed n gs"
  then obtain k where k: "k \<le> n" "\<forall>g \<in> set (take k gs). \<not> unsent g" "\<forall>g \<in> set (drop k gs). unsent g"
    by (auto simp: windowed_def)
  have "sg_cksum (gs ! i) \<noteq> 0 \<longleftrightarrow> i < k" if i: "i < length gs" for i
  proof (cases "i < k")
    case True
    then have "gs ! i \<in> set (take k gs)" using i by (auto simp: in_set_conv_nth intro!: exI [of _ i])
    then show ?thesis using k(2) True by (simp add: unsent_def)
  next
    case False
    then have "drop k gs ! (i - k) = gs ! i" "i - k < length (drop k gs)" using i by simp_all
    then have "gs ! i \<in> set (drop k gs)" using nth_mem by metis
    then show ?thesis using k(3) False by (simp add: unsent_def)
  qed
  then show ?thesis using k(1) by blast
qed

lemma due_all:
  "\<forall>g \<in> set (cp_send_segments st). seg_ok g \<Longrightarrow>
    list_all2 (\<lambda>g g'. verifies g' \<and> sg_data g' = sg_data g \<and> sg_seqno g' = sg_seqno g \<and>
      ntohl (sg_ackno g') = word_of_int (cp_recv_ack st)) (take (nat (cp_send_win_size st)) (cp_send_segments st)) (due True st)"
  by (auto simp: due_def list_all2_conv_all_nth refresh_def verifies_seal seal_ackno)

lemma after_send_map:
  "(\<And>a h. f (seal a (refresh r h)) = f h) \<Longrightarrow> map f (cp_send_segments (after_send r now st)) = map f (cp_send_segments st)"
proof -
  assume f: "\<And>a h. f (seal a (refresh r h)) = f h"
  have "map f (map (seal a \<circ> refresh r) (take n hs) @ drop n hs) = map f hs" for a n hs
    using f by (simp add: comp_def) (simp flip: map_append)
  then show ?thesis by (simp add: after_send_def)
qed

lemma cp_read_numbers:
  assumes inv: "cp_inv (st, s)" and mode: "run_program s \<or> unix_socket s"
  shows "\<exists>st' s' (g :: ctcp_segment). cp_read (st, s) = Inr (st', s') \<and> ntohl (sg_seqno g) = word_of_int (cp_send_seq st) \<and>
    cp_send_seq st' = cp_send_seq st \<and>
    map sg_data (cp_send_segments st') = map sg_data (cp_send_segments st) @ [sg_data g] \<and>
    map sg_seqno (cp_send_segments st') = map sg_seqno (cp_send_segments st) @ [sg_seqno g]"
proof -
  obtain st' s' g where r: "cp_read (st, s) = Inr (st', s')" "queues (st, s) g (st', s')"
    using cp_read_cases [OF inv mode] by auto
  obtain st1 where st1: "same_rest st st1" "cp_send_segments st1 = cp_send_segments st @ [g]"
      "st' = after_send False (clock s) st1" "ntohl (sg_seqno g) = word_of_int (cp_send_seq st)"
    using r(2) by (auto simp: queues_def)
  have "map sg_data (cp_send_segments st') = map sg_data (cp_send_segments st1)"
    "map sg_seqno (cp_send_segments st') = map sg_seqno (cp_send_segments st1)"
    unfolding st1(3) by (rule after_send_map; simp)+
  then show ?thesis
    using r(1) st1 by (auto simp: same_rest_def intro!: exI [of _ g])
qed

text \<open>
  The window of \<open>cpctcp.c\<close>: in every state it can reach, the transmitted segments are a prefix of the queue, no longer than
  the configured window.  Reading queues one segment with the current sequence number and does not advance that number,
  so everything read before an acknowledgement carries the same one.  When the timer runs out before the sixth time,
  every segment in the window is transmitted again, in order, with a checksum that verifies and the current
  acknowledgement number.
\<close>

theorem early_window:
  assumes "cp_reachable (st, s)"
  shows "(\<exists>k \<le> nat (cp_send_win_size st). \<forall>i < length (cp_send_segments st).
      sg_cksum (cp_send_segments st ! i) \<noteq> 0 \<longleftrightarrow> i < k) \<and>
    (run_program s \<or> unix_socket s \<longrightarrow>
      (\<exists>st' s' (g :: ctcp_segment). cp_read (st, s) = Inr (st', s') \<and> ntohl (sg_seqno g) = word_of_int (cp_send_seq st) \<and>
        cp_send_seq st' = cp_send_seq st \<and>
        map sg_data (cp_send_segments st') = map sg_data (cp_send_segments st) @ [sg_data g] \<and>
        map sg_seqno (cp_send_segments st') = map sg_seqno (cp_send_segments st) @ [sg_seqno g])) \<and>
    (cp_lastsent_timeout st \<noteq> -1 \<and> cp_timeout_standard st < clock s - cp_lastsent_timeout st \<and> cp_retransmit_counter st < 5 \<longrightarrow>
      (\<exists>st' s' gs. cp_timer (st, s) = Inr (Cp_running (st', s')) \<and> segments_out s' = segments_out s @ map seg_bytes gs \<and>
        cp_retransmit_counter st' = cp_retransmit_counter st + 1 \<and>
        list_all2 (\<lambda>g g'. verifies g' \<and> sg_data g' = sg_data g \<and> sg_seqno g' = sg_seqno g \<and>
            ntohl (sg_ackno g') = word_of_int (cp_recv_ack st))
          (take (nat (cp_send_win_size st)) (cp_send_segments st)) gs))"
proof -
  have inv: "cp_inv (st, s)" using cp_reachable_inv [OF assms] .
  have q: "windowed (nat (cp_send_win_size st)) (cp_send_segments st)" "\<forall>g \<in> set (cp_send_segments st). seg_ok g"
    using inv by (simp_all add: cp_inv_def)
  have "\<exists>st' s' gs. cp_timer (st, s) = Inr (Cp_running (st', s')) \<and> segments_out s' = segments_out s @ map seg_bytes gs \<and>
      cp_retransmit_counter st' = cp_retransmit_counter st + 1 \<and>
      list_all2 (\<lambda>g g'. verifies g' \<and> sg_data g' = sg_data g \<and> sg_seqno g' = sg_seqno g \<and>
          ntohl (sg_ackno g') = word_of_int (cp_recv_ack st))
        (take (nat (cp_send_win_size st)) (cp_send_segments st)) gs"
    if "cp_lastsent_timeout st \<noteq> -1 \<and> cp_timeout_standard st < clock s - cp_lastsent_timeout st \<and> cp_retransmit_counter st < 5"
  proof -
    let ?st = "st\<lparr>cp_retransmit_counter := cp_retransmit_counter st + 1, cp_lastsent_timeout := clock s\<rparr>"
    have "cp_timer (st, s) = Inr (Cp_running (after_send True (clock s) ?st,
        s\<lparr>segments_out := segments_out s @ map seg_bytes (due True ?st)\<rparr>))"
      using cp_timer_ok(1) [OF inv] that by simp
    then show ?thesis
      using due_all [of ?st] q(2)
      by (intro exI [of _ "after_send True (clock s) ?st"]
          exI [of _ "s\<lparr>segments_out := segments_out s @ map seg_bytes (due True ?st)\<rparr>"] exI [of _ "due True ?st"]) simp
  qed
  then show ?thesis using windowed_nth [OF q(1)] cp_read_numbers [OF inv] by blast
qed

definition cp_fresh :: cp_state where
  "cp_fresh = the (cp_init example_sys (Some example_conn) example_config)"

lemma cp_fresh_reachable: "cp_reachable (cp_fresh, s)"
proof -
  have "cp_reachable (cp_fresh, example_sys)"
    by (rule cp_reachable.init [where c = example_conn and cfg = example_config])
       (simp_all add: cp_fresh_def cp_init_def example_conn_def)
  then show ?thesis by (rule cp_reachable.step [OF _ cp_step.environment])
qed

lemma early_window_witness:
  "\<exists>st' s' (g :: ctcp_segment). cp_read (cp_fresh, example_sys) = Inr (st', s') \<and> cp_send_seq st' = 1 \<and>
     map sg_data (cp_send_segments st') = [sg_data g]"
proof -
  have "cp_send_segments cp_fresh = []" "cp_send_seq cp_fresh = 1" "unix_socket example_sys"
    by (simp_all add: cp_fresh_def cp_init_def example_sys_def)
  then show ?thesis using early_window [OF cp_fresh_reachable, of example_sys] by fastforce
qed

text \<open>
  C32: no acknowledgement of \<open>cpctcp.c\<close> is ever taken.  A valid segment with the expected number is delivered, the
  acknowledgement number moves behind it, and one acknowledgement of that number is sent; but its checksum is computed
  twice, so the field holds 0xffff, and unless that happens to be the right value no host of this version that receives
  it, in whatever state, does anything with it.
\<close>

theorem acknowledgement_rejected:
  assumes "cp_reachable (st, s)" "seg_ok g" "verifies g" "sg_data g \<noteq> []" "ntohl (sg_seqno g) = word_of_int (cp_recv_ack st)"
    "can_write (cp_conn st) (length (sg_data g))"
  shows "\<exists>st' s' k. cp_receive (st, s) g (word_of_nat (length (seg_bytes g))) = Inr (Cp_running (st', s')) \<and>
    (delivered (cp_conn st') s' = delivered (cp_conn st) s @ sg_data g \<or> wrote_err (cp_conn st')) \<and>
    cp_recv_ack st' = next_number g \<and> segments_out s' = segments_out s @ [seg_bytes k] \<and>
    ntohl (sg_ackno k) = word_of_int (next_number g) \<and> sg_cksum k = 0xffff \<and>
    (cksum (seg_bytes (k\<lparr>sg_cksum := 0\<rparr>)) \<noteq> 0xffff \<longrightarrow>
      (\<forall>t k'. faithful k k' \<longrightarrow> cp_receive t k' (word_of_nat (length (seg_bytes k'))) = Inr (Cp_running t)))"
proof -
  obtain k c s' where r: "cp_receive (st, s) g (word_of_nat (length (seg_bytes g))) =
      Inr (Cp_running (st\<lparr>cp_recv_segments := cp_recv_segments st @ [g\<lparr>sg_cksum := 0\<rparr>], cp_recv_ack := next_number g,
        cp_conn := c\<rparr>, s'))"
      "segments_out s' = segments_out s @ [seg_bytes k]" "seg_ok k" "sg_cksum k = 0xffff"
      "ntohl (sg_ackno k) = word_of_int (next_number g)" "delivered c s' = delivered (cp_conn st) s @ sg_data g \<or> wrote_err c"
    using cp_receive_expected [OF cp_reachable_inv [OF assms(1)] assms(2-5)] assms(6) by auto
  have "cp_receive t k' (word_of_nat (length (seg_bytes k'))) = Inr (Cp_running t)"
    if "cksum (seg_bytes (k\<lparr>sg_cksum := 0\<rparr>)) \<noteq> 0xffff" "faithful k k'" for t k'
  proof -
    have "\<not> verifies k" using that(1) r(4) by (simp add: verifies_def)
    then show ?thesis using cp_receive_corrupted faithfulD(1,2) [OF that(2)] r(3) by simp
  qed
  then show ?thesis using r by (intro exI conjI) (assumption | simp)+
qed

lemma acknowledgement_rejected_witness:
  "\<exists>st' s'. cp_receive (cp_fresh, example_sys) example_data (word_of_nat (length (seg_bytes example_data))) =
     Inr (Cp_running (st', s')) \<and> (delivered (cp_conn st') s' = [104, 105] \<or> wrote_err (cp_conn st'))"
proof -
  have c: "cp_conn cp_fresh = example_conn" "cp_recv_ack cp_fresh = 1" "delivered example_conn example_sys = []"
    by (simp_all add: cp_fresh_def cp_init_def delivered_def example_conn_def example_sys_def)
  have "can_write (cp_conn cp_fresh) (length (sg_data example_data))"
    using example_expected(2) c(1) by (simp add: numeral_2_eq_2)
  from acknowledgement_rejected [OF cp_fresh_reachable _ _ _ _ this, of example_sys] show ?thesis using c by auto
qed

end
