(* ===== verification/Ctcp_Versions.thy ===== *)
theory Ctcp_Versions
  imports Ctcp_Stream
begin

text \<open>
  The two earlier versions of the sliding window, \<open>ctcp2.c\<close> (prefix \<open>v2\<close>) and \<open>ctcp1.c\<close> (prefix \<open>v1\<close>).  Their state and the
  functions whose text is that of \<open>ctcp.c\<close> (\<open>ctcp_init\<close>, \<open>ctcp_send\<close>, \<open>ctcp_retrans\<close>, \<open>ctcp_output\<close>, \<open>ctcp_timer\<close>, the
  handling of acknowledgements) are those of the theory \<open>Ctcp\<close>; here are those that differ, and the functions
  that call them.  \<open>ctcp1.c\<close> shares all but the treatment of early segments with \<open>ctcp2.c\<close>.
\<close>

section \<open>\<open>ctcp2.c\<close>\<close>

definition v2_new_segment :: "tcp \<Rightarrow> ctcp_segment \<times> sys" where
  \<comment> \<open>the advertised window is the free part of the receive window\<close>
  "v2_new_segment t =
     (let (st, s) = t; segment_length = int SEG_HEADER_SIZE + send_buf_len st in
      (\<lparr>sg_ptr = seg_count s, sg_seqno = htonl (word_of_int (sw_seqno (st_sw st))),
        sg_ackno = htonl (word_of_int (rw_ackno (st_rw st))),
        sg_len = htons (word_of_int segment_length), sg_pad = junk_pad s (seg_count s), sg_flags = 0,
        sg_window = htons (word_of_int (rw_max_size (st_rw st) - rw_size (st_rw st))),
        sg_cksum = htons 0, sg_data = []\<rparr>,
       s\<lparr>seg_count := Suc (seg_count s)\<rparr>))"

definition v2_makeseg :: "tcp \<Rightarrow> seg_mode \<Rightarrow> tcp res" where
  "v2_makeseg t mode =
     (let (st, s) = t; data_length = send_buf_len st; (g, s) = v2_new_segment t in
      case mode of
        SEND_DATA \<Rightarrow>
          rbind (rd (send_buf st) 0 (nat data_length)) (\<lambda>d.
          let g = g\<lparr>sg_flags := TH_ACK, sg_data := d\<rparr>;
              st = upd_sw (\<lambda>w. w\<lparr>sw_segments := sw_segments w @ [g], sw_size := sw_size w + data_length,
                                 sw_seqno := sw_seqno w + data_length\<rparr>) st
          in ctcp_send (st, s))
      | SEND_ACK \<Rightarrow>
          let g = g\<lparr>sg_flags := TH_ACK\<rparr> in
          rbind (seg_cksum g (word_of_int (int SEG_HEADER_SIZE + data_length))) (\<lambda>k.
          let g = g\<lparr>sg_cksum := k\<rparr> in
          rbind (conn_send (st_conn st) s (seg_bytes g) (nat (int SEG_HEADER_SIZE + data_length))) (\<lambda>s.
          Inr (st, s)))
      | SEND_FIN \<Rightarrow>
          let g = g\<lparr>sg_flags := TH_FIN\<rparr>;
              st = upd_sw (\<lambda>w. w\<lparr>sw_segments := sw_segments w @ [g]\<rparr>) st
          in ctcp_send (st, s)
      | SEND_FIN_ACK \<Rightarrow>
          let g = g\<lparr>sg_flags := htonl 0x11\<rparr> in
          rbind (seg_cksum g (word_of_int (int SEG_HEADER_SIZE + data_length))) (\<lambda>k.
          let g = g\<lparr>sg_cksum := k\<rparr> in
          rbind (conn_send (st_conn st) s (seg_bytes g) (nat (int SEG_HEADER_SIZE + data_length))) (\<lambda>s.
          Inr (st, s))))"

definition v2_read :: "tcp \<Rightarrow> tcp res" where
  "v2_read t =
     (let (st, s) = t; buffer_size = read_size st in
      if buffer_size \<le> 0 then Inr t
      else
        rbind (conn_input (st_conn st) s (send_buf st) (nat buffer_size)) (\<lambda>(r, buf, c, s).
        let st = st\<lparr>st_conn := c, send_buf := buf, send_buf_len := r\<rparr> in
        if send_buf_len st \<ge> 0 then
          rbind (v2_makeseg (st, s) SEND_DATA) (\<lambda>(st, s).
          rbind (st8 (send_buf st) 0 0) (\<lambda>buf.
          Inr (st\<lparr>send_buf := buf, send_buf_len := 0\<rparr>, s)))
        else v2_makeseg (st\<lparr>send_buf_len := 0\<rparr>, s) SEND_FIN))"

definition v2_receive_fin :: "tcp \<Rightarrow> ctcp_segment \<Rightarrow> u64 \<Rightarrow> tcp res" where
  \<comment> \<open>step 3\<close>
  "v2_receive_fin t g len =
     (if sg_flags g AND TH_FIN \<noteq> 0 \<and> no_payload len then
        rbind (v2_makeseg t SEND_FIN_ACK) (\<lambda>t.
        if timer_teardown (fst t) = -1 then v2_makeseg t SEND_FIN else Inr t)
      else Inr t)"

definition v2_receive_expected :: "tcp \<Rightarrow> ctcp_segment \<Rightarrow> tcp res" where
  \<comment> \<open>the segment that starts at \<open>ackno\<close>; it counts as occupying the window while the acknowledgement is built\<close>
  "v2_receive_expected t g =
     (let (st, s) = t;
          st = upd_rw (\<lambda>w. w\<lparr>rw_segments := rw_segments w @ [g], rw_size := rw_size w + data_len g,
                             rw_ackno := rw_ackno w + data_len g\<rparr>) st
      in case dropWhile (\<lambda>x. sg_ptr x \<noteq> sg_ptr g) (rw_segments (st_rw st)) of
           [] \<Rightarrow> Inl NullDeref
         | _ # rest \<Rightarrow>
             let st = upd_rw (\<lambda>w. w\<lparr>rw_ackno := advance_ackno (rw_ackno w) rest\<rparr>) st
             in rbind (v2_makeseg (st, s) SEND_ACK) ctcp_output)"

fun v2_insert_future :: "ctcp_segment \<Rightarrow> ctcp_segment list \<Rightarrow> ctcp_segment list \<times> bool" where
  \<comment> \<open>the place is found by the sequence number of the next segment, without \<open>ntohl\<close>\<close>
  "v2_insert_future g [] = ([], False)"
| "v2_insert_future g [n] = ([n], False)"
| "v2_insert_future g (n # m # ms) =
     (if ntohl (sg_seqno g) < sg_seqno m then (n # g # m # ms, True)
      else (case v2_insert_future g (m # ms) of (l, b) \<Rightarrow> (n # l, b)))"

definition v2_receive_future :: "tcp \<Rightarrow> ctcp_segment \<Rightarrow> tcp res" where
  "v2_receive_future t g =
     (let (st, s) = t in
      case rw_segments (st_rw st) of
        [] \<Rightarrow> Inl NullDeref
      | segs \<Rightarrow>
          let (l, in_the_back) = v2_insert_future g segs;
              l = (if in_the_back then l @ [g] else l)
          in Inr (upd_rw (\<lambda>w. w\<lparr>rw_segments := l, rw_size := rw_size w + data_len g\<rparr>) st, s))"

definition v2_receive_data :: "tcp \<Rightarrow> ctcp_segment \<Rightarrow> u64 \<Rightarrow> tcp res" where
  \<comment> \<open>step 5\<close>
  "v2_receive_data t g len =
     rbind (if ntohl (sg_seqno g) < word_of_int (rw_ackno (st_rw (fst t)))
            then v2_makeseg t SEND_ACK else Inr t) (\<lambda>t.
     rbind (if ntohl (sg_seqno g) = word_of_int (rw_ackno (st_rw (fst t))) \<and> fits len (fst t)
            then v2_receive_expected t g else Inr t) (\<lambda>t.
     if ntohl (sg_seqno g) > word_of_int (rw_ackno (st_rw (fst t))) \<and> fits len (fst t)
     then v2_receive_future t g else Inr t))"

definition v2_receive :: "tcp \<Rightarrow> ctcp_segment \<Rightarrow> u64 \<Rightarrow> tcp res" where
  "v2_receive t g len =
     rbind (checksum g) (\<lambda>(good, g).
     if \<not> good then Inr t
     else
       let (st, s) = t;
           st = upd_sw (\<lambda>w. w\<lparr>recv_win_size := int (unat (ntohs (sg_window g)))\<rparr>) st in
       rbind (v2_receive_fin (st, s) g len) (\<lambda>(st, s).
       let force_ack = is_fin_ack g len;
           st = (if force_ack then st\<lparr>timer_teardown := clock s\<rparr> else st) in
       if \<not> no_payload len then v2_receive_data (st, s) g len
       else if sg_flags g AND TH_ACK \<noteq> 0 \<or> force_ack then receive_ack (st, s) g
       else Inr (st, s)))"

section \<open>\<open>ctcp1.c\<close>\<close>

definition inside_rw :: "ctcp_state \<Rightarrow> ctcp_segment \<Rightarrow> bool" where
  \<comment> \<open>not further from the first waiting segment than the window\<close>
  "inside_rw st g \<longleftrightarrow>
     (case rw_segments (st_rw st) of [] \<Rightarrow> True
      | f # _ \<Rightarrow> \<not> ntohl (sg_seqno f) + word_of_int (rw_max_size (st_rw st)) \<le> ntohl (sg_seqno g) - ucast (ntohs (sg_len g)))"

fun v1_insert_future :: "ctcp_segment \<Rightarrow> ctcp_segment list \<Rightarrow> ctcp_segment list \<times> bool" where
  \<comment> \<open>here \<open>in_the_back\<close> is true until a place is found\<close>
  "v1_insert_future g [] = ([], True)"
| "v1_insert_future g [n] = ([n], True)"
| "v1_insert_future g (n # m # ms) =
     (if ntohl (sg_seqno g) < sg_ackno m then (n # g # m # ms, False)
      else (case v1_insert_future g (m # ms) of (l, b) \<Rightarrow> (n # l, b)))"

definition v1_receive_future :: "tcp \<Rightarrow> ctcp_segment \<Rightarrow> tcp res" where
  "v1_receive_future t g =
     (let (st, s) = t in
      case rw_segments (st_rw st) of
        [] \<Rightarrow> Inl NullDeref
      | segs \<Rightarrow>
          let (l, in_the_back) = v1_insert_future g segs;
              l = (if in_the_back then l @ [g] else l)
          in Inr (upd_rw (\<lambda>w. w\<lparr>rw_segments := l, rw_size := rw_size w + data_len g\<rparr>) st, s))"

definition v1_receive_data :: "tcp \<Rightarrow> ctcp_segment \<Rightarrow> u64 \<Rightarrow> tcp res" where
  \<comment> \<open>step 5; the room for an early segment is measured by its own length field\<close>
  "v1_receive_data t g len =
     rbind (if ntohl (sg_seqno g) < word_of_int (rw_ackno (st_rw (fst t)))
            then v2_makeseg t SEND_ACK else Inr t) (\<lambda>t.
     rbind (if ntohl (sg_seqno g) = word_of_int (rw_ackno (st_rw (fst t))) \<and> fits len (fst t)
            then v2_receive_expected t g else Inr t) (\<lambda>t.
     if ntohl (sg_seqno g) > word_of_int (rw_ackno (st_rw (fst t))) \<and>
        (ucast (ntohs (sg_len g)) - word_of_nat SEG_HEADER_SIZE :: u64) \<le>
          word_of_int (rw_max_size (st_rw (fst t)) - rw_size (st_rw (fst t))) \<and> inside_rw (fst t) g
     then v1_receive_future t g else Inr t))"

definition v1_receive :: "tcp \<Rightarrow> ctcp_segment \<Rightarrow> u64 \<Rightarrow> tcp res" where
  "v1_receive t g len =
     rbind (checksum g) (\<lambda>(good, g).
     if \<not> good then Inr t
     else
       let (st, s) = t;
           st = upd_sw (\<lambda>w. w\<lparr>recv_win_size := int (unat (ntohs (sg_window g)))\<rparr>) st in
       rbind (v2_receive_fin (st, s) g len) (\<lambda>(st, s).
       let force_ack = is_fin_ack g len;
           st = (if force_ack then st\<lparr>timer_teardown := clock s\<rparr> else st) in
       if \<not> no_payload len then v1_receive_data (st, s) g len
       else if sg_flags g AND TH_ACK \<noteq> 0 \<or> force_ack then receive_ack (st, s) g
       else Inr (st, s)))"

section \<open>Segments with the other window\<close>

definition lend :: "ctcp_state \<Rightarrow> ctcp_state" where
  \<comment> \<open>the state in which \<open>ctcp.c\<close> would advertise the free part of the receive window\<close>
  "lend st = upd_sw (\<lambda>w. w\<lparr>sw_max_size := sw_size w + (rw_max_size (st_rw st) - rw_size (st_rw st))\<rparr>) st"

lemma lend_fields [simp]:
  "st_conn (lend st) = st_conn st" "st_rw (lend st) = st_rw st" "send_buf_len (lend st) = send_buf_len st"
  "send_buf (lend st) = send_buf st" "sw_segments (st_sw (lend st)) = sw_segments (st_sw st)"
  "sw_seqno (st_sw (lend st)) = sw_seqno (st_sw st)" "sw_size (st_sw (lend st)) = sw_size (st_sw st)"
  "timer_teardown (lend st) = timer_teardown st"
  by (simp_all add: lend_def)

lemma v2_new_segment_lend: "v2_new_segment (st, s) = new_segment (lend st, s)"
  by (simp add: v2_new_segment_def new_segment_def lend_def)

lemma v2_makeseg_reply:
  assumes "\<not> delete_me (st_conn st)" "send_buf_len st = 0"
  shows "v2_makeseg (st, s) SEND_ACK = Inr (st, send_out (reply (lend st) s TH_ACK) s)"
    "v2_makeseg (st, s) SEND_FIN_ACK = Inr (st, send_out (reply (lend st) s (htonl 0x11)) s)"
proof -
  have "\<not> delete_me (st_conn (lend st))" "send_buf_len (lend st) = 0" using assms by simp_all
  note M = makeseg_reply [OF this, of s]
  have "v2_makeseg (st, s) m = rbind (ctcp_makeseg (lend st, s) m) (\<lambda>(_, s). Inr (st, s))"
    if "m = SEND_ACK \<or> m = SEND_FIN_ACK" for m
    using that unfolding v2_makeseg_def ctcp_makeseg_def Let_def prod.case v2_new_segment_lend
    by (auto simp: split_beta rbind_def split: sum.split)
  then show "v2_makeseg (st, s) SEND_ACK = Inr (st, send_out (reply (lend st) s TH_ACK) s)"
    "v2_makeseg (st, s) SEND_FIN_ACK = Inr (st, send_out (reply (lend st) s (htonl 0x11)) s)"
    using M by simp_all
qed

lemma v2_new_segment_split: "v2_new_segment (st, s) = (bare (lend st) s 0 [], s\<lparr>seg_count := Suc (seg_count s)\<rparr>)"
  using new_segment_split [of "lend st" s] by (simp add: v2_new_segment_lend)

lemma v2_makeseg_queued:
  fixes st :: ctcp_state and s :: sys and n :: nat
  assumes "\<not> delete_me (st_conn st)" "\<forall>g \<in> set (sw_segments (st_sw st)). sent_ok g"
    "send_buf_len st = int n" "n \<le> MAX_SEG_DATA_SIZE" "length (send_buf st) = MAX_SEG_DATA_SIZE"
  defines "g \<equiv> bare (lend st) s TH_ACK (take n (send_buf st))" and "f \<equiv> bare (lend st) s TH_FIN []"
  shows "v2_makeseg (st, s) SEND_DATA = Inr
      (upd_sw (enqueue (clock s) (rw_ackno (st_rw st)) g) st, send_out (seal (rw_ackno (st_rw st)) g) s)"
    "n = 0 \<Longrightarrow> v2_makeseg (st, s) SEND_FIN = Inr
      (upd_sw (enqueue (clock s) (rw_ackno (st_rw st)) f) st, send_out (seal (rw_ackno (st_rw st)) f) s)"
proof -
  have send: "ctcp_send (upd_sw (\<lambda>w. w\<lparr>sw_segments := sw_segments w @ [h], sw_size := sw_size w + data_len h,
      sw_seqno := sw_seqno w + data_len h\<rparr>) st, s\<lparr>seg_count := Suc (seg_count s)\<rparr>) =
      Inr (upd_sw (enqueue (clock s) (rw_ackno (st_rw st)) h) st, send_out (seal (rw_ackno (st_rw st)) h) s)"
    if "seg_ok h" "sg_cksum h = 0" for h
    using assms(1,2) that by (subst ctcp_send_snoc) (auto simp: upd_sw_def enqueue_def send_out_def)
  have ok: "seg_ok g" unfolding g_def using assms(3,4,5) by (intro bare_ok) auto
  have len: "data_len g = int n" using ok assms(3,4,5) by (simp add: data_len_ok) (simp add: g_def)
  have rd: "rd (send_buf st) 0 n = Inr (take n (send_buf st))" using assms(4,5) by (simp add: rd_def slice_def)
  show "v2_makeseg (st, s) SEND_DATA = Inr
      (upd_sw (enqueue (clock s) (rw_ackno (st_rw st)) g) st, send_out (seal (rw_ackno (st_rw st)) g) s)"
    using send [OF ok] rd len assms(3) by (simp add: v2_makeseg_def v2_new_segment_split Let_def g_def)
  assume "n = 0"
  then have okf: "seg_ok f" unfolding f_def using assms(3) by (intro bare_ok) auto
  then have lenf: "data_len f = 0" by (simp add: data_len_ok) (simp add: f_def)
  show "v2_makeseg (st, s) SEND_FIN = Inr
      (upd_sw (enqueue (clock s) (rw_ackno (st_rw st)) f) st, send_out (seal (rw_ackno (st_rw st)) f) s)"
    using send [OF okf] lenf by (simp add: v2_makeseg_def v2_new_segment_split Let_def f_def)
qed

section \<open>The two versions do the same but for the advertised window\<close>

definition strip :: "ctcp_segment \<Rightarrow> ctcp_segment" where
  \<comment> \<open>a segment without its window; of the checksum only whether it was computed\<close>
  "strip g = g\<lparr>sg_window := 0, sg_cksum := (if sg_cksum g = 0 then 0 else 1)\<rparr>"

definition strip_image :: "byte list \<Rightarrow> byte list" where
  \<comment> \<open>the image of a segment without window and checksum\<close>
  "strip_image b = take 16 b @ drop 20 b"

definition alike :: "tcp \<Rightarrow> tcp \<Rightarrow> bool" where
  \<comment> \<open>the states and what was transmitted agree but for advertised windows and checksums\<close>
  "alike t u \<longleftrightarrow> (\<exists>segs outs.
     fst u = upd_sw (\<lambda>w. w\<lparr>sw_segments := segs\<rparr>) (fst t) \<and> map strip segs = map strip (sw_segments (st_sw (fst t))) \<and>
     snd u = (snd t)\<lparr>segments_out := outs\<rparr> \<and> map strip_image outs = map strip_image (segments_out (snd t)))"

fun alike_results :: "tcp res \<Rightarrow> tcp res \<Rightarrow> bool" where
  "alike_results (Inl e) (Inl e') \<longleftrightarrow> e = e'"
| "alike_results (Inr t) (Inr u) \<longleftrightarrow> alike t u"
| "alike_results _ _ \<longleftrightarrow> False"

lemma alikeI:
  "su = upd_sw (\<lambda>w. w\<lparr>sw_segments := segs\<rparr>) st \<Longrightarrow> map strip segs = map strip (sw_segments (st_sw st)) \<Longrightarrow>
    u = s\<lparr>segments_out := outs\<rparr> \<Longrightarrow> map strip_image outs = map strip_image (segments_out s) \<Longrightarrow> alike (st, s) (su, u)"
  by (auto simp: alike_def)

lemma alike_refl [simp]: "alike t t"
  by (cases t) (auto intro!: alikeI simp: upd_sw_def)

lemma alike_results_refl [simp]: "alike_results r r"
  by (cases r) simp_all

lemma strip_image_seg: "strip_image (seg_bytes g) = bytes32 (sg_seqno g) @ bytes32 (sg_ackno g) @ bytes16 (sg_len g) @
    bytes16 (sg_pad g) @ bytes32 (sg_flags g) @ sg_data g"
  by (simp add: strip_image_def seg_bytes_def)

lemma strip_image_cong:
  "strip g = strip h \<Longrightarrow> strip_image (seg_bytes g) = strip_image (seg_bytes h)"
  by (cases g; cases h) (simp add: strip_image_seg strip_def)

lemma strip_bare: "strip (bare (lend st) s f d) = strip (bare st s f d)"
  by (simp add: strip_def bare_def new_segment_def lend_def)

lemma strip_seal:
  assumes "seg_ok g" "seg_ok h" "sg_cksum g = 0" "sg_cksum h = 0" "strip g = strip h"
  shows "strip (seal a g) = strip (seal a h)"
proof -
  have "strip (seal a g) = (strip g)\<lparr>sg_ackno := htonl (word_of_int a), sg_cksum := 1\<rparr>"
    if "seg_ok g" "sg_cksum g = 0" for g
    using seal_nonzero [OF that(1), of a] that(2) by (simp add: strip_def seal_def Let_def)
  then show ?thesis using assms by simp
qed

lemma strip_summed: "k \<noteq> 0 \<Longrightarrow> strip (g\<lparr>sg_cksum := k\<rparr>) = (strip g)\<lparr>sg_cksum := 1\<rparr>"
  by (simp add: strip_def)

lemma strip_reply: "strip (reply (lend st) s f) = strip (reply st s f)"
  using strip_bare [of st s f "[]"] strip_summed [OF cksum_nonzero] by (simp add: reply_def)

lemma alike_sent:
  assumes "strip g = strip h" "alike (st, s) (su, u)"
  shows "alike (st, send_out g s) (su, send_out h u)"
proof -
  obtain segs outs where a: "su = upd_sw (\<lambda>w. w\<lparr>sw_segments := segs\<rparr>) st" "map strip segs = map strip (sw_segments (st_sw st))"
      "u = s\<lparr>segments_out := outs\<rparr>" "map strip_image outs = map strip_image (segments_out s)"
    using assms(2) by (auto simp: alike_def)
  show ?thesis
    using a strip_image_cong [OF assms(1)]
    by (intro alikeI [where segs = segs and outs = "outs @ [seg_bytes h]"]) (simp_all add: send_out_def)
qed

lemma strip_window: "strip g = strip h \<Longrightarrow> data_len g = data_len h \<and> sg_seqno g = sg_seqno h"
  by (cases g; cases h) (simp add: strip_def data_len_def)

lemma alike_enqueued:
  assumes "seg_ok g" "seg_ok h" "sg_cksum g = 0" "sg_cksum h = 0" "strip g = strip h" "alike (st, s) (st, u)"
  shows "alike (upd_sw (enqueue now a g) st, send_out (seal a g) s) (upd_sw (enqueue now a h) st, send_out (seal a h) u)"
proof -
  have s: "strip (seal a g) = strip (seal a h)" using strip_seal assms(1-5) by blast
  obtain segs outs where o: "u = s\<lparr>segments_out := outs\<rparr>" "map strip_image outs = map strip_image (segments_out s)"
    using assms(6) by (auto simp: alike_def)
  show ?thesis
    using strip_window [OF assms(5)] s o strip_image_cong [OF s]
    by (intro alikeI [where segs = "sw_segments (st_sw st) @ [seal a h]" and outs = "outs @ [seg_bytes (seal a h)]"])
       (simp_all add: upd_sw_def enqueue_def send_out_def)
qed

lemma strip_filter:
  assumes "\<And>g h. strip g = strip h \<Longrightarrow> P g = P h"
  shows "map strip gs = map strip hs \<Longrightarrow> map strip (filter P gs) = map strip (filter P hs)"
proof (induction gs hs rule: list_induct2')
  case (4 g gs h hs)
  then have "strip g = strip h" by simp
  then have "P g = P h" by (rule assms)
  then show ?case using 4 by simp
qed auto

lemma strip_in_flight: "map strip gs = map strip hs \<Longrightarrow> in_flight gs = in_flight hs"
proof (induction gs hs rule: list_induct2')
  case (4 g gs h hs)
  then show ?case using strip_window [of g h] by simp
qed auto

text \<open>Acknowledgements treat alike states alike.\<close>

lemma ack_alike:
  assumes a: "alike (st, s) (su, u)" and inv: "tcp_inv st" "tcp_inv su"
  shows "alike_results (receive_ack (st, s) g) (receive_ack (su, u) g)"
proof -
  obtain segs outs where e: "su = upd_sw (\<lambda>w. w\<lparr>sw_segments := segs\<rparr>) st" "map strip segs = map strip (sw_segments (st_sw st))"
      "u = s\<lparr>segments_out := outs\<rparr>" "map strip_image outs = map strip_image (segments_out s)"
    using a by (auto simp: alike_def)
  let ?r = "sint (ntohl (sg_ackno g))" and ?gs = "sw_segments (st_sw st)"
  let ?f = "\<lambda>w. restart_timer (clock s) (slide ?r w)"
  have ack: "acked ?r g = acked ?r h" if "strip g = strip h" for g h using strip_window [OF that] by (simp add: acked_def)
  have fl: "map strip (filter (\<lambda>g. \<not> acked ?r g) segs) = map strip (filter (\<lambda>g. \<not> acked ?r g) ?gs)"
    using strip_filter [of "\<lambda>g. \<not> acked ?r g"] ack e(2) by blast
  then have empty: "filter (\<lambda>g. \<not> acked ?r g) segs = [] \<longleftrightarrow> filter (\<lambda>g. \<not> acked ?r g) ?gs = []"
    by (metis map_is_Nil_conv)
  have slid: "alike (upd_sw ?f st, s) (upd_sw ?f su, u)"
    using fl empty strip_in_flight [OF fl] e
    by (intro alikeI [where segs = "filter (\<lambda>g. \<not> acked ?r g) segs" and outs = outs])
       (simp_all add: upd_sw_def restart_timer_def slide_def)
  have sg: "sw_segments (st_sw su) = segs" "clock u = clock s" using e(1,3) by simp_all
  show ?thesis
  proof (cases ?gs)
    case Nil
    then have "segs = []" using e(2) by simp
    then show ?thesis using receive_ack_ok [OF inv(1), of s g] receive_ack_ok [OF inv(2), of u g] Nil sg a by simp
  next
    case (Cons h hs)
    then obtain k ks where k: "segs = k # ks" "strip k = strip h" using e(2) by (cases segs) auto
    have "expected_ackno k = expected_ackno h" using strip_window [OF k(2)] by (simp add: expected_ackno_def)
    then show ?thesis
      using receive_ack_ok [OF inv(1), of s g] receive_ack_ok [OF inv(2), of u g] Cons k(1) sg a slid by simp
  qed
qed

section \<open>Received segments\<close>

lemma v2_fin_alike:
  assumes inv: "conn_inv (st, s)"
  shows "\<exists>t u. v2_receive_fin (st, s) g len = Inr t \<and> receive_fin (st, s) g len = Inr u \<and> alike t u \<and> conn_inv t \<and> conn_inv u"
proof -
  have t: "tcp_inv st" using inv by (simp add: conn_inv_def)
  note D = tcp_invD [OF t]
  let ?k = "reply (lend st) s (htonl 0x11)" and ?h = "reply st s (htonl 0x11)"
  let ?s = "send_out ?k s" and ?u = "send_out ?h s" and ?a = "rw_ackno (st_rw st)"
  let ?f = "bare (lend st) ?s TH_FIN []" and ?e = "bare st ?u TH_FIN []"
  have z: "send_buf_len st = int 0" "0 \<le> MAX_SEG_DATA_SIZE" using D(3) by simp_all
  have ok: "seg_ok ?f" "seg_ok ?e" using D(3) bare_ok [of "lend st" "[]"] bare_ok [of st "[]"] by simp_all
  have k: "alike (st, ?s) (st, ?u)" using alike_sent [OF strip_reply alike_refl] .
  have "strip ?f = strip ?e" by (simp add: strip_def bare_def new_segment_def lend_def send_out_def)
  from alike_enqueued [OF ok _ _ this k] have q:
    "alike (upd_sw (enqueue (clock s) ?a ?f) st, send_out (seal ?a ?f) ?s) (upd_sw (enqueue (clock s) ?a ?e) st, send_out (seal ?a ?e) ?u)"
    by simp
  have len: "data_len ?f = 0" using ok(1) by (simp add: data_len_ok)
  have "stream_ok (upd_sw (enqueue (clock s) ?a ?f) st)"
    using inv D(7) len by (intro enqueue_stream) (auto simp: conn_inv_def stream_ok_def)
  moreover have "tcp_inv (upd_sw (enqueue (clock s) ?a ?f) st)"
    using t D(8) ok(1) len by (auto simp: tcp_inv_def quiet_def intro!: enqueue_ok)
  ultimately have ci: "conn_inv (upd_sw (enqueue (clock s) ?a ?f) st, send_out (seal ?a ?f) ?s)" "conn_inv (st, ?s)"
    using inv by (simp_all add: conn_inv_def)
  have v2: "v2_receive_fin (st, s) g len = Inr (if sg_flags g AND TH_FIN \<noteq> 0 \<and> no_payload len then
      if timer_teardown st = -1 then (upd_sw (enqueue (clock s) ?a ?f) st, send_out (seal ?a ?f) ?s) else (st, ?s) else (st, s))"
    using v2_makeseg_reply(2) [OF D(1,3), of s] v2_makeseg_queued(2) [OF D(1,2) z D(4), of ?s]
    by (simp add: v2_receive_fin_def)
  have v3: "receive_fin (st, s) g len = Inr (if sg_flags g AND TH_FIN \<noteq> 0 \<and> no_payload len then
      if timer_teardown st = -1 then (upd_sw (enqueue (clock s) ?a ?e) st, send_out (seal ?a ?e) ?u) else (st, ?u) else (st, s))"
    using makeseg_reply(2) [OF D(1,3), of s] makeseg_fin [OF D(1,2,3), of ?u] by (simp add: receive_fin_def)
  obtain st' s' where c: "receive_fin (st, s) g len = Inr (st', s')" "conn_inv (st', s')"
    using receive_fin_inv [OF inv] by blast
  let ?t = "if sg_flags g AND TH_FIN \<noteq> 0 \<and> no_payload len then
      if timer_teardown st = -1 then (upd_sw (enqueue (clock s) ?a ?f) st, send_out (seal ?a ?f) ?s) else (st, ?s) else (st, s)"
  let ?v = "if sg_flags g AND TH_FIN \<noteq> 0 \<and> no_payload len then
      if timer_teardown st = -1 then (upd_sw (enqueue (clock s) ?a ?e) st, send_out (seal ?a ?e) ?u) else (st, ?u) else (st, s)"
  have "alike ?t ?v" using k q alike_refl by (simp only: split: if_split) blast
  moreover have "conn_inv ?t" using ci inv by (simp only: split: if_split) blast
  moreover have "conn_inv ?v" using c v3 by (metis sum.inject(2))
  ultimately show ?thesis using v2 v3 by blast
qed

lemma sys_write_out:
  "sys_write s bs = (q, s') \<Longrightarrow> sys_write (s\<lparr>segments_out := x\<rparr>) bs = (q, s'\<lparr>segments_out := x\<rparr>)"
  by (auto simp: sys_write_def Let_def split: list.splits write_result.splits)

lemma conn_output_out:
  assumes "conn_output c s buf n = Inr (r, c', s')"
  shows "conn_output c (s\<lparr>segments_out := x\<rparr>) buf n = Inr (r, c', s'\<lparr>segments_out := x\<rparr>)"
proof (cases "delete_me c \<or> wrote_eof c \<or> n = 0 \<or> wrote_err c \<or> conn_bufspace c = 0")
  case True
  then show ?thesis using assms by (elim disjE) (simp_all add: conn_output_def split: if_splits)
next
  case False
  then have n: "n \<le> length buf" using assms by (simp add: conn_output_def rd_def rbind_def split: if_splits)
  then have data: "rd buf 0 n = Inr (take n buf)" by (simp add: rd_def slice_def)
  obtain q s1 where w: "sys_write s (take n buf) = (q, s1)" by fastforce
  show ?thesis
    using False assms w sys_write_out [OF w, of x] data
    by (cases "out_queue c = []"; cases q) (auto simp: conn_output_def Let_def)
qed

definition full_ack :: "ctcp_segment \<Rightarrow> ctcp_state \<Rightarrow> sys \<Rightarrow> ctcp_segment" where
  \<comment> \<open>the acknowledgement, built while the segment stands in the receive window\<close>
  "full_ack g st s = reply (lend (upd_rw (\<lambda>w. w\<lparr>rw_segments := [g], rw_size := data_len g,
     rw_ackno := rw_ackno w + data_len g\<rparr>) st)) s TH_ACK"

lemma full_ack_fields [simp]:
  "sg_ackno (full_ack g st s) = htonl (word_of_int (rw_ackno (st_rw st) + data_len g))"
  "sg_flags (full_ack g st s) = TH_ACK" "sg_data (full_ack g st s) = []"
  by (simp_all add: full_ack_def)

lemma v2_receive_expected_ok:
  fixes st :: ctcp_state and s :: sys and g :: ctcp_segment
  assumes inv: "tcp_inv st" and ok: "seg_ok g" and data: "sg_data g \<noteq> []"
    and seq: "ntohl (sg_seqno g) = word_of_int (rw_ackno (st_rw st))"
    and range: "0 \<le> rw_ackno (st_rw st)" "rw_ackno (st_rw st) + data_len g < 2 ^ 31"
  shows "v2_receive_expected (st, s) g =
    rbind (conn_output (st_conn st) (send_out (full_ack g st s) s) (sg_data g)
             (min (conn_bufspace (st_conn st)) (length (sg_data g))))
      (\<lambda>(_, c, s). Inr ((advance g st)\<lparr>st_conn := c\<rparr>, s))"
proof -
  note D = tcp_invD [OF inv]
  let ?st = "upd_rw (\<lambda>w. w\<lparr>rw_segments := [g], rw_size := data_len g, rw_ackno := rw_ackno w + data_len g\<rparr>) st"
  let ?k = "full_ack g st s"
  have seg: "v2_makeseg (?st, s) SEND_ACK = Inr (?st, send_out ?k s)"
    using v2_makeseg_reply(1) [of ?st s] D(1,3) by (simp add: full_ack_def)
  have "0 < data_len g" using data ok by (simp add: data_len_ok)
  then have less: "\<not> ntohl (sg_seqno g) \<ge> word_of_int (rw_ackno (st_rw ?st))"
    using ackno_advances [OF range(1) _ range(2)] by (simp add: seq)
  have start: "v2_receive_expected (st, s) g = rbind (v2_makeseg (?st, s) SEND_ACK) ctcp_output"
    using D(5,6) by (simp add: v2_receive_expected_def upd_rw_def Let_def)
  obtain r c s' where o: "conn_output (st_conn st) (send_out ?k s) (sg_data g)
      (min (conn_bufspace (st_conn st)) (length (sg_data g))) = Inr (r, c, s')"
    using conn_output_total [OF D(1), of _ "sg_data g"] by (metis min.cobounded2)
  have fin: "upd_rw (\<lambda>w. w\<lparr>rw_segments := []\<rparr>)
      (upd_rw (\<lambda>w. w\<lparr>rw_size := rw_size w - data_len g\<rparr>) (?st\<lparr>st_conn := c\<rparr>)) = (advance g st)\<lparr>st_conn := c\<rparr>"
    using D(5,6) by (cases st; cases "st_rw st") (simp add: advance_def upd_rw_def)
  have "ctcp_output (?st, send_out ?k s) = Inr ((advance g st)\<lparr>st_conn := c\<rparr>, s')"
    using less o output_size [OF ok, of "st_conn st"] fin
    by (simp add: ctcp_output_def Let_def del: of_int_add)
  then show ?thesis using start seg o by simp
qed

lemma v2_receive_data_ok:
  fixes st :: ctcp_state and s :: sys and g :: ctcp_segment
  assumes inv: "tcp_inv st" and ok: "seg_ok g" and data: "sg_data g \<noteq> []"
    and range: "0 \<le> rw_ackno (st_rw st)" "rw_ackno (st_rw st) + data_len g < 2 ^ 31"
  defines "ackno \<equiv> word_of_int (rw_ackno (st_rw st)) :: u32"
  shows "v2_receive_data (st, s) g len =
    (if ntohl (sg_seqno g) < ackno then Inr (st, send_out (reply (lend st) s TH_ACK) s)
     else if \<not> fits len st then Inr (st, s)
     else if ntohl (sg_seqno g) = ackno then v2_receive_expected (st, s) g
     else Inl NullDeref)"
proof -
  note D = tcp_invD [OF inv]
  have "0 < data_len g" using data ok by (simp add: data_len_ok)
  then have adv: "\<not> ackno > word_of_int (rw_ackno (st_rw st) + data_len g)"
    using ackno_advances [OF range(1) _ range(2)] unfolding ackno_def by (simp add: less_imp_le not_less)
  have "v2_makeseg (st, s) SEND_ACK = Inr (st, send_out (reply (lend st) s TH_ACK) s)"
    using v2_makeseg_reply(1) D(1,3) by simp
  moreover have "v2_receive_future (st, s) g = Inl NullDeref" using D(5) by (simp add: v2_receive_future_def)
  moreover have "rbind (v2_receive_expected (st, s) g) (\<lambda>t.
      if ntohl (sg_seqno g) > word_of_int (rw_ackno (st_rw (fst t))) \<and> fits len (fst t)
      then v2_receive_future t g else Inr t) = v2_receive_expected (st, s) g"
    if "ntohl (sg_seqno g) = ackno"
    using v2_receive_expected_ok [OF inv ok data that [unfolded ackno_def] range] adv that
    by (auto simp: rbind_def advance_def split: sum.splits simp del: of_int_add)
  ultimately show ?thesis by (auto simp: v2_receive_data_def ackno_def [symmetric])
qed

lemma strip_full_ack: "strip (full_ack g st s) = strip (reply (advance g st) s TH_ACK)"
proof -
  let ?st = "upd_rw (\<lambda>w. w\<lparr>rw_segments := [g], rw_size := data_len g, rw_ackno := rw_ackno w + data_len g\<rparr>) st"
  have "reply ?st s TH_ACK = reply (advance g st) s TH_ACK"
    by (simp add: reply_def bare_def new_segment_def advance_def Let_def)
  then show ?thesis using strip_reply [of ?st s TH_ACK] by (simp add: full_ack_def)
qed

lemma alike_out:
  "map strip_image x = map strip_image (segments_out s) \<Longrightarrow> alike (st, s) (st, s\<lparr>segments_out := x\<rparr>)"
  by (rule alikeI [where segs = "sw_segments (st_sw st)" and outs = x]) (simp_all add: upd_sw_def)

lemma expected_alike:
  assumes inv: "tcp_inv st" and g: "seg_ok g" "sg_data g \<noteq> []" "ntohl (sg_seqno g) = word_of_int (rw_ackno (st_rw st))"
    "0 \<le> rw_ackno (st_rw st)" "rw_ackno (st_rw st) + data_len g < 2 ^ 31"
  shows "alike_results (v2_receive_expected (st, s) g) (receive_expected (st, s) g)"
proof -
  let ?k = "full_ack g st s" and ?h = "reply (advance g st) s TH_ACK"
  let ?n = "min (conn_bufspace (st_conn st)) (length (sg_data g))"
  have h: "send_out ?h s = (send_out ?k s)\<lparr>segments_out := segments_out s @ [seg_bytes ?h]\<rparr>" by (simp add: send_out_def)
  obtain r c s' where o: "conn_output (st_conn st) (send_out ?k s) (sg_data g) ?n = Inr (r, c, s')"
    using conn_output_total [OF tcp_invD(1) [OF inv], of ?n "sg_data g"] by (metis min.cobounded2)
  have o2: "conn_output (st_conn st) (send_out ?h s) (sg_data g) ?n =
      Inr (r, c, s'\<lparr>segments_out := segments_out s @ [seg_bytes ?h]\<rparr>)"
    unfolding h by (rule conn_output_out [OF o])
  have "segments_out s' = segments_out s @ [seg_bytes ?k]" using conn_output_segments [OF o] by simp
  then have "alike ((advance g st)\<lparr>st_conn := c\<rparr>, s')
      ((advance g st)\<lparr>st_conn := c\<rparr>, s'\<lparr>segments_out := segments_out s @ [seg_bytes ?h]\<rparr>)"
    using strip_image_cong [OF strip_full_ack, of g st s] by (intro alike_out) simp
  then show ?thesis
    using v2_receive_expected_ok [OF inv g, of s] receive_expected_ok [OF inv g, of s] o o2 by simp
qed

lemma data_alike:
  assumes inv: "tcp_inv st" and g: "seg_ok g" "sg_data g \<noteq> []"
    "0 \<le> rw_ackno (st_rw st)" "rw_ackno (st_rw st) + data_len g < 2 ^ 31"
  shows "alike_results (v2_receive_data (st, s) g len) (receive_data (st, s) g len)"
proof -
  have "alike (st, send_out (reply (lend st) s TH_ACK) s) (st, send_out (reply st s TH_ACK) s)"
    by (rule alike_sent [OF strip_reply alike_refl])
  then show ?thesis
    using expected_alike [OF inv g(1,2) _ g(3,4), of s]
    unfolding v2_receive_data_ok [OF inv g, of s len] receive_data_ok [OF inv g, of s len] by (simp split: if_split)
qed

lemma v2_receive_cases:
  assumes "seg_ok g" "verifies g"
  defines "len \<equiv> word_of_nat (length (seg_bytes g)) :: u64" and "h \<equiv> g\<lparr>sg_cksum := 0\<rparr>"
  shows "sg_data g \<noteq> [] \<Longrightarrow> v2_receive (st, s) g len = v2_receive_data (set_peer_window g st, s) h len"
    "sg_data g = [] \<Longrightarrow> v2_receive (st, s) g len =
      rbind (v2_receive_fin (set_peer_window g st, s) h len) (\<lambda>(st, s).
        let force_ack = is_fin_ack h len; st = (if force_ack then st\<lparr>timer_teardown := clock s\<rparr> else st)
        in if sg_flags h AND TH_ACK \<noteq> 0 \<or> force_ack then receive_ack (st, s) h else Inr (st, s))"
  using assms no_payload_iff [OF assms(1)]
  by (simp_all add: v2_receive_def checksum_ok v2_receive_fin_def is_fin_ack_def Let_def set_peer_window_def)

lemma receive_alike:
  assumes inv: "conn_inv (st, s)" and g: "seg_ok g" "rw_ackno (st_rw st) + data_len g < 2 ^ 31"
  shows "alike_results (v2_receive (st, s) g (word_of_nat (length (seg_bytes g))))
    (ctcp_receive (st, s) g (word_of_nat (length (seg_bytes g))))"
proof -
  let ?st = "set_peer_window g st" and ?g = "g\<lparr>sg_cksum := 0\<rparr>" and ?n = "word_of_nat (length (seg_bytes g)) :: u64"
  have c: "conn_inv (?st, s)" using inv by simp
  then have t: "tcp_inv ?st" "0 \<le> rw_ackno (st_rw ?st)" by (auto simp: conn_inv_def stream_ok_def)
  consider "\<not> verifies g" | "verifies g" "sg_data g \<noteq> []" | "verifies g" "sg_data g = []" by blast
  then show ?thesis
  proof cases
    case 1
    then show ?thesis using g(1) by (simp add: v2_receive_def ctcp_receive_def checksum_ok)
  next
    case 2
    then show ?thesis
      using v2_receive_cases(1) [OF g(1) 2] receive_payload [OF g(1) 2] data_alike [OF t(1), of ?g s ?n] g t(2) by simp
  next
    case 3
    obtain st1 s1 su u where f: "v2_receive_fin (?st, s) ?g ?n = Inr (st1, s1)" "receive_fin (?st, s) ?g ?n = Inr (su, u)"
        "alike (st1, s1) (su, u)" "conn_inv (st1, s1)" "conn_inv (su, u)"
      using v2_fin_alike [OF c] by (metis prod.exhaust)
    have ck: "clock u = clock s1" using f(3) by (auto simp: alike_def)
    let ?t = "\<lambda>x. if is_fin_ack ?g ?n then x\<lparr>timer_teardown := clock s1\<rparr> else x"
    have a: "alike (?t st1, s1) (?t su, u)"
      using f(3) by (cases st1) (auto simp: alike_def upd_sw_def)
    have i: "tcp_inv (?t st1)" "tcp_inv (?t su)" using f(4,5) by (simp_all add: conn_inv_def tcp_inv_def quiet_def)
    show ?thesis
      unfolding v2_receive_cases(2) [OF g(1) 3] receive_control [OF g(1) 3] f(1,2) rbind_simps prod.case Let_def ck
      using ack_alike [OF a i, of ?g] a f(3) by simp
  qed
qed

section \<open>Reading\<close>

lemma alike_buffer:
  "alike (st, s) (su, u) \<Longrightarrow> alike (st\<lparr>send_buf := b, send_buf_len := n\<rparr>, s) (su\<lparr>send_buf := b, send_buf_len := n\<rparr>, u)"
  by (cases st) (auto simp: alike_def upd_sw_def)

lemma read_alike:
  assumes inv: "conn_inv (st, s)"
  shows "alike_results (v2_read (st, s)) (ctcp_read (st, s))"
proof (cases "read_size st \<le> 0 \<or> read_overruns st s")
  case True
  have "conn_input (st_conn st) s (send_buf st) (nat (read_size st)) = Inl OutOfBounds"
    if "read_overruns st s" "\<not> read_size st \<le> 0"
    using conn_input_cases [of "st_conn st" "nat (read_size st)" "send_buf st" s] that inv tcp_invD(1,4) [of st]
      read_size_bound(3) [of st] by (simp add: read_overruns_def conn_inv_def)
  then show ?thesis using True by (cases "read_size st \<le> 0") (simp_all add: v2_read_def ctcp_read_def Let_def)
next
  case out: False
  then have False: "\<not> read_size st \<le> 0" and line: "\<not> line_overruns (st_conn st) s (send_buf st) (nat (read_size st))"
    by (simp_all add: read_overruns_def)
  have t: "tcp_inv st" using inv by (simp add: conn_inv_def)
  note D = tcp_invD [OF t]
  let ?n = "nat (read_size st)" and ?a = "rw_ackno (st_rw st)"
  have bound: "0 < ?n" "?n \<le> length (send_buf st)" using False D(4) read_size_bound(3) [of st] by auto
  obtain r buf c s' where i: "conn_input (st_conn st) s (send_buf st) ?n = Inr (r, buf, c, s')"
      "-1 \<le> r" "r \<le> int ?n" "length buf = length (send_buf st)" "c = st_conn st \<or> c = (st_conn st)\<lparr>read_eof := True\<rparr>"
    using conn_input_cases [OF D(1) bound, of s] line by auto
  have del: "\<not> delete_me c" using i(5) D(1) by auto
  have len: "length buf = MAX_SEG_DATA_SIZE" "Suc 0 \<le> length buf" using i(4) D(4) by (simp_all add: MAX_SEG_DATA_SIZE_def)
  have step: "alike_results (rbind (v2_makeseg (st1, s') m) f) (rbind (ctcp_makeseg (st1, s') m) f)"
    if st1: "st1 = st\<lparr>st_conn := c, send_buf := buf, send_buf_len := int n\<rparr>" "n \<le> MAX_SEG_DATA_SIZE"
      and m: "m = SEND_DATA \<or> m = SEND_FIN \<and> n = 0"
      and f: "\<And>t u. alike t u \<Longrightarrow> send_buf (fst t) = buf \<Longrightarrow> alike_results (f t) (f u)" for st1 n m f
  proof -
    have pre: "\<not> delete_me (st_conn st1)" "\<forall>g \<in> set (sw_segments (st_sw st1)). sent_ok g" "send_buf_len st1 = int n"
      "length (send_buf st1) = MAX_SEG_DATA_SIZE" using st1(1) del D(2) len(1) by simp_all
    let ?d = "if m = SEND_DATA then take n buf else []" and ?fl = "if m = SEND_DATA then TH_ACK else TH_FIN"
    let ?g = "bare (lend st1) s' ?fl ?d" and ?h = "bare st1 s' ?fl ?d"
    have d: "length ?d = n" using m st1(2) len(1) by auto
    have ok: "seg_ok ?g" "seg_ok ?h" using bare_ok [of "lend st1" ?d] bare_ok [of st1 ?d] pre(3) d st1(2) by simp_all
    have "v2_makeseg (st1, s') m = Inr (upd_sw (enqueue (clock s') ?a ?g) st1, send_out (seal ?a ?g) s')"
      using v2_makeseg_queued [OF pre(1-3) st1(2) pre(4), of s'] m st1(1) by auto
    moreover have "ctcp_makeseg (st1, s') m = Inr (upd_sw (enqueue (clock s') ?a ?h) st1, send_out (seal ?a ?h) s')"
      using makeseg_data [OF pre(1-3) st1(2) pre(4), of s'] makeseg_fin [OF pre(1,2), of s'] pre(3) m st1(1) by auto
    moreover have "alike (upd_sw (enqueue (clock s') ?a ?g) st1, send_out (seal ?a ?g) s')
        (upd_sw (enqueue (clock s') ?a ?h) st1, send_out (seal ?a ?h) s')"
      by (rule alike_enqueued [OF ok _ _ strip_bare alike_refl]) simp_all
    ultimately show ?thesis using f st1(1) by simp
  qed
  show ?thesis
  proof (cases "0 \<le> r")
    case True
    then obtain n where n: "r = int n" using zero_le_imp_eq_int by blast
    have k: "n \<le> MAX_SEG_DATA_SIZE" using n i(3) False read_size_bound(3) [of st] by linarith
    let ?f = "\<lambda>(st, s). rbind (st8 (send_buf st) 0 0) (\<lambda>buf. Inr (st\<lparr>send_buf := buf, send_buf_len := 0\<rparr>, s))"
    have "alike_results (?f t) (?f u)" if a: "alike t u" "send_buf (fst t) = buf" for t u
    proof -
      obtain st1 s1 su u1 where e: "t = (st1, s1)" "u = (su, u1)" by (metis prod.exhaust)
      have "send_buf su = buf" using a e by (auto simp: alike_def)
      then show ?thesis using alike_buffer [of st1 s1 su u1] a e len(2) by (simp add: st8_def wr_def)
    qed
    from step [OF refl k _ this, of SEND_DATA] show ?thesis
      using i(1) False n by (simp add: v2_read_def ctcp_read_def Let_def)
  next
    case neg: False
    have id: "rbind m Inr = m" for m :: "tcp res" by (cases m) simp_all
    from step [OF refl _ _ , of 0 SEND_FIN Inr] show ?thesis
      using i(1) False neg by (simp add: v2_read_def ctcp_read_def Let_def id)
  qed
qed

section \<open>Reachable states\<close>

lemma strip_sent: "strip g = strip h \<Longrightarrow> sent_ok g = sent_ok h"
proof -
  assume s: "strip g = strip h"
  have "seg_ok (strip g) = seg_ok g" "sg_cksum (strip g) = 0 \<longleftrightarrow> sg_cksum g = 0" for g
    by (simp_all add: strip_def seg_ok_def)
  then show ?thesis using s unfolding sent_ok_def by metis
qed

lemma strip_contiguous: "map strip gs = map strip hs \<Longrightarrow> contiguous a gs b = contiguous a hs b"
proof (induction gs hs arbitrary: a rule: list_induct2')
  case (4 g gs h hs)
  then show ?case using strip_window [of g h] by simp
qed auto

lemma strip_all_sent: "map strip gs = map strip hs \<Longrightarrow> (\<forall>g \<in> set gs. sent_ok g) = (\<forall>g \<in> set hs. sent_ok g)"
proof (induction gs hs rule: list_induct2')
  case (4 g gs h hs)
  then show ?case using strip_sent [of g h] by simp
qed auto

lemma alike_inv: "alike t u \<Longrightarrow> conn_inv t = conn_inv u"
proof -
  assume "alike t u"
  then obtain st s segs outs where e: "t = (st, s)" "u = (upd_sw (\<lambda>w. w\<lparr>sw_segments := segs\<rparr>) st, s\<lparr>segments_out := outs\<rparr>)"
      "map strip segs = map strip (sw_segments (st_sw st))"
    unfolding alike_def by (metis prod.exhaust_sel)
  show ?thesis
    unfolding e(1,2) conn_inv_def tcp_inv_def window_ok_def quiet_def stream_ok_def
    using strip_all_sent [OF e(3)] strip_in_flight [OF e(3)] strip_contiguous [OF e(3)] by simp
qed

text \<open>The early segments that the two versions would treat differently always find an empty receive window.\<close>

lemma v1_receive_data_ok:
  fixes st :: ctcp_state and s :: sys and g :: ctcp_segment
  assumes inv: "tcp_inv st" and ok: "seg_ok g" and data: "sg_data g \<noteq> []"
    and range: "0 \<le> rw_ackno (st_rw st)" "rw_ackno (st_rw st) + data_len g < 2 ^ 31"
  defines "len \<equiv> word_of_nat (length (seg_bytes g)) :: u64"
  shows "v1_receive_data (st, s) g len = v2_receive_data (st, s) g len"
proof -
  note D = tcp_invD [OF inv]
  let ?a = "word_of_int (rw_ackno (st_rw st)) :: u32"
  have "0 < data_len g" using data ok by (simp add: data_len_ok)
  then have adv: "\<not> ?a > word_of_int (rw_ackno (st_rw st) + data_len g)"
    using ackno_advances [OF range(1) _ range(2)] by (simp add: less_imp_le not_less)
  have "(ucast (ntohs (sg_len g)) :: u64) = word_of_nat (unat (ntohs (sg_len g)))" by simp
  then have width: "(ucast (ntohs (sg_len g)) :: u64) = len" using ok unfolding len_def seg_ok_def by simp
  have early: "v1_receive_future (st, s) g = Inl NullDeref" "inside_rw st g"
    using D(5) by (simp_all add: v1_receive_future_def inside_rw_def)
  have reply: "v2_makeseg (st, s) SEND_ACK = Inr (st, send_out (reply (lend st) s TH_ACK) s)"
    using v2_makeseg_reply(1) D(1,3) by simp
  have taken: "rbind (v2_receive_expected (st, s) g) (\<lambda>t.
      if ntohl (sg_seqno g) > word_of_int (rw_ackno (st_rw (fst t))) \<and> P t then f t else Inr t) = v2_receive_expected (st, s) g"
    if "ntohl (sg_seqno g) = ?a" for P :: "tcp \<Rightarrow> bool" and f
    using v2_receive_expected_ok [OF inv ok data that range] adv that
    by (auto simp: rbind_def advance_def split: sum.splits simp del: of_int_add)
  consider "ntohl (sg_seqno g) < ?a" | "ntohl (sg_seqno g) = ?a" "fits len st" | "ntohl (sg_seqno g) = ?a" "\<not> fits len st"
    | "ntohl (sg_seqno g) > ?a" by (meson linorder_cases)
  then show ?thesis
  proof cases
    case 1
    then have "ntohl (sg_seqno g) \<noteq> ?a" "\<not> ntohl (sg_seqno g) > ?a" by auto
    then show ?thesis
      using 1 v2_receive_data_ok [OF inv ok data range, of s len] reply by (simp add: v1_receive_data_def)
  next
    case 2
    then show ?thesis
      using taken [of "\<lambda>t. (ucast (ntohs (sg_len g)) - word_of_nat SEG_HEADER_SIZE :: u64) \<le>
          word_of_int (rw_max_size (st_rw (fst t)) - rw_size (st_rw (fst t))) \<and> inside_rw (fst t) g" "\<lambda>t. v1_receive_future t g"]
        v2_receive_data_ok [OF inv ok data range, of s len]
      by (simp add: v1_receive_data_def)
  next
    case 4
    then have n: "ntohl (sg_seqno g) \<noteq> ?a" "\<not> ntohl (sg_seqno g) < ?a" by auto
    then have "v1_receive_data (st, s) g len = (if fits len st then Inl NullDeref else Inr (st, s))"
      using early 4 by (simp add: v1_receive_data_def width fits_def)
    then show ?thesis using n v2_receive_data_ok [OF inv ok data range, of s len] by simp
  qed (use v2_receive_data_ok [OF inv ok data range, of s len] reply in \<open>simp_all add: v1_receive_data_def\<close>)
qed

lemma v1_control:
  "seg_ok g \<Longrightarrow> \<not> (verifies g \<and> sg_data g \<noteq> []) \<Longrightarrow>
    v1_receive t g (word_of_nat (length (seg_bytes g))) = v2_receive t g (word_of_nat (length (seg_bytes g)))"
  using no_payload_iff [of g] by (auto simp: v1_receive_def v2_receive_def checksum_ok Let_def)

lemma v1_is_v2:
  assumes inv: "conn_inv (st, s)" and g: "seg_ok g" "rw_ackno (st_rw st) + data_len g < 2 ^ 31"
  shows "v1_receive (st, s) g (word_of_nat (length (seg_bytes g))) = v2_receive (st, s) g (word_of_nat (length (seg_bytes g)))"
proof (cases "verifies g \<and> sg_data g \<noteq> []")
  case False
  then show ?thesis using v1_control [OF g(1)] by simp
next
  case True
  let ?st = "set_peer_window g st" and ?g = "g\<lparr>sg_cksum := 0\<rparr>" and ?n = "word_of_nat (length (seg_bytes g)) :: u64"
  have "conn_inv (?st, s)" using inv by simp
  then have t: "tcp_inv ?st" "0 \<le> rw_ackno (st_rw ?st)" by (auto simp: conn_inv_def stream_ok_def)
  have G: "seg_ok ?g" "sg_data ?g \<noteq> []" "rw_ackno (st_rw ?st) + data_len ?g < 2 ^ 31" using g True by simp_all
  have "v1_receive_data (?st, s) ?g ?n = v2_receive_data (?st, s) ?g ?n"
    using v1_receive_data_ok [OF t(1) G(1,2) t(2) G(3), of s] by simp
  then show ?thesis
    using True g(1) no_payload_iff [OF g(1)]
    by (simp add: v1_receive_def v2_receive_def checksum_ok Let_def v2_receive_fin_def is_fin_ack_def set_peer_window_def)
qed

inductive v2_step :: "tcp \<Rightarrow> tcp \<Rightarrow> bool" where
  read: "sw_seqno (st_sw st) < 2 ^ 31 - 1440 \<Longrightarrow> v2_read (st, s) = Inr t \<Longrightarrow> v2_step (st, s) t"
| receive: "seg_ok g \<Longrightarrow> rw_ackno (st_rw st) + data_len g < 2 ^ 31 \<Longrightarrow>
    v2_receive (st, s) g (word_of_nat (length (seg_bytes g))) = Inr t \<Longrightarrow> v2_step (st, s) t"
| timer: "timer_check (st, s) = Inr (False, t) \<Longrightarrow> v2_step (st, s) t"
| drain: "conn_drain (st_conn st) s = (outputted, c, s') \<Longrightarrow> v2_step (st, s) (st\<lparr>st_conn := c\<rparr>, s')"
| deliver: "ctcp_output (st, s) = Inr t \<Longrightarrow> v2_step (st, s) t"
| environment: "v2_step (st, s) (st, s')"

inductive v2_reachable :: "tcp \<Rightarrow> bool" where
  init: "ctcp_init s (Some c) cfg [] = Some [st] \<Longrightarrow> \<not> delete_me c \<Longrightarrow> v2_reachable (st, s)"
| step: "v2_reachable t \<Longrightarrow> v2_step t t' \<Longrightarrow> v2_reachable t'"

inductive v1_step :: "tcp \<Rightarrow> tcp \<Rightarrow> bool" where
  read: "sw_seqno (st_sw st) < 2 ^ 31 - 1440 \<Longrightarrow> v2_read (st, s) = Inr t \<Longrightarrow> v1_step (st, s) t"
| receive: "seg_ok g \<Longrightarrow> rw_ackno (st_rw st) + data_len g < 2 ^ 31 \<Longrightarrow>
    v1_receive (st, s) g (word_of_nat (length (seg_bytes g))) = Inr t \<Longrightarrow> v1_step (st, s) t"
| timer: "timer_check (st, s) = Inr (False, t) \<Longrightarrow> v1_step (st, s) t"
| drain: "conn_drain (st_conn st) s = (outputted, c, s') \<Longrightarrow> v1_step (st, s) (st\<lparr>st_conn := c\<rparr>, s')"
| deliver: "ctcp_output (st, s) = Inr t \<Longrightarrow> v1_step (st, s) t"
| environment: "v1_step (st, s) (st, s')"

inductive v1_reachable :: "tcp \<Rightarrow> bool" where
  init: "ctcp_init s (Some c) cfg [] = Some [st] \<Longrightarrow> \<not> delete_me c \<Longrightarrow> v1_reachable (st, s)"
| step: "v1_reachable t \<Longrightarrow> v1_step t t' \<Longrightarrow> v1_reachable t'"

lemma alike_results_inv:
  "alike_results (Inr t) r \<Longrightarrow> (\<And>u. r = Inr u \<Longrightarrow> conn_inv u) \<Longrightarrow> conn_inv t"
  using alike_inv by (cases r) auto

lemma v2_step_inv: "v2_step t t' \<Longrightarrow> conn_inv t \<Longrightarrow> conn_inv t'"
proof (induction rule: v2_step.induct)
  case (read st s t)
  have "conn_inv u" if "ctcp_read (st, s) = Inr u" for u
    using read_inv [OF read.prems read_defined [OF read.prems that] read.hyps(1)] that by auto
  then show ?case using alike_results_inv [of t] read_alike [OF read.prems] read.hyps(2) by metis
next
  case (receive g st s t)
  have "conn_inv u" if "ctcp_receive (st, s) g (word_of_nat (length (seg_bytes g))) = Inr u" for u
    using receive_inv [OF receive.prems receive.hyps(1,2)] that by auto
  then show ?case
    using alike_results_inv [of t] receive_alike [OF receive.prems receive.hyps(1,2)] receive.hyps(3) by metis
next
  case (timer st s t)
  then show ?case using timer_inv [of st s] by auto
next
  case (drain st s outputted c s')
  then show ?case using drain_inv by blast
next
  case (deliver st s t)
  then show ?case using output_quiet by auto
next
  case (environment st s s')
  then show ?case by (simp add: conn_inv_def)
qed

lemma v2_reachable_inv: "v2_reachable t \<Longrightarrow> conn_inv t"
  by (induction rule: v2_reachable.induct) (blast intro: v2_step_inv tcp_init_inv)+

text \<open>The two earlier versions reach the same states.\<close>

lemma v1_step_v2: "v1_step t t' \<Longrightarrow> conn_inv t \<Longrightarrow> v2_step t t'"
proof (induction rule: v1_step.induct)
  case (receive g st s t)
  then show ?case using v1_is_v2 [OF receive.prems receive.hyps(1,2)] by (intro v2_step.receive) simp_all
qed (auto intro: v2_step.intros)

lemma v1_reachable_v2: "v1_reachable t \<Longrightarrow> v2_reachable t"
  by (induction rule: v1_reachable.induct) (blast intro: v2_reachable.intros v1_step_v2 v2_reachable_inv)+

lemma early_versions_inv: "v2_reachable t \<or> v1_reachable t \<Longrightarrow> conn_inv t"
  using v2_reachable_inv v1_reachable_v2 by blast

text \<open>
  C33: the three versions of the sliding window do the same but for the window they advertise.  In every state that \<open>ctcp2.c\<close>
  can reach, \<open>ctcp1.c\<close> treats every segment as \<open>ctcp2.c\<close> does, although it searches the place of an early segment in another
  way: the receive window is empty between two events, so both fault on the null node.  And whatever is received or
  read, \<open>ctcp.c\<close> run from the same state faults when they fault, and otherwise ends in the same state, delivers the
  same bytes and transmits the same segments but for window and checksum fields.
\<close>

theorem versions_agree:
  assumes "v2_reachable (st, s)" "seg_ok g" "rw_ackno (st_rw st) + data_len g < 2 ^ 31"
  shows "v1_receive (st, s) g (word_of_nat (length (seg_bytes g))) = v2_receive (st, s) g (word_of_nat (length (seg_bytes g))) \<and>
    alike_results (v2_receive (st, s) g (word_of_nat (length (seg_bytes g))))
      (ctcp_receive (st, s) g (word_of_nat (length (seg_bytes g)))) \<and>
    alike_results (v2_read (st, s)) (ctcp_read (st, s))"
  using v1_is_v2 receive_alike read_alike v2_reachable_inv [OF assms(1)] assms(2,3) by blast

lemma v2_fresh_reachable: "v2_reachable (fresh_state, s)"
proof -
  have "v2_reachable (fresh_state, example_sys)"
    by (rule v2_reachable.init [where c = example_conn and cfg = example_config])
       (simp_all add: fresh_state_def ctcp_init_def example_conn_def)
  then show ?thesis by (rule v2_reachable.step [OF _ v2_step.environment])
qed

lemma versions_agree_witness:
  "alike_results (v1_receive (fresh_state, example_sys) example_data (word_of_nat (length (seg_bytes example_data))))
     (ctcp_receive (fresh_state, example_sys) example_data (word_of_nat (length (seg_bytes example_data)))) \<and>
   alike_results (v2_read (fresh_state, example_sys)) (ctcp_read (fresh_state, example_sys))"
  using versions_agree [OF v2_fresh_reachable, of example_data example_sys] by (simp add: example_sys_def)

section \<open>The window closes\<close>

lemma closed_window_stops:
  assumes inv: "conn_inv (su, u)" and ack: "ack_for a k" and win: "sg_window k = 0" and same: "faithful k k'"
  shows "\<exists>su'. v2_receive (su, u) k' (word_of_nat (length (seg_bytes k'))) = Inr (su', u) \<and>
    (\<forall>u'. v2_read (su', u') = Inr (su', u'))"
proof -
  have K: "seg_ok k'" "verifies k'" "sg_data k' = []" "sg_flags k' = TH_ACK" "sg_window k' = 0"
    using ack win faithfulD [OF same] same by (simp_all add: ack_for_def faithful_def)
  let ?st = "set_peer_window k' su" and ?k = "k'\<lparr>sg_cksum := 0\<rparr>"
  have "conn_inv (?st, u)" using inv by simp
  then have t: "tcp_inv ?st" by (simp add: conn_inv_def)
  have "unat (ntohs 0) = 0" by simp
  then have zero: "recv_win_size (st_sw ?st) = 0" using K(5) by (simp add: set_peer_window_def)
  have run: "v2_receive (su, u) k' (word_of_nat (length (seg_bytes k'))) = receive_ack (?st, u) ?k"
    using v2_receive_cases(2) [OF K(1,2,3), of su u] K(4)
    by (simp add: v2_receive_fin_def is_fin_ack_def TH_ACK_def TH_FIN_def Let_def)
  then obtain su' where s: "v2_receive (su, u) k' (word_of_nat (length (seg_bytes k'))) = Inr (su', u)"
      "recv_win_size (st_sw su') = 0"
    using receive_ack_ok [OF t, of u ?k] zero by (auto simp: restart_timer_def slide_def split: list.splits if_splits)
  have "read_size su' \<le> 0" using read_size_bound(2) [of su'] s(2) by simp
  then show ?thesis using s(1) by (intro exI [of _ su']) (simp add: v2_read_def Let_def)
qed

definition full_data :: ctcp_segment where
  \<comment> \<open>a valid segment of 1440 bytes at sequence number 1\<close>
  "full_data = seal 1 \<lparr>sg_ptr = 7, sg_seqno = htonl 1, sg_ackno = 0, sg_len = htons 1460,
     sg_pad = 0, sg_flags = TH_ACK, sg_window = htons 1440, sg_cksum = 0, sg_data = replicate 1440 97\<rparr>"

text \<open>
  C34: with a window of one segment the two earlier versions stall.  In every state that \<open>ctcp2.c\<close> or \<open>ctcp1.c\<close> can reach,
  a segment that fills the receive window is acknowledged by both while it still counts as occupying it, so the
  acknowledgement advertises a window of 0, although the data is delivered at once and the window is empty afterwards;
  and a sender of either version that takes the acknowledgement reads no more input (both have the same
  \<open>ctcp_read\<close>), at any later time, until some other segment arrives.
\<close>

theorem full_segment_closes_window:
  assumes "v2_reachable (st, s) \<or> v1_reachable (st, s)" "expected st g" "int (length (sg_data g)) = rw_max_size (st_rw st)"
    "can_write (st_conn st) (length (sg_data g))"
  shows "\<exists>st' s' k. v2_receive (st, s) g (word_of_nat (length (seg_bytes g))) = Inr (st', s') \<and>
    v1_receive (st, s) g (word_of_nat (length (seg_bytes g))) = Inr (st', s') \<and>
    (delivered (st_conn st') s' = delivered (st_conn st) s @ sg_data g \<or> wrote_err (st_conn st')) \<and>
    rw_segments (st_rw st') = [] \<and> segments_out s' = segments_out s @ [seg_bytes k] \<and>
    ack_for (rw_ackno (st_rw st')) k \<and> sg_window k = 0 \<and>
    (\<forall>su u k'. (v2_reachable (su, u) \<or> v1_reachable (su, u)) \<and> faithful k k' \<longrightarrow>
      (\<exists>su'. v2_receive (su, u) k' (word_of_nat (length (seg_bytes k'))) = Inr (su', u) \<and>
        v1_receive (su, u) k' (word_of_nat (length (seg_bytes k'))) = Inr (su', u) \<and>
        (\<forall>u'. v2_read (su', u') = Inr (su', u'))))"
proof -
  let ?st = "set_peer_window g st" and ?g = "g\<lparr>sg_cksum := 0\<rparr>" and ?n = "word_of_nat (length (seg_bytes g)) :: u64"
  have inv: "conn_inv (st, s)" using early_versions_inv [OF assms(1)] .
  then have c: "conn_inv (?st, s)" by simp
  have t: "tcp_inv ?st" "tcp_inv st" "0 \<le> rw_ackno (st_rw ?st)" using inv c by (auto simp: conn_inv_def stream_ok_def)
  have g: "seg_ok g" "verifies g" "sg_data g \<noteq> []" "ntohl (sg_seqno g) = word_of_int (rw_ackno (st_rw st))"
    "rw_ackno (st_rw st) + data_len g < 2 ^ 31" "data_len g = rw_max_size (st_rw st)" "rw_max_size (st_rw st) < 2 ^ 31"
    using assms(2,3) by (auto simp: expected_def data_len_ok)
  have G: "seg_ok ?g" "sg_data ?g \<noteq> []" "ntohl (sg_seqno ?g) = word_of_int (rw_ackno (st_rw ?st))"
    "rw_ackno (st_rw ?st) + data_len ?g < 2 ^ 31" using g by simp_all
  have fit: "fits ?n ?st" using fits_iff [OF t(2) g(1) _ g(7)] assms(3) by simp
  let ?k = "full_ack ?g ?st s" and ?m = "length (sg_data g)"
  have room: "\<not> delete_me (st_conn st)" "\<not> wrote_eof (st_conn st)" "\<not> wrote_err (st_conn st)" "0 < ?m" "?m \<le> conn_bufspace (st_conn st)"
    using tcp_invD(1) [OF t(2)] assms(4) g(3) by (simp_all add: can_write_def)
  obtain r c' s' where o: "conn_output (st_conn st) (send_out ?k s) (sg_data g) ?m = Inr (r, c', s')"
      "r = int ?m \<and> delivered c' s' = delivered (st_conn st) (send_out ?k s) @ take ?m (sg_data g) \<or>
       r = -1 \<and> wrote_err c' \<and> delivered c' s' = delivered (st_conn st) (send_out ?k s)"
    using conn_output_stream [OF room(1-4) order_refl room(5), of "send_out ?k s"] by auto
  let ?st' = "(advance ?g ?st)\<lparr>st_conn := c'\<rparr>"
  have run: "v2_receive (st, s) g ?n = Inr (?st', s')"
    using v2_receive_cases(1) [OF g(1,2,3), of st s] v2_receive_data_ok [OF t(1) G(1,2) t(3) G(4), of s ?n]
      v2_receive_expected_ok [OF t(1) G(1,2,3) t(3) G(4), of s] fit G(3) o(1) room(5) by (simp add: min_def)
  have k: "seg_ok ?k" "verifies ?k" using tcp_invD(3) [OF t(1)] by (simp_all add: full_ack_def reply_ok reply_verifies)
  have win: "sg_window ?k = 0" using g(6) by (simp add: full_ack_def reply_def lend_def upd_sw_def)
  have ack: "ack_for (rw_ackno (st_rw ?st')) ?k" using k by (simp add: ack_for_def advance_def)
  have "segments_out s' = segments_out s @ [seg_bytes ?k]" using conn_output_segments [OF o(1)] by simp
  moreover have "delivered c' s' = delivered (st_conn st) s @ sg_data g \<or> wrote_err c'" using o(2) by (auto simp: delivered_def)
  moreover have "rw_segments (st_rw ?st') = []" using tcp_invD(5) [OF t(1)] by (simp add: advance_def)
  moreover have "\<forall>su u k'. (v2_reachable (su, u) \<or> v1_reachable (su, u)) \<and> faithful ?k k' \<longrightarrow>
      (\<exists>su'. v2_receive (su, u) k' (word_of_nat (length (seg_bytes k'))) = Inr (su', u) \<and>
        v1_receive (su, u) k' (word_of_nat (length (seg_bytes k'))) = Inr (su', u) \<and>
        (\<forall>u'. v2_read (su', u') = Inr (su', u')))"
  proof (intro allI impI; elim conjE)
    fix su u k' assume s: "v2_reachable (su, u) \<or> v1_reachable (su, u)" and f: "faithful ?k k'"
    have "seg_ok k'" "sg_data k' = []" using faithfulD [OF f] k(1) by simp_all
    then have "v1_receive (su, u) k' (word_of_nat (length (seg_bytes k'))) = v2_receive (su, u) k' (word_of_nat (length (seg_bytes k')))"
      by (intro v1_control) simp_all
    then show "\<exists>su'. v2_receive (su, u) k' (word_of_nat (length (seg_bytes k'))) = Inr (su', u) \<and>
        v1_receive (su, u) k' (word_of_nat (length (seg_bytes k'))) = Inr (su', u) \<and>
        (\<forall>u'. v2_read (su', u') = Inr (su', u'))"
      using closed_window_stops [OF early_versions_inv [OF s] ack win f] by simp
  qed
  moreover have "v1_receive (st, s) g ?n = Inr (?st', s')" using run v1_is_v2 [OF inv g(1,5)] by simp
  ultimately show ?thesis using run ack win by (intro exI [of _ ?st'] exI [of _ s'] exI [of _ ?k]) simp
qed

lemma full_data_simps [simp]: "sg_data full_data = replicate 1440 97" "seg_ok full_data" "verifies full_data"
    "ntohl (sg_seqno full_data) = 1"
  by (simp_all add: full_data_def verifies_seal) (simp add: seg_ok_def)

lemma fresh_full_window:
  "expected fresh_state full_data" "can_write (st_conn fresh_state) (length (sg_data full_data))"
  "int (length (sg_data full_data)) = rw_max_size (st_rw fresh_state)"
  by (simp_all add: expected_def can_write_def example_conn_def conn_bufspace_def MAX_BUF_SPACE_def)

lemma full_segment_closes_window_witness:
  "\<exists>st' s' k. v2_receive (fresh_state, example_sys) full_data (word_of_nat (length (seg_bytes full_data))) = Inr (st', s') \<and>
     v1_receive (fresh_state, example_sys) full_data (word_of_nat (length (seg_bytes full_data))) = Inr (st', s') \<and>
     rw_segments (st_rw st') = [] \<and> segments_out s' = [seg_bytes k] \<and> sg_window k = 0 \<and>
     (\<exists>su'. v1_receive (fresh_state, example_sys) k (word_of_nat (length (seg_bytes k))) = Inr (su', example_sys) \<and>
        (\<forall>u'. v2_read (su', u') = Inr (su', u')))"
proof -
  have e: "segments_out example_sys = []" by (simp add: example_sys_def)
  have r: "v2_reachable (fresh_state, example_sys) \<or> v1_reachable (fresh_state, example_sys)"
    using v2_fresh_reachable by blast
  from full_segment_closes_window [OF r fresh_full_window(1,3,2)] obtain st' s' k where
    "v2_receive (fresh_state, example_sys) full_data (word_of_nat (length (seg_bytes full_data))) = Inr (st', s')"
    "v1_receive (fresh_state, example_sys) full_data (word_of_nat (length (seg_bytes full_data))) = Inr (st', s')"
    "rw_segments (st_rw st') = []" "segments_out s' = segments_out example_sys @ [seg_bytes k]" "sg_window k = 0"
    "\<exists>su'. v1_receive (fresh_state, example_sys) k (word_of_nat (length (seg_bytes k))) = Inr (su', example_sys) \<and>
        (\<forall>u'. v2_read (su', u') = Inr (su', u'))"
    using r faithful_refl by blast
  then show ?thesis using e by (intro exI [of _ st'] exI [of _ s'] exI [of _ k]) simp
qed

end
