(* ===== verification/Echo_Test.thy ===== *)
theory Echo_Test
  imports Conn Text
begin

text \<open>
  The test program \<open>test.c\<close>, which the server starts for a connection: it repeats on standard error what it reads.
\<close>

definition echo_round :: "sys \<Rightarrow> (byte list \<times> sys) res" where
  \<comment> \<open>one pass of the endless loop, and what it prints; \<open>%s\<close> reads up to a NUL, which the buffer need not hold\<close>
  "echo_round s =
     (case sys_read s 1000 of
        (Got d, s) \<Rightarrow>
          rbind (wr (replicate 1000 0) 0 d) (\<lambda>buf.
          if d = [] then Inr ([], s)
          else if 0 \<notin> set buf then Inl OutOfBounds
          else Inr (asc ''Got: '' @ c_string buf @ [10], s))
      | (_, s) \<Rightarrow> Inr ([], s))"

fun echo_rounds :: "nat \<Rightarrow> sys \<Rightarrow> (byte list \<times> sys) res" where
  \<comment> \<open>the first passes of the loop\<close>
  "echo_rounds 0 s = Inr ([], s)"
| "echo_rounds (Suc n) s =
     rbind (echo_round s) (\<lambda>(a, s). rbind (echo_rounds n s) (\<lambda>(b, s). Inr (a @ b, s)))"

lemma put_front: "length d \<le> n \<Longrightarrow> put (replicate n 0) 0 d = d @ replicate (n - length d) 0"
  by (intro nth_equalityI) (auto simp: put_def nth_append)

lemma echo_round_message:
  assumes "reads s = Got d # rs" "d \<noteq> []" "length d < 1000" "0 \<notin> set d"
  shows "echo_round s = Inr (asc ''Got: '' @ d @ [10], s\<lparr>reads := rs\<rparr>)"
proof -
  have "takeWhile (\<lambda>c. c \<noteq> 0) (d @ replicate (1000 - length d) 0) = d"
    using assms(3,4) by (subst takeWhile_append2) (auto simp: takeWhile_replicate)
  then show ?thesis
    using assms put_front [of d 1000] by (simp add: echo_round_def sys_read_def wr_def c_string_def)
qed

text \<open>Messages below 1000 bytes are printed one per line, in order, whatever follows them.\<close>

theorem echoes_messages:
  "\<forall>d \<in> set ds. d \<noteq> [] \<and> length d < 1000 \<and> 0 \<notin> set d \<Longrightarrow> reads s = map Got ds @ rs \<Longrightarrow>
    echo_rounds (length ds) s = Inr (concat (map (\<lambda>d. asc ''Got: '' @ d @ [10]) ds), s\<lparr>reads := rs\<rparr>)"
proof (induction ds arbitrary: s)
  case (Cons d ds)
  have "echo_round s = Inr (asc ''Got: '' @ d @ [10], s\<lparr>reads := map Got ds @ rs\<rparr>)"
    using Cons.prems by (intro echo_round_message) auto
  then show ?case using Cons.IH [of "s\<lparr>reads := map Got ds @ rs\<rparr>"] Cons.prems(1) by simp
qed simp

text \<open>A message that fills the buffer leaves no room for the NUL, and \<open>fprintf\<close> reads behind the buffer.\<close>

theorem long_message_overruns:
  assumes "reads s = Got d # rs" "1000 \<le> length d" "0 \<notin> set (take 1000 d)"
  shows "echo_round s = Inl OutOfBounds"
proof -
  let ?d = "take 1000 d"
  obtain s' where s: "sys_read s 1000 = (Got ?d, s')" using assms(1,2) by (cases "length d = 1000") (auto simp: sys_read_def)
  have "?d \<noteq> []" "length ?d = 1000" using assms(2) by auto
  then show ?thesis using s assms(3) put_front [of ?d 1000] by (simp add: echo_round_def wr_def)
qed

end
