(* ===== verification/Spec2Isabelle.thy ===== *)
theory Spec2Isabelle
  imports Linked_List Router_Runs Router_Console Segment_Log Mail_Client Ctcp_Close Early_Window
    Ctcp_Versions Echo_Test
begin

text \<open>
  This development models the C programs of the repository and proves what they do.

  \<^item> \<open>src/networks/router\<close> is an IP router for a virtual network.  It reads commands from the virtual network server
    (VNS) on a TCP connection, most of which carry Ethernet frames, answers ARP requests and ICMP echo requests,
    forwards IP datagrams by longest prefix match, sends ICMP errors, and resolves the next hop's hardware address by
    ARP, with a cache of 100 entries and a queue of packets that wait for an answer.
  \<^item> \<open>src/networks/tcp\<close> is cTCP, a reliable transport with a sliding window over raw IP or Unix sockets: \<open>ctcp.c\<close> is the
    protocol, \<open>ctcp_sys_internal.c\<close> the system below it (TCP handshake, conversion of segments to datagrams, a
    simulated unreliable network, buffered input and output, the main loop), \<open>ctcp_linked_list.c\<close> its list library.
  \<^item> \<open>proj1b.c\<close> in the same directory is a mail client, a program of its own.

  \<^bold>\<open>The machine.\<close> Integers have their C width (\<open>8\<close>, \<open>16\<close>, \<open>32\<close> and \<open>64 word\<close>) where the code uses unsigned
  types; an \<open>int\<close> is an \<open>int\<close> that is converted at its width where the code mixes it with unsigned values.  Packet
  memory is a list of bytes; loads and stores check bounds.  What C leaves undefined is a value: the type \<open>fault\<close> of
  theory \<open>Prelude\<close> has out-of-bounds accesses, null pointers, freed or dead memory, failed assertions and
  uninitialised reads, an operation returns \<open>Inl\<close> a fault or \<open>Inr\<close> its result, and \<open>rbind\<close> is sequencing.  Fresh memory
  has arbitrary contents, allocation succeeds.  The host is little endian, as in the code's byte-order conversions.

  \<^bold>\<open>Theories and code.\<close>

  \<^item> \<open>Prelude\<close>, \<open>Access\<close>: bytes, words, byte order, buffers, symbolic execution of loads and stores.  \<open>Text\<close>: C strings,
    numbers and addresses as \<open>printf\<close> writes and \<open>atoi\<close> and \<open>strsep\<close> read them.
  \<^item> \<open>Checksum\<close>: \<open>cksum\<close> of \<open>router/sr_utils.c\<close> and \<open>tcp/ctcp_utils.c\<close>; equal to the one's complement sum of the 16-bit
    words, zero written as \<open>0xffff\<close>; a buffer with its checksum verifies, and does not after any one bit is flipped.
  \<^item> \<open>Packet\<close>, \<open>Router_State\<close>: the headers of \<open>sr_protocol.h\<close>; \<open>struct sr_instance\<close> and the interface list of \<open>sr_if.c\<close>.
  \<^item> \<open>Routing\<close>: \<open>sr_rt.c\<close> with \<open>inet_aton\<close> as a parameter, \<open>sr_verify_routing_table\<close>, \<open>longestprefixmatch\<close>: the result
    is the first of the matching entries with the largest mask.
  \<^item> \<open>Arp_Cache\<close>: the table and the queue of \<open>sr_arpcache.c\<close>, with their interfaces as the locales \<open>address_table\<close> and
    \<open>packet_queue\<close>, interpreted on the model: learning, expiry, waiting packets.
  \<^item> \<open>Vns_Send\<close>, \<open>Vns_Comm\<close>, \<open>Vns_Session\<close>: \<open>sr_vns_comm.c\<close>, \<open>sr_dumper.c\<close>, \<open>vnscommand.h\<close> and the start-up of \<open>sr_main.c\<close>:
    sending frames, reading and dispatching commands, authentication, opening a session; framing is independent of how
    the bytes arrive, the authentication reply and the interface list are the specified ones, malformed input.
  \<^item> \<open>Sha1\<close>: \<open>sha1.c\<close>, equal to the hash of the standard for every message below \<open>2 ^ 64\<close> bits; what its client relies on is
    the locale \<open>incremental_hash\<close>.
  \<^item> \<open>Router\<close>: \<open>sr_handlepacket\<close> and everything it calls in \<open>sr_router.c\<close> and \<open>sr_arpcache.c\<close>, and the sweep that the
    timeout thread runs once a second.  \<open>Router_Safety\<close>: what each of them keeps (tables, at most one request per address,
    at most five tries, every frame sent has the source address of its interface).  \<open>Router_Icmp\<close>, \<open>Router_Properties\<close>, \<open>Router_Arp\<close>: the exact packets sent in answer to echo
    requests, datagrams to forward, expired or unreachable ones, ARP requests and replies, and unanswered requests.
    \<open>Router_Session\<close>: the main loop and the packet handler together, over a whole session.  \<open>Router_Runs\<close>: a step relation
    whose steps are the commands of the server, of any kind, and the rounds of the timeout thread, each one atomic; what
    holds in its reachable states and what a step sends.
  \<^item> \<open>Router_Console\<close>: the printing functions of \<open>sr_utils.c\<close>, \<open>sr_if.c\<close>, \<open>sr_rt.c\<close> and \<open>sr_arpcache.c\<close> as functions to text, and
    the options of \<open>sr_main.c\<close>: a printed routing table loads as the same table.
  \<^item> \<open>Linked_List\<close>: \<open>ctcp_linked_list.c\<close> over an explicit store of nodes, refined to lists; its client's view is the locale
    \<open>segment_queue\<close>.  The protocol model uses lists in its place.
  \<^item> \<open>Conn\<close>: \<open>conn_input\<close>, \<open>conn_send\<close>, \<open>conn_output\<close>, \<open>conn_bufspace\<close>, \<open>conn_drain\<close>, \<open>conn_remove\<close>; \<open>read\<close> and \<open>write\<close>
    answer through scripts.
  \<^item> \<open>Ctcp\<close>: \<open>ctcp.c\<close>, the state of a connection and its entry points.  \<open>Ctcp_Segments\<close>, \<open>Ctcp_Window\<close>,
    \<open>Ctcp_Invariant\<close>: the sliding window in every reachable state (events as an inductive step relation);
    \<open>Ctcp_Properties\<close>: delivery, acknowledgement, retransmission, and which events end the process; all modes of reading
    are among the events, the conversion of line endings too.  \<open>Ctcp_Timer\<close>: the five retransmissions and the end of the
    connection, which connection of several is destroyed, and the exchange of FIN segments.  \<open>Ctcp_Stream\<close>: two hosts over a
    lossy network, whose steps are an inductive relation: what is delivered is in order among the acknowledged bytes of
    what the other has read, and a prefix of it when the output queue always has room (a flag of the relation).
    \<open>Ctcp_Close\<close>: what two hosts transmit becomes well-formed datagrams, and
    the four segments, translated to datagrams and back, with which both ends leave a connection.
  \<^item> \<open>Ctcp_Versions\<close>: \<open>ctcp1.c\<close> and \<open>ctcp2.c\<close>, where they differ from \<open>ctcp.c\<close>: they do the same but for the window they
    advertise, and with a window of one segment that one closes for good.  \<open>Early_Window\<close>: \<open>cpctcp.c\<close>, the first version
    with a window, whose acknowledgements are rejected.  \<open>Stop_Wait\<close>: \<open>oldctcp.c\<close>, with one segment outstanding at a time.
  \<^item> \<open>Ctcp_Wire\<close>, \<open>Ctcp_Network\<close>: datagrams, the conversion in both directions, the receive filter, and the drop,
    duplication, delay and corruption in \<open>conn_send\<close>; \<open>rand\<close> is a stream of arbitrary numbers below \<open>2 ^ 31\<close>.
  \<^item> \<open>Conn_Table\<close>: the list of connections with its \<open>next\<close> and \<open>prev\<close> pointers (\<open>conn_add\<close>, \<open>conn_free\<close>,
    \<open>delete_all_connections\<close>).
  \<^item> \<open>Ctcp_Host\<close>: \<open>conn_setup\<close>, the handshake of client and server, the programs a server starts, \<open>do_loop\<close>; \<open>Ctcp_Server\<close>: its
    invariant as long as the execution is defined, with the locale \<open>connection_operation\<close> for the operations it applies to
    connections, and the fault in the round that gives a connection up.
  \<^item> \<open>Ctcp_Main\<close>: from the command line to the main loop (\<open>main\<close>, \<open>do_config\<close>, the host's own address, the reset of leftover
    peers, which reaches them on a raw socket only, start-up of client and server).  \<open>Segment_Log\<close>: the log of segments and the other printing functions of cTCP.
  \<^item> \<open>Mail_Client\<close>: \<open>proj1b.c\<close>, its dialogue with the server and the user: the mail it sends, where it hangs, and how a
    long answer of the server puts it out of step.  \<open>Echo_Test\<close>: \<open>test.c\<close>, a program for the server to start.

  \<^bold>\<open>Loops.\<close> Structural and measured recursion where the code's loops end.  Some loops need not end and are partial
  functions into \<open>option\<close>, \<open>None\<close> meaning that they do not: reading from the server, the main loop of the router,
  the walk over the connections and the text of a mail; where a property says that they return, it states the value.  The
  endless loop of \<open>test.c\<close> is any number of its passes.  There is no fuel.

  \<^bold>\<open>Not modelled.\<close>
  \<^item> Where the other operations call the printing functions and the segment log, \<open>usage\<close>, and the messages to the terminal.
  \<^item> The calls into the operating system behind sockets, name resolution, \<open>getopt\<close> and \<open>fork\<close>: their results are arguments
    of the model or scripts in its state; a program that a server starts is what it writes; memory that is only freed.
  \<^item> Interleavings of the router's two threads inside one operation: the model takes each command and each round of the
    timeout as atomic.  The code does not make them so: it holds the mutex of the cache around the operations of
    \<open>sr_arpcache.c\<close> and around the sweep, but not around the handling of a packet, and \<open>sr_arpcacheinsert\<close> of \<open>sr_router.c\<close>
    writes the cache without it.
  \<^item> The bytes behind a received command: an interface name that runs to the end of the buffer ends there in the model.
  \<^item> In the earlier versions of \<open>ctcp.c\<close>, which the build does not use: fields that are only set, and several connections at a
    time (their timers look at the first of the list).  The functions of \<open>ctcp1.c\<close> and \<open>ctcp2.c\<close> with the text of \<open>ctcp.c\<close>
    are its definitions.
  \<^item> The Python tester.  What remains of the C files is declarations, comments and the calls named above.
\<close>

end
